(* ===== verification/FB_Prelude.thy ===== *)
theory FB_Prelude
  imports Main "HOL-Library.Word" "HOL-Library.Signed_Division"
begin

unbundle bit_operations_syntax

text \<open>
  Shared vocabulary of the development: the engine's integer types as words of their width,
  the result type of the operations that can stop with a bug check, and the facts on lists,
  words and options that the component theories use.
\<close>

section \<open>Integer types of \<open>fb_types.h\<close>\<close>

type_synonym UCHAR = "8 word"
type_synonym USHORT = "16 word"
type_synonym ULONG = "32 word"
type_synonym SINT64 = "64 word"
type_synonym FB_UINT64 = "64 word"
type_synonym SLONG = "32 word"

section \<open>Collections of simplification facts\<close>

named_theorems fb_simps \<open>equations that evaluate the operations of a component\<close>
named_theorems fb_inv \<open>preservation facts of the component invariants\<close>

section \<open>Words\<close>

lemma sint_of_nonneg:
  fixes w :: "'a::len word"
  assumes "0 \<le> sint w"
  shows "sint w = uint w"
proof -
  have "sint w < 2 ^ LENGTH('a)"
    using sint_lt [of w] by (rule less_le_trans) simp
  with assms show ?thesis by (simp add: uint_sint take_bit_int_eq_self)
qed

lemma sint_word_of_int_inverse:
  fixes k :: int
  assumes "- (2 ^ (LENGTH('a) - 1)) \<le> k" and "k < 2 ^ (LENGTH('a) - 1)"
  shows "sint (word_of_int k :: 'a::len word) = k"
  using assms by (simp add: sint_sbintrunc' signed_take_bit_int_eq_self)

lemma sint_of_nat_inverse:
  assumes "n < 2 ^ (LENGTH('a) - 1)"
  shows "sint (of_nat n :: 'a::len word) = int n"
proof -
  have "int n < 2 ^ (LENGTH('a) - 1)" using assms by (metis of_nat_less_iff of_nat_numeral of_nat_power)
  then have "sint (word_of_int (int n) :: 'a word) = int n"
    by (intro sint_word_of_int_inverse) (auto intro: order_trans [of _ 0])
  then show ?thesis by simp
qed

lemma unat_UCHAR_less [simp]: "unat (w :: UCHAR) < 256"
  using unsigned_less [where ?'a = nat, of w] by simp

lemma unat_USHORT_less [simp]: "unat (w :: USHORT) < 65536"
  using unsigned_less [where ?'a = nat, of w] by simp

lemma unat_ULONG_less [simp]: "unat (w :: ULONG) < 4294967296"
  using unsigned_less [where ?'a = nat, of w] by simp

lemma take_bit_word_id:
  fixes w :: "'a::len word"
  shows "unat w < 2 ^ n \<Longrightarrow> take_bit n w = w"
  by (simp add: word_unat_eq_iff unsigned_take_bit_eq take_bit_nat_eq_self)

lemma sdiv_of_nat: "int a sdiv int b = int (a div b)"
  by (simp add: signed_divide_int_def sgn_if zdiv_int)

lemma smod_of_nat: "int a smod int b = int (a mod b)"
  by (simp add: smod_mod_positive zmod_int)

lemma unat_ucast_up [simp]: "unat (ucast (w :: USHORT) :: ULONG) = unat w"
  using less_trans [OF unat_USHORT_less [of w], of 4294967296]
  by (simp add: unsigned_ucast_eq take_bit_nat_eq_self_iff)

lemma unat_ucast_down:
  "unat (w :: ULONG) < 65536 \<Longrightarrow> unat (ucast w :: USHORT) = unat w"
  by (simp add: unsigned_ucast_eq take_bit_nat_eq_self_iff)

section \<open>Sizes\<close>

text \<open>Addition and subtraction of \<^verbatim>\<open>FB_SIZE_T\<close>, an unsigned 32-bit type.\<close>

definition size_add :: "nat \<Rightarrow> nat \<Rightarrow> nat" where
  "size_add a b = (a + b) mod 2 ^ 32"

definition size_sub :: "nat \<Rightarrow> nat \<Rightarrow> nat" where
  "size_sub a b = nat ((int a - int b) mod 2 ^ 32)"

lemma size_sub_le: "b \<le> a \<Longrightarrow> a < 2 ^ 32 \<Longrightarrow> size_sub a b = a - b"
  by (simp add: size_sub_def mod_pos_pos_trivial nat_diff_distrib)

section \<open>Sums\<close>

lemma map_sum_Inr_D: "map_sum id f r = Inr y \<Longrightarrow> \<exists>x. r = Inr x \<and> y = f x"
  by (cases r) auto

lemma map_sum_Inl_D: "map_sum id f r = Inl e \<Longrightarrow> r = Inl e"
  by (cases r) auto

end
