(* ===== verification/FB_RecordNumber.thy ===== *)
theory FB_RecordNumber
  imports FB_Prelude
begin

text \<open>
  Record numbers and blob ids (\<^verbatim>\<open>src/jrd/RecordNumber.h\<close>): the 64-bit record number, its
  decomposition into line, slot and pointer page sequence, the packed 40-bit layout shared by
  \<^verbatim>\<open>RDB$DB_KEY\<close> and blob ids, and the blob id with its two states.
  The layout is the little-endian one (the \<^verbatim>\<open>#else\<close> branch of \<^verbatim>\<open>WORDS_BIGENDIAN\<close>).
\<close>

unbundle bit_operations_syntax

section \<open>Packed record numbers\<close>

record packed =
  bid_relation_id :: USHORT
  bid_reserved_for_relation :: UCHAR
  bid_number_up :: UCHAR
  bid_number :: ULONG

definition packed_bid_temp_id :: "packed \<Rightarrow> ULONG" where
  "packed_bid_temp_id p = bid_number p"

definition packed_bid_encode :: "packed \<Rightarrow> SINT64 \<Rightarrow> packed" where
  "packed_bid_encode p v =
     p\<lparr>bid_number := ucast v, bid_number_up := ucast (signed_drop_bit 32 v)\<rparr>"

definition packed_bid_decode :: "packed \<Rightarrow> SINT64" where
  "packed_bid_decode p = ucast (bid_number p) + push_bit 32 (ucast (bid_number_up p))"

section \<open>Record numbers\<close>

text \<open>The signed 64-bit field is a word read with \<open>sint\<close>; \<open>++\<close> and \<open>--\<close> wrap.\<close>

record RecordNumber =
  rn_value :: SINT64
  rn_valid :: bool

definition BOF_NUMBER :: SINT64 where
  "BOF_NUMBER = -1"

definition RecordNumber_default :: RecordNumber where
  "RecordNumber_default = \<lparr>rn_value = 0, rn_valid = False\<rparr>"

definition RecordNumber_of :: "SINT64 \<Rightarrow> RecordNumber" where
  "RecordNumber_of number = \<lparr>rn_value = number, rn_valid = True\<rparr>"

definition rn_assign :: "RecordNumber \<Rightarrow> RecordNumber \<Rightarrow> RecordNumber" where
  "rn_assign this from = this\<lparr>rn_value := rn_value from, rn_valid := rn_valid from\<rparr>"

definition rn_eq :: "RecordNumber \<Rightarrow> RecordNumber \<Rightarrow> bool" where
  "rn_eq a b \<longleftrightarrow> rn_value a = rn_value b"

definition rn_ne :: "RecordNumber \<Rightarrow> RecordNumber \<Rightarrow> bool" where
  "rn_ne a b \<longleftrightarrow> rn_value a \<noteq> rn_value b"

definition rn_gt :: "RecordNumber \<Rightarrow> RecordNumber \<Rightarrow> bool" where
  "rn_gt a b \<longleftrightarrow> rn_value b <s rn_value a"

definition rn_lt :: "RecordNumber \<Rightarrow> RecordNumber \<Rightarrow> bool" where
  "rn_lt a b \<longleftrightarrow> rn_value a <s rn_value b"

definition rn_ge :: "RecordNumber \<Rightarrow> RecordNumber \<Rightarrow> bool" where
  "rn_ge a b \<longleftrightarrow> rn_value b \<le>s rn_value a"

definition rn_le :: "RecordNumber \<Rightarrow> RecordNumber \<Rightarrow> bool" where
  "rn_le a b \<longleftrightarrow> rn_value a \<le>s rn_value b"

definition rn_decrement :: "RecordNumber \<Rightarrow> RecordNumber" where
  "rn_decrement r = r\<lparr>rn_value := rn_value r - 1\<rparr>"

definition rn_increment :: "RecordNumber \<Rightarrow> RecordNumber" where
  "rn_increment r = r\<lparr>rn_value := rn_value r + 1\<rparr>"

definition rn_setValue :: "RecordNumber \<Rightarrow> SINT64 \<Rightarrow> RecordNumber" where
  "rn_setValue r v = r\<lparr>rn_value := v\<rparr>"

definition rn_isBof :: "RecordNumber \<Rightarrow> bool" where
  "rn_isBof r \<longleftrightarrow> rn_value r = BOF_NUMBER"

definition rn_setValid :: "RecordNumber \<Rightarrow> bool \<Rightarrow> RecordNumber" where
  "rn_setValid r b = r\<lparr>rn_valid := b\<rparr>"

text \<open>
  \<open>decompose\<close> divides by its two arguments, so a zero argument is a trap (\<open>None\<close>).
  \<open>value % records_per_page\<close> and \<open>value / records_per_page\<close> are signed 64-bit operations that
  truncate towards zero; \<open>sequence\<close> keeps the low 32 bits of the quotient.
\<close>

definition rn_decompose :: "RecordNumber \<Rightarrow> USHORT \<Rightarrow> USHORT \<Rightarrow> (USHORT \<times> USHORT \<times> ULONG) option" where
  "rn_decompose r records_per_page data_pages_per_pointer_page =
     (if records_per_page = 0 \<or> data_pages_per_pointer_page = 0 then None
      else
        let line = (word_of_int (sint (rn_value r) smod uint records_per_page) :: USHORT);
            sequence = (word_of_int (sint (rn_value r) sdiv uint records_per_page) :: ULONG);
            slot = (ucast (sequence mod ucast data_pages_per_pointer_page) :: USHORT);
            pp_sequence = sequence div ucast data_pages_per_pointer_page
        in Some (line, slot, pp_sequence))"

definition rn_compose ::
  "RecordNumber \<Rightarrow> USHORT \<Rightarrow> USHORT \<Rightarrow> USHORT \<Rightarrow> USHORT \<Rightarrow> ULONG \<Rightarrow> RecordNumber" where
  "rn_compose r records_per_page data_pages_per_pointer_page line slot pp_sequence =
     r\<lparr>rn_value := (ucast pp_sequence * ucast data_pages_per_pointer_page + ucast slot)
                    * ucast records_per_page + ucast line\<rparr>"

definition rn_bid_encode :: "RecordNumber \<Rightarrow> packed \<Rightarrow> packed" where
  "rn_bid_encode r recno = packed_bid_encode recno (rn_value r)"

definition rn_bid_decode :: "RecordNumber \<Rightarrow> packed \<Rightarrow> RecordNumber" where
  "rn_bid_decode r recno = r\<lparr>rn_value := packed_bid_decode recno\<rparr>"

section \<open>Blob ids\<close>

text \<open>
  \<open>bid\<close> is the union of the packed layout with two longwords. The packed view is the state;
  the longword view reads the same eight bytes.
\<close>

type_synonym bid = packed

definition bid_quad_high :: "bid \<Rightarrow> ULONG" where
  "bid_quad_high b = (ucast (bid_relation_id b) OR push_bit 16 (ucast (bid_reserved_for_relation b)))
     OR push_bit 24 (ucast (bid_number_up b))"

definition bid_quad_low :: "bid \<Rightarrow> ULONG" where
  "bid_quad_low b = bid_number b"

definition bid_temp_id :: "bid \<Rightarrow> ULONG" where
  "bid_temp_id b = packed_bid_temp_id b"

definition bid_isEmpty :: "bid \<Rightarrow> bool" where
  "bid_isEmpty b \<longleftrightarrow> bid_quad_high b = 0 \<and> bid_quad_low b = 0"

definition bid_clear :: "bid \<Rightarrow> bid" where
  "bid_clear b = \<lparr>bid_relation_id = 0, bid_reserved_for_relation = 0, bid_number_up = 0, bid_number = 0\<rparr>"

definition bid_set_temporary :: "bid \<Rightarrow> ULONG \<Rightarrow> bid" where
  "bid_set_temporary b temp_id = (bid_clear b)\<lparr>bid_number := temp_id\<rparr>"

definition bid_set_permanent :: "bid \<Rightarrow> USHORT \<Rightarrow> RecordNumber \<Rightarrow> bid" where
  "bid_set_permanent b relation_id num =
     rn_bid_encode num ((bid_clear b)\<lparr>bid_relation_id := relation_id\<rparr>)"

definition bid_get_permanent_number :: "bid \<Rightarrow> RecordNumber" where
  "bid_get_permanent_number b = rn_bid_decode RecordNumber_default b"

definition bid_eq :: "bid \<Rightarrow> bid \<Rightarrow> bool" where
  "bid_eq a b \<longleftrightarrow> bid_quad_high a = bid_quad_high b \<and> bid_quad_low a = bid_quad_low b"

lemmas rn_defs [fb_simps] =
  packed_bid_temp_id_def packed_bid_encode_def packed_bid_decode_def
  BOF_NUMBER_def RecordNumber_default_def RecordNumber_of_def
  rn_bid_encode_def rn_bid_decode_def bid_clear_def bid_set_temporary_def bid_set_permanent_def
  bid_get_permanent_number_def bid_temp_id_def bid_quad_low_def

section \<open>Facts on the packed layout\<close>

text \<open>Bytes 0-3 of the id determine their three fields.\<close>

lemma bid_quad_high_bits:
  "n < 16 \<Longrightarrow> bit (bid_quad_high b) n = bit (bid_relation_id b) n"
  "n < 8 \<Longrightarrow> bit (bid_quad_high b) (n + 16) = bit (bid_reserved_for_relation b) n"
  "n < 8 \<Longrightarrow> bit (bid_quad_high b) (n + 24) = bit (bid_number_up b) n"
  by (auto simp: bid_quad_high_def bit_or_iff bit_push_bit_iff bit_ucast_iff
      dest: bit_imp_le_length)

lemma bid_quad_high_inject:
  "bid_quad_high a = bid_quad_high b \<longleftrightarrow>
     bid_relation_id a = bid_relation_id b \<and>
     bid_reserved_for_relation a = bid_reserved_for_relation b \<and>
     bid_number_up a = bid_number_up b"
proof
  assume eq: "bid_quad_high a = bid_quad_high b"
  show "bid_relation_id a = bid_relation_id b \<and>
     bid_reserved_for_relation a = bid_reserved_for_relation b \<and>
     bid_number_up a = bid_number_up b"
    using bid_quad_high_bits [of _ a] bid_quad_high_bits [of _ b] eq
    by (auto intro!: bit_word_eqI)
qed (simp add: bid_quad_high_def)

lemma bid_eq_iff: "bid_eq a b \<longleftrightarrow> a = b"
  by (auto simp: bid_eq_def bid_quad_high_inject bid_quad_low_def)

lemma bid_isEmpty_iff: "bid_isEmpty b \<longleftrightarrow> b = bid_clear b"
proof -
  have "bid_isEmpty b \<longleftrightarrow> bid_eq b (bid_clear b)"
    by (simp add: bid_isEmpty_def bid_eq_def bid_quad_low_def bid_quad_high_def bid_clear_def)
  then show ?thesis by (simp add: bid_eq_iff)
qed

lemma packed_bid_decode_encode:
  "packed_bid_decode (packed_bid_encode p v) = take_bit 40 v"
proof -
  have "packed_bid_decode (packed_bid_encode p v) =
      ucast (ucast v :: ULONG) OR push_bit 32 (ucast (ucast (signed_drop_bit 32 v) :: UCHAR))"
    unfolding packed_bid_decode_def packed_bid_encode_def
    by (simp, rule disjunctive_add_eq_or)
       (auto intro!: bit_word_eqI simp: bit_and_iff bit_push_bit_iff bit_ucast_iff)
  then show ?thesis
    by (auto intro!: bit_word_eqI simp: bit_or_iff bit_push_bit_iff bit_ucast_iff
        bit_take_bit_iff bit_signed_drop_bit_iff)
qed

section \<open>Facts on decomposition\<close>

lemma rn_compose_value:
  "rn_value (rn_compose r rpp dpp line slot pp) =
     of_nat ((unat pp * unat dpp + unat slot) * unat rpp + unat line)"
  by (simp add: rn_compose_def)

lemma rn_compose_bound:
  assumes "unat pp * unat dpp + unat slot < 2 ^ 32"
  shows "(unat pp * unat dpp + unat slot) * unat (rpp :: USHORT) + unat (line :: USHORT) < 2 ^ 63"
proof -
  have "(unat pp * unat dpp + unat slot) * unat rpp \<le> 2 ^ 32 * 2 ^ 16"
    using assms less_imp_le [OF unat_USHORT_less [of rpp]] by (intro mult_mono) auto
  then have "(unat pp * unat dpp + unat slot) * unat rpp + unat line < 2 ^ 32 * 2 ^ 16 + 65536"
    by (rule add_le_less_mono) simp
  also have "\<dots> \<le> 2 ^ 63" by simp
  finally show ?thesis .
qed

lemma nat_split_mult:
  fixes q r m :: nat
  assumes "r < m"
  shows "(q * m + r) div m = q" and "(q * m + r) mod m = r"
  using assms by auto

lemma rn_compose_sint:
  assumes "unat pp * unat dpp + unat slot < 2 ^ 32"
  shows "sint (rn_value (rn_compose r rpp dpp line slot pp)) =
     int ((unat pp * unat dpp + unat slot) * unat rpp + unat line)"
  unfolding rn_compose_value
  using rn_compose_bound [OF assms] by (intro sint_of_nat_inverse) simp

lemma rn_decompose_nat:
  assumes v: "sint (rn_value r) = int v" and nz: "rpp \<noteq> 0" "dpp \<noteq> 0"
    and q: "v div unat rpp < 2 ^ 32"
  shows "rn_decompose r rpp dpp =
    Some (of_nat (v mod unat rpp), of_nat (v div unat rpp mod unat dpp), of_nat (v div unat rpp div unat dpp))"
proof -
  define sq where "sq = v div unat rpp"
  have uq: "unat (of_nat sq :: ULONG) = sq"
    using q by (simp add: unat_of_nat sq_def [symmetric])
  have dv: "sint (rn_value r) sdiv uint rpp = int sq"
    unfolding v uint_nat sdiv_of_nat sq_def by (rule refl)
  have md: "sint (rn_value r) smod uint rpp = int (v mod unat rpp)"
    unfolding v uint_nat smod_of_nat by (rule refl)
  have "ucast ((of_nat sq :: ULONG) mod ucast dpp) = (of_nat (sq mod unat dpp) :: USHORT)"
    by (metis of_nat_unat unat_mod uq unat_ucast_up)
  moreover have "(of_nat sq :: ULONG) div ucast dpp = of_nat (sq div unat dpp)"
  proof -
    have "sq div unat dpp < 2 ^ 32" using q le_less_trans [OF div_le_dividend] unfolding sq_def by blast
    then have "unat (of_nat (sq div unat dpp) :: ULONG) = sq div unat dpp" by (simp add: unat_of_nat)
    moreover have "unat ((of_nat sq :: ULONG) div ucast dpp) = sq div unat dpp"
      by (simp only: unat_div uq) (simp add: unat_ucast_up)
    ultimately show ?thesis by (simp only: word_unat_eq_iff)
  qed
  ultimately show ?thesis
    unfolding rn_decompose_def dv md Let_def sq_def [symmetric] using nz by simp
qed

section \<open>Properties\<close>

text \<open>
  C38. Splitting a record number into its line on the data page, the slot of the data page on
  the pointer page and the pointer page sequence inverts composing it from them, for every
  line and slot in range, as long as the data page sequence fits in 32 bits; no
  64-bit overflow happens on the way.
\<close>

theorem rn_decompose_compose:
  assumes "line < rpp" and "slot < dpp" and "unat pp * unat dpp + unat slot < 2 ^ 32"
  shows "rn_decompose (rn_compose r rpp dpp line slot pp) rpp dpp = Some (line, slot, pp)"
proof -
  have nz: "rpp \<noteq> 0" "dpp \<noteq> 0" using assms(1,2) by auto
  have lt: "unat line < unat rpp" "unat slot < unat dpp"
    using assms(1,2) by (simp_all add: word_less_nat_alt)
  note split = nat_split_mult [OF lt(1), of "unat pp * unat dpp + unat slot"]
    nat_split_mult [OF lt(2), of "unat pp"]
  have "rn_decompose (rn_compose r rpp dpp line slot pp) rpp dpp =
      Some (of_nat (unat line), of_nat (unat slot), of_nat (unat pp))"
    by (subst rn_decompose_nat [OF rn_compose_sint [OF assms(3)] nz])
       (simp_all only: split assms(3))
  then show ?thesis by simp
qed

theorem rn_decompose_compose_witness:
  "rn_decompose (rn_compose RecordNumber_default 400 2000 7 1999 3) 400 2000 = Some (7, 1999, 3)"
  by (rule rn_decompose_compose) simp_all

lemma rn_decompose_zero:
  "rn_decompose r 0 dpp = None" "rn_decompose r rpp 0 = None"
  by (simp_all add: rn_decompose_def)

lemma rn_compose_decompose:
  assumes nn: "0 \<le> sint (rn_value r)" and q: "unat (rn_value r) div unat rpp < 2 ^ 32"
    and d: "rn_decompose r rpp dpp = Some (line, slot, pp)"
  shows "rn_compose r rpp dpp line slot pp = r"
proof -
  define v where "v = unat (rn_value r)"
  have nz: "rpp \<noteq> 0" "dpp \<noteq> 0" using d by (auto simp: rn_decompose_def split: if_splits)
  have sv: "sint (rn_value r) = int v"
    unfolding sint_of_nonneg [OF nn] v_def by simp
  have l: "line = of_nat (v mod unat rpp)" and s: "slot = of_nat (v div unat rpp mod unat dpp)"
    and p: "pp = of_nat (v div unat rpp div unat dpp)"
    using d unfolding rn_decompose_nat [OF sv nz q [folded v_def]] by simp_all
  have "v mod unat rpp < 65536" "v div unat rpp mod unat dpp < 65536"
    using nz by (meson less_trans mod_less_divisor unat_USHORT_less unat_gt_0)+
  moreover have "v div unat rpp div unat dpp < 4294967296"
    using q by (simp add: v_def [symmetric]) (meson div_le_dividend le_less_trans)
  ultimately have u: "unat line = v mod unat rpp" "unat slot = v div unat rpp mod unat dpp"
      "unat pp = v div unat rpp div unat dpp"
    by (simp_all add: l s p unat_of_nat)
  have "(unat pp * unat dpp + unat slot) * unat rpp + unat line = v"
    unfolding u div_mult_mod_eq by (rule refl)
  then show ?thesis
    using rn_compose_value [of r rpp dpp line slot pp] by (simp add: rn_compose_def v_def)
qed

text \<open>
  A permanent blob id gives back the relation id and the record number it was set from, for
  record numbers of 40 bits, and is told apart from every temporary id by its relation id.
\<close>

theorem bid_permanent_roundtrip:
  assumes "unat (rn_value num) < 2 ^ 40" and "rel \<noteq> 0"
  shows "rn_value (bid_get_permanent_number (bid_set_permanent b rel num)) = rn_value num \<and>
    bid_relation_id (bid_set_permanent b rel num) = rel \<and>
    \<not> bid_isEmpty (bid_set_permanent b rel num) \<and>
    \<not> bid_eq (bid_set_permanent b rel num) (bid_set_temporary b' t)"
proof (intro conjI)
  let ?p = "bid_set_permanent b rel num"
  show "rn_value (bid_get_permanent_number ?p) = rn_value num"
    using take_bit_word_id [OF assms(1)]
    by (simp add: bid_get_permanent_number_def rn_bid_decode_def bid_set_permanent_def
        rn_bid_encode_def packed_bid_decode_encode)
  show rel: "bid_relation_id ?p = rel"
    by (simp add: bid_set_permanent_def rn_bid_encode_def packed_bid_encode_def)
  show "\<not> bid_isEmpty ?p"
    using rel assms(2) by (auto simp: bid_isEmpty_iff bid_clear_def)
  show "\<not> bid_eq ?p (bid_set_temporary b' t)"
    using rel assms(2) by (auto simp: bid_eq_iff bid_set_temporary_def bid_clear_def)
qed

theorem bid_permanent_roundtrip_witness:
  "rn_value (bid_get_permanent_number
     (bid_set_permanent \<lparr>bid_relation_id = 0, bid_reserved_for_relation = 0, bid_number_up = 0, bid_number = 9\<rparr>
        5 (RecordNumber_of 4294967301))) = 4294967301"
  using bid_permanent_roundtrip [of "RecordNumber_of 4294967301" 5
      "\<lparr>bid_relation_id = 0, bid_reserved_for_relation = 0, bid_number_up = 0, bid_number = 9\<rparr>"]
  by (simp add: RecordNumber_of_def)

end
