(* ===== verification/FB_Sqz.thy ===== *)
theory FB_Sqz
  imports FB_Prelude
begin

text \<open>
  Record compression and record differences (\<^verbatim>\<open>src/jrd/sqz.cpp\<close>, class \<^verbatim>\<open>Compressor\<close>).
  A compressed record is a sequence of control bytes read as signed: \<open>n > 0\<close> is followed by
  \<open>n\<close> bytes to copy, \<open>n < 0\<close> by one byte to repeat \<open>-n\<close> times. A difference record uses
  \<open>n > 0\<close> for bytes to overwrite and \<open>n \<le> 0\<close> for bytes to keep.
  A pointer that walks over a buffer is the list of the bytes from it to the end of the
  buffer; a pointer that writes is the list of the bytes written so far.
\<close>

section \<open>State and errors\<close>

text \<open>
  \<open>BUGCHECK n\<close> is the engine's fatal error with message number \<open>n\<close>; \<open>OVERREAD\<close> is a read past
  the end of a buffer that the code does not guard against.
\<close>

datatype sqz_error = BUGCHECK nat | OVERREAD

record Compressor =
  m_control :: "UCHAR list"
  m_length :: nat

definition MAX_DIFFERENCES :: nat where
  "MAX_DIFFERENCES = 1024"

section \<open>Building the control string\<close>

text \<open>
  The first scan of the constructor: the number of bytes before the first position where three
  equal bytes stand in a row, or all of them. Its loop counter keeps two bytes ahead readable,
  which is the three-element pattern.
\<close>

fun non_compressable :: "UCHAR list \<Rightarrow> nat" where
  "non_compressable (a # b # c # ds) =
     (if a \<noteq> b \<or> a \<noteq> c then Suc (non_compressable (b # c # ds)) else 0)"
| "non_compressable ds = length ds"

text \<open>Non-compressable runs are limited to 127 bytes each.\<close>

function add_non_compressable :: "nat \<Rightarrow> Compressor \<Rightarrow> Compressor" where
  "add_non_compressable count c =
     (if count = 0 then c
      else let mx = min count 127
           in add_non_compressable (count - mx)
                (c\<lparr>m_length := m_length c + 1 + mx, m_control := m_control c @ [of_nat mx]\<rparr>))"
  by pat_completeness auto
termination
  by (relation "measure (\<lambda>(count, c). count)") auto

text \<open>The second scan: the length of the run of the first byte, at most \<open>mx\<close>.\<close>

fun run_length :: "nat \<Rightarrow> UCHAR \<Rightarrow> UCHAR list \<Rightarrow> nat" where
  "run_length (Suc mx) c (d # ds) = (if d \<noteq> c then 0 else Suc (run_length mx c ds))"
| "run_length mx c ds = 0"

text \<open>
  The loop body, and the loop. When no run follows, the body consumes everything, so
  the loop ends.
\<close>

definition compress_step :: "UCHAR list \<Rightarrow> Compressor \<Rightarrow> UCHAR list \<times> Compressor" where
  "compress_step ds c =
     (let count = non_compressable ds;
          c1 = add_non_compressable count c;
          ds1 = drop count ds;
          mx = min 128 (length ds1)
      in if mx \<ge> 3
         then let n = run_length mx (hd ds1) ds1
              in (drop n ds1, c1\<lparr>m_control := m_control c1 @ [- of_nat n], m_length := m_length c1 + 2\<rparr>)
         else (ds1, c1))"

lemma run_length_le: "run_length mx c ds \<le> length ds"
  by (induction mx c ds rule: run_length.induct) auto

lemma run_length_pos:
  "0 < mx \<Longrightarrow> ds \<noteq> [] \<Longrightarrow> 0 < run_length mx (hd ds) ds"
  by (cases mx; cases ds) auto

lemma compress_step_shorter:
  assumes "ds \<noteq> []"
  shows "length (fst (compress_step ds c)) < length ds"
proof (cases "non_compressable ds = 0")
  case True
  with assms obtain a b d rest where ds: "ds = a # b # d # rest"
    by (cases ds rule: non_compressable.cases) (auto split: if_splits)
  then have "0 < run_length (min 128 (length ds)) (hd ds) ds"
    by (intro run_length_pos) auto
  with True ds show ?thesis by (simp add: compress_step_def Let_def)
next
  case False
  with assms show ?thesis
    using run_length_le by (simp add: compress_step_def Let_def less_diff_conv)
qed

function compress_loop :: "UCHAR list \<Rightarrow> Compressor \<Rightarrow> Compressor" where
  "compress_loop ds c =
     (if ds = [] then c
      else compress_loop (fst (compress_step ds c)) (snd (compress_step ds c)))"
  by pat_completeness auto
termination
  by (relation "measure (\<lambda>p. length (fst p))") (auto simp: compress_step_shorter)

definition Compressor_new :: "UCHAR list \<Rightarrow> Compressor" where
  "Compressor_new ds = compress_loop ds \<lparr>m_control = [], m_length = 0\<rparr>"

text \<open>The capacity the constructor allocates for the control string.\<close>

definition control_capacity :: "nat \<Rightarrow> nat" where
  "control_capacity len = size_add len 1 div 2"

section \<open>Packing and unpacking\<close>

text \<open>\<open>pack(input, output)\<close>: no bounds are checked on the output.\<close>

fun pack_loop :: "UCHAR list \<Rightarrow> UCHAR list \<Rightarrow> sqz_error + UCHAR list" where
  "pack_loop [] input = Inr []"
| "pack_loop (c # control) input =
     (let len = sint c
      in if len < 0 then
           (if input = [] \<or> length input < nat (- len) then Inl OVERREAD
            else map_sum id (\<lambda>out. c # hd input # out) (pack_loop control (drop (nat (- len)) input)))
         else
           (if length input < nat len then Inl OVERREAD
            else map_sum id (\<lambda>out. c # take (nat len) input @ out) (pack_loop control (drop (nat len) input))))"

definition pack :: "Compressor \<Rightarrow> UCHAR list \<Rightarrow> sqz_error + UCHAR list" where
  "pack this input = pack_loop (m_control this) input"

text \<open>
  \<open>pack(input, outLength, output)\<close>: the result is the number of input bytes consumed and the
  output area. The length of the area is converted to \<^verbatim>\<open>int\<close>; at \<^verbatim>\<open>0x80000000\<close> the decrement overflows, which is
  undefined, and which the model does not describe.
\<close>

fun pack_area_loop ::
  "UCHAR list \<Rightarrow> UCHAR list \<Rightarrow> int \<Rightarrow> nat \<Rightarrow> UCHAR list \<Rightarrow> sqz_error + (nat \<times> UCHAR list)" where
  "pack_area_loop [] input space consumed output = Inl (BUGCHECK 178)"
| "pack_area_loop (c # control) input space consumed output =
     (let space1 = space - 1
      in if space1 \<le> 0 then Inr (consumed, if space1 = 0 then output @ [0] else output)
         else
           let len = sint c
           in if len < 0 then
                (if input = [] \<or> length input < nat (- len) then Inl OVERREAD
                 else pack_area_loop control (drop (nat (- len)) input) (space1 - 1)
                        (consumed + nat (- len)) (output @ [c, hd input]))
              else if length input < nat len then Inl OVERREAD
              else
                let space2 = space1 - len
                in if space2 < 0 then
                     let len2 = len + space2
                     in Inr (consumed + nat len2, output @ word_of_int len2 # take (nat len2) input)
                   else pack_area_loop control (drop (nat len) input) space2
                          (consumed + nat len) (output @ c # take (nat len) input))"

definition pack_area :: "Compressor \<Rightarrow> UCHAR list \<Rightarrow> ULONG \<Rightarrow> sqz_error + (nat \<times> UCHAR list)" where
  "pack_area this input outLength = pack_area_loop (m_control this) input (sint outLength) 0 []"

text \<open>\<open>getPartialLength\<close> only reads the control string and counts.\<close>

fun partial_loop :: "UCHAR list \<Rightarrow> int \<Rightarrow> nat \<Rightarrow> sqz_error + nat" where
  "partial_loop [] space consumed = Inl (BUGCHECK 178)"
| "partial_loop (c # control) space consumed =
     (let space1 = space - 1
      in if space1 \<le> 0 then Inr consumed
         else
           let len = sint c
           in if len < 0 then partial_loop control (space1 - 1) (consumed + nat (- len))
              else
                let space2 = space1 - len
                in if space2 < 0 then Inr (consumed + nat (len + space2))
                   else partial_loop control space2 (consumed + nat len))"

definition getPartialLength :: "Compressor \<Rightarrow> ULONG \<Rightarrow> sqz_error + nat" where
  "getPartialLength this inLength = partial_loop (m_control this) (sint inLength) 0"

text \<open>
  \<open>unpack\<close>: \<open>space\<close> is what is left of the output. A literal run whose bytes are not all in the
  input is copied from past its end.
\<close>

function unpack_loop :: "UCHAR list \<Rightarrow> nat \<Rightarrow> sqz_error + UCHAR list" where
  "unpack_loop [] space = Inr []"
| "unpack_loop (c # input) space =
     (let len = sint c
      in if len < 0 then
           (if input = [] \<or> nat (- len) > space then Inl (BUGCHECK 179)
            else map_sum id (\<lambda>out. replicate (nat (- len)) (hd input) @ out)
                   (unpack_loop (tl input) (space - nat (- len))))
         else
           (if nat len > space then Inl (BUGCHECK 179)
            else if nat len > length input then Inl OVERREAD
            else map_sum id (\<lambda>out. take (nat len) input @ out)
                   (unpack_loop (drop (nat len) input) (space - nat len))))"
  by pat_completeness auto
termination
  by (relation "measure (\<lambda>(input, space). length input)") auto

definition unpack :: "UCHAR list \<Rightarrow> nat \<Rightarrow> sqz_error + UCHAR list" where
  "unpack input outLength = unpack_loop input outLength"

declare add_non_compressable.simps [simp del] compress_loop.simps [simp del]

section \<open>Control strings that describe a record\<close>

text \<open>
  \<open>describes cs ds\<close>: the control string \<open>cs\<close> splits \<open>ds\<close> exactly into literal runs and runs of
  equal bytes; \<open>packed_size cs\<close> is the size of the compressed record.
\<close>

fun describes :: "UCHAR list \<Rightarrow> UCHAR list \<Rightarrow> bool" where
  "describes [] ds \<longleftrightarrow> ds = []"
| "describes (c # cs) ds \<longleftrightarrow>
     (if sint c < 0
      then nat (- sint c) \<le> length ds \<and> take (nat (- sint c)) ds = replicate (nat (- sint c)) (hd ds) \<and>
           describes cs (drop (nat (- sint c)) ds)
      else 0 < sint c \<and> nat (sint c) \<le> length ds \<and> describes cs (drop (nat (sint c)) ds))"

fun packed_size :: "UCHAR list \<Rightarrow> nat" where
  "packed_size [] = 0"
| "packed_size (c # cs) = (if sint c < 0 then 2 else 1 + nat (sint c)) + packed_size cs"

lemma packed_size_append [simp]: "packed_size (cs @ cs') = packed_size cs + packed_size cs'"
  by (induction cs) auto

lemma describes_append:
  "describes cs xs \<Longrightarrow> describes cs' ys \<Longrightarrow> describes (cs @ cs') (xs @ ys)"
proof (induction cs arbitrary: xs)
  case (Cons c cs)
  let ?n = "nat (- sint c)"
  have "hd (xs @ ys) = hd xs" if "sint c < 0"
    using Cons.prems that by (cases xs) auto
  with Cons show ?case by auto
qed simp

lemma describes_runD:
  assumes "describes (c # cs) ds" and "sint c < 0"
  shows "nat (- sint c) \<le> length ds"
    and "take (nat (- sint c)) ds = replicate (nat (- sint c)) (hd ds)"
    and "ds \<noteq> []" and "describes cs (drop (nat (- sint c)) ds)"
proof -
  show l: "nat (- sint c) \<le> length ds" and "describes cs (drop (nat (- sint c)) ds)"
    and "take (nat (- sint c)) ds = replicate (nat (- sint c)) (hd ds)"
    using assms by simp_all
  show "ds \<noteq> []" using l assms(2) by (cases ds) auto
qed

lemma sint_literal: "n \<le> 127 \<Longrightarrow> sint (of_nat n :: UCHAR) = int n"
  by (rule sint_of_nat_inverse) simp

lemma sint_run: "0 < n \<Longrightarrow> n \<le> 128 \<Longrightarrow> sint (- of_nat n :: UCHAR) = - int n"
proof -
  assume n: "0 < n" "n \<le> 128"
  have "sint (word_of_int (- int n) :: UCHAR) = - int n"
    using n by (intro sint_word_of_int_inverse) auto
  then show ?thesis by simp
qed

lemma add_non_compressable_spec:
  "\<exists>cs. add_non_compressable n c = c\<lparr>m_control := m_control c @ cs, m_length := m_length c + packed_size cs\<rparr> \<and>
     (\<forall>xs. length xs = n \<longrightarrow> describes cs xs) \<and> length cs = (n + 126) div 127"
proof (induction n c rule: add_non_compressable.induct)
  case (1 n c)
  show ?case
  proof (cases "n = 0")
    case True
    then show ?thesis by (auto simp: add_non_compressable.simps intro!: exI [of _ "[]"])
  next
    case False
    define mx where "mx = min n 127"
    let ?c = "c\<lparr>m_length := m_length c + 1 + mx, m_control := m_control c @ [of_nat mx]\<rparr>"
    obtain cs where cs: "add_non_compressable (n - mx) ?c =
          ?c\<lparr>m_control := m_control ?c @ cs, m_length := m_length ?c + packed_size cs\<rparr>"
        "\<And>xs. length xs = n - mx \<Longrightarrow> describes cs xs" "length cs = (n - mx + 126) div 127"
      using "1.IH" [OF False mx_def] by blast
    have mx: "sint (of_nat mx :: UCHAR) = int mx" "0 < mx" "mx \<le> n"
      using False by (auto simp: mx_def sint_literal)
    have "add_non_compressable n c =
        c\<lparr>m_control := m_control c @ (of_nat mx # cs), m_length := m_length c + packed_size (of_nat mx # cs)\<rparr>"
      using False cs(1) mx by (simp add: add_non_compressable.simps [of n c] mx_def [symmetric])
    moreover have "\<forall>xs. length xs = n \<longrightarrow> describes (of_nat mx # cs) xs"
      using cs(2) mx by simp
    moreover have "length (of_nat mx # cs) = (n + 126) div 127"
      using cs(3) False by (simp add: mx_def min_def split: if_splits)
    ultimately show ?thesis by blast
  qed
qed

lemma non_compressable_le: "non_compressable ds \<le> length ds"
  by (induction ds rule: non_compressable.induct) auto

lemma non_compressable_run:
  "non_compressable ds < length ds \<Longrightarrow> \<exists>a rest. drop (non_compressable ds) ds = a # a # a # rest"
  by (induction ds rule: non_compressable.induct) (auto split: if_splits)

lemma run_length_bound: "run_length mx c ds \<le> mx"
  by (induction mx c ds rule: run_length.induct) auto

lemma run_length_replicate: "take (run_length mx c ds) ds = replicate (run_length mx c ds) c"
  by (induction mx c ds rule: run_length.induct) auto

lemma run_length_three: "3 \<le> mx \<Longrightarrow> 3 \<le> run_length mx a (a # a # a # rest)"
  by (cases mx; cases "mx - 1"; cases "mx - 2") (auto simp: numeral_eq_Suc)

lemma compress_step_spec:
  assumes "ds \<noteq> []" and "compress_step ds c = (ds', c')"
  shows "\<exists>cs xs. ds = xs @ ds' \<and> describes cs xs \<and>
     c' = c\<lparr>m_control := m_control c @ cs, m_length := m_length c + packed_size cs\<rparr> \<and>
     2 * length cs \<le> length xs + (if ds' = [] then 1 else 0)"
proof -
  define n where "n = non_compressable ds"
  obtain cs where cs: "add_non_compressable n c =
        c\<lparr>m_control := m_control c @ cs, m_length := m_length c + packed_size cs\<rparr>"
      "\<And>xs. length xs = n \<Longrightarrow> describes cs xs" "length cs = (n + 126) div 127"
    using add_non_compressable_spec [of n c] by blast
  have lt: "length (take n ds) = n" using non_compressable_le [of ds] by (simp add: n_def)
  show ?thesis
  proof (cases "n < length ds")
    case True
    then obtain a rest where run: "drop n ds = a # a # a # rest"
      using non_compressable_run [of ds] by (auto simp: n_def)
    define r where "r = run_length (min 128 (length (drop n ds))) a (drop n ds)"
    have r: "3 \<le> r" "r \<le> 128" "r \<le> length (drop n ds)"
      using run_length_three [of "min 128 (length (drop n ds))" a rest]
        run_length_bound [of "min 128 (length (drop n ds))" a "drop n ds"]
      by (auto simp: r_def run)
    have rep: "take r (drop n ds) = replicate r a"
      unfolding r_def by (rule run_length_replicate)
    let ?cs = "cs @ [- of_nat r]" and ?xs = "take n ds @ take r (drop n ds)"
    have "describes [- of_nat r] (take r (drop n ds))"
      using r by (simp add: sint_run rep)
    then have "describes ?cs ?xs"
      by (intro describes_append cs(2) lt)
    moreover have "compress_step ds c = (drop r (drop n ds), c\<lparr>m_control := m_control c @ ?cs,
        m_length := m_length c + packed_size ?cs\<rparr>)"
    proof -
      have mx: "3 \<le> min 128 (length (drop n ds))" and hd: "hd (drop n ds) = a" by (simp_all add: run)
      have ps: "packed_size [- of_nat r] = 2" using r by (simp add: sint_run)
      show ?thesis
        unfolding compress_step_def Let_def n_def [symmetric] hd r_def [symmetric] if_P [OF mx] cs(1)
          packed_size_append ps by simp
    qed
    moreover have "2 * length ?cs \<le> length ?xs"
      using cs(3) r lt by simp
    ultimately show ?thesis
      using assms(2) by (intro exI [of _ ?cs] exI [of _ ?xs]) (auto simp: append_take_drop_id simp del: drop_drop)
  next
    case False
    then have "n = length ds" using non_compressable_le [of ds] by (simp add: n_def)
    with assms cs show ?thesis
      by (intro exI [of _ cs] exI [of _ ds]) (auto simp: compress_step_def Let_def n_def [symmetric])
  qed
qed

lemma compress_loop_spec:
  "\<exists>cs. compress_loop ds c = c\<lparr>m_control := m_control c @ cs, m_length := m_length c + packed_size cs\<rparr> \<and>
     describes cs ds \<and> 2 * length cs \<le> length ds + 1"
proof (induction ds c rule: compress_loop.induct)
  case (1 ds c)
  show ?case
  proof (cases "ds = []")
    case True
    then show ?thesis by (auto simp: compress_loop.simps intro!: exI [of _ "[]"])
  next
    case False
    obtain ds' c' where st: "compress_step ds c = (ds', c')" by fastforce
    obtain cs xs where s: "ds = xs @ ds'" "describes cs xs"
        "c' = c\<lparr>m_control := m_control c @ cs, m_length := m_length c + packed_size cs\<rparr>"
        "2 * length cs \<le> length xs + (if ds' = [] then 1 else 0)"
      using compress_step_spec [OF False st] by blast
    obtain cs' where l: "compress_loop ds' c' =
          c'\<lparr>m_control := m_control c' @ cs', m_length := m_length c' + packed_size cs'\<rparr>"
        "describes cs' ds'" "2 * length cs' \<le> length ds' + 1"
      using "1.IH" [OF False] st by auto
    have "ds' = [] \<Longrightarrow> cs' = []" using l(3) by (cases cs') auto
    then have "2 * length (cs @ cs') \<le> length ds + 1"
      using s(1,4) l(3) by (cases "ds' = []") auto
    moreover have "compress_loop ds c =
        c\<lparr>m_control := m_control c @ cs @ cs', m_length := m_length c + packed_size (cs @ cs')\<rparr>"
      using False st l(1) s(3) by (simp add: compress_loop.simps [of ds c])
    ultimately show ?thesis
      using describes_append [OF s(2) l(2)] s(1) by blast
  qed
qed

lemma Compressor_new_spec:
  "describes (m_control (Compressor_new ds)) ds \<and>
   m_length (Compressor_new ds) = packed_size (m_control (Compressor_new ds)) \<and>
   2 * length (m_control (Compressor_new ds)) \<le> length ds + 1"
  using compress_loop_spec [of ds "\<lparr>m_control = [], m_length = 0\<rparr>"]
  by (auto simp: Compressor_new_def)

section \<open>Packing what a control string describes\<close>

declare unpack_loop.simps(2) [simp del]

lemma unpack_run:
  assumes "sint c < 0" and "nat (- sint c) \<le> space"
    and "unpack_loop out (space - nat (- sint c)) = Inr ds"
  shows "unpack_loop (c # x # out) space = Inr (replicate (nat (- sint c)) x @ ds)"
  using assms by (simp add: unpack_loop.simps(2) Let_def)

lemma unpack_literal:
  assumes "0 \<le> sint c" and "length xs = nat (sint c)" and "nat (sint c) \<le> space"
    and "unpack_loop out (space - nat (sint c)) = Inr ds"
  shows "unpack_loop (c # xs @ out) space = Inr (xs @ ds)"
  using assms by (simp add: unpack_loop.simps(2) Let_def)

lemma pack_loop_describes:
  "describes cs ds \<Longrightarrow>
     \<exists>out. pack_loop cs ds = Inr out \<and> length out = packed_size cs \<and>
       (\<forall>space \<ge> length ds. unpack_loop out space = Inr ds)"
proof (induction cs arbitrary: ds)
  case (Cons c cs)
  show ?case
  proof (cases "sint c < 0")
    case True
    let ?n = "nat (- sint c)"
    note d = describes_runD(1,2,4) [OF Cons.prems True]
    have dsplit: "replicate ?n (hd ds) @ drop ?n ds = ds" by (metis d(2) append_take_drop_id)
    obtain out where out: "pack_loop cs (drop ?n ds) = Inr out" "length out = packed_size cs"
        "\<And>space. length (drop ?n ds) \<le> space \<Longrightarrow> unpack_loop out space = Inr (drop ?n ds)"
      using Cons.IH [OF d(3)] by blast
    have "unpack_loop (c # hd ds # out) space = Inr ds" if "length ds \<le> space" for space
      using unpack_run [of c space out "drop ?n ds" "hd ds"] True d(1) that out(3) dsplit by simp
    moreover have "pack_loop (c # cs) ds = Inr (c # hd ds # out)"
      using True d out(1) by auto
    ultimately show ?thesis using out(2) True by auto
  next
    case False
    let ?n = "nat (sint c)"
    from Cons.prems False have d: "?n \<le> length ds" "describes cs (drop ?n ds)" by auto
    obtain out where out: "pack_loop cs (drop ?n ds) = Inr out" "length out = packed_size cs"
        "\<And>space. length (drop ?n ds) \<le> space \<Longrightarrow> unpack_loop out space = Inr (drop ?n ds)"
      using Cons.IH [OF d(2)] by blast
    have "unpack_loop (c # take ?n ds @ out) space = Inr ds" if "length ds \<le> space" for space
      using unpack_literal [of c "take ?n ds" space out "drop ?n ds"] False d that out(3) by simp
    moreover have "pack_loop (c # cs) ds = Inr (c # take ?n ds @ out)"
      using False d out(1) by auto
    ultimately show ?thesis using out(2) False d(1) by auto
  qed
qed simp

text \<open>
  What \<open>pack\<close> into an area of \<open>m\<close> bytes leaves there: exactly \<open>m\<close> bytes that unpack to a
  prefix of the record, whose length \<open>getPartialLength\<close> computes as well.
\<close>

definition area_result :: "UCHAR list \<Rightarrow> nat \<Rightarrow> nat \<Rightarrow> UCHAR list \<Rightarrow> bool" where
  "area_result ds m n out \<longleftrightarrow> n \<le> length ds \<and> length out = m \<and>
     (\<forall>space \<ge> n. unpack_loop out space = Inr (take n ds))"

lemma pack_area_fits:
  "describes cs ds \<Longrightarrow> packed_size cs \<le> m \<Longrightarrow>
     pack_area_loop cs ds (int m) k out = Inl (BUGCHECK 178) \<and> partial_loop cs (int m) k = Inl (BUGCHECK 178)"
proof (induction cs arbitrary: ds m k out)
  case (Cons c cs)
  let ?l = "if sint c < 0 then 2 else 1 + nat (sint c)"
  have m: "packed_size cs \<le> m - ?l" "?l \<le> m"
    using Cons.prems(2) by auto
  show ?case
  proof (cases "sint c < 0")
    case True
    note d = describes_runD(1,3,4) [OF Cons.prems(1) True]
    have m2: "2 \<le> m" "packed_size cs \<le> m - 2" using m True by simp_all
    have sp: "int m - 1 - 1 = int (m - 2)" using m2(1) by simp
    show ?thesis
      using True d(1,2) m2(1) Cons.IH [OF d(3) m2(2), unfolded sp [symmetric]] by (simp add: Let_def)
  next
    case False
    with Cons.prems(1) have d: "nat (sint c) \<le> length ds" "describes cs (drop (nat (sint c)) ds)" "0 < sint c"
      by auto
    have m2: "1 + nat (sint c) \<le> m" using m(2) False by simp
    have sp: "int m - 1 - sint c = int (m - ?l)" using m2 False by simp
    show ?thesis
      using False d(1,3) m2 Cons.IH [OF d(2) m(1), unfolded sp [symmetric]] by (auto simp: Let_def)
  qed
qed simp

lemma pack_area_partial:
  "describes cs ds \<Longrightarrow> m < packed_size cs \<Longrightarrow>
     \<exists>n out'. pack_area_loop cs ds (int m) k out = Inr (k + n, out @ out') \<and>
       partial_loop cs (int m) k = Inr (k + n) \<and> area_result ds m n out'"
proof (induction cs arbitrary: ds m k out)
  case (Cons c cs)
  consider "m = 0" | "m = 1" | (run) "2 \<le> m" "sint c < 0" | (cut) "2 \<le> m" "0 \<le> sint c" "int m - 1 < sint c"
    | (lit) "2 \<le> m" "0 \<le> sint c" "sint c \<le> int m - 1" by fastforce
  then show ?case
  proof cases
    case 1
    then show ?thesis by (intro exI [of _ 0] exI [of _ "[]"]) (simp add: area_result_def)
  next
    case 2
    then show ?thesis
      by (intro exI [of _ 0] exI [of _ "[0]"]) (simp add: area_result_def unpack_loop.simps(2))
  next
    case run
    let ?n = "nat (- sint c)"
    note d = describes_runD [OF Cons.prems(1) run(2)]
    have m2: "m - 2 < packed_size cs" using Cons.prems(2) run by simp
    have sp: "int m - 1 - 1 = int (m - 2)" using run by simp
    have rep: "replicate ?n (hd ds) @ take n (drop ?n ds) = take (?n + n) ds" for n
      by (simp add: take_add d(2))
    obtain n out' where r: "pack_area_loop cs (drop ?n ds) (int (m - 2)) (k + ?n) (out @ [c, hd ds]) =
          Inr (k + ?n + n, (out @ [c, hd ds]) @ out')"
        "partial_loop cs (int (m - 2)) (k + ?n) = Inr (k + ?n + n)"
        "area_result (drop ?n ds) (m - 2) n out'"
      using Cons.IH [OF d(4), of "m - 2" "k + ?n" "out @ [c, hd ds]"] m2 by blast
    have "unpack_loop (c # hd ds # out') space = Inr (take (?n + n) ds)" if "?n + n \<le> space" for space
      using unpack_run [of c space out' "take n (drop ?n ds)" "hd ds"] run d(1) r(3) that
      by (simp add: area_result_def rep)
    then have "area_result ds m (?n + n) (c # hd ds # out')"
      using r(3) run d(1) by (auto simp: area_result_def)
    then show ?thesis
      using r(1,2) [unfolded sp [symmetric]] run d(1,3)
      by (intro exI [of _ "?n + n"] exI [of _ "c # hd ds # out'"]) (simp add: Let_def add.assoc)
  next
    case cut
    have c127: "sint c < 128" using sint_lt [of c] by simp
    then have m1: "m - 1 \<le> 127" using cut by linarith
    have w: "word_of_int (sint c + (int m - 1 - sint c)) = (of_nat (m - 1) :: UCHAR)"
      using cut by (simp add: of_nat_diff)
    have d: "nat (sint c) \<le> length ds" "m - 1 < nat (sint c)" using Cons.prems(1) cut by auto
    have "unpack_loop (of_nat (m - 1) # take (m - 1) ds) space = Inr (take (m - 1) ds)" if "m - 1 \<le> space" for space
      using unpack_literal [of "of_nat (m - 1)" "take (m - 1) ds" space "[]" "[]"] m1 d that
      by (simp add: sint_literal del: of_nat_diff)
    then have "area_result ds m (m - 1) (of_nat (m - 1) # take (m - 1) ds)"
      using cut d by (simp add: area_result_def)
    moreover have "nat (sint c + (int m - 1 - sint c)) = m - 1" using cut by simp
    ultimately show ?thesis
      using cut d w by (intro exI [of _ "m - 1"] exI [of _ "of_nat (m - 1) # take (m - 1) ds"])
        (simp add: Let_def area_result_def)
  next
    case lit
    let ?n = "nat (sint c)"
    from Cons.prems(1) lit have d: "?n \<le> length ds" "describes cs (drop ?n ds)" by auto
    have sp: "int m - 1 - sint c = int (m - 1 - ?n)" using lit by simp
    have m2: "m - 1 - ?n < packed_size cs" using Cons.prems(2) lit by (simp add: nat_le_iff)
    obtain n out' where r: "pack_area_loop cs (drop ?n ds) (int (m - 1 - ?n)) (k + ?n) (out @ c # take ?n ds) =
          Inr (k + ?n + n, (out @ c # take ?n ds) @ out')"
        "partial_loop cs (int (m - 1 - ?n)) (k + ?n) = Inr (k + ?n + n)"
        "area_result (drop ?n ds) (m - 1 - ?n) n out'"
      using Cons.IH [OF d(2), of "m - 1 - ?n" "k + ?n" "out @ c # take ?n ds"] m2 by blast
    have "unpack_loop (c # take ?n ds @ out') space = Inr (take (?n + n) ds)" if "?n + n \<le> space" for space
      using unpack_literal [of c "take ?n ds" space out' "take n (drop ?n ds)"] lit d r(3) that
      by (simp add: area_result_def take_add)
    then have "area_result ds m (?n + n) (c # take ?n ds @ out')"
      using r(3) lit d(1) by (auto simp: area_result_def)
    then show ?thesis
      using r(1,2) [unfolded sp [symmetric]] lit d(1)
      by (intro exI [of _ "?n + n"] exI [of _ "c # take ?n ds @ out'"]) (simp add: Let_def add.assoc)
  qed
qed simp

lemma unpack_loop_bound: "unpack_loop input space = Inr out \<Longrightarrow> length out \<le> space"
proof (induction input space arbitrary: out rule: unpack_loop.induct)
  case (2 c input space)
  from "2.prems" show ?case
    by (auto simp: unpack_loop.simps(2) Let_def split: if_splits dest!: map_sum_Inr_D
        dest: "2.IH" [OF refl])
qed simp

lemma sint_cases:
  fixes m :: ULONG
  shows "sint m = (if unat m < 2 ^ 31 then int (unat m) else int (unat m) - 2 ^ 32)"
proof -
  have "int (unat m) = sint m mod 2 ^ 32" using uint_sint [of m] by (simp add: take_bit_eq_mod)
  moreover have "- (2 ^ 31) \<le> sint m" "sint m < 2 ^ 31" using sint_ge [of m] sint_lt [of m] by simp_all
  moreover have "sint m mod 2 ^ 32 = (if 0 \<le> sint m then sint m else sint m + 2 ^ 32)"
    using calculation(2,3) mod_pos_pos_trivial [of "sint m + 2 ^ 32" "2 ^ 32"] by (simp add: mod_pos_pos_trivial)
  ultimately show ?thesis by (simp only: of_nat_less_iff [where 'a = int, symmetric] split: if_split) simp
qed

section \<open>Properties\<close>

text \<open>
  C3. Compressing a record and decompressing the result gives the record back, whatever the
  room beyond its length, and the compressed form has exactly the length the constructor
  computed.
\<close>

theorem unpack_pack:
  "\<exists>out. pack (Compressor_new ds) ds = Inr out \<and> length out = m_length (Compressor_new ds) \<and>
     unpack out (length ds + extra) = Inr ds"
  using pack_loop_describes [of "m_control (Compressor_new ds)" ds] Compressor_new_spec [of ds]
  by (auto simp: pack_def unpack_def)

text \<open>
  C39. The constructor never writes past the control buffer it allocates: for a record of \<open>n\<close>
  bytes, \<open>n < 2^32 - 1\<close>, the control string has at most \<open>(n + 1) / 2\<close> bytes.
\<close>

theorem control_fits_capacity:
  assumes "length ds < 2 ^ 32 - 1"
  shows "length (m_control (Compressor_new ds)) \<le> control_capacity (length ds)"
  using Compressor_new_spec [of ds] assms by (auto simp: control_capacity_def size_add_def)

theorem control_fits_capacity_witness:
  "length (m_control (Compressor_new [1, 1, 1, 2])) \<le> control_capacity (length [1, 1, 1, 2 :: UCHAR])"
  by (rule control_fits_capacity) simp

text \<open>An area whose length is negative as an \<^verbatim>\<open>int\<close>.\<close>

lemma pack_area_negative:
  "space < 0 \<Longrightarrow> cs \<noteq> [] \<Longrightarrow> pack_area_loop cs ds space k out = Inr (k, out) \<and> partial_loop cs space k = Inr k"
  by (cases cs) simp_all

text \<open>
  C7. Packing into an area of less than \<open>2^31\<close> bytes bug-checks exactly when the whole record would fit.
  Otherwise it fills exactly the area, these bytes decompress to the part of the record it reports as
  consumed, and \<open>getPartialLength\<close> reports the same part. For a greater area, which is negative as an
  \<^verbatim>\<open>int\<close>, nothing of a record is packed, although it would fit (\<open>2^31\<close> is left out: it is the least \<^verbatim>\<open>int\<close>, from
  which the code subtracts 1).
\<close>

theorem pack_area_partial_record:
  "if unat m < 2 ^ 31
   then
     if m_length (Compressor_new ds) \<le> unat m
     then pack_area (Compressor_new ds) ds m = Inl (BUGCHECK 178) \<and>
          getPartialLength (Compressor_new ds) m = Inl (BUGCHECK 178)
     else \<exists>n out. pack_area (Compressor_new ds) ds m = Inr (n, out) \<and> n \<le> length ds \<and> length out = unat m \<and>
          unpack out (n + extra) = Inr (take n ds) \<and> getPartialLength (Compressor_new ds) m = Inr n
   else
     m = 0x80000000 \<or> ds = [] \<or>
     pack_area (Compressor_new ds) ds m = Inr (0, []) \<and> getPartialLength (Compressor_new ds) m = Inr 0"
proof (cases "unat m < 2 ^ 31")
  case small: True
  then have m: "sint m = int (unat m)" by (simp add: sint_cases)
  show ?thesis
  proof (cases "m_length (Compressor_new ds) \<le> unat m")
    case True
    then show ?thesis
      using small pack_area_fits [of "m_control (Compressor_new ds)" ds "unat m" 0 "[]"] Compressor_new_spec [of ds]
      by (simp add: pack_area_def getPartialLength_def m)
  next
    case False
    then show ?thesis
      using small pack_area_partial [of "m_control (Compressor_new ds)" ds "unat m" 0 "[]"] Compressor_new_spec [of ds]
      by (auto simp: pack_area_def getPartialLength_def unpack_def area_result_def m)
  qed
next
  case False
  then have "sint m < 0" using sint_cases [of m] sint_lt [of m] uint_lt2p [of m] by simp
  moreover have "ds = []" if "m_control (Compressor_new ds) = []"
    using Compressor_new_spec [of ds] that by simp
  ultimately show ?thesis
    using False pack_area_negative [of "sint m" "m_control (Compressor_new ds)" ds 0 "[]"]
    by (auto simp: pack_area_def getPartialLength_def)
qed

text \<open>
  Decompression never writes past the output buffer, for any input bytes.
\<close>

theorem unpack_within_output:
  assumes "unpack input outLength = Inr out"
  shows "length out \<le> outLength"
  using assms by (auto simp: unpack_def intro: unpack_loop_bound)

theorem unpack_within_output_witness:
  "unpack [-3, 7, 1, 9] 4 = Inr [7, 7, 7, 9] \<and> length [7, 7, 7, 9 :: UCHAR] \<le> 4"
proof -
  have u: "unpack [-3, 7, 1, 9] 4 = Inr [7, 7, 7, 9]"
    by (simp add: unpack_def unpack_loop.simps(2) numeral_3_eq_3)
  show ?thesis using u unpack_within_output [OF u] by simp
qed

text \<open>
  A literal run that announces more bytes than the input holds is copied from past the end of
  the input: the repeat branch checks \<open>input >= end\<close>, the literal branch does not.
\<close>

lemma unpack_literal_overread: "unpack [5, 1, 2] 10 = Inl OVERREAD"
  by (simp add: unpack_def unpack_loop.simps(2))

end
