(* ===== verification/FB_Sqz_Diff.thy ===== *)
theory FB_Sqz_Diff
  imports FB_Sqz
begin

text \<open>
  Record differences (\<^verbatim>\<open>Compressor::makeDiff\<close>, \<^verbatim>\<open>makeNoDiff\<close> and \<^verbatim>\<open>applyDiff\<close> of
  \<^verbatim>\<open>src/jrd/sqz.cpp\<close>): the engine stores the previous version of an updated record as the
  difference that turns the new version into the old one.
\<close>

section \<open>Applying differences\<close>

text \<open>\<open>memcpy(output + p, xs, |xs|)\<close>.\<close>

definition write_at :: "nat \<Rightarrow> 'a list \<Rightarrow> 'a list \<Rightarrow> 'a list" where
  "write_at p xs output = take p output @ xs @ drop (p + length xs) output"

text \<open>
  The loop stops at the end of the differences or of the record; it returns the position, the
  differences left and the record.
\<close>

function apply_loop ::
  "UCHAR list \<Rightarrow> nat \<Rightarrow> nat \<Rightarrow> UCHAR list \<Rightarrow> sqz_error + (nat \<times> UCHAR list \<times> UCHAR list)" where
  "apply_loop [] p outLength output = Inr (p, [], output)"
| "apply_loop (d # differences) p outLength output =
     (if p < outLength then
        let l = sint d
        in if l > 0 then
             (if p + nat l > outLength then Inl (BUGCHECK 177)
              else if nat l > length differences then Inl (BUGCHECK 176)
              else apply_loop (drop (nat l) differences) (p + nat l) outLength
                     (write_at p (take (nat l) differences) output))
           else apply_loop differences (p + nat (- l)) outLength output
      else Inr (p, d # differences, output))"
  by pat_completeness auto
termination
  by (relation "measure (\<lambda>(ds, p, n, out). length ds)") auto

definition applyDiff :: "UCHAR list \<Rightarrow> nat \<Rightarrow> UCHAR list \<Rightarrow> sqz_error + (nat \<times> UCHAR list)" where
  "applyDiff differences outLength output =
     (if length differences > MAX_DIFFERENCES then Inl (BUGCHECK 176)
      else case apply_loop differences 0 outLength output of
             Inl e \<Rightarrow> Inl e
           | Inr (p, rest, output') \<Rightarrow>
               if p > outLength \<or> rest \<noteq> [] then Inl (BUGCHECK 177) else Inr (p, output'))"

section \<open>Making differences\<close>

function no_diff_loop :: "nat \<Rightarrow> UCHAR list" where
  "no_diff_loop len =
     (if len > 127 then (-127) # no_diff_loop (len - 127)
      else if len \<noteq> 0 then [- of_nat len] else [])"
  by pat_completeness auto
termination
  by (relation "measure id") auto

declare no_diff_loop.simps [simp del]

text \<open>The length is converted to \<^verbatim>\<open>int\<close>; a negative one leaves the loop at once.\<close>

definition makeNoDiff :: "ULONG \<Rightarrow> UCHAR list" where
  "makeNoDiff outLength =
     (let len = sint outLength
      in if len < 0 then [word_of_int (- len)] else no_diff_loop (nat len))"

text \<open>The macro \<open>STUFF\<close>: \<open>None\<close> is the early return of \<open>MAX_ULONG\<close>.\<close>

definition STUFF :: "nat \<Rightarrow> UCHAR list \<Rightarrow> UCHAR \<Rightarrow> UCHAR list option" where
  "STUFF outLength output v = (if length output < outLength then Some (output @ [v]) else None)"

text \<open>
  The copying loop of the first phase. \<open>n\<close> is the distance from \<open>rec1\<close> to \<open>yellow\<close>, plus one.
\<close>

fun diff_literal ::
  "nat \<Rightarrow> nat \<Rightarrow> UCHAR list \<Rightarrow> UCHAR list \<Rightarrow> UCHAR list \<Rightarrow> (UCHAR list \<times> UCHAR list \<times> UCHAR list) option" where
  "diff_literal outLength (Suc n) (a # rec1) (b # rec2) output =
     (if a \<noteq> b \<or> (n > 0 \<and> hd rec1 \<noteq> hd rec2)
      then case STUFF outLength output b of
             None \<Rightarrow> None
           | Some output' \<Rightarrow> diff_literal outLength n rec1 rec2 output'
      else Some (a # rec1, b # rec2, output))"
| "diff_literal outLength n rec1 rec2 output = Some (rec1, rec2, output)"

text \<open>The comparing loop, and the skip counts it writes.\<close>

fun common_prefix :: "UCHAR list \<Rightarrow> UCHAR list \<Rightarrow> nat" where
  "common_prefix (a # rec1) (b # rec2) = (if a = b then Suc (common_prefix rec1 rec2) else 0)"
| "common_prefix rec1 rec2 = 0"

function stuff_equal :: "nat \<Rightarrow> nat \<Rightarrow> UCHAR list \<Rightarrow> UCHAR list option" where
  "stuff_equal outLength n output =
     (if n > 127 then
        (case STUFF outLength output (-127) of
           None \<Rightarrow> None
         | Some output' \<Rightarrow> stuff_equal outLength (n - 127) output')
      else if n \<noteq> 0 then STUFF outLength output (- of_nat n) else Some output)"
  by pat_completeness auto
termination
  by (relation "measure (\<lambda>(k, n, out). n)") auto

declare stuff_equal.simps [simp del]

text \<open>
  One turn of the first loop, entered with more than two bytes of \<open>rec1\<close> left. The last
  equation would be a read past \<open>rec2\<close>; \<open>rec1\<close> is cut to the length of \<open>rec2\<close>, so it is never
  taken.
\<close>

fun diff_step ::
  "nat \<Rightarrow> UCHAR list \<Rightarrow> UCHAR list \<Rightarrow> UCHAR list \<Rightarrow> (UCHAR list \<times> UCHAR list \<times> UCHAR list) option" where
  "diff_step outLength (a # b # rec1) (c # d # rec2) output =
     (if a \<noteq> c \<or> b \<noteq> d then
        (let p = length output
         in case diff_literal outLength (min (length (a # b # rec1)) 127) (a # b # rec1) (c # d # rec2)
                   (output @ [0]) of
              None \<Rightarrow> None
            | Some (rec1', rec2', output') \<Rightarrow>
                Some (rec1', rec2', output'[p := of_nat (length output' - p - 1)]))
      else
        (let n = common_prefix (a # b # rec1) (c # d # rec2)
         in case stuff_equal outLength n output of
              None \<Rightarrow> None
            | Some output' \<Rightarrow> Some (drop n (a # b # rec1), drop n (c # d # rec2), output')))"
| "diff_step outLength rec1 rec2 output = None"

lemma STUFF_Some: "STUFF N out v = Some out' \<longleftrightarrow> length out < N \<and> out' = out @ [v]"
  by (auto simp: STUFF_def)

lemma diff_literal_spec:
  "diff_literal N n rec1 rec2 out = Some (rec1', rec2', out') \<Longrightarrow> n \<le> length rec1 \<Longrightarrow>
     \<exists>k. k \<le> n \<and> k \<le> length rec2 \<and> rec1' = drop k rec1 \<and> rec2' = drop k rec2 \<and>
       out' = out @ take k rec2 \<and> (k = 0 \<or> length out' \<le> N)"
proof (induction N n rec1 rec2 out rule: diff_literal.induct)
  case (1 N n a rec1 b rec2 out)
  show ?case
  proof (cases "a \<noteq> b \<or> (n > 0 \<and> hd rec1 \<noteq> hd rec2)")
    case True
    with "1.prems"(1) obtain o1 where o1: "STUFF N out b = Some o1"
        "diff_literal N n rec1 rec2 o1 = Some (rec1', rec2', out')"
      by (auto split: option.splits)
    obtain k where k: "k \<le> n" "k \<le> length rec2" "rec1' = drop k rec1" "rec2' = drop k rec2"
        "out' = o1 @ take k rec2" "k = 0 \<or> length out' \<le> N"
      using "1.IH" [OF True o1] "1.prems"(2) by auto
    with o1(1) show ?thesis
      by (intro exI [of _ "Suc k"]) (auto simp: STUFF_Some)
  next
    case False
    with "1.prems" show ?thesis by (intro exI [of _ 0]) auto
  qed
qed (auto intro!: exI [of _ 0])

lemma diff_literal_progress:
  assumes l: "diff_literal N n (a # b # rec1) (c # d # rec2) out = Some (rec1', rec2', out')"
    and "a \<noteq> c \<or> b \<noteq> d" and "1 < n" and "n \<le> length (a # b # rec1)"
  shows "length rec1' \<le> length (b # rec1)"
proof -
  obtain m where n: "n = Suc m" "0 < m" using assms(3) by (cases n) auto
  with assms(1,2) obtain o1 where "diff_literal N m (b # rec1) (d # rec2) o1 = Some (rec1', rec2', out')"
    by (auto split: option.splits)
  then obtain k where "rec1' = drop k (b # rec1)"
    using diff_literal_spec [of N m "b # rec1" "d # rec2" o1 rec1' rec2' out'] assms(4) n by auto
  then show ?thesis by simp
qed

lemma common_prefix_spec:
  "common_prefix rec1 rec2 \<le> length rec1 \<and> common_prefix rec1 rec2 \<le> length rec2 \<and>
     take (common_prefix rec1 rec2) rec1 = take (common_prefix rec1 rec2) rec2"
  by (induction rec1 rec2 rule: common_prefix.induct) auto

text \<open>The skip counts are those of \<open>makeNoDiff\<close>.\<close>

lemma stuff_equal_spec:
  "stuff_equal N n out = Some out' \<Longrightarrow> out' = out @ no_diff_loop n \<and> (n = 0 \<or> length out' \<le> N)"
proof (induction N n out arbitrary: out' rule: stuff_equal.induct)
  case (1 N n out)
  show ?case
  proof (cases "n > 127")
    case True
    with "1.prems" obtain o1 where o1: "STUFF N out (-127) = Some o1" "stuff_equal N (n - 127) o1 = Some out'"
      by (auto simp: stuff_equal.simps [of N n] split: option.splits)
    show ?thesis
      using "1.IH" [OF True o1] o1(1) True by (auto simp: STUFF_Some no_diff_loop.simps [of n])
  next
    case False
    with "1.prems" show ?thesis
      by (auto simp: stuff_equal.simps [of N n] no_diff_loop.simps [of n] STUFF_Some split: if_splits)
  qed
qed

text \<open>
  One turn consumes \<open>k > 0\<close> bytes of both records and writes either a literal block of these
  bytes or skip counts over equal bytes.
\<close>

definition diff_block :: "nat \<Rightarrow> UCHAR list \<Rightarrow> UCHAR list \<Rightarrow> UCHAR list \<Rightarrow> bool" where
  "diff_block k rec1 rec2 ctl \<longleftrightarrow>
     (k \<le> 127 \<and> ctl = of_nat k # take k rec2) \<or> (take k rec1 = take k rec2 \<and> ctl = no_diff_loop k)"

lemma diff_step_spec:
  assumes "diff_step N rec1 rec2 out = Some (rec1', rec2', out')" and "length rec1 > 2"
  shows "\<exists>k ctl. 0 < k \<and> k \<le> length rec1 \<and> k \<le> length rec2 \<and> rec1' = drop k rec1 \<and> rec2' = drop k rec2 \<and>
     out' = out @ ctl \<and> length out' \<le> N \<and> diff_block k rec1 rec2 ctl"
proof -
  obtain a b r1 c d r2 where r: "rec1 = a # b # r1" "rec2 = c # d # r2"
    using assms(1) by (cases "(N, rec1, rec2, out)" rule: diff_step.cases) auto
  show ?thesis
  proof (cases "a \<noteq> c \<or> b \<noteq> d")
    case True
    define n where "n = min (length rec1) 127"
    have n: "1 < n" "n \<le> length rec1" "n \<le> 127" using assms(2) by (auto simp: n_def)
    obtain o1 where l: "diff_literal N n rec1 rec2 (out @ [0]) = Some (rec1', rec2', o1)"
        and o': "out' = o1[length out := of_nat (length o1 - length out - 1)]"
      using assms(1) True by (auto simp: r n_def Let_def split: option.splits)
    obtain k where k: "k \<le> n" "k \<le> length rec2" "rec1' = drop k rec1" "rec2' = drop k rec2"
        "o1 = (out @ [0]) @ take k rec2" "k = 0 \<or> length o1 \<le> N"
      using diff_literal_spec [OF l n(2)] by auto
    have "length rec1' < length rec1"
      using diff_literal_progress [of N n a b r1 c d r2] l True n r by fastforce
    with k(3) have "0 < k" by (cases k) auto
    moreover have "out' = out @ of_nat k # take k rec2"
      using k o' by (simp add: list_update_append)
    ultimately show ?thesis
      using k n by (intro exI [of _ k] exI [of _ "of_nat k # take k rec2"]) (auto simp: diff_block_def)
  next
    case False
    define n where "n = common_prefix rec1 rec2"
    have "0 < n" using False by (auto simp: n_def r)
    moreover obtain o1 where "stuff_equal N n out = Some o1" "rec1' = drop n rec1" "rec2' = drop n rec2" "out' = o1"
      using assms(1) False unfolding n_def r by (auto simp only: diff_step.simps Let_def if_False split: option.splits)
    ultimately show ?thesis
      using stuff_equal_spec [of N n out o1] common_prefix_spec [of rec1 rec2]
      by (intro exI [of _ n] exI [of _ "no_diff_loop n"]) (auto simp: diff_block_def n_def)
  qed
qed

function diff_loop ::
  "nat \<Rightarrow> UCHAR list \<Rightarrow> UCHAR list \<Rightarrow> UCHAR list \<Rightarrow> (UCHAR list \<times> UCHAR list) option" where
  "diff_loop outLength rec1 rec2 out =
     (if length rec1 > 2 then
        (case diff_step outLength rec1 rec2 out of
           None \<Rightarrow> None
         | Some (rec1', rec2', out') \<Rightarrow> diff_loop outLength rec1' rec2' out')
      else Some (rec2, out))"
  by pat_completeness auto
termination
  by (relation "measure (\<lambda>(N, rec1, rec2, out). length rec1)")
     (auto dest!: diff_step_spec)

declare diff_loop.simps [simp del]

text \<open>The second loop copies what is left of \<open>rec2\<close> in blocks of at most 127 bytes.\<close>

fun stuff_all :: "nat \<Rightarrow> UCHAR list \<Rightarrow> UCHAR list \<Rightarrow> UCHAR list option" where
  "stuff_all outLength [] out = Some out"
| "stuff_all outLength (b # bs) out =
     (case STUFF outLength out b of None \<Rightarrow> None | Some out' \<Rightarrow> stuff_all outLength bs out')"

function diff_tail :: "nat \<Rightarrow> UCHAR list \<Rightarrow> UCHAR list \<Rightarrow> UCHAR list option" where
  "diff_tail outLength rec2 out =
     (if rec2 = [] then Some out
      else
        let p = length out; n = min (length rec2) 127
        in case stuff_all outLength (take n rec2) (out @ [0]) of
             None \<Rightarrow> None
           | Some out' \<Rightarrow>
               diff_tail outLength (drop n rec2) (out'[p := of_nat (length out' - p - 1)]))"
  by pat_completeness auto
termination
  by (relation "measure (\<lambda>(N, rec2, out). length rec2)") auto

declare diff_tail.simps [simp del]

definition makeDiff :: "UCHAR list \<Rightarrow> UCHAR list \<Rightarrow> nat \<Rightarrow> UCHAR list option" where
  "makeDiff rec1 rec2 outLength =
     (case diff_loop outLength (take (min (length rec1) (length rec2)) rec1) rec2 [] of
        None \<Rightarrow> None
      | Some (rec2', out) \<Rightarrow> diff_tail outLength rec2' out)"

section \<open>What a difference string does\<close>

text \<open>
  \<open>applies ctl p buf p' buf'\<close>: in any context, the difference string \<open>ctl\<close> takes the record
  from position \<open>p\<close> and contents \<open>buf\<close> to \<open>p'\<close> and \<open>buf'\<close>.
\<close>

definition applies :: "UCHAR list \<Rightarrow> nat \<Rightarrow> UCHAR list \<Rightarrow> nat \<Rightarrow> UCHAR list \<Rightarrow> bool" where
  "applies ctl p buf p' buf' \<longleftrightarrow>
     (\<forall>rest outLength. p' \<le> outLength \<longrightarrow>
        apply_loop (ctl @ rest) p outLength buf = apply_loop rest p' outLength buf')"

lemma applies_Nil: "applies [] p buf p buf"
  by (simp add: applies_def)

lemma applies_append:
  "applies c1 p b p1 b1 \<Longrightarrow> applies c2 p1 b1 p2 b2 \<Longrightarrow> p1 \<le> p2 \<Longrightarrow> applies (c1 @ c2) p b p2 b2"
  by (simp add: applies_def)

lemma applies_literal:
  assumes "0 < k" "k \<le> 127" "length xs = k"
  shows "applies (of_nat k # xs) p buf (p + k) (write_at p xs buf)"
  using assms by (auto simp: applies_def sint_literal)

lemma applies_skip1:
  assumes "0 < k" "k \<le> 127"
  shows "applies [- of_nat k] p buf (p + k) buf"
  using assms by (auto simp: applies_def sint_run)

lemma applies_no_diff_loop: "applies (no_diff_loop n) p buf (p + n) buf"
proof (induction n arbitrary: p rule: no_diff_loop.induct)
  case (1 n)
  show ?case
  proof (cases "n > 127")
    case True
    have "applies ([- of_nat 127] @ no_diff_loop (n - 127)) p buf (p + 127 + (n - 127)) buf"
      using "1.IH" [OF True, of "p + 127"] by (intro applies_append [OF applies_skip1]) auto
    with True show ?thesis by (simp add: no_diff_loop.simps [of n])
  next
    case False
    then show ?thesis
      using applies_skip1 [of n p buf] applies_Nil [of p buf]
      by (cases "n = 0") (auto simp: no_diff_loop.simps [of n] no_diff_loop.simps [of 0])
  qed
qed

text \<open>
  The invariant of both loops: \<open>out\<close> turns a buffer that starts like \<open>rec1\<close> into one whose first
  \<open>i\<close> bytes are those of \<open>rec2\<close>.
\<close>

definition mixed :: "nat \<Rightarrow> UCHAR list \<Rightarrow> UCHAR list \<Rightarrow> UCHAR list" where
  "mixed i rec2 buf = take i rec2 @ drop i buf"

lemma mixed_write:
  assumes "i + k \<le> length rec2" and "length rec2 \<le> length buf"
  shows "write_at i (take k (drop i rec2)) (mixed i rec2 buf) = mixed (i + k) rec2 buf"
proof -
  have "length (take i rec2) = i" "length (take k (drop i rec2)) = k" using assms(1) by simp_all
  then show ?thesis by (simp add: write_at_def mixed_def take_add add.commute)
qed

lemma mixed_skip:
  assumes "take k (drop i buf) = take k (drop i rec2)"
  shows "mixed i rec2 buf = mixed (i + k) rec2 buf"
proof -
  have "drop i buf = take k (drop i rec2) @ drop (i + k) buf"
    by (metis assms append_take_drop_id drop_drop add.commute)
  then show ?thesis by (simp add: mixed_def take_add)
qed

lemma diff_block_applies:
  assumes "diff_block k (drop i r1) (drop i rec2) ctl" and "0 < k" and "i + k \<le> length r1"
    and "i + k \<le> length rec2" and "length rec2 \<le> length buf" and "take (length r1) buf = r1"
  shows "applies ctl i (mixed i rec2 buf) (i + k) (mixed (i + k) rec2 buf)"
proof -
  consider (lit) "k \<le> 127" "ctl = of_nat k # take k (drop i rec2)"
    | (skip) "take k (drop i r1) = take k (drop i rec2)" "ctl = no_diff_loop k"
    using assms(1) by (auto simp: diff_block_def)
  then show ?thesis
  proof cases
    case lit
    then show ?thesis
      using applies_literal [of k "take k (drop i rec2)" i "mixed i rec2 buf"] assms(2,4,5)
      by (simp add: mixed_write)
  next
    case skip
    have "take k (drop i buf) = take k (drop i r1)"
      by (subst assms(6) [symmetric]) (use assms(3) in \<open>simp add: take_drop min_absorb1 add.commute\<close>)
    with skip show ?thesis
      using applies_no_diff_loop [of k i] mixed_skip [of k i buf rec2] by simp
  qed
qed

lemma diff_loop_applies:
  assumes "diff_loop N (drop i r1) (drop i rec2) out = Some (rec2', out')"
    and "applies out 0 buf i (mixed i rec2 buf)" and "i \<le> length r1" and "length r1 \<le> length rec2"
    and "length rec2 \<le> length buf" and "take (length r1) buf = r1" and "length out \<le> N"
  shows "\<exists>j. i \<le> j \<and> j \<le> length rec2 \<and> rec2' = drop j rec2 \<and> applies out' 0 buf j (mixed j rec2 buf) \<and> length out' \<le> N"
  using assms
proof (induction "length r1 - i" arbitrary: i out rule: less_induct)
  case less
  show ?case
  proof (cases "length (drop i r1) > 2")
    case True
    obtain x1 x2 o1 where st: "diff_step N (drop i r1) (drop i rec2) out = Some (x1, x2, o1)"
      using less.prems(1) True by (auto simp: diff_loop.simps [of N "drop i r1"] split: option.splits)
    obtain k ctl where k: "0 < k" "k \<le> length (drop i r1)" "x1 = drop (i + k) r1" "x2 = drop (i + k) rec2"
        "o1 = out @ ctl" "length o1 \<le> N" "diff_block k (drop i r1) (drop i rec2) ctl"
      using diff_step_spec [OF st True] by (auto simp: add.commute)
    have ik: "i + k \<le> length r1" using k(1,2) by auto
    then have ik2: "i + k \<le> length rec2" using less.prems(4) by simp
    have "applies o1 0 buf (i + k) (mixed (i + k) rec2 buf)"
      using applies_append [OF less.prems(2) diff_block_applies [OF k(7,1) ik ik2 less.prems(5,6)]] k(5) by simp
    moreover have "diff_loop N (drop (i + k) r1) (drop (i + k) rec2) o1 = Some (rec2', out')"
      using less.prems(1) True st k(3,4) by (simp add: diff_loop.simps [of N "drop i r1"])
    moreover have "length r1 - (i + k) < length r1 - i" using ik k(1) by simp
    ultimately obtain j where "i + k \<le> j" "j \<le> length rec2" "rec2' = drop j rec2"
        "applies out' 0 buf j (mixed j rec2 buf)" "length out' \<le> N"
      using less.hyps [of "i + k" o1] ik less.prems(4-6) k(6) by blast
    then show ?thesis by (intro exI [of _ j]) simp
  next
    case False
    then have "rec2' = drop i rec2" "out' = out"
      using less.prems(1) by (auto simp: diff_loop.simps [of N "drop i r1"])
    then show ?thesis using less.prems by (intro exI [of _ i]) auto
  qed
qed

lemma stuff_all_spec:
  "stuff_all N bs out = Some out' \<Longrightarrow> out' = out @ bs \<and> (bs = [] \<or> length out' \<le> N)"
  by (induction N bs out arbitrary: out' rule: stuff_all.induct)
     (fastforce simp: STUFF_Some split: option.splits)+

lemma diff_tail_applies:
  assumes "diff_tail N (drop i rec2) out = Some out'"
    and "applies out 0 buf i (mixed i rec2 buf)" and "i \<le> length rec2" and "length rec2 \<le> length buf"
    and "length out \<le> N"
  shows "applies out' 0 buf (length rec2) (mixed (length rec2) rec2 buf) \<and> length out' \<le> N"
  using assms
proof (induction "length rec2 - i" arbitrary: i out rule: less_induct)
  case less
  show ?case
  proof (cases "drop i rec2 = []")
    case True
    then show ?thesis using less.prems by (simp add: diff_tail.simps [of N "[]"])
  next
    case False
    define n where "n = min (length (drop i rec2)) 127"
    have n: "0 < n" "n \<le> 127" "i + n \<le> length rec2" using False by (auto simp: n_def)
    obtain o1 where o1: "stuff_all N (take n (drop i rec2)) (out @ [0]) = Some o1"
        "diff_tail N (drop n (drop i rec2)) (o1[length out := of_nat (length o1 - length out - 1)]) = Some out'"
      using less.prems(1) False unfolding diff_tail.simps [of N "drop i rec2"] Let_def n_def
      by (auto split: option.splits)
    have eq: "o1[length out := of_nat (length o1 - length out - 1)] = out @ of_nat n # take n (drop i rec2)"
      and len: "length o1 \<le> N"
      using stuff_all_spec [OF o1(1)] n by (auto simp: list_update_append)
    have "applies (out @ of_nat n # take n (drop i rec2)) 0 buf (i + n) (mixed (i + n) rec2 buf)"
      using applies_append [OF less.prems(2) applies_literal [of n "take n (drop i rec2)"]] n
        mixed_write [OF n(3) less.prems(4)] by simp
    moreover have "length (out @ of_nat n # take n (drop i rec2)) \<le> N"
      using stuff_all_spec [OF o1(1)] len by simp
    moreover have "length rec2 - (i + n) < length rec2 - i" using n by simp
    ultimately show ?thesis
      using less.hyps [of "i + n"] o1(2) n(3) less.prems(4) unfolding eq by (simp add: add.commute)
  qed
qed

lemma applies_applyDiff:
  assumes "applies d 0 buf n buf'" and "length d \<le> MAX_DIFFERENCES" and "n \<le> outLength"
  shows "applyDiff d outLength buf = Inr (n, buf')"
proof -
  have "apply_loop (d @ []) 0 outLength buf = apply_loop [] n outLength buf'"
    using assms(1,3) unfolding applies_def by blast
  with assms(2,3) show ?thesis by (simp add: applyDiff_def)
qed

lemma makeDiff_applies:
  assumes "makeDiff rec1 rec2 N = Some d" and "take (length rec1) buf = rec1" and "length rec2 \<le> length buf"
  shows "applies d 0 buf (length rec2) (mixed (length rec2) rec2 buf) \<and> length d \<le> N"
proof -
  define r1 where "r1 = take (min (length rec1) (length rec2)) rec1"
  obtain x o1 where x: "diff_loop N r1 rec2 [] = Some (x, o1)" "diff_tail N x o1 = Some d"
    using assms(1) by (auto simp: makeDiff_def r1_def split: option.splits)
  have r1: "length r1 \<le> length rec2" by (simp add: r1_def)
  have r1': "take (length r1) buf = r1"
  proof -
    have "take (length r1) buf = take (length r1) (take (length rec1) buf)" by (simp add: r1_def)
    also have "\<dots> = take (length r1) rec1" by (simp only: assms(2))
    also have "\<dots> = r1" by (simp add: r1_def)
    finally show ?thesis .
  qed
  have "applies [] 0 buf 0 (mixed 0 rec2 buf)" by (simp add: mixed_def applies_Nil)
  then obtain j where j: "j \<le> length rec2" "x = drop j rec2" "applies o1 0 buf j (mixed j rec2 buf)" "length o1 \<le> N"
    using diff_loop_applies [of N 0 r1 rec2 "[]" x o1 buf] x(1) r1 r1' assms(3) by auto
  show ?thesis
    using diff_tail_applies [of N j rec2 o1 d buf] x(2) j assms(3) by simp
qed

section \<open>Space that is enough for a difference\<close>

lemma STUFF_enough: "length out < N \<Longrightarrow> STUFF N out v = Some (out @ [v])"
  by (simp add: STUFF_def)

lemma no_diff_loop_length: "length (no_diff_loop n) \<le> n"
proof (induction n rule: no_diff_loop.induct)
  case (1 n)
  then show ?case by (cases "n > 127") (auto simp: no_diff_loop.simps [of n])
qed

lemma diff_literal_enough:
  "length out + n \<le> N \<Longrightarrow> \<exists>r. diff_literal N n rec1 rec2 out = Some r"
  by (induction N n rec1 rec2 out rule: diff_literal.induct) (auto simp: STUFF_enough)

lemma stuff_equal_enough:
  "length out + length (no_diff_loop n) \<le> N \<Longrightarrow> \<exists>r. stuff_equal N n out = Some r"
proof (induction N n out rule: stuff_equal.induct)
  case (1 N n out)
  then show ?case
    by (cases "n > 127") (auto simp: stuff_equal.simps [of N n] no_diff_loop.simps [of n] STUFF_enough)
qed

lemma stuff_all_enough: "length out + length bs \<le> N \<Longrightarrow> \<exists>r. stuff_all N bs out = Some r"
  by (induction N bs out rule: stuff_all.induct) (auto simp: STUFF_enough)

lemma diff_step_enough:
  assumes "length rec1 > 2" and "length rec1 \<le> length rec2" and "length out + 1 + length rec1 \<le> N"
  shows "\<exists>r. diff_step N rec1 rec2 out = Some r"
proof -
  obtain a b r1 where r1: "rec1 = a # b # r1" using assms(1) by (cases rec1; cases "tl rec1") auto
  obtain c d r2 where r2: "rec2 = c # d # r2" using assms(1,2) by (cases rec2; cases "tl rec2") auto
  show ?thesis
  proof (cases "a \<noteq> c \<or> b \<noteq> d")
    case True
    obtain r where "diff_literal N (min (length rec1) 127) rec1 rec2 (out @ [0]) = Some r"
      using diff_literal_enough [of "out @ [0]" "min (length rec1) 127" N] assms(3) by force
    with True show ?thesis unfolding r1 r2 by (cases r) (simp add: Let_def)
  next
    case False
    obtain r where "stuff_equal N (common_prefix rec1 rec2) out = Some r"
      using stuff_equal_enough [of out "common_prefix rec1 rec2" N] assms(3)
        no_diff_loop_length [of "common_prefix rec1 rec2"] common_prefix_spec [of rec1 rec2] by force
    with False show ?thesis
      unfolding r1 r2 by (simp only: diff_step.simps Let_def if_False option.case) blast
  qed
qed

lemma diff_block_length: "diff_block k rec1 rec2 ctl \<Longrightarrow> 0 < k \<Longrightarrow> length ctl \<le> 2 * k"
  using no_diff_loop_length [of k] by (auto simp: diff_block_def)

lemma diff_loop_enough:
  "length rec1 \<le> length rec2 \<Longrightarrow> length out + 2 * length rec2 \<le> N \<Longrightarrow>
     \<exists>rec2' out'. diff_loop N rec1 rec2 out = Some (rec2', out') \<and> length out' + 2 * length rec2' \<le> N"
proof (induction "length rec1" arbitrary: rec1 rec2 out rule: less_induct)
  case less
  show ?case
  proof (cases "length rec1 > 2")
    case True
    obtain x1 x2 o1 where st: "diff_step N rec1 rec2 out = Some (x1, x2, o1)"
      using diff_step_enough [OF True less.prems(1), of out N] less.prems True by fastforce
    obtain k ctl where k: "0 < k" "k \<le> length rec1" "k \<le> length rec2" "x1 = drop k rec1" "x2 = drop k rec2"
        "o1 = out @ ctl" "diff_block k rec1 rec2 ctl"
      using diff_step_spec [OF st True] by blast
    have "length o1 + 2 * length x2 \<le> N"
      using diff_block_length [OF k(7,1)] k less.prems(2) by auto
    then show ?thesis
      using less.hyps [of x1 x2 o1] k less.prems(1) True st by (simp add: diff_loop.simps [of N rec1])
  next
    case False
    then show ?thesis using less.prems by (auto simp: diff_loop.simps [of N rec1])
  qed
qed

lemma diff_tail_enough:
  "length out + 2 * length rec2 \<le> N \<Longrightarrow> \<exists>d. diff_tail N rec2 out = Some d"
proof (induction "length rec2" arbitrary: rec2 out rule: less_induct)
  case less
  show ?case
  proof (cases "rec2 = []")
    case False
    define n where "n = min (length rec2) 127"
    have n: "0 < n" "n \<le> length rec2" using False by (auto simp: n_def)
    obtain o1 where o1: "stuff_all N (take n rec2) (out @ [0]) = Some o1"
      using stuff_all_enough [of "out @ [0]" "take n rec2" N] n less.prems by force
    have len: "length (o1[length out := v]) + 2 * length (drop n rec2) \<le> N" for v
      using stuff_all_spec [OF o1] n less.prems by auto
    show ?thesis
      using less.hyps [OF _ len] False n o1
      by (simp add: diff_tail.simps [of N rec2] n_def [symmetric] Let_def)
  qed (simp add: diff_tail.simps [of N "[]"])
qed

section \<open>Properties\<close>

text \<open>
  C14. Applying the difference of two records to a buffer that holds the first one produces the
  second one and returns its length, with the rest of the buffer untouched; the difference
  string fits the space it was given. The records may have different lengths.
\<close>

theorem applyDiff_makeDiff:
  assumes "makeDiff rec1 rec2 N = Some d" and "N \<le> MAX_DIFFERENCES"
    and "take (length rec1) buf = rec1" and "length rec2 \<le> outLength" and "outLength \<le> length buf"
  shows "applyDiff d outLength buf = Inr (length rec2, rec2 @ drop (length rec2) buf) \<and> length d \<le> N"
proof -
  have "applies d 0 buf (length rec2) (mixed (length rec2) rec2 buf) \<and> length d \<le> N"
    using makeDiff_applies [OF assms(1,3)] assms(4,5) by simp
  then show ?thesis
    using applies_applyDiff [of d buf "length rec2" "mixed (length rec2) rec2 buf" outLength] assms(2,4)
    by (simp add: mixed_def)
qed

theorem applyDiff_makeDiff_witness:
  "applyDiff [-3, 2, 9, 9, 3, 6, 7, 8] 8 [1, 2, 3, 4, 5, 6, 0, 0] =
     Inr (8, [1, 2, 3, 9, 9, 6, 7, 8])"
proof -
  have d: "makeDiff [1, 2, 3, 4, 5, 6] [1, 2, 3, 9, 9, 6, 7, 8] 100 = Some [-3, 2, 9, 9, 3, 6, 7, 8]"
    by code_simp
  show ?thesis
    using applyDiff_makeDiff [OF d, of "[1, 2, 3, 4, 5, 6, 0, 0]" 8] by (simp add: MAX_DIFFERENCES_def)
qed

text \<open>
  \<open>makeDiff\<close> gives up (\<open>MAX_ULONG\<close>) only for lack of space: twice the length of the
  second record is always enough.
\<close>

theorem makeDiff_enough_space:
  assumes "2 * length rec2 \<le> N"
  shows "\<exists>d. makeDiff rec1 rec2 N = Some d"
proof -
  obtain x o1 where "diff_loop N (take (min (length rec1) (length rec2)) rec1) rec2 [] = Some (x, o1)"
      "length o1 + 2 * length x \<le> N"
    using diff_loop_enough [of "take (min (length rec1) (length rec2)) rec1" rec2 "[]" N] assms by auto
  then show ?thesis using diff_tail_enough [of o1 x N] by (simp add: makeDiff_def)
qed

theorem makeDiff_enough_space_witness:
  "\<exists>d. makeDiff [1, 2, 3, 4] [1, 7, 3, 8, 5] 10 = Some d"
  by (rule makeDiff_enough_space) simp

text \<open>
  The no-difference record of a length keeps a record of that length unchanged.
\<close>

theorem applyDiff_makeNoDiff:
  assumes "unat n < 2 ^ 31" and "length (makeNoDiff n) \<le> MAX_DIFFERENCES" and "unat n \<le> outLength"
  shows "applyDiff (makeNoDiff n) outLength buf = Inr (unat n, buf)"
proof -
  have "makeNoDiff n = no_diff_loop (unat n)" using assms(1) by (simp add: makeNoDiff_def sint_cases)
  then show ?thesis
    using applies_applyDiff [OF _ assms(2,3), of buf buf] applies_no_diff_loop [of "unat n" 0 buf] by simp
qed

theorem applyDiff_makeNoDiff_witness:
  "applyDiff (makeNoDiff 130) 130 (replicate 130 7) = Inr (130, replicate 130 7)"
proof -
  have "unat (130 :: ULONG) = 130" by simp
  moreover have "makeNoDiff 130 = [-127, -3]" by (simp add: makeNoDiff_def sint_cases no_diff_loop.simps)
  ultimately show ?thesis
    using applyDiff_makeNoDiff [of 130 130 "replicate 130 7"] by (simp add: MAX_DIFFERENCES_def)
qed

end
