(* ===== verification/FB_Kmp.thy ===== *)
theory FB_Kmp
  imports FB_Prelude "HOL-Library.Sublist"
begin

text \<open>
  The string evaluators behind \<^verbatim>\<open>STARTING WITH\<close> and \<^verbatim>\<open>CONTAINING\<close>
  (\<^verbatim>\<open>src/jrd/evl_string.h\<close>): the Knuth-Morris-Pratt jump table, the incremental search that
  uses it and the incremental prefix test. Each evaluator is fed the value in chunks.
  Characters are values of any type with equality (\<^verbatim>\<open>CharType\<close>), \<^verbatim>\<open>SLONG\<close> offsets are \<open>int\<close>.
\<close>

section \<open>The jump table\<close>

text \<open>
  The loop \<^verbatim>\<open>while (j > -1 && x[j] != c) j = kmpNext[j]\<close>, used by the table construction and by
  both searches. \<open>None\<close> means it does not stop.
\<close>

partial_function (option) kmp_back :: "'a list \<Rightarrow> int list \<Rightarrow> 'a \<Rightarrow> int \<Rightarrow> int option" where
  "kmp_back x kmpNext c j =
     (if j > -1 \<and> x ! nat j \<noteq> c then kmp_back x kmpNext c (kmpNext ! nat j) else Some j)"

declare kmp_back.simps [code]

text \<open>A write into an allocated array; \<open>None\<close> is a write past its end.\<close>

definition array_write :: "int list \<Rightarrow> nat \<Rightarrow> int \<Rightarrow> int list option" where
  "array_write a i v = (if i < length a then Some (a[i := v]) else None)"

text \<open>
  \<open>preKmp\<close> works on the \<open>m + 1\<close> array elements \<open>kmpNext\<close> the caller allocated (\<open>mem\<close>). The loop is
  entered with the position \<open>i\<close>; \<open>d\<close> counts the turns left, \<open>m - 1 - i\<close>.
\<close>

fun preKmp_loop :: "'a list \<Rightarrow> nat \<Rightarrow> nat \<Rightarrow> int \<Rightarrow> int list \<Rightarrow> (nat \<times> int \<times> int list) option" where
  "preKmp_loop x 0 i j kmpNext = Some (i, j, kmpNext)"
| "preKmp_loop x (Suc d) i j kmpNext =
     (case kmp_back x kmpNext (x ! i) j of
        None \<Rightarrow> None
      | Some j' \<Rightarrow>
          let i1 = i + 1; j1 = j' + 1;
              v = (if x ! i1 = x ! nat j1 then kmpNext ! nat j1 else j1)
          in case array_write kmpNext i1 v of
               None \<Rightarrow> None
             | Some kmpNext' \<Rightarrow> preKmp_loop x d i1 j1 kmpNext')"

definition preKmp :: "'a list \<Rightarrow> int list \<Rightarrow> int list option" where
  "preKmp x mem =
     (case array_write mem 0 (-1) of
        None \<Rightarrow> None
      | Some kmpNext \<Rightarrow>
          (case preKmp_loop x (length x - 1) 0 (-1) kmpNext of
             None \<Rightarrow> None
           | Some (i, j, kmpNext') \<Rightarrow>
               (case kmp_back x kmpNext' (x ! i) j of
                  None \<Rightarrow> None
                | Some j' \<Rightarrow> array_write kmpNext' (i + 1) (j' + 1))))"

section \<open>Borders\<close>

text \<open>
  \<open>border x j k\<close>: the first \<open>k\<close> characters of \<open>x\<close> are a proper suffix of its first \<open>j\<close>.
\<close>

definition border :: "'a list \<Rightarrow> nat \<Rightarrow> nat \<Rightarrow> bool" where
  "border x j k \<longleftrightarrow> k < j \<and> suffix (take k x) (take j x)"

lemma suffix_comparable:
  assumes "suffix a t" "suffix b t" "length a \<le> length b"
  shows "suffix a b"
  using assms by (meson suffix_length_suffix)

lemma border_0 [simp]: "border x j 0 \<longleftrightarrow> 0 < j"
  by (auto simp: border_def)

lemma border_trans: "border x j k \<Longrightarrow> border x k l \<Longrightarrow> border x j l"
  by (auto simp: border_def intro: suffix_order.trans)

lemma border_below:
  assumes "border x i j" "border x i k" "k < j" "i \<le> length x"
  shows "border x j k"
  using assms suffix_comparable [of "take k x" "take i x" "take j x"] by (auto simp: border_def)

lemma border_Suc:
  assumes "i < length x"
  shows "border x (Suc i) (Suc k) \<longleftrightarrow> border x i k \<and> x ! k = x ! i"
  using assms by (auto simp: border_def take_Suc_conv_app_nth)

text \<open>
  What an entry of the table below the pattern length holds: the longest border whose next
  character differs, or \<open>-1\<close>.
\<close>

definition good_entry :: "'a list \<Rightarrow> nat \<Rightarrow> int \<Rightarrow> bool" where
  "good_entry x j v \<longleftrightarrow>
     (v = -1 \<or> (\<exists>k. v = int k \<and> border x j k \<and> x ! k \<noteq> x ! j)) \<and>
     (\<forall>k. border x j k \<and> v < int k \<longrightarrow> x ! k = x ! j)"

text \<open>The longest border, \<open>-1\<close> at position 0.\<close>

definition longest_border :: "'a list \<Rightarrow> nat \<Rightarrow> int \<Rightarrow> bool" where
  "longest_border x i v \<longleftrightarrow>
     (if i = 0 then v = -1
      else \<exists>k. v = int k \<and> border x i k \<and> (\<forall>k'. border x i k' \<longrightarrow> k' \<le> k))"

text \<open>Where the loop stops, started at a prefix length \<open>j\<close> whose entries are good.\<close>

definition back_result :: "'a list \<Rightarrow> 'a \<Rightarrow> int \<Rightarrow> int \<Rightarrow> bool" where
  "back_result x c j r \<longleftrightarrow>
     -1 \<le> r \<and> r \<le> j \<and>
     (0 \<le> r \<longrightarrow> x ! nat r = c \<and> (r = j \<or> border x (nat j) (nat r))) \<and>
     (\<forall>k. int k = j \<or> (0 \<le> j \<and> border x (nat j) k) \<longrightarrow> r < int k \<longrightarrow> x ! k \<noteq> c)"

lemma kmp_back_correct:
  assumes "\<And>k. int k \<le> j \<Longrightarrow> good_entry x k (kmpNext ! k)" and "-1 \<le> j" and "j < int (length x)"
  shows "\<exists>r. kmp_back x kmpNext c j = Some r \<and> back_result x c j r"
  using assms
proof (induction "nat (j + 1)" arbitrary: j rule: less_induct)
  case less
  show ?case
  proof (cases "j > -1 \<and> x ! nat j \<noteq> c")
    case False
    then have "kmp_back x kmpNext c j = Some j" by (subst kmp_back.simps) auto
    moreover have "back_result x c j j"
      using False less.prems(2) by (auto simp: back_result_def border_def)
    ultimately show ?thesis by blast
  next
    case True
    define v where "v = kmpNext ! nat j"
    have g: "good_entry x (nat j) v" using less.prems(1) [of "nat j"] True by (simp add: v_def)
    then have v: "-1 \<le> v" "v < j" using True by (auto simp: good_entry_def border_def)
    have gs: "\<And>k. int k \<le> v \<Longrightarrow> good_entry x k (kmpNext ! k)" using less.prems(1) v(2) by simp
    obtain r where r: "kmp_back x kmpNext c v = Some r" "back_result x c v r"
      using less.hyps [of v, OF _ gs] v less.prems(3) by fastforce
    have bv: "0 \<le> v \<Longrightarrow> border x (nat j) (nat v)" using g by (auto simp: good_entry_def)
    have "back_result x c j r"
      unfolding back_result_def
    proof (intro conjI allI impI)
      show "-1 \<le> r" "r \<le> j" using r(2) v by (auto simp: back_result_def)
      show "x ! nat r = c" if "0 \<le> r" using r(2) that by (auto simp: back_result_def)
      show "r = j \<or> border x (nat j) (nat r)" if "0 \<le> r"
        using r(2) that bv border_trans [of x "nat j" "nat v" "nat r"] by (auto simp: back_result_def)
      show "x ! k \<noteq> c" if k: "int k = j \<or> (0 \<le> j \<and> border x (nat j) k)" "r < int k" for k
      proof -
        consider "int k = j" | "border x (nat j) k" "v < int k" | "border x (nat j) k" "int k = v"
          | "border x (nat j) k" "int k < v" using k by fastforce
        then show ?thesis
        proof cases
          case 1 then show ?thesis using True by auto
        next
          case 2 then show ?thesis using g True by (auto simp: good_entry_def)
        next
          case 3 then show ?thesis using r(2) k(2) by (auto simp: back_result_def)
        next
          case 4
          then have "border x (nat v) k"
            using border_below [OF bv _ _, of k] less.prems(3) by auto
          then show ?thesis using r(2) k(2) 4 by (auto simp: back_result_def)
        qed
      qed
    qed
    then show ?thesis
      using r(1) True by (auto simp: kmp_back.simps [of x kmpNext c j] v_def)
  qed
qed

lemma longest_border_cases:
  assumes "longest_border x i v" and "i \<le> length x"
  shows "border x i k \<longleftrightarrow> int k = v \<or> (0 \<le> v \<and> border x (nat v) k)"
proof (cases "i = 0")
  case True
  then show ?thesis using assms by (auto simp: longest_border_def border_def)
next
  case False
  then obtain l where l: "v = int l" "border x i l" "\<And>k'. border x i k' \<Longrightarrow> k' \<le> l"
    using assms(1) by (auto simp: longest_border_def)
  show ?thesis
  proof
    assume k: "border x i k"
    then show "int k = v \<or> (0 \<le> v \<and> border x (nat v) k)"
      using l border_below [OF l(2) k _ assms(2)] by (cases "k = l") (auto simp: le_less)
  next
    assume "int k = v \<or> (0 \<le> v \<and> border x (nat v) k)"
    then show "border x i k" using l border_trans by auto
  qed
qed

text \<open>One turn of the outer loop moves from the longest border of \<open>i\<close> to that of \<open>i + 1\<close>.\<close>

lemma longest_border_step:
  assumes lb: "longest_border x i j" and i: "i < length x" and r: "back_result x (x ! i) j r"
  shows "longest_border x (Suc i) (r + 1)"
proof -
  have all: "border x i k \<longleftrightarrow> int k = j \<or> (0 \<le> j \<and> border x (nat j) k)" for k
    using longest_border_cases [OF lb] i by simp
  have max: "x ! k \<noteq> x ! i" if "border x i k" "r < int k" for k
    using r that all by (auto simp: back_result_def)
  define k where "k = nat (r + 1)"
  have r1: "r + 1 = int k" using r by (simp add: k_def back_result_def)
  have "border x (Suc i) k"
  proof (cases k)
    case (Suc k')
    then have "r = int k'" using r1 by simp
    then have "border x i k'" "x ! k' = x ! i" using r all by (auto simp: back_result_def)
    then show ?thesis using border_Suc [OF i] Suc by simp
  qed simp
  moreover have "k'' \<le> k" if "border x (Suc i) k''" for k''
    using that border_Suc [OF i] max r1 by (cases k'') (auto simp: not_less [symmetric])
  ultimately show ?thesis by (auto simp: longest_border_def r1)
qed

lemma good_entry_step:
  assumes lb: "longest_border x i (int j)" and i: "i < length x"
    and g: "good_entry x j v"
  shows "good_entry x i (if x ! i = x ! j then v else int j)"
proof -
  have all: "border x i k \<longleftrightarrow> k = j \<or> border x j k" for k
    using longest_border_cases [OF lb] i by auto
  show ?thesis
    using g all by (auto simp: good_entry_def border_def)
qed

lemma preKmp_loop_correct:
  assumes "i + d = length x - 1" and "x \<noteq> []" and "longest_border x i j"
    and "\<And>k. k \<le> i \<Longrightarrow> good_entry x k (kmpNext ! k)" and "length kmpNext = length x + 1"
  shows "\<exists>j' kmpNext'. preKmp_loop x d i j kmpNext = Some (length x - 1, j', kmpNext') \<and>
     longest_border x (length x - 1) j' \<and> length kmpNext' = length x + 1 \<and>
     (\<forall>k \<le> length x - 1. good_entry x k (kmpNext' ! k))"
  using assms
proof (induction d arbitrary: i j kmpNext)
  case (Suc d)
  have i: "i < length x" "Suc i < length x" using Suc.prems(1) by auto
  have j: "-1 \<le> j" "j < int i \<or> i = 0 \<and> j = -1"
    using Suc.prems(3) by (auto simp: longest_border_def border_def split: if_splits)
  obtain r where r: "kmp_back x kmpNext (x ! i) j = Some r" "back_result x (x ! i) j r"
    using kmp_back_correct [of j x kmpNext "x ! i"] Suc.prems(4) i j by force
  have lb: "longest_border x (Suc i) (r + 1)" by (rule longest_border_step [OF Suc.prems(3) i(1) r(2)])
  define k where "k = nat (r + 1)"
  have k: "r + 1 = int k" "k \<le> i" using r(2) lb by (auto simp: k_def back_result_def longest_border_def border_def)
  define v where "v = (if x ! Suc i = x ! k then kmpNext ! k else int k)"
  have "good_entry x (Suc i) v"
    unfolding v_def using good_entry_step [OF lb [unfolded k(1)] i(2)] Suc.prems(4) [OF k(2)] by blast
  then have g: "\<And>k. k \<le> Suc i \<Longrightarrow> good_entry x k (kmpNext[Suc i := v] ! k)"
    using Suc.prems(4,5) i by (auto simp: nth_list_update le_Suc_eq)
  have "preKmp_loop x (Suc d) i j kmpNext = preKmp_loop x d (Suc i) (int k) (kmpNext[Suc i := v])"
    using r(1) k(1) i Suc.prems(5) by (simp add: array_write_def v_def Let_def add.commute [of 1])
  then show ?case
    using Suc.IH [OF _ Suc.prems(2) lb [unfolded k(1)] g] Suc.prems(1,5) by simp
qed auto

text \<open>The finished table.\<close>

definition kmp_table :: "'a list \<Rightarrow> int list \<Rightarrow> bool" where
  "kmp_table x kmpNext \<longleftrightarrow> length kmpNext = length x + 1 \<and>
     (\<forall>k < length x. good_entry x k (kmpNext ! k)) \<and> longest_border x (length x) (kmpNext ! length x)"

lemma preKmp_correct:
  assumes "x \<noteq> []" and "length mem = length x + 1"
  shows "\<exists>kmpNext. preKmp x mem = Some kmpNext \<and> kmp_table x kmpNext"
proof -
  define m where "m = length x - 1"
  have m: "m < length x" "length x = Suc m" using assms(1) by (auto simp: m_def)
  have g0: "\<And>k. k \<le> 0 \<Longrightarrow> good_entry x k ((mem[0 := -1]) ! k)"
    using assms(2) by (auto simp: good_entry_def border_def)
  have lb0: "longest_border x 0 (-1)" by (simp add: longest_border_def)
  obtain j kn where l: "preKmp_loop x m 0 (-1) (mem[0 := -1]) = Some (m, j, kn)" "longest_border x m j"
      "length kn = length x + 1" "\<And>k. k \<le> m \<Longrightarrow> good_entry x k (kn ! k)"
    using preKmp_loop_correct [of 0 m x "-1" "mem[0 := -1]", OF _ assms(1) lb0 g0] assms(2)
    by (auto simp: m_def)
  have j: "-1 \<le> j" "j < int m \<or> m = 0 \<and> j = -1"
    using l(2) by (auto simp: longest_border_def border_def split: if_splits)
  obtain r where r: "kmp_back x kn (x ! m) j = Some r" "back_result x (x ! m) j r"
    using kmp_back_correct [of j x kn "x ! m"] l(4) m j by force
  have "longest_border x (Suc m) (r + 1)" by (rule longest_border_step [OF l(2) m(1) r(2)])
  then have "kmp_table x (kn[Suc m := r + 1])"
    using l(3,4) m by (auto simp: kmp_table_def nth_list_update)
  moreover have "preKmp x mem = Some (kn[Suc m := r + 1])"
    using l(1,3) r(1) assms m by (simp add: preKmp_def array_write_def m_def [symmetric])
  ultimately show ?thesis by blast
qed

lemma preKmp_empty_pattern: "preKmp [] [v] = None"
  by (simp add: preKmp_def array_write_def kmp_back.simps)

end
