(* ===== verification/FB_Evl_String.thy ===== *)
theory FB_Evl_String
  imports FB_Kmp
begin

text \<open>
  The chunk-wise evaluators \<^verbatim>\<open>StartsEvaluator\<close> and \<^verbatim>\<open>ContainsEvaluator\<close> and their allocator
  (\<^verbatim>\<open>src/jrd/evl_string.h\<close>), and the loop of \<^verbatim>\<open>src/dsql/BoolNodes.cpp\<close> that feeds a blob to an
  evaluator until it says that more data cannot change the result.
\<close>

section \<open>The allocator of the evaluators\<close>

datatype alloc_result = StaticBuffer nat | PoolChunk nat

record StaticAllocator =
  allocated :: int
  chunksToFree :: "nat list"

definition STATIC_PATTERN_BUFFER :: int where
  "STATIC_PATTERN_BUFFER = 256"

text \<open>\<^verbatim>\<open>ROUNDUP(n, b)\<close> for a power of two \<open>b\<close>, as the macro writes it.\<close>

definition ROUNDUP :: "int \<Rightarrow> int \<Rightarrow> int" where
  "ROUNDUP n b = and (n + b - 1) (not (b - 1))"

definition StaticAllocator_new :: StaticAllocator where
  "StaticAllocator_new = \<lparr>allocated = 0, chunksToFree = []\<rparr>"

definition alloc :: "int \<Rightarrow> StaticAllocator \<Rightarrow> int \<Rightarrow> alloc_result \<times> StaticAllocator" where
  "alloc FB_ALIGNMENT a count =
     (let localCount = ROUNDUP count FB_ALIGNMENT
      in if allocated a + localCount \<le> STATIC_PATTERN_BUFFER
         then (StaticBuffer (nat (allocated a)), a\<lparr>allocated := allocated a + localCount\<rparr>)
         else (PoolChunk (nat count), a\<lparr>chunksToFree := chunksToFree a @ [nat count]\<rparr>))"

lemma ROUNDUP_power: "ROUNDUP n (2 ^ k) = (n + 2 ^ k - 1) div 2 ^ k * 2 ^ k"
proof -
  have "and x (not (2 ^ k - 1)) = push_bit k (drop_bit k x)" for x :: int
    by (simp add: bit_eq_iff bit_simps flip: mask_eq_exp_minus_1) auto
  then show ?thesis by (simp add: ROUNDUP_def push_bit_eq_mult drop_bit_eq_div)
qed

lemma ROUNDUP_ge: "n \<le> ROUNDUP n (2 ^ k)"
proof -
  have "n + 2 ^ k - 1 = (n + 2 ^ k - 1) div 2 ^ k * 2 ^ k + (n + 2 ^ k - 1) mod 2 ^ k"
    by (rule div_mult_mod_eq [symmetric])
  moreover have "(n + 2 ^ k - 1) mod 2 ^ k < 2 ^ k" by simp
  ultimately show ?thesis unfolding ROUNDUP_power by linarith
qed

text \<open>
  A block handed out from the static buffer lies inside it, past every block handed out
  before.
\<close>

lemma alloc_static_block:
  assumes "alloc (2 ^ k) a count = (StaticBuffer off, a')" and "0 \<le> allocated a" and "0 \<le> count"
  shows "int off = allocated a" and "int off + count \<le> allocated a'" and "allocated a' \<le> STATIC_PATTERN_BUFFER"
  using assms ROUNDUP_ge [of count k] by (auto simp: alloc_def Let_def split: if_splits)

section \<open>The interface of an evaluator\<close>

text \<open>
  The feeding loop: \<open>process\<close> answers whether more data can change the result; \<open>None\<close> means that
  a call does not return.
\<close>

fun feed :: "('s \<Rightarrow> 'a list \<Rightarrow> (bool \<times> 's) option) \<Rightarrow> 's \<Rightarrow> 'a list list \<Rightarrow> 's option" where
  "feed process s [] = Some s"
| "feed process s (d # ds) =
     (case process s d of
        None \<Rightarrow> None
      | Some (needMore, s') \<Rightarrow> if needMore then feed process s' ds else Some s')"

text \<open>
  What the loop relies on: \<open>represents s t\<close> says that \<open>s\<close> is the state after the text \<open>t\<close>; the
  evaluator then answers whether the text is accepted, and it asks for no more data only when
  the answer is final.
\<close>

locale chunk_evaluator =
  fixes process :: "'s \<Rightarrow> 'a list \<Rightarrow> (bool \<times> 's) option"
    and getResult :: "'s \<Rightarrow> bool"
    and represents :: "'s \<Rightarrow> 'a list \<Rightarrow> bool"
    and accepts :: "'a list \<Rightarrow> bool"
  assumes process_represents:
      "represents s t \<Longrightarrow> \<exists>needMore s'. process s d = Some (needMore, s') \<and> represents s' (t @ d) \<and>
         (\<not> needMore \<longrightarrow> (\<forall>u. accepts (t @ d @ u) = accepts (t @ d)))"
    and getResult_accepts: "represents s t \<Longrightarrow> getResult s = accepts t"
begin

lemma feed_accepts:
  "represents s t \<Longrightarrow> \<exists>s'. feed process s chunks = Some s' \<and> getResult s' = accepts (t @ concat chunks)"
proof (induction chunks arbitrary: s t)
  case Nil
  then show ?case by (simp add: getResult_accepts)
next
  case (Cons d ds)
  obtain needMore s' where s': "process s d = Some (needMore, s')" "represents s' (t @ d)"
      "\<not> needMore \<Longrightarrow> \<forall>u. accepts (t @ d @ u) = accepts (t @ d)"
    using process_represents [OF Cons.prems, of d] by blast
  show ?case
  proof (cases needMore)
    case True
    with Cons.IH [OF s'(2)] s'(1) show ?thesis by simp
  next
    case False
    with s' show ?thesis by (simp add: getResult_accepts)
  qed
qed

text \<open>How the value is cut into chunks does not matter.\<close>

lemma feed_chunking:
  assumes "represents s t" and "concat chunks = concat chunks'"
    and "feed process s chunks = Some s1" and "feed process s chunks' = Some s2"
  shows "getResult s1 = getResult s2"
  using feed_accepts [OF assms(1), of chunks] feed_accepts [OF assms(1), of chunks'] assms(2-4) by simp

end

section \<open>STARTING WITH\<close>

record 'a StartsEvaluator =
  st_offset :: nat
  st_pattern_str :: "'a list"
  st_result :: bool

definition starts_reset :: "'a StartsEvaluator \<Rightarrow> 'a StartsEvaluator" where
  "starts_reset e = e\<lparr>st_result := True, st_offset := 0\<rparr>"

definition starts_new :: "'a list \<Rightarrow> 'a StartsEvaluator" where
  "starts_new pattern = starts_reset \<lparr>st_offset = 0, st_pattern_str = pattern, st_result = True\<rparr>"

definition starts_getResult :: "'a StartsEvaluator \<Rightarrow> bool" where
  "starts_getResult e \<longleftrightarrow> st_offset e \<ge> length (st_pattern_str e) \<and> st_result e"

definition starts_processNextChunk :: "'a StartsEvaluator \<Rightarrow> 'a list \<Rightarrow> bool \<times> 'a StartsEvaluator" where
  "starts_processNextChunk e data =
     (if \<not> st_result e \<or> st_offset e \<ge> length (st_pattern_str e) then (False, e)
      else
        let comp_length =
              (if length data < length (st_pattern_str e) - st_offset e
               then length data else length (st_pattern_str e) - st_offset e)
        in if take comp_length data \<noteq> take comp_length (drop (st_offset e) (st_pattern_str e))
           then (False, e\<lparr>st_result := False\<rparr>)
           else (st_offset e + comp_length < length (st_pattern_str e),
                 e\<lparr>st_offset := st_offset e + comp_length\<rparr>))"

definition starts_represents :: "'a list \<Rightarrow> 'a StartsEvaluator \<Rightarrow> 'a list \<Rightarrow> bool" where
  "starts_represents p e t \<longleftrightarrow> st_pattern_str e = p \<and>
     (if st_result e
      then st_offset e \<le> length p \<and> take (st_offset e) t = take (st_offset e) p \<and>
           (st_offset e = length t \<or> st_offset e = length p) \<and> st_offset e \<le> length t
      else \<not> prefix p t \<and> (\<forall>u. \<not> prefix p (t @ u)))"

lemma prefix_take: "prefix p t \<longleftrightarrow> take (length p) t = p"
  by (metis append_eq_conv_conj prefix_def take_is_prefix)

lemma starts_process_represents:
  assumes r: "starts_represents p e t"
  shows "\<exists>needMore e'. Some (starts_processNextChunk e d) = Some (needMore, e') \<and> starts_represents p e' (t @ d) \<and>
     (\<not> needMore \<longrightarrow> (\<forall>u. prefix p (t @ d @ u) = prefix p (t @ d)))"
proof -
  have p: "st_pattern_str e = p" using r by (simp add: starts_represents_def)
  consider (failed) "\<not> st_result e" | (fin) "st_result e" "length p \<le> st_offset e"
    | (go) "st_result e" "st_offset e < length p" by fastforce
  then show ?thesis
  proof cases
    case failed
    then show ?thesis using r by (auto simp: starts_processNextChunk_def starts_represents_def)
  next
    case fin
    then show ?thesis
      using r by (auto simp: starts_processNextChunk_def starts_represents_def prefix_take)
  next
    case go
    define o1 where "o1 = st_offset e"
    define n where "n = min (length d) (length p - o1)"
    have t: "length t = o1" "t = take o1 p"
      using r go by (auto simp: starts_represents_def o1_def)
    have step: "starts_processNextChunk e d =
        (if take n d \<noteq> take n (drop o1 p) then (False, e\<lparr>st_result := False\<rparr>)
         else (o1 + n < length p, e\<lparr>st_offset := o1 + n\<rparr>))"
      using go p by (auto simp: starts_processNextChunk_def o1_def n_def min_def Let_def)
    show ?thesis
    proof (cases "take n d = take n (drop o1 p)")
      case True
      have "take (o1 + n) (t @ d) = take (o1 + n) p"
        using t True by (metis append_eq_append_conv2 append_self_conv length_take min.absorb2 take_add take_append
            append_eq_conv_conj diff_add_inverse nat_le_linear take_all_iff)
      then show ?thesis
        using True go p t step
        by (auto simp: starts_represents_def n_def min_def prefix_take split: if_splits)
    next
      case False
      have "\<not> prefix p (t @ d @ u)" for u
      proof
        assume "prefix p (t @ d @ u)"
        then have "take (length p) (t @ d @ u) = p" by (simp add: prefix_take)
        then have "take n (drop o1 (take (length p) (t @ d @ u))) = take n (drop o1 p)" by simp
        then show False using False t by (simp add: n_def take_drop min_def split: if_splits)
      qed
      from this [of "[]"] this show ?thesis
        using False go p step by (auto simp: starts_represents_def)
    qed
  qed
qed

lemma starts_getResult_accepts: "starts_represents p e t \<Longrightarrow> starts_getResult e = prefix p t"
  by (auto simp: starts_represents_def starts_getResult_def prefix_take split: if_splits)

interpretation starts: chunk_evaluator
  "\<lambda>e d. Some (starts_processNextChunk e d)" starts_getResult "starts_represents p" "prefix p" for p
  by unfold_locales (erule starts_process_represents, erule starts_getResult_accepts)

section \<open>CONTAINING\<close>

record 'a ContainsEvaluator =
  co_pattern_str :: "'a list"
  co_offset :: int
  co_result :: bool
  co_kmpNext :: "int list"

definition contains_reset :: "'a ContainsEvaluator \<Rightarrow> 'a ContainsEvaluator" where
  "contains_reset e = e\<lparr>co_offset := 0, co_result := (co_pattern_str e = [])\<rparr>"

text \<open>\<open>mem\<close> is the memory allocated for the table.\<close>

definition contains_new :: "'a list \<Rightarrow> int list \<Rightarrow> 'a ContainsEvaluator option" where
  "contains_new pattern mem =
     (case preKmp pattern mem of
        None \<Rightarrow> None
      | Some kmpNext \<Rightarrow>
          Some (contains_reset
            \<lparr>co_pattern_str = pattern, co_offset = 0, co_result = False, co_kmpNext = kmpNext\<rparr>))"

fun contains_loop :: "'a ContainsEvaluator \<Rightarrow> 'a list \<Rightarrow> (bool \<times> 'a ContainsEvaluator) option" where
  "contains_loop e [] = Some (True, e)"
| "contains_loop e (c # data) =
     (case kmp_back (co_pattern_str e) (co_kmpNext e) c (co_offset e) of
        None \<Rightarrow> None
      | Some offset \<Rightarrow>
          let e' = e\<lparr>co_offset := offset + 1\<rparr>
          in if co_offset e' \<ge> int (length (co_pattern_str e))
             then Some (False, e'\<lparr>co_result := True\<rparr>)
             else contains_loop e' data)"

definition contains_processNextChunk ::
  "'a ContainsEvaluator \<Rightarrow> 'a list \<Rightarrow> (bool \<times> 'a ContainsEvaluator) option" where
  "contains_processNextChunk e data = (if co_result e then Some (False, e) else contains_loop e data)"

text \<open>
  \<open>matched x t k\<close>: the first \<open>k\<close> characters of the pattern end the text. Without an occurrence so
  far, the offset is the largest such \<open>k\<close>.
\<close>

definition matched :: "'a list \<Rightarrow> 'a list \<Rightarrow> nat \<Rightarrow> bool" where
  "matched x t k \<longleftrightarrow> k \<le> length x \<and> suffix (take k x) t"

definition longest_match :: "'a list \<Rightarrow> 'a list \<Rightarrow> nat \<Rightarrow> bool" where
  "longest_match x t k \<longleftrightarrow> matched x t k \<and> (\<forall>k'. matched x t k' \<longrightarrow> k' \<le> k)"

lemma matched_snoc:
  "matched x (t @ [c]) (Suc k) \<longleftrightarrow> k < length x \<and> matched x t k \<and> x ! k = c"
  by (auto simp: matched_def take_Suc_conv_app_nth Suc_le_eq)

lemma matched_below:
  assumes "longest_match x t j" and "j \<le> length x"
  shows "matched x t k \<longleftrightarrow> k = j \<or> border x j k"
proof
  assume k: "matched x t k"
  then have "k \<le> j" using assms(1) by (simp add: longest_match_def)
  moreover have "suffix (take k x) (take j x)"
    using k assms \<open>k \<le> j\<close> suffix_comparable [of "take k x" t "take j x"]
    by (auto simp: longest_match_def matched_def)
  ultimately show "k = j \<or> border x j k" by (auto simp: border_def)
next
  assume "k = j \<or> border x j k"
  then show "matched x t k"
    using assms by (auto simp: longest_match_def matched_def border_def intro: suffix_order.trans)
qed

text \<open>One character: the loop finds the longest match of the longer text.\<close>

lemma longest_match_step:
  assumes lm: "longest_match x t j" and j: "j < length x" and r: "back_result x c (int j) r"
  shows "longest_match x (t @ [c]) (nat (r + 1)) \<and> r + 1 = int (nat (r + 1))"
proof -
  have all: "matched x t k \<longleftrightarrow> k = j \<or> border x j k" for k
    using matched_below [OF lm] j by simp
  have r1: "r + 1 = int (nat (r + 1))" using r by (auto simp: back_result_def)
  have "matched x (t @ [c]) (nat (r + 1))"
  proof (cases "r = -1")
    case True
    then show ?thesis by (simp add: matched_def)
  next
    case False
    define k where "k = nat r"
    have k: "r = int k" using False r by (auto simp: back_result_def k_def)
    then have "matched x t k" "x ! k = c" "k \<le> j" using r all by (auto simp: back_result_def)
    then show ?thesis using matched_snoc [of x t c k] j k by (simp add: nat_add_distrib)
  qed
  moreover have "k' \<le> nat (r + 1)" if "matched x (t @ [c]) k'" for k'
  proof (cases k')
    case (Suc k)
    then have "matched x t k" "x ! k = c" using that unfolding Suc matched_snoc by auto
    then have "\<not> r < int k" using r all by (auto simp: back_result_def)
    then show ?thesis using Suc r1 by simp
  qed simp
  ultimately show ?thesis using r1 by (simp add: longest_match_def)
qed

definition contains_represents :: "'a list \<Rightarrow> int list \<Rightarrow> 'a ContainsEvaluator \<Rightarrow> 'a list \<Rightarrow> bool" where
  "contains_represents p kn e t \<longleftrightarrow> co_pattern_str e = p \<and> co_kmpNext e = kn \<and> kmp_table p kn \<and>
     (if co_result e then sublist p t
      else \<not> sublist p t \<and> (\<exists>k < length p. co_offset e = int k \<and> longest_match p t k))"

lemma sublist_append_mono: "sublist p t \<Longrightarrow> sublist p (t @ u)"
  by (fastforce simp: sublist_def)

lemma contains_loop_represents:
  assumes "contains_represents p kn e t" and "\<not> co_result e"
  shows "\<exists>needMore e'. contains_loop e d = Some (needMore, e') \<and> contains_represents p kn e' (t @ d) \<and>
     (\<not> needMore \<longrightarrow> co_result e')"
  using assms
proof (induction d arbitrary: e t)
  case Nil
  then show ?case by auto
next
  case (Cons c d)
  obtain k where k: "k < length p" "co_offset e = int k" "longest_match p t k"
    and e: "co_pattern_str e = p" "co_kmpNext e = kn" "kmp_table p kn" "\<not> sublist p t"
    using Cons.prems by (auto simp: contains_represents_def)
  obtain r where r: "kmp_back p kn c (int k) = Some r" "back_result p c (int k) r"
    using kmp_back_correct [of "int k" p kn c] k(1) e(3) by (force simp: kmp_table_def)
  define k' where "k' = nat (r + 1)"
  have k': "r + 1 = int k'" "longest_match p (t @ [c]) k'" "k' \<le> length p"
    using longest_match_step [OF k(3,1) r(2)] by (auto simp: k'_def longest_match_def matched_def)
  show ?case
  proof (cases "k' = length p")
    case True
    have "suffix p (t @ [c])" using k'(2) True by (simp add: longest_match_def matched_def)
    then have "sublist p (t @ c # d)"
      using sublist_append_mono [of p "t @ [c]" d] by (simp add: suffix_imp_sublist)
    moreover have "contains_loop e (c # d) = Some (False, e\<lparr>co_offset := int k', co_result := True\<rparr>)"
      using r(1) e k k' True by (simp add: Let_def)
    ultimately show ?thesis using e by (auto simp: contains_represents_def)
  next
    case False
    have "\<not> suffix p (t @ [c])"
      using k'(2,3) False by (auto simp: longest_match_def matched_def dest: spec [of _ "length p"])
    then have "\<not> sublist p (t @ [c])" using e(4) by (simp add: sublist_snoc)
    then have "contains_represents p kn (e\<lparr>co_offset := int k'\<rparr>) (t @ [c])"
      using k' False e Cons.prems(2) by (auto simp: contains_represents_def)
    moreover have "contains_loop e (c # d) = contains_loop (e\<lparr>co_offset := int k'\<rparr>) d"
      using r(1) e k k' False by (simp add: Let_def)
    ultimately show ?thesis
      using Cons.IH [of "e\<lparr>co_offset := int k'\<rparr>" "t @ [c]"] Cons.prems(2) by simp
  qed
qed

lemma contains_process_represents:
  assumes "contains_represents p kn e t"
  shows "\<exists>needMore e'. contains_processNextChunk e d = Some (needMore, e') \<and>
     contains_represents p kn e' (t @ d) \<and>
     (\<not> needMore \<longrightarrow> (\<forall>u. sublist p (t @ d @ u) = sublist p (t @ d)))"
proof (cases "co_result e")
  case True
  then have "sublist p t" using assms by (simp add: contains_represents_def)
  then show ?thesis
    using True assms by (auto simp: contains_processNextChunk_def contains_represents_def sublist_append_mono)
next
  case False
  obtain needMore e' where e': "contains_loop e d = Some (needMore, e')" "contains_represents p kn e' (t @ d)"
      "\<not> needMore \<Longrightarrow> co_result e'"
    using contains_loop_represents [OF assms False, of d] by blast
  have "sublist p (t @ d)" if "\<not> needMore"
    using e'(2) e'(3) [OF that] by (simp add: contains_represents_def)
  then show ?thesis
    using e' False sublist_append_mono [of p "t @ d"] by (auto simp: contains_processNextChunk_def)
qed

lemma contains_getResult_accepts: "contains_represents p kn e t \<Longrightarrow> co_result e = sublist p t"
  by (auto simp: contains_represents_def split: if_splits)

interpretation contains: chunk_evaluator
  contains_processNextChunk co_result "contains_represents p kn" "sublist p" for p kn
  by unfold_locales (erule contains_process_represents, erule contains_getResult_accepts)

lemma contains_new_represents:
  assumes "p \<noteq> []" and "length mem = length p + 1"
  shows "\<exists>e kn. contains_new p mem = Some e \<and> contains_represents p kn e []"
proof -
  obtain kn where kn: "preKmp p mem = Some kn" "kmp_table p kn" using preKmp_correct [OF assms] by blast
  have "longest_match p [] 0" using assms(1) by (auto simp: longest_match_def matched_def)
  then show ?thesis
    using kn assms(1) by (auto simp: contains_new_def contains_reset_def contains_represents_def)
qed

section \<open>Properties\<close>

text \<open>
  C21. \<open>CONTAINING\<close> with a non-empty pattern: whatever chunks the value comes in, the evaluator
  returns, and it answers true exactly when the pattern occurs in the value.
\<close>

theorem contains_evaluator_correct:
  assumes "p \<noteq> []" and "length mem = length p + 1"
  shows "\<exists>e e'. contains_new p mem = Some e \<and> feed contains_processNextChunk e chunks = Some e' \<and>
     co_result e' = sublist p (concat chunks)"
proof -
  obtain e kn where e: "contains_new p mem = Some e" "contains_represents p kn e []"
    using contains_new_represents [OF assms] by blast
  with contains.feed_accepts [OF e(2), of chunks] show ?thesis by auto
qed

theorem contains_evaluator_correct_witness:
  "\<exists>e e'. contains_new ''aab'' [0, 0, 0, 0] = Some e \<and>
     feed contains_processNextChunk e [''xa'', [], ''aab''] = Some e' \<and>
     co_result e' = sublist ''aab'' (concat [''xa'', [], ''aab''])"
  by (rule contains_evaluator_correct) simp_all

text \<open>
  C40. \<open>STARTING WITH\<close>: whatever chunks the value comes in, the evaluator answers true exactly
  when the value starts with the pattern.
\<close>

theorem starts_evaluator_correct:
  "\<exists>e'. feed (\<lambda>e d. Some (starts_processNextChunk e d)) (starts_new p) chunks = Some e' \<and>
     starts_getResult e' = prefix p (concat chunks)"
proof -
  have "starts_represents p (starts_new p) []"
    by (simp add: starts_represents_def starts_new_def starts_reset_def)
  from starts.feed_accepts [OF this, of chunks] show ?thesis by simp
qed

text \<open>
  The table construction writes only inside the \<open>m + 1\<close> elements its callers allocate, for
  every non-empty pattern, and it terminates; for the empty pattern it writes element 1 of a
  one-element array.
\<close>

theorem preKmp_in_bounds:
  assumes "length mem = length x + 1"
  shows "(\<exists>kmpNext. preKmp x mem = Some kmpNext) \<longleftrightarrow> x \<noteq> []"
proof (cases "x = []")
  case True
  then obtain v where "mem = [v]" using assms by (cases mem) auto
  with True show ?thesis by (simp add: preKmp_empty_pattern)
next
  case False
  with preKmp_correct [OF False assms] show ?thesis by auto
qed

theorem preKmp_in_bounds_witness:
  "(\<exists>kmpNext. preKmp ''abab'' [0, 0, 0, 0, 0] = Some kmpNext) \<longleftrightarrow> ''abab'' \<noteq> []"
  by (rule preKmp_in_bounds) simp

end
