(* ===== verification/FB_Like.thy ===== *)
theory FB_Like
  imports FB_Evl_String
begin

text \<open>
  The \<^verbatim>\<open>LIKE\<close> evaluator (\<^verbatim>\<open>LikeEvaluator\<close> of \<^verbatim>\<open>src/jrd/evl_string.h\<close>): the two-pass compilation
  of a pattern into pattern items and the incremental matching of a value that comes in chunks.
  A branch points to a pattern item by its index; a pointer into the pattern is the list of the
  characters from it on. \<open>CharType\<close> is a type with a zero, since the code treats a zero
  wildcard character as absent.
\<close>

section \<open>Pattern items\<close>

datatype PatternItemType = piNone | piSearch | piSkipFixed | piDirectMatch | piEscapedString | piSkipMore

datatype MatchType = MATCH_NONE | MATCH_FIXED | MATCH_ANY

text \<open>\<open>pi_length\<close> is \<open>str.length\<close> and, in the same place of the union, \<open>skipCount\<close>.\<close>

record 'a PatternItem =
  pi_type :: PatternItemType
  pi_length :: nat
  pi_data :: "'a list"
  pi_kmpNext :: "int list"
  pi_match_any :: bool

text \<open>What \<open>grow\<close> appends: an item with all bytes zero.\<close>

definition zero_item :: "'a PatternItem" where
  "zero_item = \<lparr>pi_type = piNone, pi_length = 0, pi_data = [], pi_kmpNext = [], pi_match_any = False\<rparr>"

datatype like_error = ISC_ESCAPE_INVALID | STUCK

section \<open>First pass: parsing the pattern\<close>

text \<open>
  The current item is the last one; \<open>before\<close> are the items in front of it. \<open>rest\<close> is the
  pattern after the current character. Where the code grows the item list and falls into the
  next case, the new item is filled in.
\<close>

type_synonym 'a items_state = "'a PatternItem list \<times> 'a PatternItem"

definition parse_escaped :: "'a list \<Rightarrow> 'a items_state \<Rightarrow> 'a items_state" where
  "parse_escaped ptr st =
     (case st of (before, item) \<Rightarrow>
        (case pi_type item of
           piSkipFixed \<Rightarrow> (before @ [item], zero_item\<lparr>pi_type := piEscapedString, pi_data := ptr, pi_length := 1\<rparr>)
         | piSkipMore \<Rightarrow> (before @ [item], zero_item\<lparr>pi_type := piEscapedString, pi_data := ptr, pi_length := 1\<rparr>)
         | piNone \<Rightarrow> (before, item\<lparr>pi_type := piEscapedString, pi_data := ptr, pi_length := 1\<rparr>)
         | piSearch \<Rightarrow> (before, item\<lparr>pi_type := piEscapedString, pi_length := pi_length item + 1\<rparr>)
         | piEscapedString \<Rightarrow> (before, item\<lparr>pi_length := pi_length item + 1\<rparr>)
         | piDirectMatch \<Rightarrow> (before, item)))"

definition parse_match_any :: "'a items_state \<Rightarrow> 'a items_state" where
  "parse_match_any st =
     (case st of (before, item) \<Rightarrow>
        (case pi_type item of
           piSearch \<Rightarrow> (before @ [item], zero_item\<lparr>pi_type := piSkipMore\<rparr>)
         | piEscapedString \<Rightarrow> (before @ [item], zero_item\<lparr>pi_type := piSkipMore\<rparr>)
         | piSkipFixed \<Rightarrow> (before, item\<lparr>pi_type := piSkipMore\<rparr>)
         | piNone \<Rightarrow> (before, item\<lparr>pi_type := piSkipMore\<rparr>)
         | piSkipMore \<Rightarrow> (before, item)
         | piDirectMatch \<Rightarrow> (before, item)))"

definition parse_match_one :: "'a items_state \<Rightarrow> 'a items_state" where
  "parse_match_one st =
     (case st of (before, item) \<Rightarrow>
        (case pi_type item of
           piSearch \<Rightarrow> (before @ [item], zero_item\<lparr>pi_type := piSkipFixed, pi_length := 1\<rparr>)
         | piEscapedString \<Rightarrow> (before @ [item], zero_item\<lparr>pi_type := piSkipFixed, pi_length := 1\<rparr>)
         | piNone \<Rightarrow> (before, item\<lparr>pi_type := piSkipFixed, pi_length := 1\<rparr>)
         | piSkipFixed \<Rightarrow> (before, item\<lparr>pi_length := pi_length item + 1\<rparr>)
         | piSkipMore \<Rightarrow> (before, item\<lparr>pi_length := pi_length item + 1\<rparr>)
         | piDirectMatch \<Rightarrow> (before, item)))"

definition parse_other :: "'a list \<Rightarrow> 'a items_state \<Rightarrow> 'a items_state" where
  "parse_other ptr st =
     (case st of (before, item) \<Rightarrow>
        (case pi_type item of
           piSkipFixed \<Rightarrow> (before @ [item], zero_item\<lparr>pi_type := piSearch, pi_data := ptr, pi_length := 1\<rparr>)
         | piSkipMore \<Rightarrow> (before @ [item], zero_item\<lparr>pi_type := piSearch, pi_data := ptr, pi_length := 1\<rparr>)
         | piNone \<Rightarrow> (before, item\<lparr>pi_type := piSearch, pi_data := ptr, pi_length := 1\<rparr>)
         | piSearch \<Rightarrow> (before, item\<lparr>pi_length := pi_length item + 1\<rparr>)
         | piEscapedString \<Rightarrow> (before, item\<lparr>pi_length := pi_length item + 1\<rparr>)
         | piDirectMatch \<Rightarrow> (before, item)))"

text \<open>The arguments of the constructor.\<close>

record 'a like_params =
  escape_char :: 'a
  use_escape :: bool
  sql_match_any :: 'a
  sql_match_one :: 'a

definition is_any :: "'a::zero like_params \<Rightarrow> 'a \<Rightarrow> bool" where
  "is_any lp c \<longleftrightarrow> sql_match_any lp \<noteq> 0 \<and> c = sql_match_any lp"

definition is_one :: "'a::zero like_params \<Rightarrow> 'a \<Rightarrow> bool" where
  "is_one lp c \<longleftrightarrow> sql_match_one lp \<noteq> 0 \<and> c = sql_match_one lp"

definition is_escape :: "'a like_params \<Rightarrow> 'a \<Rightarrow> bool" where
  "is_escape lp c \<longleftrightarrow> use_escape lp \<and> c = escape_char lp"

fun like_pass1 :: "'a::zero like_params \<Rightarrow> 'a list \<Rightarrow> 'a items_state \<Rightarrow> like_error + 'a PatternItem list" where
  "like_pass1 lp [] st = Inr (fst st @ [snd st])"
| "like_pass1 lp (c # pattern) st =
     (if is_escape lp c then
        (case pattern of
           c' # rest \<Rightarrow>
             if c' = escape_char lp \<or> is_any lp c' \<or> is_one lp c'
             then like_pass1 lp rest (parse_escaped (c # pattern) st)
             else Inl ISC_ESCAPE_INVALID
         | [] \<Rightarrow> Inl ISC_ESCAPE_INVALID)
      else if is_any lp c then like_pass1 lp pattern (parse_match_any st)
      else if is_one lp c then like_pass1 lp pattern (parse_match_one st)
      else like_pass1 lp pattern (parse_other (c # pattern) st))"

section \<open>Second pass: compilation\<close>

fun unescape :: "'a like_params \<Rightarrow> nat \<Rightarrow> 'a list \<Rightarrow> 'a list" where
  "unescape lp (Suc n) (c # cs) =
     (if is_escape lp c
      then (case cs of [] \<Rightarrow> [] | c' # cs' \<Rightarrow> c' # unescape lp n cs')
      else c # unescape lp n cs)"
| "unescape lp n cs = []"

text \<open>
  The code under \<open>case piSearch\<close>, reached directly or after unescaping; \<open>mem n\<close> is an array of \<open>n\<close>
  elements as the allocator returns it.
\<close>

definition compile_search ::
  "(nat \<Rightarrow> int list) \<Rightarrow> bool \<Rightarrow> 'a PatternItem \<Rightarrow> like_error + ('a PatternItem \<times> bool)" where
  "compile_search mem directMatch item =
     (if directMatch then Inr (item\<lparr>pi_type := piDirectMatch\<rparr>, directMatch)
      else case preKmp (take (pi_length item) (pi_data item)) (mem (pi_length item + 1)) of
             None \<Rightarrow> Inl STUCK
           | Some kmpNext \<Rightarrow> Inr (item\<lparr>pi_kmpNext := kmpNext\<rparr>, True))"

text \<open>\<open>before\<close> are the items at positions below \<open>i\<close>, the second list those from \<open>i\<close> on.\<close>

fun like_pass2 ::
  "'a like_params \<Rightarrow> (nat \<Rightarrow> int list) \<Rightarrow> bool \<Rightarrow> 'a PatternItem list \<Rightarrow> 'a PatternItem list
     \<Rightarrow> like_error + 'a PatternItem list" where
  "like_pass2 lp mem directMatch before [] = Inr before"
| "like_pass2 lp mem directMatch before (item # items) =
     (case pi_type item of
        piEscapedString \<Rightarrow>
          (case compile_search mem directMatch
                  (item\<lparr>pi_data := unescape lp (pi_length item) (pi_data item), pi_type := piSearch\<rparr>) of
             Inl e \<Rightarrow> Inl e
           | Inr (item', directMatch') \<Rightarrow> like_pass2 lp mem directMatch' (before @ [item']) items)
      | piSearch \<Rightarrow>
          (case compile_search mem directMatch item of
             Inl e \<Rightarrow> Inl e
           | Inr (item', directMatch') \<Rightarrow> like_pass2 lp mem directMatch' (before @ [item']) items)
      | piSkipMore \<Rightarrow>
          (if pi_length item \<noteq> 0
           then like_pass2 lp mem False
                  (before @ [item\<lparr>pi_type := piSkipFixed, pi_match_any := True\<rparr>]) items
           else if before \<noteq> [] then
             like_pass2 lp mem False (butlast before @ [(last before)\<lparr>pi_match_any := True\<rparr>]) items
           else if items \<noteq> [] then like_pass2 lp mem False before items
           else like_pass2 lp mem False (before @ [item\<lparr>pi_type := piNone, pi_match_any := True\<rparr>]) items)
      | _ \<Rightarrow> like_pass2 lp mem directMatch (before @ [item]) items)"

section \<open>The evaluator\<close>

record 'a LikeEvaluator =
  patternItems :: "'a PatternItem list"
  branches :: "(nat \<times> int) list"
  match_type :: MatchType

definition like_reset :: "'a LikeEvaluator \<Rightarrow> 'a LikeEvaluator" where
  "like_reset e =
     (if pi_type (patternItems e ! 0) = piNone
      then e\<lparr>branches := [], match_type := (if pi_match_any (patternItems e ! 0) then MATCH_ANY else MATCH_FIXED)\<rparr>
      else e\<lparr>branches := [(0, 0)], match_type := MATCH_NONE\<rparr>)"

definition like_new :: "'a::zero like_params \<Rightarrow> (nat \<Rightarrow> int list) \<Rightarrow> 'a list \<Rightarrow> like_error + 'a LikeEvaluator" where
  "like_new lp mem pattern =
     (case like_pass1 lp pattern ([], zero_item) of
        Inl e \<Rightarrow> Inl e
      | Inr items \<Rightarrow>
          (case like_pass2 lp mem True [] items of
             Inl e \<Rightarrow> Inl e
           | Inr items' \<Rightarrow>
               Inr (like_reset \<lparr>patternItems = items', branches = [], match_type = MATCH_NONE\<rparr>)))"

definition like_getResult :: "'a LikeEvaluator \<Rightarrow> bool" where
  "like_getResult e \<longleftrightarrow> match_type e \<noteq> MATCH_NONE"

text \<open>
  The loop over the branches for one character. \<open>pre\<close> are the branches below \<open>branch_number\<close>,
  the list argument those from it on. The loop ends with the branches for the next
  character and \<open>finishCandidate\<close>, or it returns from \<open>processNextChunk\<close>.
\<close>

datatype branch_outcome =
    NextChar "(nat \<times> int) list" int
  | Return bool MatchType

definition branch_advance :: "'a PatternItem list \<Rightarrow> int \<Rightarrow> int \<Rightarrow> (nat \<times> int) list \<Rightarrow> nat \<Rightarrow> int
     \<Rightarrow> (nat \<times> int) list \<Rightarrow> int \<Rightarrow> branch_outcome + ((nat \<times> int) list \<times> int)" where
  "branch_advance items data_pos data_len pre p offset post finishCandidate =
     (if offset + 1 \<ge> int (pi_length (items ! p)) then
        (if pi_match_any (items ! p) then
           (if p + 1 \<ge> length items then Inl (Return False MATCH_ANY)
            else Inl (NextChar [(p + 1, 0)] finishCandidate))
         else if p + 1 \<ge> length items then
           (if pre @ post = []
            then Inl (if data_pos = data_len - 1 then Return True MATCH_FIXED else Return False MATCH_NONE)
            else Inr (pre, data_pos))
         else Inr (pre @ [(p + 1, 0)], finishCandidate))
      else Inr (pre @ [(p, offset + 1)], finishCandidate))"

definition branch_search :: "'a PatternItem list \<Rightarrow> int \<Rightarrow> (nat \<times> int) list \<Rightarrow> nat \<Rightarrow> int
     \<Rightarrow> int \<Rightarrow> branch_outcome + ((nat \<times> int) list \<times> int)" where
  "branch_search items data_pos pre p offset finishCandidate =
     (if offset \<ge> int (pi_length (items ! p)) then
        (if p + 1 \<ge> length items then
           (if pi_match_any (items ! p) then Inl (Return False MATCH_ANY)
            else Inr (pre @ [(p, pi_kmpNext (items ! p) ! nat offset)], data_pos))
         else if pi_type (items ! (p + 1)) = piSearch
         then Inr (pre @ [(p + 1, 0)], finishCandidate)
         else Inr (pre @ [(p, pi_kmpNext (items ! p) ! nat offset), (p + 1, 0)], finishCandidate))
      else Inr (pre @ [(p, offset)], finishCandidate))"

fun branch_loop :: "'a PatternItem list \<Rightarrow> 'a \<Rightarrow> int \<Rightarrow> int \<Rightarrow> (nat \<times> int) list \<Rightarrow> (nat \<times> int) list
     \<Rightarrow> int \<Rightarrow> branch_outcome option" where
  "branch_loop items c data_pos data_len pre [] finishCandidate = Some (NextChar pre finishCandidate)"
| "branch_loop items c data_pos data_len pre ((p, offset) # post) finishCandidate =
     (case pi_type (items ! p) of
        piDirectMatch \<Rightarrow>
          if c \<noteq> pi_data (items ! p) ! nat offset then
            (if pre @ post = [] then Some (Return False MATCH_NONE)
             else branch_loop items c data_pos data_len pre post finishCandidate)
          else
            (case branch_advance items data_pos data_len pre p offset post finishCandidate of
               Inl r \<Rightarrow> Some r
             | Inr (pre', fin) \<Rightarrow> branch_loop items c data_pos data_len pre' post fin)
      | piSkipFixed \<Rightarrow>
          (case branch_advance items data_pos data_len pre p offset post finishCandidate of
             Inl r \<Rightarrow> Some r
           | Inr (pre', fin) \<Rightarrow> branch_loop items c data_pos data_len pre' post fin)
      | piSearch \<Rightarrow>
          (case kmp_back (pi_data (items ! p)) (pi_kmpNext (items ! p)) c offset of
             None \<Rightarrow> None
           | Some offset' \<Rightarrow>
               (case branch_search items data_pos pre p (offset' + 1) finishCandidate of
                  Inl r \<Rightarrow> Some r
                | Inr (pre', fin) \<Rightarrow> branch_loop items c data_pos data_len pre' post fin))
      | _ \<Rightarrow> branch_loop items c data_pos data_len (pre @ [(p, offset)]) post finishCandidate)"

fun like_data_loop :: "'a LikeEvaluator \<Rightarrow> int \<Rightarrow> int \<Rightarrow> 'a list \<Rightarrow> int \<Rightarrow> (bool \<times> 'a LikeEvaluator) option" where
  "like_data_loop e data_pos data_len [] finishCandidate =
     Some (True, if finishCandidate = data_len - 1 then e\<lparr>match_type := MATCH_FIXED\<rparr> else e)"
| "like_data_loop e data_pos data_len (c # data) finishCandidate =
     (case branch_loop (patternItems e) c data_pos data_len [] (branches e) finishCandidate of
        None \<Rightarrow> None
      | Some (Return b m) \<Rightarrow> Some (b, e\<lparr>branches := [], match_type := m\<rparr>)
      | Some (NextChar bs fin) \<Rightarrow> like_data_loop (e\<lparr>branches := bs\<rparr>) (data_pos + 1) data_len data fin)"

definition like_processNextChunk :: "'a LikeEvaluator \<Rightarrow> 'a list \<Rightarrow> (bool \<times> 'a LikeEvaluator) option" where
  "like_processNextChunk e data =
     (if data = [] then Some (branches e \<noteq> [] \<or> match_type e = MATCH_FIXED, e)
      else
        let e1 = (if match_type e = MATCH_FIXED then e\<lparr>match_type := MATCH_NONE\<rparr> else e)
        in if branches e1 = [] then Some (False, e1)
           else like_data_loop e1 0 (int (length data)) data (-1))"

end
