(* ===== verification/FB_Like_Match.thy ===== *)
theory FB_Like_Match
  imports FB_Like
begin

text \<open>
  The matching phase of the \<^verbatim>\<open>LIKE\<close> evaluator against the meaning of a pattern. A pattern means a
  list of tokens; each branch of the evaluator stands for the remainders of the value it would
  accept, and one character moves the branches as the tokens demand.
\<close>

section \<open>The meaning of a pattern\<close>

datatype 'a token = AnyString | AnyChar | Lit 'a

fun like_match :: "'a token list \<Rightarrow> 'a list \<Rightarrow> bool" where
  "like_match [] s \<longleftrightarrow> s = []"
| "like_match (AnyString # ts) [] \<longleftrightarrow> like_match ts []"
| "like_match (AnyString # ts) (c # s) \<longleftrightarrow> like_match ts (c # s) \<or> like_match (AnyString # ts) s"
| "like_match (AnyChar # ts) [] \<longleftrightarrow> False"
| "like_match (AnyChar # ts) (c # s) \<longleftrightarrow> like_match ts s"
| "like_match (Lit a # ts) [] \<longleftrightarrow> False"
| "like_match (Lit a # ts) (c # s) \<longleftrightarrow> c = a \<and> like_match ts s"

lemma like_match_Any: "like_match (AnyString # ts) s \<longleftrightarrow> (\<exists>a b. s = a @ b \<and> like_match ts b)"
proof (induction s)
  case (Cons c s)
  have "(\<exists>a b. c # s = a @ b \<and> like_match ts b) \<longleftrightarrow>
      like_match ts (c # s) \<or> (\<exists>a b. s = a @ b \<and> like_match ts b)"
    by (auto simp: Cons_eq_append_conv)
  then show ?case using Cons.IH by simp
qed simp

lemma like_match_One: "like_match (AnyChar # ts) s \<longleftrightarrow> (\<exists>c b. s = c # b \<and> like_match ts b)"
  by (cases s) auto

lemma like_match_Lit: "like_match (Lit a # ts) s \<longleftrightarrow> (\<exists>b. s = a # b \<and> like_match ts b)"
  by (cases s) auto

lemma like_match_append:
  "like_match (ts @ us) s \<longleftrightarrow> (\<exists>a b. s = a @ b \<and> like_match ts a \<and> like_match us b)"
proof (induction ts arbitrary: s)
  case (Cons t ts)
  show ?case
  proof (cases t)
    case AnyString
    then show ?thesis by (simp add: like_match_Any Cons.IH) (metis append.assoc)
  next
    case AnyChar
    then show ?thesis by (simp add: like_match_One Cons.IH) (metis append_Cons)
  next
    case (Lit a)
    then show ?thesis by (simp add: like_match_Lit Cons.IH) (metis append_Cons)
  qed
qed simp

lemma like_match_lits: "like_match (map Lit w @ ts) s \<longleftrightarrow> (\<exists>b. s = w @ b \<and> like_match ts b)"
proof (induction w arbitrary: s)
  case (Cons a w)
  then show ?case by (cases s) auto
qed simp

lemma like_match_ones:
  "like_match (replicate n AnyChar @ ts) s \<longleftrightarrow> n \<le> length s \<and> like_match ts (drop n s)"
proof (induction n arbitrary: s)
  case (Suc n)
  then show ?case by (cases s) auto
qed simp

lemma like_match_Any_Any [simp]: "like_match (AnyString # AnyString # ts) s = like_match (AnyString # ts) s"
  by (simp add: like_match_Any) (metis append.assoc append_Nil)

lemma like_match_single_Any [simp]: "like_match [AnyString] s"
  by (simp add: like_match_Any)

lemma like_match_Any_mono: "like_match (AnyString # ts) b \<Longrightarrow> like_match (AnyString # ts) (a @ b)"
  by (auto simp: like_match_Any) (metis append.assoc)

lemma like_match_search:
  "like_match (AnyString # map Lit w @ ts) s \<longleftrightarrow> (\<exists>a b. s = a @ w @ b \<and> like_match ts b)"
  by (auto simp: like_match_Any like_match_lits)

text \<open>The tokens of a compiled item.\<close>

definition item_string :: "'a PatternItem \<Rightarrow> 'a list" where
  "item_string it = take (pi_length it) (pi_data it)"

definition any_after :: "'a PatternItem \<Rightarrow> 'a token list" where
  "any_after it = (if pi_match_any it then [AnyString] else [])"

definition item_tokens :: "'a PatternItem \<Rightarrow> 'a token list" where
  "item_tokens it =
     (case pi_type it of
        piDirectMatch \<Rightarrow> map Lit (item_string it)
      | piSearch \<Rightarrow> AnyString # map Lit (item_string it)
      | piSkipFixed \<Rightarrow> replicate (pi_length it) AnyChar
      | _ \<Rightarrow> []) @ any_after it"

abbreviation tokens_of :: "'a PatternItem list \<Rightarrow> 'a token list" where
  "tokens_of its \<equiv> concat (map item_tokens its)"

section \<open>Shifting a search\<close>

text \<open>
  \<open>t\<close> is what the search has seen, at most as long as the string, and \<open>K\<close> the length of the
  longest proper prefix of the string that ends it: an occurrence is \<open>t\<close> itself or
  lies in that prefix followed by the rest.
\<close>

lemma search_shift:
  assumes t: "length t \<le> length w" and K: "K < length w" "suffix (take K w) t"
    and max: "\<And>j. j < length w \<Longrightarrow> matched w t j \<Longrightarrow> j \<le> K"
  shows "like_match (AnyString # map Lit w @ ts) (t @ u) \<longleftrightarrow>
     t = w \<and> like_match ts u \<or> like_match (AnyString # map Lit w @ ts) (take K w @ u)"
    (is "?L \<longleftrightarrow> ?A \<or> ?R")
proof
  assume ?L
  then obtain a b where ab: "t @ u = a @ w @ b" "like_match ts b" by (auto simp: like_match_search)
  consider "length a + length w \<le> length t" | "length t \<le> length a"
    | "length a < length t" "length t < length a + length w" by linarith
  then show "?A \<or> ?R"
  proof cases
    case 1
    then have "length a = 0" "length t = length w" using t by linarith+
    then show ?thesis using ab by auto
  next
    case 2
    then obtain a' where "a = t @ a'" using ab(1) by (metis append_eq_append_conv_if append_take_drop_id)
    then have "take K w @ u = (take K w @ a') @ w @ b" using ab by simp
    then show ?thesis using ab(2) by (auto simp: like_match_search)
  next
    case 3
    define j where "j = length t - length a"
    have j: "j < length w" "j \<le> length w" using 3 by (auto simp: j_def)
    have "t = take (length t) (a @ w @ b)" using ab(1) by (metis append_eq_conv_conj)
    then have tj: "t = a @ take j w" using 3 by (simp add: j_def)
    then have u: "u = drop j w @ b" using ab(1) by (metis append.assoc append_take_drop_id same_append_eq)
    have "matched w t j" using tj j by (simp add: matched_def suffix_def)
    then have "j \<le> K" using max j(1) by blast
    then have "suffix (take j w) (take K w)"
      using suffix_comparable [of "take j w" t "take K w"] tj K by (simp add: suffix_def)
    then obtain y where "take K w = y @ take j w" by (auto simp: suffix_def)
    then have "take K w @ u = y @ w @ b" by (simp add: u)
    then show ?thesis using ab(2) by (auto simp: like_match_search)
  qed
next
  assume "?A \<or> ?R"
  then show ?L
  proof
    assume ?A
    then show ?L by (auto simp: like_match_search intro: exI [of _ "[]"])
  next
    assume ?R
    obtain y where "t = y @ take K w" using K(2) by (auto simp: suffix_def)
    then show ?L using like_match_Any_mono [OF \<open>?R\<close>, of y] by simp
  qed
qed

lemma kmp_back_take:
  assumes "\<And>k. k < n \<Longrightarrow> kmpNext ! k < int k" and "j < int n"
  shows "kmp_back (take n x) kmpNext c j = kmp_back x kmpNext c j"
  using assms(2)
proof (induction "nat (j + 1)" arbitrary: j rule: less_induct)
  case less
  show ?case
  proof (cases "j > -1 \<and> x ! nat j \<noteq> c")
    case True
    then have "kmpNext ! nat j < j" using assms(1) [of "nat j"] less.prems by auto
    then have "kmp_back (take n x) kmpNext c (kmpNext ! nat j) = kmp_back x kmpNext c (kmpNext ! nat j)"
      using less.hyps [of "kmpNext ! nat j"] less.prems True by auto
    moreover have "take n x ! nat j = x ! nat j" using True less.prems by (intro nth_take) linarith
    ultimately show ?thesis
      using True by (simp add: kmp_back.simps [of _ _ _ j])
  next
    case False
    moreover have "take n x ! nat j = x ! nat j" if "-1 < j" using that less.prems by (intro nth_take) linarith
    ultimately show ?thesis by (auto simp: kmp_back.simps [of _ _ _ j])
  qed
qed

section \<open>Branches\<close>

text \<open>Compiled items: every matching item has a string or a count, and a search is where a
  string of any length ends.\<close>

definition plain_item :: "'a PatternItem \<Rightarrow> bool" where
  "plain_item it \<longleftrightarrow> pi_type it = piDirectMatch \<or> pi_type it = piSkipFixed"

definition item_ok :: "'a PatternItem \<Rightarrow> bool" where
  "item_ok it \<longleftrightarrow> 0 < pi_length it \<and>
     (pi_type it = piSkipFixed \<or>
      pi_type it = piDirectMatch \<and> pi_length it \<le> length (pi_data it) \<or>
      pi_type it = piSearch \<and> pi_length it \<le> length (pi_data it) \<and> kmp_table (item_string it) (pi_kmpNext it))"

definition items_ok :: "'a PatternItem list \<Rightarrow> bool" where
  "items_ok items \<longleftrightarrow> items \<noteq> [] \<and> (\<forall>it \<in> set items. item_ok it) \<and>
     (\<forall>p. p + 1 < length items \<longrightarrow> (pi_type (items ! (p + 1)) = piSearch) = pi_match_any (items ! p))"

text \<open>The tokens after item \<open>p\<close>, and what a branch accepts of the value still to come.\<close>

definition tokens_after :: "'a PatternItem list \<Rightarrow> nat \<Rightarrow> 'a token list" where
  "tokens_after items p = any_after (items ! p) @ tokens_of (drop (p + 1) items)"

definition branch_accepts :: "'a PatternItem list \<Rightarrow> nat \<times> int \<Rightarrow> 'a list \<Rightarrow> bool" where
  "branch_accepts items b u =
     (case b of (p, offset) \<Rightarrow>
        (case pi_type (items ! p) of
           piDirectMatch \<Rightarrow> like_match (map Lit (drop (nat offset) (item_string (items ! p))) @ tokens_after items p) u
         | piSkipFixed \<Rightarrow> like_match (replicate (pi_length (items ! p) - nat offset) AnyChar @ tokens_after items p) u
         | piSearch \<Rightarrow> like_match (AnyString # map Lit (item_string (items ! p)) @ tokens_after items p)
                         (take (nat offset) (item_string (items ! p)) @ u)
         | _ \<Rightarrow> False))"

definition branch_ok :: "'a PatternItem list \<Rightarrow> nat \<times> int \<Rightarrow> bool" where
  "branch_ok items b \<longleftrightarrow> fst b < length items \<and> 0 \<le> snd b \<and> snd b < int (pi_length (items ! fst b))"

text \<open>No string of any length lies between two branches.\<close>

definition same_segment :: "'a PatternItem list \<Rightarrow> (nat \<times> int) list \<Rightarrow> bool" where
  "same_segment items bs \<longleftrightarrow>
     (\<forall>b1 \<in> set bs. \<forall>b2 \<in> set bs. \<forall>i. fst b1 \<le> i \<and> i < fst b2 \<longrightarrow> \<not> pi_match_any (items ! i))"

text \<open>Only the first branch can be a search, and where there are several it is one.\<close>

definition branches_ok :: "'a PatternItem list \<Rightarrow> (nat \<times> int) list \<Rightarrow> bool" where
  "branches_ok items bs \<longleftrightarrow> (\<forall>b \<in> set bs. branch_ok items b) \<and> same_segment items bs \<and>
     (\<forall>b \<in> set (tl bs). plain_item (items ! fst b)) \<and>
     (1 < length bs \<longrightarrow> pi_type (items ! fst (hd bs)) = piSearch)"

lemma tokens_after_cases:
  assumes "items_ok items" and "p < length items"
  shows "pi_match_any (items ! p) \<Longrightarrow> p + 1 = length items \<Longrightarrow> like_match (tokens_after items p) u"
    and "\<not> pi_match_any (items ! p) \<Longrightarrow> p + 1 = length items \<Longrightarrow> like_match (tokens_after items p) u = (u = [])"
    and "p + 1 < length items \<Longrightarrow> like_match (tokens_after items p) u = branch_accepts items (p + 1, 0) u"
proof -
  assume "p + 1 < length items"
  then have drop: "drop (Suc p) items = items ! Suc p # drop (Suc (Suc p)) items"
    and ok: "item_ok (items ! Suc p)" and m: "(pi_type (items ! Suc p) = piSearch) = pi_match_any (items ! p)"
    using assms by (auto simp: items_ok_def Cons_nth_drop_Suc)
  have ts: "tokens_after items p = any_after (items ! p) @ item_tokens (items ! Suc p) @ tokens_of (drop (Suc (Suc p)) items)"
    by (simp add: tokens_after_def drop)
  from ok consider "pi_type (items ! Suc p) = piSearch" | "pi_type (items ! Suc p) = piSkipFixed"
    | "pi_type (items ! Suc p) = piDirectMatch" by (auto simp: item_ok_def)
  then show "like_match (tokens_after items p) u = branch_accepts items (p + 1, 0) u"
    unfolding ts by cases (use m in \<open>auto simp: any_after_def item_tokens_def branch_accepts_def tokens_after_def\<close>)
qed (use assms in \<open>auto simp: tokens_after_def any_after_def\<close>)

text \<open>One character at a branch that is not a search.\<close>

lemma plain_step:
  assumes "items_ok items" and "branch_ok items (p, off)" and "plain_item (items ! p)"
    and "pi_type (items ! p) = piDirectMatch \<Longrightarrow> pi_data (items ! p) ! nat off = c"
  shows "branch_accepts items (p, off) (c # u) =
     (if off + 1 \<ge> int (pi_length (items ! p)) then like_match (tokens_after items p) u
      else branch_accepts items (p, off + 1) u)"
proof -
  define k where "k = nat off"
  have off: "off = int k" and k: "k < pi_length (items ! p)" and p: "items ! p \<in> set items"
    using assms(2) by (auto simp: branch_ok_def k_def)
  have nat1: "nat (off + 1) = Suc k" using off by simp
  show ?thesis
  proof (cases "pi_type (items ! p) = piDirectMatch")
    case True
    define w where "w = item_string (items ! p)"
    have w: "length w = pi_length (items ! p)" "w ! k = c"
      using assms True p k by (auto simp: items_ok_def item_ok_def item_string_def w_def k_def)
    have "drop k w = c # drop (Suc k) w" using w k by (metis Cons_nth_drop_Suc)
    moreover have "drop (Suc k) w = []" if "pi_length (items ! p) \<le> Suc k" using that w by simp
    ultimately show ?thesis
      using True off w nat1 by (auto simp: branch_accepts_def w_def [symmetric])
  next
    case False
    then have ty: "pi_type (items ! p) = piSkipFixed" using assms(3) by (auto simp: plain_item_def)
    have "pi_length (items ! p) - k = Suc (pi_length (items ! p) - Suc k)" using k by simp
    then show ?thesis using ty off nat1 by (auto simp: branch_accepts_def)
  qed
qed

lemma direct_mismatch:
  assumes "items_ok items" and "branch_ok items (p, off)" and "pi_type (items ! p) = piDirectMatch"
    and "c \<noteq> pi_data (items ! p) ! nat off"
  shows "\<not> branch_accepts items (p, off) (c # u)"
proof -
  define w where "w = item_string (items ! p)"
  have "item_ok (items ! p)" "nat off < pi_length (items ! p)"
    using assms(1,2) by (auto simp: items_ok_def branch_ok_def)
  then have w: "nat off < length w" "w ! nat off \<noteq> c"
    using assms(3,4) by (auto simp: item_ok_def item_string_def w_def)
  then have "drop (nat off) w = w ! nat off # drop (Suc (nat off)) w" by (metis Cons_nth_drop_Suc)
  then show ?thesis using assms(3) w by (simp add: branch_accepts_def w_def [symmetric])
qed

text \<open>One character at a search.\<close>

lemma search_step:
  assumes io: "items_ok items" and bo: "branch_ok items (p, off)" and ty: "pi_type (items ! p) = piSearch"
  shows "\<exists>r. kmp_back (pi_data (items ! p)) (pi_kmpNext (items ! p)) c off = Some r \<and> 0 \<le> r + 1 \<and>
     (r + 1 < int (pi_length (items ! p)) \<longrightarrow>
        (\<forall>u. branch_accepts items (p, off) (c # u) = branch_accepts items (p, r + 1) u)) \<and>
     (r + 1 \<ge> int (pi_length (items ! p)) \<longrightarrow>
        branch_ok items (p, pi_kmpNext (items ! p) ! nat (r + 1)) \<and>
        (\<forall>u. branch_accepts items (p, off) (c # u) \<longleftrightarrow>
           like_match (tokens_after items p) u \<or>
           branch_accepts items (p, pi_kmpNext (items ! p) ! nat (r + 1)) u))"
proof -
  define w where "w = item_string (items ! p)"
  define kn where "kn = pi_kmpNext (items ! p)"
  define k where "k = nat off"
  have p: "p < length items" and off: "off = int k" and k: "k < pi_length (items ! p)"
    using bo by (auto simp: branch_ok_def k_def)
  have "item_ok (items ! p)" using io p by (simp add: items_ok_def)
  then have w: "length w = pi_length (items ! p)" "kmp_table w kn"
    using ty by (auto simp: item_ok_def item_string_def w_def kn_def)
  have less: "\<And>k. k < length w \<Longrightarrow> kn ! k < int k"
    using w(2) by (fastforce simp: kmp_table_def good_entry_def border_def)
  obtain r where r: "kmp_back w kn c (int k) = Some r" "back_result w c (int k) r"
    using kmp_back_correct [of "int k" w kn c] k w by (force simp: kmp_table_def)
  have kb: "kmp_back (pi_data (items ! p)) kn c off = Some r"
    using r(1) kmp_back_take [of "length w" kn "int k" "pi_data (items ! p)" c] less k
    by (simp add: off w(1)) (simp add: w_def item_string_def)
  have "longest_match w (take k w) k"
    using k w(1) by (auto simp: longest_match_def matched_def dest: suffix_length_le)
  then have lm: "longest_match w (take k w @ [c]) (nat (r + 1))" and r1: "r + 1 = int (nat (r + 1))"
    using longest_match_step [OF _ _ r(2)] k w(1) by auto
  have acc: "branch_accepts items (p, int j) u =
      like_match (AnyString # map Lit w @ tokens_after items p) (take j w @ u)" for j u
    using ty by (simp add: branch_accepts_def w_def)
  have len: "length (take k w @ [c]) \<le> length w" using k w(1) by simp
  have shift: "branch_accepts items (p, off) (c # u) \<longleftrightarrow>
      take k w @ [c] = w \<and> like_match (tokens_after items p) u \<or> branch_accepts items (p, int K) u"
    if "K < length w" "suffix (take K w) (take k w @ [c])"
      "\<And>j. j < length w \<Longrightarrow> matched w (take k w @ [c]) j \<Longrightarrow> j \<le> K" for K u
    using search_shift [OF len that] by (simp add: acc off)
  define k' where "k' = nat (r + 1)"
  note lm = lm [folded k'_def] and r1 = r1 [folded k'_def]
  have small: "branch_accepts items (p, off) (c # u) = branch_accepts items (p, r + 1) u"
    if "r + 1 < int (pi_length (items ! p))" for u
  proof -
    have "k' < length w" using that r1 w(1) by simp
    moreover have "take k w @ [c] \<noteq> w"
    proof
      assume "take k w @ [c] = w"
      then have "matched w (take k w @ [c]) (length w)" by (simp add: matched_def)
      then show False using lm calculation by (auto simp: longest_match_def)
    qed
    ultimately show ?thesis
      using shift [of k' u] lm r1 by (auto simp: longest_match_def matched_def)
  qed
  have big: "branch_ok items (p, kn ! k') \<and> (\<forall>u. branch_accepts items (p, off) (c # u) \<longleftrightarrow>
           like_match (tokens_after items p) u \<or> branch_accepts items (p, kn ! k') u)"
    if "r + 1 \<ge> int (pi_length (items ! p))"
  proof -
    have k'w: "k' = length w" using that r1 w(1) lm by (auto simp: longest_match_def matched_def)
    then have "suffix w (take k w @ [c])" using lm by (auto simp: longest_match_def matched_def)
    then have tw: "take k w @ [c] = w" using len by (metis suffix_length_le suffix_order.antisym le_antisym suffix_def append_eq_append_conv self_append_conv2)
    have "0 < length w" using k w(1) by simp
    then obtain K where K: "kn ! k' = int K" "border w (length w) K" "\<And>j. border w (length w) j \<Longrightarrow> j \<le> K"
      using w(2) k'w by (auto simp: kmp_table_def longest_border_def)
    have "K < length w" "suffix (take K w) (take k w @ [c])"
      using K(2) tw by (auto simp: border_def)
    moreover have "j \<le> K" if "j < length w" "matched w (take k w @ [c]) j" for j
      using that K(3) [of j] tw by (simp add: border_def matched_def)
    ultimately show ?thesis
      using shift [of K] tw K(1) p w(1) by (auto simp: branch_ok_def)
  qed
  show ?thesis
    using kb r1 small big by (intro exI [of _ r]) (auto simp: kn_def [symmetric] k'_def [symmetric])
qed

text \<open>A branch that is not finished accepts only by going through the end of its item.\<close>

lemma branch_accepts_rest:
  assumes "items_ok items" and "branch_ok items (p, off)" and "branch_accepts items (p, off) u"
  shows "\<exists>x v. u = x @ v \<and> x \<noteq> [] \<and> like_match (tokens_after items p) v"
proof -
  have "item_ok (items ! p)" "nat off < pi_length (items ! p)"
    using assms(1,2) by (auto simp: items_ok_def branch_ok_def)
  then consider (d) "pi_type (items ! p) = piDirectMatch" "nat off < length (item_string (items ! p))"
    | (f) "pi_type (items ! p) = piSkipFixed" "nat off < pi_length (items ! p)"
    | (s) "pi_type (items ! p) = piSearch" "nat off < length (item_string (items ! p))"
    by (auto simp: item_ok_def item_string_def)
  then show ?thesis
  proof cases
    case d
    then have "drop (nat off) (item_string (items ! p)) \<noteq> []" by simp
    then show ?thesis using assms(3) d(1) unfolding branch_accepts_def by (fastforce simp: like_match_lits)
  next
    case f
    define n where "n = pi_length (items ! p) - nat off"
    have "0 < n" "n \<le> length u" "like_match (tokens_after items p) (drop n u)"
      using f assms(3) by (auto simp: branch_accepts_def like_match_ones n_def)
    then show ?thesis by (intro exI [of _ "take n u"] exI [of _ "drop n u"]) auto
  next
    case s
    define w where "w = item_string (items ! p)"
    obtain a v where av: "take (nat off) w @ u = a @ w @ v" "like_match (tokens_after items p) v"
      using assms(3) s(1) by (auto simp: branch_accepts_def w_def like_match_search)
    define x where "x = drop (nat off) (a @ w)"
    have "u = drop (nat off) (take (nat off) w @ u)" using s by (simp add: w_def)
    also have "\<dots> = x @ v" using s unfolding av(1) x_def by (simp add: w_def)
    finally have "u = x @ v" .
    moreover have "nat off < length (a @ w)" using s(2) unfolding w_def length_append by linarith
    then have "x \<noteq> []" unfolding x_def drop_eq_Nil by linarith
    ultimately show ?thesis using av(2) by blast
  qed
qed

text \<open>Once an item followed by a string of any length is matched, its branch is enough.\<close>

lemma tokens_after_absorb:
  assumes io: "items_ok items" and q: "branch_ok items (q, off)" "q \<le> p" and p: "p < length items"
    and any: "pi_match_any (items ! p)" and acc: "branch_accepts items (q, off) (z @ u)" "length z \<le> 1"
  shows "like_match (tokens_after items p) u"
proof -
  obtain x v where xv: "z @ u = x @ v" "x \<noteq> []" "like_match (tokens_after items q) v"
    using branch_accepts_rest [OF io q(1) acc(1)] by blast
  have "length z \<le> length x" using acc(2) xv(2) by (cases x) auto
  then obtain x' where x': "u = x' @ v" using xv(1) by (auto simp: append_eq_append_conv2)
  have tp: "tokens_after items p = AnyString # tokens_of (drop (p + 1) items)"
    using any by (simp add: tokens_after_def any_after_def)
  have "\<exists>ys. tokens_after items q = ys @ tokens_after items p"
  proof (cases "q = p")
    case False
    then have "drop (q + 1) items = take (p - q) (drop (q + 1) items) @ drop (p + 1) items"
      using q(2) by (metis Suc_eq_plus1 add_Suc append_take_drop_id drop_drop le_add_diff_inverse2)
    moreover have "last (take (p - q) (drop (q + 1) items)) = items ! p" "take (p - q) (drop (q + 1) items) \<noteq> []"
      using False q(2) p by (auto simp: last_conv_nth)
    ultimately have d: "drop (q + 1) items = butlast (take (p - q) (drop (q + 1) items)) @ [items ! p] @ drop (p + 1) items"
      by (metis append.assoc append_butlast_last_id)
    obtain zs where "item_tokens (items ! p) = zs @ any_after (items ! p)" by (auto simp: item_tokens_def)
    then have "tokens_of (drop (q + 1) items) =
        (tokens_of (butlast (take (p - q) (drop (q + 1) items))) @ zs) @ tokens_after items p"
      by (subst d) (simp add: tokens_after_def)
    then show ?thesis by (metis append.assoc tokens_after_def)
  qed (auto intro: exI [of _ "[]"])
  then obtain y v' where "v = y @ v'" "like_match (tokens_after items p) v'"
    using xv(3) by (auto simp: like_match_append)
  then show ?thesis using like_match_Any_mono [of _ v' "x' @ y"] x' by (simp add: tp)
qed

section \<open>One character\<close>

lemma branches_ok_remove:
  assumes "branches_ok items (pre @ b # post)" and "pre \<noteq> []"
  shows "branches_ok items (pre @ post)"
  using assms by (cases pre) (auto simp: branches_ok_def same_segment_def)

lemma branches_ok_replace:
  assumes "branches_ok items (pre @ (p, off) # post)" and "plain_item (items ! p)"
    and "p' = p \<or> p' = p + 1 \<and> \<not> pi_match_any (items ! p)"
    and "plain_item (items ! p')" and "branch_ok items (p', off')"
  shows "branches_ok items (pre @ (p', off') # post)"
proof -
  have seg: "\<not> pi_match_any (items ! i)"
    if "b1 \<in> set (pre @ (p, off) # post)" "b2 \<in> set (pre @ (p, off) # post)" "fst b1 \<le> i" "i < fst b2" for b1 b2 i
    using assms(1) that unfolding branches_ok_def same_segment_def by blast
  have "same_segment items (pre @ (p', off') # post)"
    unfolding same_segment_def
  proof (intro ballI allI impI)
    fix b1 b2 i
    assume b: "b1 \<in> set (pre @ (p', off') # post)" "b2 \<in> set (pre @ (p', off') # post)" "fst b1 \<le> i \<and> i < fst b2"
    obtain b1' where b1': "b1' \<in> set (pre @ (p, off) # post)" "fst b1' \<le> i"
    proof (cases "b1 = (p', off')")
      case True
      then show thesis using b(3) assms(3) that [of "(p, off)"] by auto
    next
      case False
      then show thesis using b(1,3) that [of b1] by auto
    qed
    show "\<not> pi_match_any (items ! i)"
    proof (cases "b2 = (p', off')")
      case True
      then show ?thesis
        using seg [OF b1'(1) _ b1'(2), of "(p, off)"] b(3) assms(3) by (cases "i = p") auto
    next
      case False
      then show ?thesis using seg [OF b1'(1) _ b1'(2), of b2] b(2,3) by auto
    qed
  qed
  then show ?thesis
    using assms by (cases pre) (auto simp: branches_ok_def plain_item_def)
qed

lemma branches_ok_single:
  "branch_ok items b \<Longrightarrow> branches_ok items [b]"
  by (auto simp: branches_ok_def same_segment_def)

lemma branch_ok_start: "items_ok items \<Longrightarrow> p < length items \<Longrightarrow> branch_ok items (p, 0)"
  by (auto simp: branch_ok_def items_ok_def item_ok_def)

text \<open>
  \<open>acc u\<close>: the value ending with \<open>u\<close> after the current character is to be accepted. What the loop
  over the branches has to achieve.
\<close>

definition step_ok :: "'a PatternItem list \<Rightarrow> int \<Rightarrow> int \<Rightarrow> ('a list \<Rightarrow> bool) \<Rightarrow> branch_outcome \<Rightarrow> bool" where
  "step_ok items pos len acc out =
     (case out of
        NextChar bs fin \<Rightarrow> bs \<noteq> [] \<and> branches_ok items bs \<and> fin \<le> pos \<and>
          (\<forall>u. acc u \<longleftrightarrow> (u = [] \<and> fin = pos) \<or> (\<exists>b \<in> set bs. branch_accepts items b u))
      | Return needMore m \<Rightarrow>
          (case m of
             MATCH_ANY \<Rightarrow> \<not> needMore \<and> (\<forall>u. acc u)
           | MATCH_FIXED \<Rightarrow> needMore \<and> pos = len - 1 \<and> (\<forall>u. acc u \<longleftrightarrow> u = [])
           | MATCH_NONE \<Rightarrow> \<not> needMore \<and> (\<forall>u. acc u \<longrightarrow> u = [] \<and> pos \<noteq> len - 1)))"

definition pending :: "'a PatternItem list \<Rightarrow> 'a \<Rightarrow> int \<Rightarrow> (nat \<times> int) list \<Rightarrow> (nat \<times> int) list \<Rightarrow> int \<Rightarrow> 'a list \<Rightarrow> bool" where
  "pending items c pos pre post fin u \<longleftrightarrow> (u = [] \<and> fin = pos) \<or>
     (\<exists>b \<in> set pre. branch_accepts items b u) \<or> (\<exists>b \<in> set post. branch_accepts items b (c # u))"

text \<open>Where a branch gets to the end of an item followed by a string of any length.\<close>

lemma pending_absorb:
  assumes io: "items_ok items" and bo: "branches_ok items (pre @ (p, off) # post)"
    and p: "p + 1 < length items" and any: "pi_match_any (items ! p)"
    and me: "\<And>u. branch_accepts items (p, off) (c # u) = like_match (tokens_after items p) u"
  shows "pending items c pos pre ((p, off) # post) fin u \<longleftrightarrow>
     (u = [] \<and> fin = pos) \<or> branch_accepts items (p + 1, 0) u"
proof -
  have next_acc: "branch_accepts items (p + 1, 0) u = like_match (tokens_after items p) u"
    using tokens_after_cases(3) [OF io _ p] p by simp
  have "like_match (tokens_after items p) u"
    if b: "b \<in> set (pre @ (p, off) # post)" "branch_accepts items b (z @ u)" "length z \<le> 1" for b z
  proof -
    obtain q o' where q: "b = (q, o')" by (cases b)
    have "branch_ok items (q, o')" using b(1) bo unfolding branches_ok_def q by blast
    moreover have "q \<le> p"
    proof (rule ccontr)
      assume "\<not> q \<le> p"
      then show False using b(1) bo any unfolding branches_ok_def same_segment_def q by fastforce
    qed
    ultimately show ?thesis
      using tokens_after_absorb [OF io _ _ _ any, of q o' z u] b(2,3) p by (simp add: q)
  qed
  from this [where z = "[]"] this [where z = "[c]"] show ?thesis
    unfolding pending_def next_acc by (auto simp: me)
qed

text \<open>The branches that are not searches.\<close>

lemma plain_advance:
  assumes io: "items_ok items" and bo: "branches_ok items (pre @ (p, off) # post)"
    and plain: "plain_item (items ! p)" and pre: "pre = [] \<Longrightarrow> post = []" and fin: "fin \<le> pos"
    and hit: "pi_type (items ! p) = piDirectMatch \<Longrightarrow> pi_data (items ! p) ! nat off = c"
  shows "case branch_advance items pos len pre p off post fin of
      Inl out \<Rightarrow> step_ok items pos len (pending items c pos pre ((p, off) # post) fin) out
    | Inr (pre', fin') \<Rightarrow> pre' \<noteq> [] \<and> branches_ok items (pre' @ post) \<and> fin' \<le> pos \<and>
        pending items c pos pre ((p, off) # post) fin = pending items c pos pre' post fin'"
proof -
  have bk: "branch_ok items (p, off)" using bo by (simp add: branches_ok_def)
  then have p: "p < length items" by (simp add: branch_ok_def)
  note step = plain_step [OF io bk plain hit]
  consider (inside) "off + 1 < int (pi_length (items ! p))"
    | (any_end) "off + 1 \<ge> int (pi_length (items ! p))" "pi_match_any (items ! p)" "p + 1 = length items"
    | (any_next) "off + 1 \<ge> int (pi_length (items ! p))" "pi_match_any (items ! p)" "p + 1 < length items"
    | (finished) "off + 1 \<ge> int (pi_length (items ! p))" "\<not> pi_match_any (items ! p)" "p + 1 = length items"
    | (next_item) "off + 1 \<ge> int (pi_length (items ! p))" "\<not> pi_match_any (items ! p)" "p + 1 < length items"
    using p by linarith
  then show ?thesis
  proof cases
    case inside
    have "branch_ok items (p, off + 1)" using bk inside by (simp add: branch_ok_def)
    then show ?thesis
      using inside branches_ok_replace [OF bo plain _ plain] fin
      by (auto simp: branch_advance_def pending_def fun_eq_iff step)
  next
    case any_end
    then show ?thesis
      using tokens_after_cases(1) [OF io p] by (auto simp: branch_advance_def step_ok_def pending_def step)
  next
    case any_next
    then show ?thesis
      using pending_absorb [OF io bo _ _, of c pos fin] step branches_ok_single branch_ok_start [OF io, of "p + 1"] fin
      by (auto simp: branch_advance_def step_ok_def)
  next
    case finished
    have acc: "branch_accepts items (p, off) (c # u) = (u = [])" for u
      using step finished(1) tokens_after_cases(2) [OF io p finished(2,3)] by simp
    show ?thesis
    proof (cases "pre @ post = []")
      case True
      then show ?thesis using finished by (auto simp: branch_advance_def step_ok_def pending_def acc)
    next
      case False
      then have "pre \<noteq> []" using pre by auto
      then show ?thesis
        using finished branches_ok_remove [OF bo] by (auto simp: branch_advance_def pending_def fun_eq_iff acc)
    qed
  next
    case next_item
    have "item_ok (items ! (p + 1))" "pi_type (items ! (p + 1)) \<noteq> piSearch"
      using io next_item by (auto simp: items_ok_def)
    then have "plain_item (items ! (p + 1))" by (auto simp: item_ok_def plain_item_def)
    then have "branches_ok items (pre @ (p + 1, 0) # post)"
      using branches_ok_replace [OF bo plain _ _ branch_ok_start [OF io]] next_item by auto
    moreover have "branch_accepts items (p, off) (c # u) = branch_accepts items (p + 1, 0) u" for u
      using step next_item(1) tokens_after_cases(3) [OF io p next_item(3)] by simp
    ultimately show ?thesis
      using next_item fin by (auto simp: branch_advance_def pending_def fun_eq_iff)
  qed
qed

lemma plain_loop:
  assumes io: "items_ok items"
  shows "branches_ok items (pre @ post) \<Longrightarrow> \<forall>b \<in> set post. plain_item (items ! fst b) \<Longrightarrow>
     (pre = [] \<longrightarrow> length post = 1 \<and> fin < pos) \<Longrightarrow> fin \<le> pos \<Longrightarrow>
     \<exists>out. branch_loop items c pos len pre post fin = Some out \<and> step_ok items pos len (pending items c pos pre post fin) out"
proof (induction post arbitrary: pre fin)
  case Nil
  then show ?case by (auto simp: step_ok_def pending_def)
next
  case (Cons b post)
  obtain p off where b: "b = (p, off)" by (cases b)
  note bo = Cons.prems(1) [unfolded b]
  have plain: "plain_item (items ! p)" "\<forall>b \<in> set post. plain_item (items ! fst b)"
    using Cons.prems(2) by (auto simp: b)
  show ?case
  proof (cases "pi_type (items ! p) = piDirectMatch \<and> c \<noteq> pi_data (items ! p) ! nat off")
    case True
    have "\<not> branch_accepts items (p, off) (c # u)" for u
      using direct_mismatch [OF io, of p off c u] True bo by (simp add: branches_ok_def)
    then have pend: "pending items c pos pre (b # post) fin = pending items c pos pre post fin"
      by (auto simp: pending_def fun_eq_iff b)
    show ?thesis
    proof (cases "pre @ post = []")
      case nil: True
      then have "fin \<noteq> pos" using Cons.prems(3) by auto
      then show ?thesis using True nil unfolding pend by (auto simp: b step_ok_def pending_def)
    next
      case False
      then have "pre \<noteq> []" using Cons.prems(3) by auto
      then show ?thesis
        using Cons.IH [of pre fin] branches_ok_remove [OF bo] plain(2) Cons.prems(4) True False
        unfolding pend by (simp add: b)
    qed
  next
    case False
    have "branch_loop items c pos len pre (b # post) fin =
        (case branch_advance items pos len pre p off post fin of
           Inl r \<Rightarrow> Some r | Inr (pre', fin) \<Rightarrow> branch_loop items c pos len pre' post fin)"
      using plain(1) False by (auto simp: b plain_item_def)
    moreover have "pre = [] \<Longrightarrow> post = []" using Cons.prems(3) by auto
    moreover note plain_advance [OF io bo plain(1) _ Cons.prems(4), of c len] False Cons.IH plain(2)
    ultimately show ?thesis
      by (cases "branch_advance items pos len pre p off post fin") (auto simp: b)
  qed
qed

lemma search_next_alone:
  assumes "items_ok items" and bo: "branches_ok items ((p, off) # post)" and "pi_type (items ! p) = piSearch"
    and any: "pi_match_any (items ! p)"
  shows "post = []"
proof (rule ccontr)
  assume "post \<noteq> []"
  then obtain q o' where q: "(q, o') \<in> set post" by (cases post) auto
  have seg: "\<not> pi_match_any (items ! i)" if "p \<le> i \<and> i < q \<or> q \<le> i \<and> i < p" for i
    using bo q that unfolding branches_ok_def same_segment_def by fastforce
  have "plain_item (items ! q)" using bo q by (auto simp: branches_ok_def)
  then have "q \<noteq> p" using assms(3) by (auto simp: plain_item_def)
  moreover have "\<not> p < q" using seg [of p] any by blast
  moreover have "\<not> q < p"
  proof
    assume "q < p"
    then have "pi_match_any (items ! (p - 1))"
      using assms(1-3) unfolding items_ok_def
      by (auto simp: branches_ok_def branch_ok_def dest!: spec [of _ "p - 1"])
    moreover have "q \<le> p - 1 \<and> p - 1 < p" using \<open>q < p\<close> by simp
    ultimately show False using seg [of "p - 1"] by blast
  qed
  ultimately show False by simp
qed

lemma branches_ok_spawn:
  assumes bo: "branches_ok items ((p, off) # post)" and "pi_type (items ! p) = piSearch"
    and any: "\<not> pi_match_any (items ! p)" and "branch_ok items (p, off')" and "branch_ok items (p + 1, 0)"
    and "plain_item (items ! (p + 1))"
  shows "branches_ok items ((p, off') # (p + 1, 0) # post)"
proof -
  have seg: "\<not> pi_match_any (items ! i)"
    if "b1 \<in> set ((p, off) # post)" "b2 \<in> set ((p, off) # post)" "fst b1 \<le> i" "i < fst b2" for b1 b2 i
    using bo that unfolding branches_ok_def same_segment_def by blast
  have lo: "\<exists>b \<in> set ((p, off) # post). fst b \<le> fst b1" if "b1 \<in> set ((p, off') # (p + 1, 0) # post)" for b1
    using that by force
  have "same_segment items ((p, off') # (p + 1, 0) # post)"
    unfolding same_segment_def
  proof (intro ballI allI impI)
    fix b1 b2 i
    assume b: "b1 \<in> set ((p, off') # (p + 1, 0) # post)" "b2 \<in> set ((p, off') # (p + 1, 0) # post)"
      "fst b1 \<le> i \<and> i < fst b2"
    obtain b1' where b1': "b1' \<in> set ((p, off) # post)" "fst b1' \<le> i" using lo [OF b(1)] b(3) by (meson le_trans)
    consider "fst b2 = p \<or> fst b2 = p + 1" | "b2 \<in> set post" using b(2) by auto
    then show "\<not> pi_match_any (items ! i)"
    proof cases
      case 1
      then show ?thesis using seg [OF b1'(1) _ b1'(2), of "(p, off)"] b(3) any by (cases "i = p") auto
    next
      case 2
      then show ?thesis using seg [OF b1'(1) _ b1'(2), of b2] b(3) by auto
    qed
  qed
  then show ?thesis using assms by (auto simp: branches_ok_def)
qed

text \<open>All branches: the first may be a search.\<close>

lemma branch_loop_step:
  assumes io: "items_ok items" and bo: "branches_ok items bs" and ne: "bs \<noteq> []" and fin: "fin < pos"
  shows "\<exists>out. branch_loop items c pos len [] bs fin = Some out \<and>
     step_ok items pos len (\<lambda>u. \<exists>b \<in> set bs. branch_accepts items b (c # u)) out"
proof -
  obtain p off post where bs: "bs = (p, off) # post" using ne by (cases bs) auto
  have acc: "(\<lambda>u. \<exists>b \<in> set bs. branch_accepts items b (c # u)) = pending items c pos [] bs fin"
    using fin by (auto simp: pending_def fun_eq_iff)
  have bk: "branch_ok items (p, off)" using bo by (simp add: branches_ok_def bs)
  then have p: "p < length items" by (simp add: branch_ok_def)
  show ?thesis
  proof (cases "pi_type (items ! p) = piSearch")
    case False
    then have "post = []" using bo by (cases post) (auto simp: branches_ok_def bs)
    moreover have "item_ok (items ! p)" using io p by (simp add: items_ok_def)
    then have "plain_item (items ! p)" using False by (auto simp: item_ok_def plain_item_def)
    ultimately show ?thesis unfolding acc using plain_loop [OF io, of "[]" bs] bo fin by (simp add: bs)
  next
    case True
    have plain: "\<forall>b \<in> set post. plain_item (items ! fst b)" using bo by (simp add: branches_ok_def bs)
    have go: "\<exists>out. branch_loop items c pos len pre' post fin' = Some out \<and>
        step_ok items pos len (pending items c pos [] bs fin) out"
      if "branches_ok items (pre' @ post)" "pre' \<noteq> []" "fin' \<le> pos"
        "\<And>u. branch_accepts items (p, off) (c # u) \<longleftrightarrow> u = [] \<and> fin' = pos \<or> (\<exists>b \<in> set pre'. branch_accepts items b u)"
      for pre' fin'
    proof -
      have "pending items c pos [] bs fin = pending items c pos pre' post fin'"
        using that(4) fin by (auto simp: pending_def fun_eq_iff bs)
      then show ?thesis using plain_loop [OF io that(1) plain] that(2,3) by simp
    qed
    obtain r where r: "kmp_back (pi_data (items ! p)) (pi_kmpNext (items ! p)) c off = Some r" "0 \<le> r + 1"
      and small: "r + 1 < int (pi_length (items ! p)) \<Longrightarrow>
        (\<forall>u. branch_accepts items (p, off) (c # u) = branch_accepts items (p, r + 1) u)"
      and big: "r + 1 \<ge> int (pi_length (items ! p)) \<Longrightarrow>
        branch_ok items (p, pi_kmpNext (items ! p) ! nat (r + 1)) \<and>
        (\<forall>u. branch_accepts items (p, off) (c # u) \<longleftrightarrow> like_match (tokens_after items p) u \<or>
           branch_accepts items (p, pi_kmpNext (items ! p) ! nat (r + 1)) u)"
      using search_step [OF io bk True, of c] by blast
    define bp where "bp = pi_kmpNext (items ! p) ! nat (r + 1)"
    have same: "branches_ok items ((p, o') # post)" if "branch_ok items (p, o')" for o'
      using bo that by (simp add: branches_ok_def same_segment_def bs)
    have loop: "branch_loop items c pos len [] bs fin =
        (case branch_search items pos [] p (r + 1) fin of
           Inl r \<Rightarrow> Some r | Inr (pre', fin) \<Rightarrow> branch_loop items c pos len pre' post fin)"
      using True r(1) by (simp add: bs)
    consider (inside) "r + 1 < int (pi_length (items ! p))"
      | (end_any) "r + 1 \<ge> int (pi_length (items ! p))" "p + 1 = length items" "pi_match_any (items ! p)"
      | (end_fixed) "r + 1 \<ge> int (pi_length (items ! p))" "p + 1 = length items" "\<not> pi_match_any (items ! p)"
      | (next_search) "r + 1 \<ge> int (pi_length (items ! p))" "p + 1 < length items" "pi_match_any (items ! p)"
      | (next_plain) "r + 1 \<ge> int (pi_length (items ! p))" "p + 1 < length items" "\<not> pi_match_any (items ! p)"
      using p by linarith
    then show ?thesis
    proof cases
      case inside
      then have "branch_ok items (p, r + 1)" using r(2) p by (simp add: branch_ok_def)
      then show ?thesis
        unfolding acc loop using go [of "[(p, r + 1)]" fin] same small [OF inside] inside fin
        by (simp add: branch_search_def)
    next
      case end_any
      then show ?thesis
        unfolding acc loop using tokens_after_cases(1) [OF io p end_any(3,2)] big [OF end_any(1)]
        by (auto simp: branch_search_def step_ok_def pending_def bs)
    next
      case end_fixed
      then show ?thesis
        unfolding acc loop using go [of "[(p, bp)]" pos] same big [OF end_fixed(1)]
          tokens_after_cases(2) [OF io p end_fixed(3,2)]
        by (simp add: branch_search_def bp_def)
    next
      case next_search
      then have "pi_type (items ! (p + 1)) = piSearch" using io by (simp add: items_ok_def)
      moreover have "post = []"
        using search_next_alone [OF io bo [unfolded bs] True next_search(3)] .
      moreover have "branch_accepts items (p, bp) u \<Longrightarrow> like_match (tokens_after items p) u" for u
        using tokens_after_absorb [OF io _ le_refl p next_search(3), of bp "[]" u] big [OF next_search(1)]
        by (simp add: bp_def)
      ultimately show ?thesis
        unfolding acc loop using go [of "[(p + 1, 0)]" fin] next_search fin big [OF next_search(1)]
          tokens_after_cases(3) [OF io p next_search(2)]
          branches_ok_single [OF branch_ok_start [OF io next_search(2)]]
        by (auto simp: branch_search_def bp_def)
    next
      case next_plain
      have "item_ok (items ! (p + 1))" "pi_type (items ! (p + 1)) \<noteq> piSearch"
        using io next_plain by (auto simp: items_ok_def)
      then have "plain_item (items ! (p + 1))" by (auto simp: item_ok_def plain_item_def)
      then have "branches_ok items ((p, bp) # (p + 1, 0) # post)"
        using branches_ok_spawn [OF bo [unfolded bs] True next_plain(3)] big [OF next_plain(1)]
          branch_ok_start [OF io next_plain(2)] by (simp add: bp_def)
      then show ?thesis
        unfolding acc loop using go [of "[(p, bp), (p + 1, 0)]" fin] big [OF next_plain(1)] next_plain fin
          tokens_after_cases(3) [OF io p next_plain(2)] \<open>pi_type (items ! (p + 1)) \<noteq> piSearch\<close>
        by (auto simp: branch_search_def bp_def)
    qed
  qed
qed

section \<open>Chunks\<close>

text \<open>
  The evaluator after the text \<open>t\<close>, for the items of a pattern whose meaning is \<open>accepts\<close>. A
  pattern of only strings of any length, or of nothing, has a single item without a type.
\<close>

definition like_represents ::
  "'a PatternItem list \<Rightarrow> ('a list \<Rightarrow> bool) \<Rightarrow> 'a LikeEvaluator \<Rightarrow> 'a list \<Rightarrow> bool" where
  "like_represents items accepts e t \<longleftrightarrow> patternItems e = items \<and>
     (case match_type e of
        MATCH_ANY \<Rightarrow> branches e = [] \<and> (\<forall>u. accepts (t @ u))
      | m \<Rightarrow> (branches e = [] \<or> items_ok items) \<and> branches_ok items (branches e) \<and>
          (\<forall>u. accepts (t @ u) \<longleftrightarrow>
             (u = [] \<and> m = MATCH_FIXED) \<or> (\<exists>b \<in> set (branches e). branch_accepts items b u)))"

lemma branch_accepts_Nil:
  assumes "items_ok items" and "branch_ok items b"
  shows "\<not> branch_accepts items b []"
  using branch_accepts_rest [OF assms(1), of "fst b" "snd b" "[]"] assms(2) by auto

lemma like_data_loop_represents:
  assumes io: "items_ok items"
  shows "patternItems e = items \<Longrightarrow> match_type e = MATCH_NONE \<Longrightarrow> branches e \<noteq> [] \<Longrightarrow> branches_ok items (branches e) \<Longrightarrow>
     fin < pos \<Longrightarrow> pos + int (length d) = len \<Longrightarrow>
     (\<And>u. accepts (t @ u) \<longleftrightarrow> (u = [] \<and> fin = pos - 1) \<or> (\<exists>b \<in> set (branches e). branch_accepts items b u)) \<Longrightarrow>
     \<exists>needMore e'. like_data_loop e pos len d fin = Some (needMore, e') \<and> like_represents items accepts e' (t @ d) \<and>
       (\<not> needMore \<longrightarrow> (\<forall>u. accepts (t @ d @ u) = accepts (t @ d)))"
proof (induction d arbitrary: e t pos fin)
  case Nil
  then show ?case by (auto simp: like_represents_def io)
next
  case (Cons c d)
  define acc where "acc u = (\<exists>b \<in> set (branches e). branch_accepts items b (c # u))" for u
  have acc: "accepts (t @ c # u) = acc u" for u using Cons.prems(7) [of "c # u"] by (simp add: acc_def)
  obtain out where out: "branch_loop items c pos len [] (branches e) fin = Some out" "step_ok items pos len acc out"
    using branch_loop_step [OF io Cons.prems(4,3,5), of c len] unfolding acc_def by blast
  show ?case
  proof (cases out)
    case (NextChar bs fin')
    define e' where "e' = e\<lparr>branches := bs\<rparr>"
    have b: "bs \<noteq> []" "branches_ok items bs" "fin' < pos + 1"
      and a: "\<And>u. acc u \<longleftrightarrow> (u = [] \<and> fin' = pos) \<or> (\<exists>b \<in> set bs. branch_accepts items b u)"
      using out(2) by (auto simp: step_ok_def NextChar)
    have acc': "accepts ((t @ [c]) @ u) \<longleftrightarrow>
        (u = [] \<and> fin' = pos + 1 - 1) \<or> (\<exists>b \<in> set (branches e'). branch_accepts items b u)" for u
      using acc [of u] a [of u] by (simp add: e'_def)
    have "\<exists>needMore e''. like_data_loop e' (pos + 1) len d fin' = Some (needMore, e'') \<and>
        like_represents items accepts e'' ((t @ [c]) @ d) \<and>
        (\<not> needMore \<longrightarrow> (\<forall>u. accepts ((t @ [c]) @ d @ u) = accepts ((t @ [c]) @ d)))"
      by (rule Cons.IH) (use Cons.prems b acc' in \<open>simp_all add: e'_def\<close>)
    then show ?thesis using out(1) Cons.prems(1) by (simp add: NextChar e'_def)
  next
    case (Return needMore m)
    define e' where "e' = e\<lparr>branches := [], match_type := m\<rparr>"
    have run: "like_data_loop e pos len (c # d) fin = Some (needMore, e')"
      using out(1) Cons.prems(1) by (simp add: Return e'_def)
    have bo: "branches_ok items []" by (simp add: branches_ok_def same_segment_def)
    have whole: "accepts ((t @ c # d) @ u) = acc (d @ u)" "accepts (t @ (c # d) @ u) = acc (d @ u)"
      "accepts (t @ c # d) = acc d" for u
      using acc [of "d @ u"] acc [of d] by simp_all
    show ?thesis
    proof (cases m)
      case MATCH_ANY
      then have "\<not> needMore" "\<And>u. acc u" using out(2) by (auto simp: step_ok_def Return)
      then show ?thesis unfolding run using whole(1,2) whole(3) MATCH_ANY Cons.prems(1)
        by (auto simp: like_represents_def e'_def)
    next
      case MATCH_FIXED
      then have r: needMore "pos = len - 1" "\<And>u. acc u \<longleftrightarrow> u = []" using out(2) by (auto simp: step_ok_def Return)
      then have "d = []" using Cons.prems(6) by simp
      then show ?thesis unfolding run using whole r MATCH_FIXED Cons.prems(1) bo
        by (auto simp: like_represents_def e'_def acc)
    next
      case MATCH_NONE
      then have r: "\<not> needMore" "\<And>u. acc u \<Longrightarrow> u = [] \<and> pos \<noteq> len - 1" using out(2) by (auto simp: step_ok_def Return)
      then have "\<not> acc (d @ u)" for u using Cons.prems(6) by force
      moreover from this [of "[]"] have "\<not> acc d" by simp
      ultimately show ?thesis unfolding run using whole r MATCH_NONE Cons.prems(1) bo
        by (auto simp: like_represents_def e'_def)
    qed
  qed
qed

lemma like_process_represents:
  assumes "like_represents items accepts e t"
  shows "\<exists>needMore e'. like_processNextChunk e d = Some (needMore, e') \<and> like_represents items accepts e' (t @ d) \<and>
     (\<not> needMore \<longrightarrow> (\<forall>u. accepts (t @ d @ u) = accepts (t @ d)))"
proof (cases "match_type e = MATCH_ANY")
  case True
  then show ?thesis
    using assms by (auto simp: like_processNextChunk_def like_represents_def Let_def)
next
  case any: False
  then have r: "patternItems e = items" "branches e = [] \<or> items_ok items" "branches_ok items (branches e)"
    and acc: "\<And>u. accepts (t @ u) \<longleftrightarrow>
       (u = [] \<and> match_type e = MATCH_FIXED) \<or> (\<exists>b \<in> set (branches e). branch_accepts items b u)"
    using assms by (auto simp: like_represents_def split: MatchType.splits)
  show ?thesis
  proof (cases "d = []")
    case True
    then show ?thesis
      using assms acc acc [of "[]"] by (auto simp: like_processNextChunk_def)
  next
    case d: False
    define e1 where "e1 = (if match_type e = MATCH_FIXED then e\<lparr>match_type := MATCH_NONE\<rparr> else e)"
    have e1: "patternItems e1 = items" "match_type e1 = MATCH_NONE" "branches e1 = branches e"
      using any r(1) by (cases "match_type e"; simp add: e1_def)+
    have run: "like_processNextChunk e d =
        (if branches e = [] then Some (False, e1) else like_data_loop e1 0 (int (length d)) d (-1))"
      using d e1(3) by (simp add: like_processNextChunk_def e1_def Let_def)
    have acc1: "accepts (t @ u) \<longleftrightarrow> (\<exists>b \<in> set (branches e). branch_accepts items b u)" if "u \<noteq> []" for u
      using acc [of u] that by simp
    show ?thesis
    proof (cases "branches e = []")
      case True
      then have "\<not> accepts (t @ d @ u)" for u using acc1 [of "d @ u"] d by simp
      moreover from this [of "[]"] have "\<not> accepts (t @ d)" by simp
      ultimately show ?thesis unfolding run
        using True e1 r by (auto simp: like_represents_def)
    next
      case ne: False
      then have io: "items_ok items" using r(2) by simp
      define acc' where "acc' s = (s = t \<or> accepts s)" for s
      have nil: "\<not> (\<exists>b \<in> set (branches e). branch_accepts items b [])"
        using r(3) branch_accepts_Nil [OF io] by (auto simp: branches_ok_def)
      have "\<exists>needMore e'. like_data_loop e1 0 (int (length d)) d (-1) = Some (needMore, e') \<and>
          like_represents items acc' e' (t @ d) \<and> (\<not> needMore \<longrightarrow> (\<forall>u. acc' (t @ d @ u) = acc' (t @ d)))"
      proof (rule like_data_loop_represents [OF io e1(1,2), unfolded e1(3), OF ne r(3)])
        show "acc' (t @ u) \<longleftrightarrow> u = [] \<and> - 1 = (0 :: int) - 1 \<or> (\<exists>b \<in> set (branches e). branch_accepts items b u)" for u
          using acc1 [of u] nil by (cases "u = []") (auto simp: acc'_def)
      qed simp_all
      moreover have "acc' (t @ d @ u) = accepts (t @ d @ u)" for u using d by (simp add: acc'_def)
      moreover have "like_represents items acc' e' (t @ d) = like_represents items accepts e' (t @ d)" for e'
      proof -
        have "acc' ((t @ d) @ u) = accepts ((t @ d) @ u)" for u using d by (simp add: acc'_def)
        then show ?thesis unfolding like_represents_def by (cases "match_type e'") simp_all
      qed
      ultimately show ?thesis unfolding run using ne d by (auto simp: acc'_def)
    qed
  qed
qed

lemma like_getResult_accepts:
  assumes "like_represents items accepts e t"
  shows "like_getResult e = accepts t"
proof (cases "match_type e = MATCH_ANY")
  case True
  then show ?thesis using assms by (auto simp: like_represents_def like_getResult_def dest: spec [of _ "[]"])
next
  case False
  then have r: "branches e = [] \<or> items_ok items" "branches_ok items (branches e)"
    and acc: "accepts (t @ []) \<longleftrightarrow> match_type e = MATCH_FIXED \<or> (\<exists>b \<in> set (branches e). branch_accepts items b [])"
    using assms unfolding like_represents_def by (auto split: MatchType.splits dest: spec [of _ "[]"] simp del: append_Nil2)
  have "\<not> (\<exists>b \<in> set (branches e). branch_accepts items b [])"
    using r branch_accepts_Nil by (auto simp: branches_ok_def)
  then show ?thesis using acc False by (cases "match_type e") (auto simp: like_getResult_def)
qed

interpretation like_chunks: chunk_evaluator
  like_processNextChunk like_getResult "like_represents items accepts" accepts for items accepts
  by unfold_locales (erule like_process_represents, erule like_getResult_accepts)

end
