(* ===== verification/FB_Like_Compile.thy ===== *)
theory FB_Like_Compile
  imports FB_Like_Match
begin

text \<open>
  The compilation of a \<^verbatim>\<open>LIKE\<close> pattern keeps its meaning: the tokens of the pattern, those of the
  parsed items and those of the compiled items accept the same values. With the matching phase
  this gives the correctness of the evaluator for a value in any chunks.
\<close>

section \<open>The tokens of a pattern\<close>

text \<open>\<open>None\<close>: an escape character that is not followed by a character it may escape.\<close>

fun like_tokens :: "'a::zero like_params \<Rightarrow> 'a list \<Rightarrow> 'a token list option" where
  "like_tokens lp [] = Some []"
| "like_tokens lp (c # pattern) =
     (if is_escape lp c then
        (case pattern of
           c' # rest \<Rightarrow>
             if is_escape lp c' \<or> is_any lp c' \<or> is_one lp c'
             then map_option (Cons (Lit c')) (like_tokens lp rest)
             else None
         | [] \<Rightarrow> None)
      else if is_any lp c then map_option (Cons AnyString) (like_tokens lp pattern)
      else if is_one lp c then map_option (Cons AnyChar) (like_tokens lp pattern)
      else map_option (Cons (Lit c)) (like_tokens lp pattern))"

section \<open>Parsed items\<close>

text \<open>The tokens of an item between the passes.\<close>

definition parsed_tokens :: "'a like_params \<Rightarrow> 'a PatternItem \<Rightarrow> 'a token list" where
  "parsed_tokens lp it =
     (case pi_type it of
        piSearch \<Rightarrow> map Lit (item_string it)
      | piEscapedString \<Rightarrow> map Lit (unescape lp (pi_length it) (pi_data it))
      | piSkipFixed \<Rightarrow> replicate (pi_length it) AnyChar
      | piSkipMore \<Rightarrow> AnyString # replicate (pi_length it) AnyChar
      | _ \<Rightarrow> [])"

abbreviation parsed_tokens_of :: "'a like_params \<Rightarrow> 'a PatternItem list \<Rightarrow> 'a token list" where
  "parsed_tokens_of lp its \<equiv> concat (map (parsed_tokens lp) its)"

definition is_string_item :: "'a PatternItem \<Rightarrow> bool" where
  "is_string_item it \<longleftrightarrow> pi_type it = piSearch \<or> pi_type it = piEscapedString"

text \<open>The item stands for the string \<open>s\<close>, which ends where \<open>rest\<close> starts.\<close>

definition string_item :: "'a like_params \<Rightarrow> 'a list \<Rightarrow> 'a list \<Rightarrow> 'a PatternItem \<Rightarrow> bool" where
  "string_item lp rest s it \<longleftrightarrow> is_string_item it \<and> s \<noteq> [] \<and> pi_length it = length s \<and> \<not> pi_match_any it \<and>
     (\<exists>raw. pi_data it = raw @ rest \<and> (pi_type it = piSearch \<longrightarrow> raw = s) \<and>
        (\<forall>n ys. unescape lp (length s + n) (raw @ ys) = s @ unescape lp n ys))"

definition parsed_item :: "'a like_params \<Rightarrow> 'a list \<Rightarrow> 'a PatternItem \<Rightarrow> bool" where
  "parsed_item lp rest it \<longleftrightarrow> (\<exists>s. string_item lp rest s it) \<or>
     (pi_type it = piSkipFixed \<and> 0 < pi_length it \<or> pi_type it = piSkipMore) \<and> \<not> pi_match_any it"

definition parsed :: "'a like_params \<Rightarrow> 'a list \<Rightarrow> 'a items_state \<Rightarrow> bool" where
  "parsed lp rest st \<longleftrightarrow>
     (st = ([], zero_item) \<or>
      (\<forall>it \<in> set (fst st). \<exists>rest'. parsed_item lp rest' it) \<and> parsed_item lp rest (snd st) \<and>
      successively (\<lambda>a b. is_string_item a \<noteq> is_string_item b) (fst st @ [snd st]))"

lemma like_match_cong:
  assumes "like_match ts = like_match us"
  shows "like_match (xs @ ts @ ys) = like_match (xs @ us @ ys)"
  by (rule ext) (simp add: like_match_append assms)

lemma ones_commute: "like_match (replicate n AnyChar @ [AnyString]) = like_match (AnyString # replicate n AnyChar)"
proof (rule ext)
  fix s :: "'a list"
  have "like_match (replicate n AnyChar) b \<longleftrightarrow> length b = n" for b :: "'a list"
    using like_match_ones [of n "[]" b] by auto
  then have "like_match (AnyString # replicate n AnyChar) s \<longleftrightarrow> n \<le> length s"
    unfolding like_match_Any
    by (metis append_take_drop_id diff_diff_cancel length_append length_drop le_add2)
  then show "like_match (replicate n AnyChar @ [AnyString]) s = like_match (AnyString # replicate n AnyChar) s"
    by (simp add: like_match_ones)
qed

lemma like_match_just_Any: "like_match [AnyString] = (\<lambda>_. True)"
  by (rule ext) simp

lemma string_item_tokens:
  "string_item lp rest s it \<Longrightarrow> parsed_tokens lp it = map Lit s"
  by (auto simp: string_item_def parsed_tokens_def is_string_item_def item_string_def
      dest: spec [of _ 0])

lemma string_item_new:
  assumes "\<not> is_escape lp c"
  shows "string_item lp rest [c] (zero_item\<lparr>pi_type := piSearch, pi_data := c # rest, pi_length := 1\<rparr>)"
  using assms by (auto simp: string_item_def is_string_item_def zero_item_def intro: exI [of _ "[c]"])

lemma string_item_new_escaped:
  assumes "is_escape lp c"
  shows "string_item lp rest [c'] (zero_item\<lparr>pi_type := piEscapedString, pi_data := c # c' # rest, pi_length := 1\<rparr>)"
  using assms by (auto simp: string_item_def is_string_item_def zero_item_def intro: exI [of _ "[c, c']"])

lemma string_item_more:
  assumes "string_item lp (c # rest) s it" and "\<not> is_escape lp c"
  shows "string_item lp rest (s @ [c]) (it\<lparr>pi_length := pi_length it + 1\<rparr>)"
proof -
  obtain raw where raw: "pi_data it = raw @ c # rest" "pi_type it = piSearch \<longrightarrow> raw = s"
      "\<And>n ys. unescape lp (length s + n) (raw @ ys) = s @ unescape lp n ys"
    using assms(1) by (auto simp: string_item_def)
  have "unescape lp (Suc (length s + n)) (raw @ c # ys) = s @ c # unescape lp n ys" for n ys
    using raw(3) [of "Suc n" "c # ys"] assms(2) by simp
  then show ?thesis
    using assms(1) raw(1,2) by (auto simp: string_item_def is_string_item_def intro: exI [of _ "raw @ [c]"])
qed

lemma string_item_more_escaped:
  assumes "string_item lp (c # c' # rest) s it" and "is_escape lp c"
  shows "string_item lp rest (s @ [c']) (it\<lparr>pi_type := piEscapedString, pi_length := pi_length it + 1\<rparr>)"
proof -
  obtain raw where raw: "pi_data it = raw @ c # c' # rest"
      "\<And>n ys. unescape lp (length s + n) (raw @ ys) = s @ unescape lp n ys"
    using assms(1) by (auto simp: string_item_def)
  have "unescape lp (Suc (length s + n)) (raw @ c # c' # ys) = s @ c' # unescape lp n ys" for n ys
    using raw(2) [of "Suc n" "c # c' # ys"] assms(2) by simp
  then show ?thesis
    using assms(1) raw(1) by (auto simp: string_item_def is_string_item_def intro: exI [of _ "raw @ [c, c']"])
qed

section \<open>First pass\<close>

definition state_tokens :: "'a like_params \<Rightarrow> 'a items_state \<Rightarrow> 'a token list" where
  "state_tokens lp st = parsed_tokens_of lp (fst st @ [snd st])"

text \<open>A step of the first pass either fills in or extends the current item, or opens a new one.\<close>

lemma parsed_extend:
  assumes "parsed lp rest' (before, item)" and "parsed_item lp rest item'"
    and "item = zero_item \<or> is_string_item item' = is_string_item item"
    and "item = zero_item \<Longrightarrow> before = []"
  shows "parsed lp rest (before, item')"
  using assms by (auto simp: parsed_def successively_append_iff)

lemma parsed_open:
  assumes "parsed lp rest' (before, item)" and "parsed_item lp rest' item" and "parsed_item lp rest item'"
    and "is_string_item item' \<noteq> is_string_item item"
  shows "parsed lp rest (before @ [item], item')"
  using assms by (auto simp: parsed_def successively_append_iff)

lemma parsed_cases:
  assumes "parsed lp rest (before, item)"
  obtains (fresh) "before = []" "item = zero_item"
  | (str) s where "string_item lp rest s item" "is_string_item item" "parsed_item lp rest item"
  | (skip) "pi_type item = piSkipFixed" "0 < pi_length item" "\<not> pi_match_any item" "parsed_item lp rest item"
  | (more) "pi_type item = piSkipMore" "\<not> pi_match_any item" "parsed_item lp rest item"
  using assms by (auto simp: parsed_def parsed_item_def string_item_def)

lemma parsed_item_string: "string_item lp rest s it \<Longrightarrow> parsed_item lp rest it"
  by (auto simp: parsed_item_def)

lemma parsed_zero_type: "parsed_item lp rest item \<Longrightarrow> item \<noteq> zero_item"
  by (auto simp: parsed_item_def string_item_def is_string_item_def zero_item_def)

lemma state_tokens_simps:
  "state_tokens lp (before, item) = parsed_tokens_of lp before @ parsed_tokens lp item"
  "parsed_tokens lp zero_item = []"
  by (simp_all add: state_tokens_def parsed_tokens_def zero_item_def)

lemma parse_other_step:
  assumes "parsed lp (c # rest) st" and "\<not> is_escape lp c"
  shows "parsed lp rest (parse_other (c # rest) st) \<and>
     state_tokens lp (parse_other (c # rest) st) = state_tokens lp st @ [Lit c]"
proof -
  obtain before item where st: "st = (before, item)" by (cases st)
  define new where "new = (zero_item\<lparr>pi_type := piSearch, pi_data := c # rest, pi_length := 1\<rparr> :: 'a PatternItem)"
  have new: "parsed_item lp rest new" "is_string_item new" "parsed_tokens lp new = [Lit c]"
    using string_item_new [OF assms(2), of rest] string_item_tokens [OF string_item_new [OF assms(2)], of rest]
    by (auto simp: new_def parsed_item_def is_string_item_def)
  from assms(1)[unfolded st] show ?thesis
  proof (cases rule: parsed_cases)
    case fresh
    then have "parse_other (c # rest) st = ([], new)" by (simp add: parse_other_def st zero_item_def new_def)
    then show ?thesis
      using new fresh by (simp add: parsed_def st state_tokens_simps)
  next
    case (str s)
    have m: "string_item lp rest (s @ [c]) (item\<lparr>pi_length := pi_length item + 1\<rparr>)" (is "string_item _ _ _ ?it")
      by (rule string_item_more [OF str(1) assms(2)])
    have p: "parse_other (c # rest) st = (before, ?it)"
      using str(2) by (auto simp: parse_other_def st is_string_item_def)
    have "parsed lp rest (before, ?it)"
      using parsed_extend [OF assms(1)[unfolded st] parsed_item_string [OF m]] parsed_zero_type [OF str(3)] str(2)
      by (simp add: is_string_item_def)
    then show ?thesis
      unfolding p by (simp add: st state_tokens_simps string_item_tokens [OF str(1)] string_item_tokens [OF m, simplified])
  next
    case skip
    then have "parse_other (c # rest) st = (before @ [item], new)" by (simp add: parse_other_def st new_def)
    then show ?thesis
      using parsed_open [OF assms(1)[unfolded st] skip(4) new(1)] new skip by (simp add: st state_tokens_simps is_string_item_def)
  next
    case more
    then have "parse_other (c # rest) st = (before @ [item], new)" by (simp add: parse_other_def st new_def)
    then show ?thesis
      using parsed_open [OF assms(1)[unfolded st] more(3) new(1)] new more by (simp add: st state_tokens_simps is_string_item_def)
  qed
qed

lemma parse_escaped_step:
  assumes "parsed lp (c # c' # rest) st" and "is_escape lp c"
  shows "parsed lp rest (parse_escaped (c # c' # rest) st) \<and>
     state_tokens lp (parse_escaped (c # c' # rest) st) = state_tokens lp st @ [Lit c']"
proof -
  obtain before item where st: "st = (before, item)" by (cases st)
  define new where
    "new = (zero_item\<lparr>pi_type := piEscapedString, pi_data := c # c' # rest, pi_length := 1\<rparr> :: 'a PatternItem)"
  have new: "parsed_item lp rest new" "is_string_item new" "parsed_tokens lp new = [Lit c']"
    using string_item_new_escaped [OF assms(2), where rest = rest and c' = c']
      string_item_tokens [OF string_item_new_escaped [OF assms(2), where rest = rest and c' = c']]
    by (auto simp: new_def parsed_item_def is_string_item_def)
  from assms(1)[unfolded st] show ?thesis
  proof (cases rule: parsed_cases)
    case fresh
    then have "parse_escaped (c # c' # rest) st = ([], new)" by (simp add: parse_escaped_def st zero_item_def new_def)
    then show ?thesis
      using new fresh by (simp add: parsed_def st state_tokens_simps)
  next
    case (str s)
    have m: "string_item lp rest (s @ [c']) (item\<lparr>pi_type := piEscapedString, pi_length := pi_length item + 1\<rparr>)"
      (is "string_item _ _ _ ?it")
      by (rule string_item_more_escaped [OF str(1) assms(2)])
    have p: "parse_escaped (c # c' # rest) st = (before, ?it)"
      using str(2) by (auto simp: parse_escaped_def st is_string_item_def)
    have "parsed lp rest (before, ?it)"
      using parsed_extend [OF assms(1)[unfolded st] parsed_item_string [OF m]] parsed_zero_type [OF str(3)] str(2)
      by (simp add: is_string_item_def)
    then show ?thesis
      unfolding p by (simp add: st state_tokens_simps string_item_tokens [OF str(1)] string_item_tokens [OF m, simplified])
  next
    case skip
    then have "parse_escaped (c # c' # rest) st = (before @ [item], new)" by (simp add: parse_escaped_def st new_def)
    then show ?thesis
      using parsed_open [OF assms(1)[unfolded st] skip(4) new(1)] new skip by (simp add: st state_tokens_simps is_string_item_def)
  next
    case more
    then have "parse_escaped (c # c' # rest) st = (before @ [item], new)" by (simp add: parse_escaped_def st new_def)
    then show ?thesis
      using parsed_open [OF assms(1)[unfolded st] more(3) new(1)] new more by (simp add: st state_tokens_simps is_string_item_def)
  qed
qed

lemma parse_match_one_step:
  assumes "parsed lp (c # rest) st"
  shows "parsed lp rest (parse_match_one st) \<and>
     state_tokens lp (parse_match_one st) = state_tokens lp st @ [AnyChar]"
proof -
  obtain before item where st: "st = (before, item)" by (cases st)
  define new where "new = (zero_item\<lparr>pi_type := piSkipFixed, pi_length := 1\<rparr> :: 'a PatternItem)"
  have new: "parsed_item lp r new" "\<not> is_string_item new" "parsed_tokens lp new = [AnyChar]" for r
    by (auto simp: new_def parsed_item_def is_string_item_def zero_item_def parsed_tokens_def)
  have ones: "replicate n AnyChar @ [AnyChar] = AnyChar # replicate n AnyChar" for n
    by (simp add: replicate_append_same)
  from assms(1)[unfolded st] show ?thesis
  proof (cases rule: parsed_cases)
    case fresh
    then have "parse_match_one st = ([], new)" by (simp add: parse_match_one_def st zero_item_def new_def)
    then show ?thesis
      using new fresh by (simp add: parsed_def st state_tokens_simps)
  next
    case (str s)
    then have "parse_match_one st = (before @ [item], new)"
      by (auto simp: parse_match_one_def st new_def is_string_item_def)
    then show ?thesis
      using parsed_open [OF assms(1)[unfolded st] str(3) new(1)] new str(2) by (simp add: st state_tokens_simps)
  next
    case skip
    define it where "it = item\<lparr>pi_length := pi_length item + 1\<rparr>"
    have "parsed_item lp rest it" using skip by (simp add: parsed_item_def it_def)
    moreover have "parse_match_one st = (before, it)" using skip by (simp add: parse_match_one_def st it_def)
    ultimately show ?thesis
      using parsed_extend [OF assms(1)[unfolded st], of rest it] parsed_zero_type [OF skip(4)] skip
      by (simp add: st state_tokens_simps is_string_item_def parsed_tokens_def it_def ones)
  next
    case more
    define it where "it = item\<lparr>pi_length := pi_length item + 1\<rparr>"
    have "parsed_item lp rest it" using more by (simp add: parsed_item_def it_def)
    moreover have "parse_match_one st = (before, it)" using more by (simp add: parse_match_one_def st it_def)
    ultimately show ?thesis
      using parsed_extend [OF assms(1)[unfolded st], of rest it] parsed_zero_type [OF more(3)] more
      by (simp add: st state_tokens_simps is_string_item_def parsed_tokens_def it_def ones)
  qed
qed

lemma parse_match_any_step:
  assumes "parsed lp (c # rest) st"
  shows "parsed lp rest (parse_match_any st) \<and>
     like_match (state_tokens lp (parse_match_any st)) = like_match (state_tokens lp st @ [AnyString])"
proof -
  obtain before item where st: "st = (before, item)" by (cases st)
  define new where "new = (zero_item\<lparr>pi_type := piSkipMore\<rparr> :: 'a PatternItem)"
  have new: "parsed_item lp r new" "\<not> is_string_item new" "parsed_tokens lp new = [AnyString]" for r
    by (auto simp: new_def parsed_item_def is_string_item_def zero_item_def parsed_tokens_def)
  from assms(1)[unfolded st] show ?thesis
  proof (cases rule: parsed_cases)
    case fresh
    then have "parse_match_any st = ([], new)" by (simp add: parse_match_any_def st zero_item_def new_def)
    then show ?thesis
      using new fresh by (simp add: parsed_def st state_tokens_simps)
  next
    case (str s)
    then have "parse_match_any st = (before @ [item], new)"
      by (auto simp: parse_match_any_def st new_def is_string_item_def)
    then show ?thesis
      using parsed_open [OF assms(1)[unfolded st] str(3) new(1)] new str(2) by (simp add: st state_tokens_simps)
  next
    case skip
    define it where "it = item\<lparr>pi_type := piSkipMore\<rparr>"
    have "parsed_item lp rest it" using skip by (simp add: parsed_item_def it_def)
    moreover have "parse_match_any st = (before, it)" using skip by (simp add: parse_match_any_def st it_def)
    ultimately show ?thesis
      using parsed_extend [OF assms(1)[unfolded st], of rest it] parsed_zero_type [OF skip(4)] skip
        like_match_cong [OF ones_commute, of "parsed_tokens_of lp before" "pi_length item" "[]"]
      by (simp add: st state_tokens_simps is_string_item_def parsed_tokens_def it_def)
  next
    case more
    have "like_match ((AnyString # replicate n AnyChar) @ [AnyString]) = like_match (AnyString # replicate n AnyChar)" for n
      using like_match_cong [OF ones_commute, of "[AnyString]" n "[]"] by (simp add: fun_eq_iff)
    note eq = like_match_cong [OF this, of "parsed_tokens_of lp before" "pi_length item" "[]"]
    have "parse_match_any st = (before, item)" using more by (simp add: parse_match_any_def st)
    moreover have "parsed lp rest (before, item)"
      using parsed_extend [OF assms(1)[unfolded st], of rest item] parsed_zero_type [OF more(3)] more(1,2)
      by (simp add: parsed_item_def)
    ultimately show ?thesis
      using eq more by (simp add: st state_tokens_simps parsed_tokens_def)
  qed
qed

text \<open>The first pass raises exactly the errors of the pattern and keeps its meaning.\<close>

lemma like_pass1_correct:
  "parsed lp pattern st \<Longrightarrow>
     (case like_tokens lp pattern of
        None \<Rightarrow> like_pass1 lp pattern st = Inl ISC_ESCAPE_INVALID
      | Some ts \<Rightarrow> \<exists>before item. like_pass1 lp pattern st = Inr (before @ [item]) \<and> parsed lp [] (before, item) \<and>
          like_match (parsed_tokens_of lp (before @ [item])) = like_match (state_tokens lp st @ ts))"
proof (induction lp pattern st rule: like_pass1.induct)
  case (1 lp st)
  then show ?case by (cases st) (auto simp: state_tokens_def)
next
  case (2 lp c pattern st)
  have extend: "like_match (xs @ t # ts) = like_match (ys @ ts)" if "like_match (xs @ [t]) = like_match ys" for xs ys ts t
    using like_match_cong [OF that, of "[]" ts] by simp
  consider (bad) "is_escape lp c" "pattern = [] \<or> \<not> (hd pattern = escape_char lp \<or> is_any lp (hd pattern) \<or> is_one lp (hd pattern))"
    | (esc) c' rest where "is_escape lp c" "pattern = c' # rest" "c' = escape_char lp \<or> is_any lp c' \<or> is_one lp c'"
    | (any) "\<not> is_escape lp c" "is_any lp c"
    | (one) "\<not> is_escape lp c" "\<not> is_any lp c" "is_one lp c"
    | (other) "\<not> is_escape lp c" "\<not> is_any lp c" "\<not> is_one lp c"
    by (cases pattern) auto
  then show ?case
  proof cases
    case bad
    then show ?thesis by (cases pattern) (auto simp: is_escape_def)
  next
    case esc
    have st: "parsed lp rest (parse_escaped (c # c' # rest) st)"
      "state_tokens lp (parse_escaped (c # c' # rest) st) = state_tokens lp st @ [Lit c']"
      using parse_escaped_step [OF 2(5)[unfolded esc(2)] esc(1)] by simp_all
    have "like_pass1 lp (c # pattern) st = like_pass1 lp rest (parse_escaped (c # c' # rest) st)"
      "like_tokens lp (c # pattern) = map_option (Cons (Lit c')) (like_tokens lp rest)"
      using esc by (auto simp: is_escape_def)
    then show ?thesis
      using 2(1) [OF esc(1,2,3) st(1)[folded esc(2)]] st(2) esc(2) by (auto split: option.splits)
  next
    case any
    have st: "parsed lp pattern (parse_match_any st)"
      "like_match (state_tokens lp (parse_match_any st)) = like_match (state_tokens lp st @ [AnyString])"
      using parse_match_any_step [OF 2(5)] by simp_all
    show ?thesis using 2(2) [OF any st(1)] any extend [OF st(2)[symmetric]] by (auto split: option.splits)
  next
    case one
    have st: "parsed lp pattern (parse_match_one st)"
      "state_tokens lp (parse_match_one st) = state_tokens lp st @ [AnyChar]"
      using parse_match_one_step [OF 2(5)] by simp_all
    show ?thesis using 2(3) [OF one st(1)] one st(2) by (auto split: option.splits)
  next
    case other
    have st: "parsed lp pattern (parse_other (c # pattern) st)"
      "state_tokens lp (parse_other (c # pattern) st) = state_tokens lp st @ [Lit c]"
      using parse_other_step [OF 2(5) other(1)] by simp_all
    show ?thesis using 2(4) [OF other st(1)] other st(2) by (auto split: option.splits)
  qed
qed

section \<open>Second pass\<close>

text \<open>A string becomes a search where a string of any length goes before it.\<close>

lemma like_pass2_string:
  assumes it: "string_item lp rest s item" and mem: "\<And>n. length (mem n) = n"
  shows "\<exists>it'. like_pass2 lp mem direct before (item # items) = like_pass2 lp mem True (before @ [it']) items \<and>
     item_ok it' \<and> \<not> pi_match_any it' \<and> (pi_type it' = piSearch) = (\<not> direct) \<and>
     item_tokens it' = (if direct then [] else [AnyString]) @ parsed_tokens lp item"
proof -
  obtain raw where s: "is_string_item item" "s \<noteq> []" "pi_length item = length s" "\<not> pi_match_any item"
      "pi_data item = raw @ rest" "pi_type item = piSearch \<longrightarrow> raw = s"
      "\<And>n ys. unescape lp (length s + n) (raw @ ys) = s @ unescape lp n ys"
    using it by (auto simp: string_item_def)
  define it1 where "it1 = (if pi_type item = piSearch then item
    else item\<lparr>pi_data := unescape lp (pi_length item) (pi_data item), pi_type := piSearch\<rparr>)"
  have run: "like_pass2 lp mem direct before (item # items) =
      (case compile_search mem direct it1 of
         Inl e \<Rightarrow> Inl e | Inr (item', direct') \<Rightarrow> like_pass2 lp mem direct' (before @ [item']) items)"
    using s(1) by (auto simp: is_string_item_def it1_def)
  have unesc: "unescape lp (length s) (raw @ rest) = s" using s(7) [of 0 rest] by simp
  have it1: "pi_type it1 = piSearch" "pi_length it1 = length s" "item_string it1 = s" "\<not> pi_match_any it1"
    "length s \<le> length (pi_data it1)"
    using s(1-6) unesc by (auto simp: it1_def is_string_item_def item_string_def)
  have toks: "parsed_tokens lp item = map Lit s" by (rule string_item_tokens [OF it])
  show ?thesis
  proof (cases direct)
    case True
    define it2 where "it2 = it1\<lparr>pi_type := piDirectMatch\<rparr>"
    have "compile_search mem direct it1 = Inr (it2, True)" using True by (simp add: compile_search_def it2_def)
    moreover have "item_string it2 = s" using it1(3) by (simp add: item_string_def it2_def)
    ultimately show ?thesis
      unfolding run using True it1 s(2) toks
      by (intro exI [of _ it2]) (simp add: it2_def item_ok_def item_tokens_def any_after_def)
  next
    case False
    obtain kn where kn: "preKmp s (mem (length s + 1)) = Some kn" "kmp_table s kn"
      using preKmp_correct [OF s(2), of "mem (length s + 1)"] mem by auto
    define it2 where "it2 = it1\<lparr>pi_kmpNext := kn\<rparr>"
    have "take (pi_length it1) (pi_data it1) = s" using it1(3) by (simp add: item_string_def)
    then have "compile_search mem direct it1 = Inr (it2, True)"
      using False kn(1) it1(2) by (simp add: compile_search_def it2_def)
    moreover have "item_string it2 = s" using it1(3) by (simp add: item_string_def it2_def)
    ultimately show ?thesis
      unfolding run using False it1 s(2) toks kn(2)
      by (intro exI [of _ it2]) (simp add: it2_def item_ok_def item_tokens_def any_after_def)
  qed
qed

text \<open>The items compiled so far; \<open>direct\<close> is off after a string of any length.\<close>

definition compiled :: "'a PatternItem list \<Rightarrow> bool \<Rightarrow> 'a PatternItem list \<Rightarrow> bool" where
  "compiled before direct items \<longleftrightarrow> (\<forall>it \<in> set before. item_ok it) \<and>
     successively (\<lambda>a b. (pi_type b = piSearch) = pi_match_any a) before \<and>
     (before \<noteq> [] \<longrightarrow> pi_match_any (last before) = (\<not> direct)) \<and>
     (\<not> direct \<longrightarrow> items = [] \<or> is_string_item (hd items)) \<and> (before \<noteq> [] \<or> items \<noteq> [])"

lemma compiled_snoc:
  assumes "compiled before direct items" and "item_ok it" and "(pi_type it = piSearch) = (\<not> direct)"
    and "pi_match_any it = (\<not> direct')" and "\<not> direct' \<longrightarrow> items' = [] \<or> is_string_item (hd items')"
  shows "compiled (before @ [it]) direct' items'"
  using assms by (cases "before = []") (auto simp: compiled_def successively_append_iff)

lemma compiled_mark_last:
  assumes "compiled before True items" and "before \<noteq> []" and "items' = [] \<or> is_string_item (hd items')"
  shows "compiled (butlast before @ [(last before)\<lparr>pi_match_any := True\<rparr>]) False items'"
    and "like_match (tokens_of (butlast before @ [(last before)\<lparr>pi_match_any := True\<rparr>])) =
      like_match (tokens_of before @ [AnyString])"
proof -
  obtain b l where b: "before = b @ [l]" using assms(2) by (metis rev_exhaust)
  have ok: "item_ok (l\<lparr>pi_match_any := True\<rparr>) = item_ok l" by (simp add: item_ok_def item_string_def)
  show "compiled (butlast before @ [(last before)\<lparr>pi_match_any := True\<rparr>]) False items'"
    using assms by (auto simp: compiled_def b ok successively_append_iff)
  have "item_tokens (l\<lparr>pi_match_any := True\<rparr>) = item_tokens l @ [AnyString]"
    using assms(1) by (auto simp: compiled_def b item_tokens_def any_after_def item_string_def split: PatternItemType.splits)
  then show "like_match (tokens_of (butlast before @ [(last before)\<lparr>pi_match_any := True\<rparr>])) =
      like_match (tokens_of before @ [AnyString])"
    by (simp add: b)
qed

definition single_any :: "'a PatternItem list \<Rightarrow> bool" where
  "single_any items \<longleftrightarrow> (\<exists>it. items = [it] \<and> pi_type it = piNone)"

lemma like_match_last_any:
  assumes "compiled before False items" and "before \<noteq> []"
  shows "like_match (tokens_of before @ AnyString # ts) = like_match (tokens_of before @ ts)"
proof -
  obtain b l where b: "before = b @ [l]" using assms(2) by (metis rev_exhaust)
  then have "pi_match_any l" using assms(1) by (simp add: compiled_def)
  then obtain x where x: "tokens_of before = x @ [AnyString]"
    by (auto simp: b item_tokens_def any_after_def)
  have "like_match (AnyString # AnyString # ts) = like_match (AnyString # ts)" by (rule ext) simp
  from like_match_cong [OF this, of x "[]"] show ?thesis by (simp add: x)
qed

text \<open>The second pass always succeeds and keeps the meaning.\<close>

lemma like_pass2_correct:
  assumes mem: "\<And>n. length (mem n) = n"
  shows "compiled before direct items \<Longrightarrow> \<forall>it \<in> set items. \<exists>rest. parsed_item lp rest it \<Longrightarrow>
     successively (\<lambda>a b. is_string_item a \<noteq> is_string_item b) items \<Longrightarrow>
     \<exists>items'. like_pass2 lp mem direct before items = Inr items' \<and> (items_ok items' \<or> single_any items') \<and>
       like_match (tokens_of items') =
         like_match (tokens_of before @ (if direct then [] else [AnyString]) @ parsed_tokens_of lp items)"
proof (induction items arbitrary: before direct)
  case Nil
  have "items_ok before"
    using Nil.prems(1) by (auto simp: compiled_def items_ok_def successively_conv_nth)
  moreover have "like_match (tokens_of before @ [AnyString]) = like_match (tokens_of before)" if "\<not> direct"
    using like_match_last_any [of before "[]" "[]"] Nil.prems(1) that by (auto simp: compiled_def)
  ultimately show ?case by (auto simp: single_any_def)
next
  case (Cons item items)
  have rest: "\<forall>it \<in> set items. \<exists>rest. parsed_item lp rest it"
    "successively (\<lambda>a b. is_string_item a \<noteq> is_string_item b) items"
    "items = [] \<or> is_string_item (hd items) \<noteq> is_string_item item"
    using Cons.prems(2,3) by (cases items; auto)+
  obtain r where "parsed_item lp r item" using Cons.prems(2) by auto
  then consider (str) s where "string_item lp r s item" "is_string_item item"
    | (fixed) "pi_type item = piSkipFixed" "0 < pi_length item" "\<not> pi_match_any item"
    | (more) "pi_type item = piSkipMore" "\<not> pi_match_any item"
    by (auto simp: parsed_item_def string_item_def)
  then show ?case
  proof cases
    case (str s)
    obtain it' where it': "like_pass2 lp mem direct before (item # items) = like_pass2 lp mem True (before @ [it']) items"
        "item_ok it'" "\<not> pi_match_any it'" "(pi_type it' = piSearch) = (\<not> direct)"
        "item_tokens it' = (if direct then [] else [AnyString]) @ parsed_tokens lp item"
      using like_pass2_string [OF str(1) mem, of direct before items] by blast
    have "compiled (before @ [it']) True items" using compiled_snoc [OF Cons.prems(1) it'(2,4)] it'(3) by simp
    from Cons.IH [OF this rest(1,2)] show ?thesis unfolding it'(1) by (simp add: it'(5))
  next
    case fixed
    have direct: direct using Cons.prems(1) fixed(1) by (auto simp: compiled_def is_string_item_def)
    have ok: "item_ok item" "item_tokens item = parsed_tokens lp item"
      using fixed by (auto simp: item_ok_def item_tokens_def parsed_tokens_def any_after_def)
    have "compiled (before @ [item]) True items"
      using compiled_snoc [OF Cons.prems(1) ok(1)] fixed direct by simp
    from Cons.IH [OF this rest(1,2)] show ?thesis using fixed direct by (simp add: ok(2))
  next
    case more
    have direct: direct using Cons.prems(1) more(1) by (auto simp: compiled_def is_string_item_def)
    have str: "items = [] \<or> is_string_item (hd items)" using rest(3) more(1) by (auto simp: is_string_item_def)
    show ?thesis
    proof (cases "pi_length item = 0")
      case False
      define it' where "it' = item\<lparr>pi_type := piSkipFixed, pi_match_any := True\<rparr>"
      have "item_ok it'" "item_tokens it' = replicate (pi_length item) AnyChar @ [AnyString]"
        using False by (auto simp: item_ok_def it'_def item_tokens_def any_after_def)
      then have c: "compiled (before @ [it']) False items"
        using compiled_snoc [OF Cons.prems(1)] direct str by (simp add: it'_def)
      have "like_match (tokens_of before @ (replicate (pi_length item) AnyChar @ [AnyString]) @ parsed_tokens_of lp items) =
          like_match (tokens_of before @ parsed_tokens_of lp (item # items))"
        using like_match_cong [OF ones_commute, of "tokens_of before" "pi_length item" "parsed_tokens_of lp items"] more(1)
        by (simp add: parsed_tokens_def)
      then show ?thesis
        using Cons.IH [OF c rest(1,2)] like_match_last_any [OF c] more(1) False direct
          \<open>item_tokens it' = _\<close> by (simp add: it'_def)
    next
      case len: True
      have toks: "parsed_tokens lp item = [AnyString]" using more(1) len by (simp add: parsed_tokens_def)
      show ?thesis
      proof (cases "before = []")
        case False
        define before' where "before' = butlast before @ [(last before)\<lparr>pi_match_any := True\<rparr>]"
        have c: "compiled before' False items"
          "like_match (tokens_of before') = like_match (tokens_of before @ [AnyString])"
          using compiled_mark_last [of before "item # items" items] Cons.prems(1) direct False str
          by (simp_all add: before'_def)
        have "like_match (tokens_of before' @ AnyString # parsed_tokens_of lp items) =
            like_match (tokens_of before @ AnyString # parsed_tokens_of lp items)"
          using like_match_last_any [OF c(1)] like_match_cong [OF c(2), of "[]" "parsed_tokens_of lp items"]
          by (simp add: before'_def)
        then show ?thesis
          using Cons.IH [OF c(1) rest(1,2)] more(1) len False direct toks by (simp add: before'_def)
      next
        case nil: True
        show ?thesis
        proof (cases "items = []")
          case True
          then show ?thesis
            using more len nil direct toks by (simp add: single_any_def item_tokens_def any_after_def like_match_just_Any)
        next
          case False
          then have "compiled [] False items" using str by (simp add: compiled_def)
          from Cons.IH [OF this rest(1,2)] show ?thesis using more len nil False direct toks by simp
        qed
      qed
    qed
  qed
qed

section \<open>The evaluator\<close>

lemma parsed_final:
  assumes "parsed lp [] (before, item)"
  shows "before @ [item] = [zero_item] \<or>
     compiled [] True (before @ [item]) \<and> (\<forall>it \<in> set (before @ [item]). \<exists>rest. parsed_item lp rest it) \<and>
     successively (\<lambda>a b. is_string_item a \<noteq> is_string_item b) (before @ [item])"
  using assms by (auto simp: parsed_def compiled_def)

lemma like_new_represents:
  assumes mem: "\<And>n. length (mem n) = n"
  shows "case like_tokens lp pattern of
      None \<Rightarrow> like_new lp mem pattern = Inl ISC_ESCAPE_INVALID
    | Some ts \<Rightarrow> \<exists>e items. like_new lp mem pattern = Inr e \<and> like_represents items (like_match ts) e []"
proof -
  have init: "parsed lp pattern ([], zero_item)" by (simp add: parsed_def)
  note p1 = like_pass1_correct [OF init]
  show ?thesis
  proof (cases "like_tokens lp pattern")
    case None
    then show ?thesis using p1 by (simp add: like_new_def)
  next
    case (Some ts)
    obtain before item where p: "like_pass1 lp pattern ([], zero_item) = Inr (before @ [item])"
        "parsed lp [] (before, item)" "like_match (parsed_tokens_of lp (before @ [item])) = like_match ts"
      using p1 Some by (auto simp: state_tokens_simps)
    obtain items where i: "like_pass2 lp mem True [] (before @ [item]) = Inr items" "items_ok items \<or> single_any items"
        "like_match (tokens_of items) = like_match ts"
      using parsed_final [OF p(2)]
    proof
      assume z: "before @ [item] = [zero_item]"
      have "like_pass2 lp mem True [] (before @ [item]) = Inr [zero_item]" unfolding z by (simp add: zero_item_def)
      moreover have "single_any [zero_item]" by (simp add: single_any_def zero_item_def)
      moreover have "like_match (tokens_of [zero_item]) = like_match ts"
        using p(3) unfolding z by (simp add: state_tokens_simps) (simp add: zero_item_def item_tokens_def any_after_def)
      ultimately show ?thesis using that by blast
    next
      assume "compiled [] True (before @ [item]) \<and> (\<forall>it \<in> set (before @ [item]). \<exists>rest. parsed_item lp rest it) \<and>
        successively (\<lambda>a b. is_string_item a \<noteq> is_string_item b) (before @ [item])"
      then show ?thesis using like_pass2_correct [OF mem, of "[]" True "before @ [item]" lp] that p(3) by auto
    qed
    define e where "e = like_reset \<lparr>patternItems = items, branches = [], match_type = MATCH_NONE\<rparr>"
    have run: "like_new lp mem pattern = Inr e" using p(1) i(1) by (simp add: like_new_def e_def)
    have acc: "like_match ts u = like_match (tokens_of items) u" for u using i(3) by simp
    from i(2) have "like_represents items (like_match ts) e []"
    proof
      assume io: "items_ok items"
      then have ne: "items \<noteq> []" and ok: "item_ok (items ! 0)" by (auto simp: items_ok_def)
      then have e: "e = \<lparr>patternItems = items, branches = [(0, 0)], match_type = MATCH_NONE\<rparr>"
        by (auto simp: e_def like_reset_def item_ok_def)
      have "tokens_of items = item_tokens (items ! 0) @ tokens_of (drop 1 items)"
        using ne by (cases items) auto
      then have "like_match (tokens_of items) u = branch_accepts items (0, 0) u" for u
        using ok by (auto simp: item_ok_def item_tokens_def branch_accepts_def tokens_after_def)
      moreover have "branches_ok items [(0, 0)]"
        using branches_ok_single [OF branch_ok_start [OF io]] ne by simp
      ultimately show ?thesis using io by (simp add: like_represents_def e acc)
    next
      assume "single_any items"
      then obtain it where it: "items = [it]" "pi_type it = piNone" by (auto simp: single_any_def)
      have "branches_ok items []" by (simp add: branches_ok_def same_segment_def)
      then show ?thesis
        using it by (simp add: like_represents_def e_def like_reset_def acc item_tokens_def any_after_def)
    qed
    then show ?thesis using run Some by auto
  qed
qed

text \<open>
  C1. \<open>LIKE\<close>: the constructor raises \<open>isc_escape_invalid\<close> exactly for a pattern with a misplaced
  escape character; otherwise, whatever chunks the value comes in, the evaluator returns and
  answers true exactly when the value matches the pattern: a percent sign for any string, an
  underscore for any character, an escaped or other character for itself. The hypothesis is
  that the allocator returns as many elements as it is asked for.
\<close>

theorem like_evaluator_correct:
  assumes "\<And>n. length (mem n) = n"
  shows "case like_tokens lp pattern of
      None \<Rightarrow> like_new lp mem pattern = Inl ISC_ESCAPE_INVALID
    | Some ts \<Rightarrow> \<exists>e e'. like_new lp mem pattern = Inr e \<and> feed like_processNextChunk e chunks = Some e' \<and>
        like_getResult e' = like_match ts (concat chunks)"
proof (cases "like_tokens lp pattern")
  case None
  then show ?thesis using like_new_represents [OF assms, of lp pattern] by simp
next
  case (Some ts)
  then obtain e items where e: "like_new lp mem pattern = Inr e" "like_represents items (like_match ts) e []"
    using like_new_represents [OF assms, of lp pattern] by auto
  from like_chunks.feed_accepts [OF e(2), of chunks] e(1) Some show ?thesis by auto
qed

theorem like_evaluator_correct_witness:
  "\<exists>e e'. like_new \<lparr>escape_char = 33, use_escape = True, sql_match_any = 37, sql_match_one = 95\<rparr> (\<lambda>n. replicate n 0)
       [37, 97, 98, 95, 33, 37 :: nat] = Inr e \<and>
     feed like_processNextChunk e [[97, 97], [], [98, 99, 37]] = Some e' \<and> like_getResult e'"
  using like_evaluator_correct [of "\<lambda>n. replicate n 0"
      "\<lparr>escape_char = 33, use_escape = True, sql_match_any = 37, sql_match_one = 95\<rparr>"
      "[37, 97, 98, 95, 33, 37 :: nat]" "[[97, 97], [], [98, 99, 37]]"]
  by (simp add: is_any_def is_one_def is_escape_def del: feed.simps)

text \<open>The items never change, and \<open>reset\<close> depends on nothing else.\<close>

lemma like_data_loop_items:
  "like_data_loop e pos len d fin = Some (m, e') \<Longrightarrow> patternItems e' = patternItems e"
  by (induction e pos len d fin rule: like_data_loop.induct)
    (auto split: option.splits branch_outcome.splits if_splits)

lemma feed_like_items:
  "feed like_processNextChunk e chunks = Some e' \<Longrightarrow> patternItems e' = patternItems e"
proof (induction chunks arbitrary: e)
  case (Cons d ds)
  obtain m e1 where e1: "like_processNextChunk e d = Some (m, e1)" "(if m then feed like_processNextChunk e1 ds else Some e1) = Some e'"
    using Cons.prems by (auto split: option.splits)
  have "patternItems e1 = patternItems e"
    using e1(1) by (auto simp: like_processNextChunk_def Let_def split: if_splits dest: like_data_loop_items)
  then show ?case using e1(2) Cons.IH [of e1] by (auto split: if_splits)
qed simp

lemma like_reset_items:
  "patternItems e = patternItems e' \<Longrightarrow> like_reset e = like_reset e'"
  by (simp add: like_reset_def)

text \<open>
  \<open>reset\<close> makes a used evaluator ready for the next value: the state is the one the
  constructor left.
\<close>

theorem like_reset_reuse:
  assumes "like_new lp mem pattern = Inr e" and "feed like_processNextChunk e chunks = Some e'"
  shows "like_reset e' = e"
proof -
  obtain e0 where e: "e = like_reset e0" using assms(1) by (auto simp: like_new_def split: sum.splits)
  have "patternItems e' = patternItems e0"
    using feed_like_items [OF assms(2)] by (simp add: e like_reset_def)
  then show ?thesis unfolding e by (rule like_reset_items)
qed

theorem like_reset_reuse_witness:
  "like_reset \<lparr>patternItems = [\<lparr>pi_type = piSkipFixed, pi_length = 1, pi_data = [] :: nat list, pi_kmpNext = [], pi_match_any = True\<rparr>],
       branches = [], match_type = MATCH_ANY\<rparr> =
     \<lparr>patternItems = [\<lparr>pi_type = piSkipFixed, pi_length = 1, pi_data = [] :: nat list, pi_kmpNext = [], pi_match_any = True\<rparr>],
       branches = [(0, 0)], match_type = (MATCH_NONE :: MatchType)\<rparr>"
  by (rule like_reset_reuse [where pattern = "[37, 95 :: nat]" and chunks = "[[97]]" and mem = "\<lambda>n. replicate n 0"
        and lp = "\<lparr>escape_char = 33, use_escape = True, sql_match_any = 37, sql_match_one = 95\<rparr>"])
    (code_simp, code_simp)

end
