(* ===== verification/FB_Array.thy ===== *)
theory FB_Array
  imports FB_Prelude "HOL-Library.Monad_Syntax"
begin

text \<open>
  The dynamic array \<^verbatim>\<open>Array\<close> of \<^verbatim>\<open>src/common/classes/array.h\<close>: a block of \<open>capacity\<close> elements of
  which the first \<open>count\<close> are in use, grown by doubling. An operation returns \<open>None\<close> when an
  \<^verbatim>\<open>fb_assert\<close> of the code fails or a copy leaves its block. Memory from the allocator is a
  function from the number of elements to their contents, which nothing is assumed about.
\<close>

section \<open>Blocks of memory\<close>

definition mem_read :: "'a list \<Rightarrow> nat \<Rightarrow> nat \<Rightarrow> 'a list option" where
  "mem_read d i n = (if i + n \<le> length d then Some (take n (drop i d)) else None)"

definition mem_write :: "'a list \<Rightarrow> nat \<Rightarrow> 'a list \<Rightarrow> 'a list option" where
  "mem_write d i src =
     (if i + length src \<le> length d then Some (take i d @ src @ drop (i + length src) d) else None)"

text \<open>\<^verbatim>\<open>fb_assert\<close>.\<close>

definition fb_assert :: "bool \<Rightarrow> unit option" where
  "fb_assert b = (if b then Some () else None)"

lemma mem_write_Some [simp]: "i + length src \<le> length d \<Longrightarrow> mem_write d i src = Some (take i d @ src @ drop (i + length src) d)"
  by (simp add: mem_write_def)

lemma mem_read_Some [simp]: "i + n \<le> length d \<Longrightarrow> mem_read d i n = Some (take n (drop i d))"
  by (simp add: mem_read_def)

lemma fb_assert_Some [simp]: "b \<Longrightarrow> fb_assert b = Some ()"
  by (simp add: fb_assert_def)

section \<open>The array\<close>

definition FB_MAX_SIZEOF :: nat where
  "FB_MAX_SIZEOF = 2 ^ 32 - 1"

text \<open>\<open>arr_sizeof\<close> is the number of bytes of an element, \<open>arr_storage\<close> the size of the inline storage of the
  array type.\<close>

record 'a Array =
  arr_sizeof :: nat
  arr_storage :: nat
  arr_count :: nat
  arr_capacity :: nat
  arr_data :: "'a list"

definition array_new :: "(nat \<Rightarrow> 'a list) \<Rightarrow> nat \<Rightarrow> nat \<Rightarrow> 'a Array" where
  "array_new mem elem_size storage = \<lparr>arr_sizeof = elem_size, arr_storage = storage, arr_count = 0, arr_capacity = storage, arr_data = mem storage\<rparr>"

text \<open>The constructor with a pool.\<close>

definition array_new_pool :: "(nat \<Rightarrow> 'a list) \<Rightarrow> nat \<Rightarrow> nat \<Rightarrow> 'a Array option" where
  "array_new_pool mem elem_size storage =
     do { fb_assert (storage < FB_MAX_SIZEOF div elem_size); Some (array_new mem elem_size storage) }"

definition ensureCapacity ::
  "(nat \<Rightarrow> 'a list) \<Rightarrow> nat \<Rightarrow> bool \<Rightarrow> ('a, 'b) Array_scheme \<Rightarrow> ('a, 'b) Array_scheme option" where
  "ensureCapacity mem newcapacity preserve a =
     (if newcapacity > arr_capacity a then
        let newcapacity' =
              (if arr_capacity a \<le> FB_MAX_SIZEOF div 2
               then (if newcapacity < arr_capacity a * 2 then arr_capacity a * 2 else newcapacity)
               else FB_MAX_SIZEOF);
            newdata = mem newcapacity'
        in do {
             fb_assert (newcapacity' < FB_MAX_SIZEOF div arr_sizeof a);
             newdata' \<leftarrow> (if preserve
               then do { old \<leftarrow> mem_read (arr_data a) 0 (arr_count a); mem_write newdata 0 old }
               else Some newdata);
             Some (a\<lparr>arr_data := newdata', arr_capacity := newcapacity'\<rparr>)
           }
      else Some a)"

definition array_clear :: "('a, 'b) Array_scheme \<Rightarrow> ('a, 'b) Array_scheme" where
  "array_clear a = a\<lparr>arr_count := 0\<rparr>"

definition array_nth :: "('a, 'b) Array_scheme \<Rightarrow> nat \<Rightarrow> 'a option" where
  "array_nth a index = do { fb_assert (index < arr_count a); Some (arr_data a ! index) }"

definition array_copyFrom ::
  "(nat \<Rightarrow> 'a list) \<Rightarrow> ('a, 'c) Array_scheme \<Rightarrow> ('a, 'b) Array_scheme \<Rightarrow> ('a, 'b) Array_scheme option" where
  "array_copyFrom mem source a =
     do {
       a \<leftarrow> ensureCapacity mem (arr_count source) False a;
       src \<leftarrow> mem_read (arr_data source) 0 (arr_count source);
       d \<leftarrow> mem_write (arr_data a) 0 src;
       Some (a\<lparr>arr_data := d, arr_count := arr_count source\<rparr>)
     }"

definition array_insert ::
  "(nat \<Rightarrow> 'a list) \<Rightarrow> nat \<Rightarrow> 'a \<Rightarrow> ('a, 'b) Array_scheme \<Rightarrow> ('a, 'b) Array_scheme option" where
  "array_insert mem index item a =
     do {
       fb_assert (index \<le> arr_count a);
       fb_assert (arr_count a < FB_MAX_SIZEOF);
       a \<leftarrow> ensureCapacity mem (size_add (arr_count a) 1) True a;
       tail \<leftarrow> mem_read (arr_data a) index (arr_count a - index);
       d \<leftarrow> mem_write (arr_data a) (index + 1) tail;
       d \<leftarrow> mem_write d index [item];
       Some (a\<lparr>arr_data := d, arr_count := arr_count a + 1\<rparr>)
     }"

definition array_insert_items ::
  "(nat \<Rightarrow> 'a list) \<Rightarrow> nat \<Rightarrow> 'a list \<Rightarrow> ('a, 'b) Array_scheme \<Rightarrow> ('a, 'b) Array_scheme option" where
  "array_insert_items mem index items a =
     do {
       fb_assert (index \<le> arr_count a);
       fb_assert (arr_count a \<le> FB_MAX_SIZEOF - length items \<and> length items \<le> FB_MAX_SIZEOF);
       a \<leftarrow> ensureCapacity mem (size_add (arr_count a) (length items)) True a;
       tail \<leftarrow> mem_read (arr_data a) index (arr_count a - index);
       d \<leftarrow> mem_write (arr_data a) (index + length items) tail;
       d \<leftarrow> mem_write d index items;
       Some (a\<lparr>arr_data := d, arr_count := arr_count a + length items\<rparr>)
     }"

text \<open>
  \<^verbatim>\<open>insert(index, Array)\<close> copies \<open>items.count\<close> bytes, where the other two overloads copy
  \<open>sizeof(T)\<close> times as many. Here elements are the lists of their \<open>sz\<close> bytes.
\<close>

definition memcpy_bytes :: "nat \<Rightarrow> nat \<Rightarrow> 'c list list \<Rightarrow> 'c list list \<Rightarrow> 'c list list" where
  "memcpy_bytes sz n dst src =
     (let bytes = take n (concat src) @ drop n (concat dst)
      in map (\<lambda>i. take sz (drop (i * sz) bytes)) [0 ..< length dst])"

definition array_insert_array ::
  "nat \<Rightarrow> (nat \<Rightarrow> 'c list list) \<Rightarrow> nat \<Rightarrow> ('c list) Array \<Rightarrow> ('c list) Array \<Rightarrow> ('c list) Array option" where
  "array_insert_array sz mem index items a =
     do {
       fb_assert (index \<le> arr_count a);
       fb_assert (arr_count a \<le> FB_MAX_SIZEOF - arr_count items \<and> arr_count items \<le> FB_MAX_SIZEOF);
       a \<leftarrow> ensureCapacity mem (size_add (arr_count a) (arr_count items)) True a;
       tail \<leftarrow> mem_read (arr_data a) index (arr_count a - index);
       d \<leftarrow> mem_write (arr_data a) (index + arr_count items) tail;
       src \<leftarrow> mem_read (arr_data items) 0 (arr_count items);
       old \<leftarrow> mem_read d index (arr_count items);
       d \<leftarrow> mem_write d index (memcpy_bytes sz (arr_count items) old src);
       Some (a\<lparr>arr_data := d, arr_count := arr_count a + arr_count items\<rparr>)
     }"

definition array_add :: "(nat \<Rightarrow> 'a list) \<Rightarrow> 'a \<Rightarrow> ('a, 'b) Array_scheme \<Rightarrow> (nat \<times> ('a, 'b) Array_scheme) option" where
  "array_add mem item a =
     do {
       a \<leftarrow> ensureCapacity mem (size_add (arr_count a) 1) True a;
       d \<leftarrow> mem_write (arr_data a) (arr_count a) [item];
       Some (arr_count a, a\<lparr>arr_data := d, arr_count := arr_count a + 1\<rparr>)
     }"

definition array_add_items :: "(nat \<Rightarrow> 'a list) \<Rightarrow> 'a list \<Rightarrow> ('a, 'b) Array_scheme \<Rightarrow> ('a, 'b) Array_scheme option" where
  "array_add_items mem items a =
     do {
       fb_assert (arr_count a \<le> FB_MAX_SIZEOF - length items \<and> length items \<le> FB_MAX_SIZEOF);
       a \<leftarrow> ensureCapacity mem (size_add (arr_count a) (length items)) True a;
       d \<leftarrow> mem_write (arr_data a) (arr_count a) items;
       Some (a\<lparr>arr_data := d, arr_count := arr_count a + length items\<rparr>)
     }"

definition array_remove :: "nat \<Rightarrow> ('a, 'b) Array_scheme \<Rightarrow> ('a, 'b) Array_scheme option" where
  "array_remove index a =
     do {
       fb_assert (index < arr_count a);
       tail \<leftarrow> mem_read (arr_data a) (index + 1) (arr_count a - 1 - index);
       d \<leftarrow> mem_write (arr_data a) index tail;
       Some (a\<lparr>arr_data := d, arr_count := arr_count a - 1\<rparr>)
     }"

definition array_removeRange :: "nat \<Rightarrow> nat \<Rightarrow> ('a, 'b) Array_scheme \<Rightarrow> ('a, 'b) Array_scheme option" where
  "array_removeRange lower to a =
     do {
       fb_assert (lower \<le> to);
       fb_assert (to \<le> arr_count a);
       tail \<leftarrow> mem_read (arr_data a) to (arr_count a - to);
       d \<leftarrow> mem_write (arr_data a) lower tail;
       Some (a\<lparr>arr_data := d, arr_count := arr_count a - (to - lower)\<rparr>)
     }"

definition array_removeCount :: "nat \<Rightarrow> nat \<Rightarrow> ('a, 'b) Array_scheme \<Rightarrow> ('a, 'b) Array_scheme option" where
  "array_removeCount index n a =
     do {
       fb_assert (size_add index n \<le> arr_count a);
       tail \<leftarrow> mem_read (arr_data a) (index + n) (size_sub (size_sub (arr_count a) index) n);
       d \<leftarrow> mem_write (arr_data a) index tail;
       Some (a\<lparr>arr_data := d, arr_count := size_sub (arr_count a) n\<rparr>)
     }"

definition array_shrink :: "nat \<Rightarrow> ('a, 'b) Array_scheme \<Rightarrow> ('a, 'b) Array_scheme option" where
  "array_shrink newCount a = do { fb_assert (newCount \<le> arr_count a); Some (a\<lparr>arr_count := newCount\<rparr>) }"

definition array_grow ::
  "(nat \<Rightarrow> 'a::zero list) \<Rightarrow> nat \<Rightarrow> ('a, 'b) Array_scheme \<Rightarrow> ('a, 'b) Array_scheme option" where
  "array_grow mem newCount a =
     do {
       fb_assert (newCount \<ge> arr_count a);
       a \<leftarrow> ensureCapacity mem newCount True a;
       d \<leftarrow> mem_write (arr_data a) (arr_count a) (replicate (newCount - arr_count a) 0);
       Some (a\<lparr>arr_data := d, arr_count := newCount\<rparr>)
     }"

text \<open>\<^verbatim>\<open>while (count < newCount) data[count++] = val\<close>; \<open>n\<close> is the number of turns.\<close>

fun resize_loop :: "nat \<Rightarrow> 'a \<Rightarrow> ('a, 'b) Array_scheme \<Rightarrow> ('a, 'b) Array_scheme option" where
  "resize_loop 0 val a = Some a"
| "resize_loop (Suc n) val a =
     do {
       d \<leftarrow> mem_write (arr_data a) (arr_count a) [val];
       resize_loop n val (a\<lparr>arr_data := d, arr_count := arr_count a + 1\<rparr>)
     }"

definition array_resize_val ::
  "(nat \<Rightarrow> 'a list) \<Rightarrow> nat \<Rightarrow> 'a \<Rightarrow> ('a, 'b) Array_scheme \<Rightarrow> ('a, 'b) Array_scheme option" where
  "array_resize_val mem newCount val a =
     (if newCount > arr_count a
      then do { a \<leftarrow> ensureCapacity mem newCount True a; resize_loop (newCount - arr_count a) val a }
      else Some (a\<lparr>arr_count := newCount\<rparr>))"

definition array_resize ::
  "(nat \<Rightarrow> 'a::zero list) \<Rightarrow> nat \<Rightarrow> ('a, 'b) Array_scheme \<Rightarrow> ('a, 'b) Array_scheme option" where
  "array_resize mem newCount a =
     (if newCount > arr_count a then array_grow mem newCount a else Some (a\<lparr>arr_count := newCount\<rparr>))"

definition array_join ::
  "(nat \<Rightarrow> 'a list) \<Rightarrow> ('a, 'c) Array_scheme \<Rightarrow> ('a, 'b) Array_scheme \<Rightarrow> ('a, 'b) Array_scheme option" where
  "array_join mem L a =
     do {
       fb_assert (arr_count a \<le> FB_MAX_SIZEOF - arr_count L \<and> arr_count L \<le> FB_MAX_SIZEOF);
       a \<leftarrow> ensureCapacity mem (size_add (arr_count a) (arr_count L)) True a;
       src \<leftarrow> mem_read (arr_data L) 0 (arr_count L);
       d \<leftarrow> mem_write (arr_data a) (arr_count a) src;
       Some (a\<lparr>arr_data := d, arr_count := arr_count a + arr_count L\<rparr>)
     }"

definition array_assign_items ::
  "(nat \<Rightarrow> 'a::zero list) \<Rightarrow> 'a list \<Rightarrow> ('a, 'b) Array_scheme \<Rightarrow> ('a, 'b) Array_scheme option" where
  "array_assign_items mem items a =
     do {
       a \<leftarrow> array_resize mem (length items) a;
       src \<leftarrow> mem_read items 0 (arr_count a);
       d \<leftarrow> mem_write (arr_data a) 0 src;
       Some (a\<lparr>arr_data := d\<rparr>)
     }"

definition array_pop :: "('a, 'b) Array_scheme \<Rightarrow> ('a \<times> ('a, 'b) Array_scheme) option" where
  "array_pop a =
     do {
       fb_assert (arr_count a > 0);
       let a = a\<lparr>arr_count := arr_count a - 1\<rparr>;
       Some (arr_data a ! arr_count a, a)
     }"

definition array_getBuffer ::
  "(nat \<Rightarrow> 'a list) \<Rightarrow> nat \<Rightarrow> bool \<Rightarrow> ('a, 'b) Array_scheme \<Rightarrow> ('a, 'b) Array_scheme option" where
  "array_getBuffer mem capacityL preserve a =
     do { a \<leftarrow> ensureCapacity mem capacityL preserve a; Some (a\<lparr>arr_count := capacityL\<rparr>) }"

definition array_free :: "(nat \<Rightarrow> 'a list) \<Rightarrow> ('a, 'b) Array_scheme \<Rightarrow> ('a, 'b) Array_scheme" where
  "array_free mem a =
     (array_clear a)\<lparr>arr_capacity := arr_storage a, arr_data := mem (arr_storage a)\<rparr>"

fun array_find_loop :: "'a list \<Rightarrow> nat \<Rightarrow> nat \<Rightarrow> 'a \<Rightarrow> nat option" where
  "array_find_loop d i 0 item = None"
| "array_find_loop d i (Suc n) item = (if d ! i = item then Some i else array_find_loop d (i + 1) n item)"

text \<open>\<open>Some pos\<close> when found.\<close>

definition array_find :: "'a \<Rightarrow> ('a, 'b) Array_scheme \<Rightarrow> nat option" where
  "array_find item a = array_find_loop (arr_data a) 0 (arr_count a) item"

definition array_exist :: "'a \<Rightarrow> ('a, 'b) Array_scheme \<Rightarrow> bool" where
  "array_exist item a \<longleftrightarrow> array_find item a \<noteq> None"

text \<open>\<^verbatim>\<open>operator==\<close> compares \<open>count\<close> bytes of the two blocks.\<close>

definition array_equal :: "('c list) Array \<Rightarrow> ('c list) Array \<Rightarrow> bool" where
  "array_equal a b \<longleftrightarrow> arr_count a = arr_count b \<and>
     take (arr_count a) (concat (arr_data a)) = take (arr_count a) (concat (arr_data b))"

fun swap_loop :: "nat \<Rightarrow> nat \<Rightarrow> nat \<Rightarrow> 'a list \<Rightarrow> 'a list" where
  "swap_loop 0 i count d = d"
| "swap_loop (Suc n) i count d =
     (let temp = d ! i; d1 = d[i := d ! (count - 1 - i)]
      in swap_loop n (i + 1) count (d1[count - 1 - i := temp]))"

definition array_swapElems :: "('a, 'b) Array_scheme \<Rightarrow> ('a, 'b) Array_scheme" where
  "array_swapElems a = a\<lparr>arr_data := swap_loop (arr_count a div 2) 0 (arr_count a) (arr_data a)\<rparr>"

section \<open>The array as a list\<close>

definition elems :: "('a, 'b) Array_scheme \<Rightarrow> 'a list" where
  "elems a = take (arr_count a) (arr_data a)"

definition array_ok :: "('a, 'b) Array_scheme \<Rightarrow> bool" where
  "array_ok a \<longleftrightarrow> arr_count a \<le> arr_capacity a \<and> length (arr_data a) = arr_capacity a \<and>
     arr_capacity a \<le> FB_MAX_SIZEOF \<and> arr_storage a \<le> FB_MAX_SIZEOF \<and> 0 < arr_sizeof a"

text \<open>Up to this number of elements the assertion of \<open>ensureCapacity\<close> holds, whatever the capacity was: it grows to less
  than twice the number of elements asked for.\<close>

definition max_elements :: "nat \<Rightarrow> nat" where
  "max_elements elem_size = FB_MAX_SIZEOF div elem_size div 2"

lemma max_elements_le: "n \<le> max_elements elem_size \<Longrightarrow> n \<le> FB_MAX_SIZEOF div 2"
  unfolding max_elements_def by (meson div_le_dividend div_le_mono order_trans)

lemma size_add_max: "a + b \<le> max_elements elem_size \<Longrightarrow> size_add a b = a + b"
  using max_elements_le [of "a + b" elem_size] by (simp add: size_add_def FB_MAX_SIZEOF_def)

lemma max_elements_less: "n \<le> max_elements elem_size \<Longrightarrow> n < FB_MAX_SIZEOF"
  using max_elements_le [of n elem_size] by (simp add: FB_MAX_SIZEOF_def)

lemma length_elems: "array_ok a \<Longrightarrow> length (elems a) = arr_count a"
  by (simp add: elems_def array_ok_def)

lemma elems_nth: "array_ok a \<Longrightarrow> i < arr_count a \<Longrightarrow> elems a ! i = arr_data a ! i"
  by (simp add: elems_def)

lemma size_add_small: "a + b \<le> FB_MAX_SIZEOF \<Longrightarrow> size_add a b = a + b"
  by (simp add: size_add_def FB_MAX_SIZEOF_def)

definition mem_ok :: "(nat \<Rightarrow> 'a list) \<Rightarrow> bool" where
  "mem_ok mem \<longleftrightarrow> (\<forall>n. length (mem n) = n)"

text \<open>The workhorse: room for \<open>n\<close> elements, the elements in place.\<close>

lemma ensureCapacity_correct:
  assumes "array_ok a" and "mem_ok mem" and "n \<le> max_elements (arr_sizeof a)"
  obtains d cap where "ensureCapacity mem n preserve a = Some (a\<lparr>arr_data := d, arr_capacity := cap\<rparr>)"
    and "n \<le> cap" and "arr_capacity a \<le> cap" and "length d = cap" and "cap \<le> FB_MAX_SIZEOF"
    and "preserve \<Longrightarrow> take (arr_count a) d = elems a"
proof (cases "n > arr_capacity a")
  case True
  define cap where "cap = (if arr_capacity a \<le> FB_MAX_SIZEOF div 2
               then (if n < arr_capacity a * 2 then arr_capacity a * 2 else n) else FB_MAX_SIZEOF)"
  have n: "n \<le> FB_MAX_SIZEOF div 2" by (rule max_elements_le [OF assms(3)])
  then have "cap < 2 * n" using True by (auto simp: cap_def)
  also have "2 * n \<le> FB_MAX_SIZEOF div arr_sizeof a" using assms(3) by (simp add: max_elements_def)
  finally have limit: "cap < FB_MAX_SIZEOF div arr_sizeof a" .
  then have "cap \<le> FB_MAX_SIZEOF" by (meson div_le_dividend less_imp_le order_trans)
  then have cap: "n \<le> cap" "arr_capacity a \<le> cap" "cap \<le> FB_MAX_SIZEOF"
    using True n by (auto simp: cap_def)
  have m: "length (mem cap) = cap" using assms(2) by (simp add: mem_ok_def)
  define d where "d = (if preserve then elems a @ drop (arr_count a) (mem cap) else mem cap)"
  have c: "arr_count a \<le> arr_capacity a" "length (arr_data a) = arr_capacity a" using assms(1) by (auto simp: array_ok_def)
  have "ensureCapacity mem n preserve a = Some (a\<lparr>arr_data := d, arr_capacity := cap\<rparr>)"
    using True cap c m limit unfolding ensureCapacity_def cap_def [symmetric]
    by (simp add: Let_def d_def elems_def)
  moreover have "length d = cap" using cap c m by (simp add: d_def elems_def)
  moreover have "take (arr_count a) d = elems a" if preserve using that c by (simp add: d_def elems_def)
  ultimately show thesis using that cap by blast
next
  case False
  have "ensureCapacity mem n preserve a = Some (a\<lparr>arr_data := arr_data a, arr_capacity := arr_capacity a\<rparr>)"
    using False by (simp add: ensureCapacity_def)
  then show thesis by (rule that) (use False assms in \<open>auto simp: array_ok_def elems_def\<close>)
qed

text \<open>The operations on lists, with the conditions the code asserts, for at most \<open>mx\<close> elements.\<close>

datatype 'a list_op =
    InsertOp nat 'a
  | InsertItemsOp nat "'a list"
  | AddOp 'a
  | AddItemsOp "'a list"
  | RemoveOp nat
  | RemoveRangeOp nat nat
  | RemoveCountOp nat nat
  | ShrinkOp nat
  | GrowOp nat
  | ResizeValOp nat 'a
  | ResizeOp nat
  | AssignOp "'a list"
  | PopOp
  | ClearOp
  | FreeOp
  | SwapOp

fun list_exec :: "'a::zero list_op \<Rightarrow> 'a list \<Rightarrow> 'a list" where
  "list_exec (InsertOp i x) xs = take i xs @ x # drop i xs"
| "list_exec (InsertItemsOp i ys) xs = take i xs @ ys @ drop i xs"
| "list_exec (AddOp x) xs = xs @ [x]"
| "list_exec (AddItemsOp ys) xs = xs @ ys"
| "list_exec (RemoveOp i) xs = take i xs @ drop (i + 1) xs"
| "list_exec (RemoveRangeOp i j) xs = take i xs @ drop j xs"
| "list_exec (RemoveCountOp i n) xs = take i xs @ drop (i + n) xs"
| "list_exec (ShrinkOp n) xs = take n xs"
| "list_exec (GrowOp n) xs = xs @ replicate (n - length xs) 0"
| "list_exec (ResizeValOp n x) xs = take n xs @ replicate (n - length xs) x"
| "list_exec (ResizeOp n) xs = take n xs @ replicate (n - length xs) 0"
| "list_exec (AssignOp ys) xs = ys"
| "list_exec PopOp xs = butlast xs"
| "list_exec ClearOp xs = []"
| "list_exec FreeOp xs = []"
| "list_exec SwapOp xs = rev xs"

fun list_pre :: "nat \<Rightarrow> 'a list_op \<Rightarrow> 'a list \<Rightarrow> bool" where
  "list_pre mx (InsertOp i x) xs \<longleftrightarrow> i \<le> length xs \<and> length xs < mx"
| "list_pre mx (InsertItemsOp i ys) xs \<longleftrightarrow> i \<le> length xs \<and> length xs + length ys \<le> mx"
| "list_pre mx (AddOp x) xs \<longleftrightarrow> length xs < mx"
| "list_pre mx (AddItemsOp ys) xs \<longleftrightarrow> length xs + length ys \<le> mx"
| "list_pre mx (RemoveOp i) xs \<longleftrightarrow> i < length xs"
| "list_pre mx (RemoveRangeOp i j) xs \<longleftrightarrow> i \<le> j \<and> j \<le> length xs"
| "list_pre mx (RemoveCountOp i n) xs \<longleftrightarrow> i + n \<le> length xs"
| "list_pre mx (ShrinkOp n) xs \<longleftrightarrow> n \<le> length xs"
| "list_pre mx (GrowOp n) xs \<longleftrightarrow> length xs \<le> n \<and> n \<le> mx"
| "list_pre mx (ResizeValOp n x) xs \<longleftrightarrow> n \<le> mx"
| "list_pre mx (ResizeOp n) xs \<longleftrightarrow> n \<le> mx"
| "list_pre mx (AssignOp ys) xs \<longleftrightarrow> length ys \<le> mx"
| "list_pre mx PopOp xs \<longleftrightarrow> xs \<noteq> []"
| "list_pre mx ClearOp xs \<longleftrightarrow> True"
| "list_pre mx FreeOp xs \<longleftrightarrow> True"
| "list_pre mx SwapOp xs \<longleftrightarrow> True"

fun array_exec :: "(nat \<Rightarrow> 'a::zero list) \<Rightarrow> 'a list_op \<Rightarrow> ('a, 'b) Array_scheme \<Rightarrow> ('a, 'b) Array_scheme option" where
  "array_exec mem (InsertOp i x) a = array_insert mem i x a"
| "array_exec mem (InsertItemsOp i ys) a = array_insert_items mem i ys a"
| "array_exec mem (AddOp x) a = map_option snd (array_add mem x a)"
| "array_exec mem (AddItemsOp ys) a = array_add_items mem ys a"
| "array_exec mem (RemoveOp i) a = array_remove i a"
| "array_exec mem (RemoveRangeOp i j) a = array_removeRange i j a"
| "array_exec mem (RemoveCountOp i n) a = array_removeCount i n a"
| "array_exec mem (ShrinkOp n) a = array_shrink n a"
| "array_exec mem (GrowOp n) a = array_grow mem n a"
| "array_exec mem (ResizeValOp n x) a = array_resize_val mem n x a"
| "array_exec mem (ResizeOp n) a = array_resize mem n a"
| "array_exec mem (AssignOp ys) a = array_assign_items mem ys a"
| "array_exec mem PopOp a = map_option snd (array_pop a)"
| "array_exec mem ClearOp a = Some (array_clear a)"
| "array_exec mem FreeOp a = Some (array_free mem a)"
| "array_exec mem SwapOp a = Some (array_swapElems a)"

definition refines_list :: "nat \<Rightarrow> ('a, 'b) Array_scheme option \<Rightarrow> 'a list \<Rightarrow> bool" where
  "refines_list elem_size r xs \<longleftrightarrow> (\<exists>a. r = Some a \<and> array_ok a \<and> arr_sizeof a = elem_size \<and> elems a = xs)"

lemma array_insert_items_correct:
  assumes ok: "array_ok a" and mem: "mem_ok mem" and "i \<le> arr_count a" and n: "arr_count a + length ys \<le> max_elements (arr_sizeof a)"
  shows "refines_list (arr_sizeof a) (array_insert_items mem i ys a) (take i (elems a) @ ys @ drop i (elems a))"
proof -
  obtain d cap where d: "ensureCapacity mem (arr_count a + length ys) True a = Some (a\<lparr>arr_data := d, arr_capacity := cap\<rparr>)"
      "arr_count a + length ys \<le> cap" "length d = cap" "cap \<le> FB_MAX_SIZEOF" "take (arr_count a) d = elems a"
    using ensureCapacity_correct [OF ok mem n, of True] by blast
  have e: "drop i (elems a) = take (arr_count a - i) (drop i d)" "take i (elems a) = take i d"
    using assms(3) unfolding d(5)[symmetric] by (auto simp: drop_take min_def)
  show ?thesis
    unfolding refines_list_def e
    using assms d(1-4) max_elements_less [OF n] by (auto simp: array_insert_items_def size_add_max [OF n] array_ok_def elems_def)
qed

lemma array_insert_correct:
  assumes ok: "array_ok a" and mem: "mem_ok mem" and "i \<le> arr_count a" and n: "arr_count a + 1 \<le> max_elements (arr_sizeof a)"
  shows "refines_list (arr_sizeof a) (array_insert mem i x a) (take i (elems a) @ x # drop i (elems a))"
proof -
  obtain d cap where d: "ensureCapacity mem (arr_count a + 1) True a = Some (a\<lparr>arr_data := d, arr_capacity := cap\<rparr>)"
      "arr_count a + 1 \<le> cap" "length d = cap" "cap \<le> FB_MAX_SIZEOF" "take (arr_count a) d = elems a"
    using ensureCapacity_correct [OF ok mem n, of True] by blast
  have e: "drop i (elems a) = take (arr_count a - i) (drop i d)" "take i (elems a) = take i d"
    using assms(3) unfolding d(5)[symmetric] by (auto simp: drop_take min_def)
  show ?thesis
    unfolding refines_list_def e
    using assms d(1-4) max_elements_less [OF n] by (auto simp: array_insert_def size_add_max [OF n, simplified] array_ok_def elems_def Suc_diff_le)
qed

lemma array_add_items_correct:
  assumes ok: "array_ok a" and mem: "mem_ok mem" and n: "arr_count a + length ys \<le> max_elements (arr_sizeof a)"
  shows "refines_list (arr_sizeof a) (array_add_items mem ys a) (elems a @ ys)"
proof -
  obtain d cap where d: "ensureCapacity mem (arr_count a + length ys) True a = Some (a\<lparr>arr_data := d, arr_capacity := cap\<rparr>)"
      "arr_count a + length ys \<le> cap" "length d = cap" "cap \<le> FB_MAX_SIZEOF" "take (arr_count a) d = elems a"
    using ensureCapacity_correct [OF ok mem n, of True] by blast
  then show ?thesis
    using assms max_elements_less [OF n] by (auto simp: refines_list_def array_add_items_def size_add_max [OF n] array_ok_def elems_def)
qed

text \<open>Moving the tail down.\<close>

lemma move_down:
  assumes "i \<le> j" and "j \<le> n" and "n \<le> length d"
  shows "mem_write d i (take (n - j) (drop j d)) = Some (take i d @ take (n - j) (drop j d) @ drop (i + (n - j)) d)"
proof -
  have "length (take (n - j) (drop j d)) = n - j" using assms by simp
  then show ?thesis using assms unfolding mem_write_def by simp
qed

lemma array_removeRange_correct:
  assumes "array_ok a" and "i \<le> j" and "j \<le> arr_count a"
  shows "refines_list (arr_sizeof a) (array_removeRange i j a) (take i (elems a) @ drop j (elems a))"
  using assms move_down [of i j "arr_count a" "arr_data a"]
  by (auto simp: refines_list_def array_removeRange_def array_ok_def elems_def drop_take min_absorb1 min_absorb2)

lemma array_remove_correct:
  assumes "array_ok a" and "i < arr_count a"
  shows "refines_list (arr_sizeof a) (array_remove i a) (take i (elems a) @ drop (i + 1) (elems a))"
  using assms move_down [of i "Suc i" "arr_count a" "arr_data a"]
  by (auto simp: refines_list_def array_remove_def array_ok_def elems_def drop_take min_absorb1 min_absorb2)

lemma array_removeCount_correct:
  assumes "array_ok a" and "i + n \<le> arr_count a"
  shows "refines_list (arr_sizeof a) (array_removeCount i n a) (take i (elems a) @ drop (i + n) (elems a))"
proof -
  have count: "arr_count a < 2 ^ 32" using assms(1) by (simp add: array_ok_def FB_MAX_SIZEOF_def)
  have i: "i \<le> arr_count a" "n \<le> arr_count a - i" "n \<le> arr_count a" using assms(2) by simp_all
  have "size_add i n = i + n" using assms(2) count by (simp add: size_add_def)
  moreover have "size_sub (size_sub (arr_count a) i) n = arr_count a - (i + n)" "size_sub (arr_count a) n = arr_count a - n"
    using i count by (simp_all add: size_sub_le)
  ultimately show ?thesis
    using assms move_down [of i "i + n" "arr_count a" "arr_data a"]
    by (auto simp: refines_list_def array_removeCount_def array_ok_def elems_def drop_take min_absorb1 min_absorb2 add.commute)
qed

lemma array_grow_correct:
  assumes ok: "array_ok a" and mem: "mem_ok mem" and n: "arr_count a \<le> n" "n \<le> max_elements (arr_sizeof a)"
  shows "refines_list (arr_sizeof a) (array_grow mem n a) (elems a @ replicate (n - arr_count a) 0)"
proof -
  obtain d cap where d: "ensureCapacity mem n True a = Some (a\<lparr>arr_data := d, arr_capacity := cap\<rparr>)"
      "n \<le> cap" "length d = cap" "cap \<le> FB_MAX_SIZEOF" "take (arr_count a) d = elems a"
    using ensureCapacity_correct [OF ok mem n(2), of True] by blast
  then show ?thesis
    using assms by (auto simp: refines_list_def array_grow_def array_ok_def elems_def)
qed

lemma resize_loop_correct:
  "array_ok a \<Longrightarrow> arr_count a + n \<le> arr_capacity a \<Longrightarrow>
     refines_list (arr_sizeof a) (resize_loop n x a) (elems a @ replicate n x)"
proof (induction n arbitrary: a)
  case 0
  then show ?case by (auto simp: refines_list_def)
next
  case (Suc n)
  define a' where "a' = a\<lparr>arr_data := take (arr_count a) (arr_data a) @ [x] @ drop (arr_count a + 1) (arr_data a),
    arr_count := arr_count a + 1\<rparr>"
  have "array_ok a'" "elems a' = elems a @ [x]" "arr_count a' + n \<le> arr_capacity a'" "arr_sizeof a' = arr_sizeof a"
    using Suc.prems by (auto simp: a'_def array_ok_def elems_def)
  moreover have "resize_loop (Suc n) x a = resize_loop n x a'"
    using Suc.prems by (simp add: a'_def array_ok_def)
  ultimately show ?case using Suc.IH [of a'] by (simp add: replicate_app_Cons_same)
qed

lemma array_shrink_ok:
  assumes "array_ok a" and "n \<le> arr_count a"
  shows "refines_list (arr_sizeof a) (Some (a\<lparr>arr_count := n\<rparr>)) (take n (elems a))"
  using assms by (auto simp: refines_list_def array_ok_def elems_def min_def)

lemma array_resize_val_correct:
  assumes ok: "array_ok a" and mem: "mem_ok mem" and n: "n \<le> max_elements (arr_sizeof a)"
  shows "refines_list (arr_sizeof a) (array_resize_val mem n x a) (take n (elems a) @ replicate (n - arr_count a) x)"
proof (cases "n > arr_count a")
  case True
  obtain d cap where d: "ensureCapacity mem n True a = Some (a\<lparr>arr_data := d, arr_capacity := cap\<rparr>)"
      "n \<le> cap" "length d = cap" "cap \<le> FB_MAX_SIZEOF" "take (arr_count a) d = elems a"
    using ensureCapacity_correct [OF ok mem n(1), of True] by blast
  define a' where "a' = a\<lparr>arr_data := d, arr_capacity := cap\<rparr>"
  have "array_ok a'" "elems a' = elems a" "arr_count a' + (n - arr_count a) \<le> arr_capacity a'" "arr_sizeof a' = arr_sizeof a"
    using ok d True by (auto simp: a'_def array_ok_def elems_def)
  moreover have "array_resize_val mem n x a = resize_loop (n - arr_count a) x a'"
    using True d(1) by (simp add: array_resize_val_def a'_def)
  moreover have "take n (elems a) = elems a" using True ok by (simp add: elems_def array_ok_def min_def)
  ultimately show ?thesis using resize_loop_correct [of a' "n - arr_count a" x] by simp
next
  case False
  then show ?thesis using array_shrink_ok [OF ok] by (simp add: array_resize_val_def)
qed

lemma array_resize_correct:
  assumes ok: "array_ok a" and mem: "mem_ok mem" and n: "n \<le> max_elements (arr_sizeof a)"
  shows "refines_list (arr_sizeof a) (array_resize mem n a) (take n (elems a) @ replicate (n - arr_count a) 0)"
proof (cases "n > arr_count a")
  case True
  have "take n (elems a) = elems a" using True ok by (simp add: elems_def array_ok_def min_def)
  then show ?thesis
    using True array_grow_correct [OF ok mem _ n] by (simp add: array_resize_def)
next
  case False
  then show ?thesis using array_shrink_ok [OF ok] by (simp add: array_resize_def)
qed

lemma array_assign_items_correct:
  assumes ok: "array_ok a" and mem: "mem_ok mem" and n: "length ys \<le> max_elements (arr_sizeof a)"
  shows "refines_list (arr_sizeof a) (array_assign_items mem ys a) ys"
proof -
  obtain a' where a': "array_resize mem (length ys) a = Some a'" "array_ok a'" "arr_sizeof a' = arr_sizeof a"
      "elems a' = take (length ys) (elems a) @ replicate (length ys - arr_count a) 0"
    using array_resize_correct [OF ok mem n] by (auto simp: refines_list_def)
  have "arr_count a' = length ys"
    using length_elems [OF a'(2)] length_elems [OF ok] a'(4) by simp
  then show ?thesis
    using a'(1-3) by (auto simp: refines_list_def array_assign_items_def array_ok_def elems_def)
qed

lemma swap_loop_correct:
  "length xs = i \<Longrightarrow> length as = n \<Longrightarrow> length bs = n \<Longrightarrow> count = 2 * (i + n) + length m \<Longrightarrow>
     swap_loop n i count (xs @ as @ m @ bs @ zs) = xs @ rev bs @ m @ rev as @ zs"
proof (induction n arbitrary: i xs as bs zs)
  case (Suc n)
  obtain a as' where as: "as = a # as'" "length as' = n" using Suc.prems(2) by (cases as) auto
  obtain b bs' where bs: "bs = bs' @ [b]" "length bs' = n"
    using Suc.prems(3) by (cases bs rule: rev_cases) auto
  define d where "d = xs @ as @ m @ bs @ zs"
  have j: "count - 1 - i = length (xs @ a # as' @ m @ bs')" using Suc.prems as bs by simp
  have "d ! i = a" using Suc.prems(1) by (simp add: d_def as nth_append)
  moreover have "d ! (count - 1 - i) = b"
    unfolding j d_def as bs by (metis append.assoc append_Cons append_Nil nth_append_length)
  moreover have "d[i := b] = (xs @ b # as' @ m @ bs') @ b # zs"
    using Suc.prems(1) by (simp add: d_def as bs list_update_append)
  then have "(d[i := b])[count - 1 - i := a] = (xs @ [b]) @ as' @ m @ bs' @ (a # zs)"
    unfolding j by (simp add: list_update_append)
  ultimately have "swap_loop (Suc n) i count d = swap_loop n (i + 1) count ((xs @ [b]) @ as' @ m @ bs' @ (a # zs))"
    by (simp add: Let_def del: append_assoc)
  also have "\<dots> = (xs @ [b]) @ rev bs' @ m @ rev as' @ (a # zs)"
    using Suc.prems as bs by (intro Suc.IH) simp_all
  finally show ?case by (simp add: d_def as bs)
qed simp

lemma array_swapElems_correct:
  assumes "array_ok a"
  shows "array_ok (array_swapElems a) \<and> elems (array_swapElems a) = rev (elems a)"
proof -
  define n where "n = arr_count a div 2"
  define m where "m = take (arr_count a - 2 * n) (drop n (elems a))"
  have len: "length (elems a) = arr_count a" by (rule length_elems [OF assms])
  have n2: "2 * n \<le> arr_count a" "arr_count a - 2 * n \<le> 1" by (simp_all add: n_def)
  have e: "elems a = take n (elems a) @ m @ drop (arr_count a - n) (elems a)"
  proof -
    have "drop n (elems a) = m @ drop (arr_count a - n) (elems a)"
      unfolding m_def using n2 append_take_drop_id [of "arr_count a - 2 * n" "drop n (elems a)"]
      by (simp add: drop_drop)
    then show ?thesis by (metis append_take_drop_id)
  qed
  have "length m \<le> 1" using n2(2) by (simp add: m_def)
  then have "rev m = m" by (cases m) auto
  have d: "arr_data a = [] @ take n (elems a) @ m @ drop (arr_count a - n) (elems a) @ drop (arr_count a) (arr_data a)"
    using e by (simp add: elems_def) (metis append.assoc append_take_drop_id)
  have "swap_loop n 0 (arr_count a) (arr_data a) =
      [] @ rev (drop (arr_count a - n) (elems a)) @ m @ rev (take n (elems a)) @ drop (arr_count a) (arr_data a)"
    by (subst d, rule swap_loop_correct) (use n2 len in \<open>simp_all add: m_def\<close>)
  moreover have "rev (elems a) = rev (drop (arr_count a - n) (elems a)) @ m @ rev (take n (elems a))"
    by (subst e) (simp add: \<open>rev m = m\<close>)
  ultimately have "swap_loop n 0 (arr_count a) (arr_data a) = rev (elems a) @ drop (arr_count a) (arr_data a)"
    by simp
  then show ?thesis
    using assms len by (simp add: array_swapElems_def n_def [symmetric] array_ok_def elems_def)
qed

section \<open>Every operation refines the one on lists\<close>

lemma array_exec_correct:
  assumes ok: "array_ok a" and mem: "mem_ok mem" and pre: "list_pre (max_elements (arr_sizeof a)) c (elems a)"
  shows "refines_list (arr_sizeof a) (array_exec mem c a) (list_exec c (elems a))"
proof (cases c)
  case (AddOp x)
  have "array_add_items mem [x] a = map_option snd (array_add mem x a)"
    if "arr_count a + 1 \<le> max_elements (arr_sizeof a)"
    using max_elements_less [OF that] by (simp add: array_add_items_def array_add_def FB_MAX_SIZEOF_def map_option_bind fb_assert_def)
      (simp add: map_conv_bind_option o_def)
  then show ?thesis using AddOp array_add_items_correct [OF ok mem, of "[x]"] pre length_elems [OF ok] by simp
next
  case PopOp
  then have "0 < arr_count a" using pre length_elems [OF ok] by (cases "elems a") auto
  moreover have "take (arr_count a - 1) (elems a) = butlast (elems a)"
    using length_elems [OF ok] by (simp add: butlast_conv_take)
  ultimately show ?thesis using PopOp array_shrink_ok [OF ok, of "arr_count a - 1"] by (simp add: array_pop_def)
next
  case ClearOp
  then show ?thesis using array_shrink_ok [OF ok, of 0] by (simp add: array_clear_def)
next
  case FreeOp
  then show ?thesis
    using ok mem by (auto simp: array_free_def array_clear_def refines_list_def array_ok_def elems_def mem_ok_def)
next
  case SwapOp
  then show ?thesis using array_swapElems_correct [OF ok]
    by (simp add: refines_list_def) (simp add: array_swapElems_def)
next
  case (ShrinkOp n)
  then show ?thesis using array_shrink_ok [OF ok] pre length_elems [OF ok] by (simp add: array_shrink_def)
qed (use pre length_elems [OF ok] array_insert_correct [OF ok mem] array_insert_items_correct [OF ok mem]
    array_add_items_correct [OF ok mem] array_remove_correct [OF ok] array_removeRange_correct [OF ok]
    array_removeCount_correct [OF ok] array_grow_correct [OF ok mem] array_resize_val_correct [OF ok mem]
    array_resize_correct [OF ok mem] array_assign_items_correct [OF ok mem] in simp_all)

fun array_run :: "(nat \<Rightarrow> 'a::zero list) \<Rightarrow> 'a list_op list \<Rightarrow> ('a, 'b) Array_scheme \<Rightarrow> ('a, 'b) Array_scheme option" where
  "array_run mem [] a = Some a"
| "array_run mem (c # cs) a = do { a \<leftarrow> array_exec mem c a; array_run mem cs a }"

fun list_run :: "nat \<Rightarrow> 'a::zero list_op list \<Rightarrow> 'a list \<Rightarrow> 'a list option" where
  "list_run mx [] xs = Some xs"
| "list_run mx (c # cs) xs = (if list_pre mx c xs then list_run mx cs (list_exec c xs) else None)"

lemma array_run_correct:
  assumes "mem_ok mem"
  shows "array_ok a \<Longrightarrow> list_run (max_elements (arr_sizeof a)) cs (elems a) = Some xs \<Longrightarrow> refines_list (arr_sizeof a) (array_run mem cs a) xs"
proof (induction cs arbitrary: a)
  case (Cons c cs)
  then have pre: "list_pre (max_elements (arr_sizeof a)) c (elems a)"
    "list_run (max_elements (arr_sizeof a)) cs (list_exec c (elems a)) = Some xs" by (auto split: if_splits)
  then obtain a' where "array_exec mem c a = Some a'" "array_ok a'" "arr_sizeof a' = arr_sizeof a" "elems a' = list_exec c (elems a)"
    using array_exec_correct [OF Cons.prems(1) assms, of c] by (auto simp: refines_list_def)
  then show ?case using Cons.IH [of a'] pre(2) by simp
qed (simp add: refines_list_def)

lemma array_new_ok:
  "mem_ok mem \<Longrightarrow> storage \<le> FB_MAX_SIZEOF \<Longrightarrow> 0 < elem_size \<Longrightarrow>
    array_ok (array_new mem elem_size storage) \<and> arr_sizeof (array_new mem elem_size storage) = elem_size \<and> elems (array_new mem elem_size storage) = []"
  by (simp add: array_new_def array_ok_def elems_def mem_ok_def)

lemma array_find_loop_correct:
  "array_find_loop d i n item =
     (case filter (\<lambda>k. d ! k = item) [i ..< i + n] of [] \<Rightarrow> None | k # _ \<Rightarrow> Some k)"
proof (induction n arbitrary: i)
  case (Suc n)
  have "[i ..< i + Suc n] = i # [i + 1 ..< i + 1 + n]" by (simp add: upt_rec)
  then show ?case using Suc.IH [of "i + 1"] by (simp del: upt_Suc)
qed simp

text \<open>
  C28. Any sequence of operations whose asserted conditions hold does to the array what it does
  to the list of its elements: growing, moving and copying stay inside the block and lose
  nothing, whatever the memory the allocator returns holds. With elements of \<open>elem_size\<close> bytes, the list
  may have \<open>(2^32 - 1) div elem_size div 2\<close> elements: growing to more may double the capacity past the
  assertion of \<^verbatim>\<open>ensureCapacity\<close>.
\<close>

theorem array_refines_list:
  assumes "mem_ok mem" and "storage \<le> FB_MAX_SIZEOF" and "0 < elem_size"
    and "list_run (max_elements elem_size) cs [] = Some xs"
  shows "\<exists>a. array_run mem cs (array_new mem elem_size storage) = Some a \<and> array_ok a \<and> elems a = xs"
  using array_run_correct [OF assms(1), of "array_new mem elem_size storage" cs xs] array_new_ok [OF assms(1,2,3)] assms(4)
  by (auto simp: refines_list_def)

theorem array_refines_list_witness:
  "\<exists>a. array_run (\<lambda>n. replicate n 7) [AddItemsOp [1, 2], InsertOp 1 5, GrowOp 4, RemoveRangeOp 0 1, SwapOp, PopOp]
       (array_new (\<lambda>n. replicate n 7) 8 2) = Some a \<and> array_ok a \<and> elems a = [0, 2 :: nat]"
  by (rule array_refines_list) (simp_all add: mem_ok_def FB_MAX_SIZEOF_def max_elements_def)

text \<open>
  \<open>find\<close> gives the first position of the item, and fails only if the item is not there.
\<close>

theorem array_find_first:
  assumes "array_ok a"
  shows "case array_find item a of
      None \<Rightarrow> item \<notin> set (elems a)
    | Some pos \<Rightarrow> pos < length (elems a) \<and> elems a ! pos = item \<and> item \<notin> set (take pos (elems a))"
proof -
  have d: "arr_data a ! k = elems a ! k" if "k < arr_count a" for k using elems_nth [OF assms that] by simp
  define ks where "ks = filter (\<lambda>k. arr_data a ! k = item) [0 ..< arr_count a]"
  have f: "array_find item a = (case ks of [] \<Rightarrow> None | k # _ \<Rightarrow> Some k)"
    using array_find_loop_correct [of "arr_data a" 0 "arr_count a" item] by (simp add: array_find_def ks_def)
  show ?thesis
  proof (cases ks)
    case Nil
    then have "\<forall>k < arr_count a. arr_data a ! k \<noteq> item" by (auto simp: ks_def filter_empty_conv)
    then show ?thesis using f Nil length_elems [OF assms] d by (auto simp: in_set_conv_nth)
  next
    case (Cons k ks')
    have "sorted_wrt (<) ks" by (simp add: ks_def sorted_wrt_filter)
    moreover have "k \<in> set ks" using Cons by simp
    then have "k < arr_count a" "arr_data a ! k = item" unfolding ks_def by auto
    ultimately have k: "k < arr_count a" "arr_data a ! k = item" and "\<forall>j \<in> set ks'. k < j"
      using Cons by simp_all
    have "arr_data a ! j \<noteq> item" if "j < k" for j
    proof
      assume "arr_data a ! j = item"
      then have "j \<in> set ks" using that k(1) by (simp add: ks_def)
      then show False using Cons \<open>\<forall>j \<in> set ks'. k < j\<close> that by auto
    qed
    then show ?thesis
      using f Cons k d length_elems [OF assms] by (auto simp: in_set_conv_nth)
  qed
qed

theorem array_find_first_witness:
  "case array_find 3 \<lparr>arr_sizeof = 8, arr_storage = 0, arr_count = 3, arr_capacity = 4, arr_data = [1, 3, 3, 9 :: nat]\<rparr> of
      None \<Rightarrow> 3 \<notin> set (elems \<lparr>arr_sizeof = 8, arr_storage = 0, arr_count = 3, arr_capacity = 4, arr_data = [1, 3, 3, 9 :: nat]\<rparr>)
    | Some pos \<Rightarrow> pos < length (elems \<lparr>arr_sizeof = 8, arr_storage = 0, arr_count = 3, arr_capacity = 4, arr_data = [1, 3, 3, 9 :: nat]\<rparr>) \<and>
        elems \<lparr>arr_sizeof = 8, arr_storage = 0, arr_count = 3, arr_capacity = 4, arr_data = [1, 3, 3, 9 :: nat]\<rparr> ! pos = 3 \<and>
        3 \<notin> set (take pos (elems \<lparr>arr_sizeof = 8, arr_storage = 0, arr_count = 3, arr_capacity = 4, arr_data = [1, 3, 3, 9 :: nat]\<rparr>))"
  by (rule array_find_first) (simp add: array_ok_def FB_MAX_SIZEOF_def)

lemma two_elements: "replicate 2 x = [x, x]" "[0 ..< 2] = [0, 1]"
  by (simp_all add: numeral_2_eq_2)

text \<open>
  The overload of \<open>insert\<close> that takes an array copies a byte per element: of two inserted
  elements of two bytes the second keeps what the memory held. \<open>operator==\<close> compares a byte per
  element: arrays that differ in their second element are taken for equal.
\<close>

theorem byte_counts_for_elements:
  "map_option elems (array_insert_array 2 (\<lambda>n. replicate n [0, 0]) 0
       \<lparr>arr_sizeof = 2, arr_storage = 0, arr_count = 2, arr_capacity = 2, arr_data = [[1, 2], [3, 4]]\<rparr>
       (array_new (\<lambda>n. replicate n [0, 0]) 2 0)) = Some [[1, 2], [0, 0 :: nat]] \<and>
   array_equal \<lparr>arr_sizeof = 2, arr_storage = 0, arr_count = 2, arr_capacity = 2, arr_data = [[1, 2], [3, 4]]\<rparr>
     \<lparr>arr_sizeof = 2, arr_storage = 0, arr_count = 2, arr_capacity = 2, arr_data = [[1, 2], [5, 6 :: nat]]\<rparr>"
  by (simp add: array_insert_array_def array_new_def array_equal_def ensureCapacity_def FB_MAX_SIZEOF_def size_add_def
      Let_def elems_def memcpy_bytes_def two_elements)

end
