(* ===== verification/FB_Sorted.thy ===== *)
theory FB_Sorted
  imports FB_Array "HOL-Library.Multiset"
begin

text \<open>
  The fixed-size \<^verbatim>\<open>Vector\<close> and the sorted containers \<^verbatim>\<open>SortedVector\<close> (\<^verbatim>\<open>src/common/classes/vector.h\<close>)
  and \<^verbatim>\<open>SortedArray\<close> (\<^verbatim>\<open>src/common/classes/array.h\<close>), which find the place of a key by bisection. The
  comparator and the function from a value to its key are the template parameters \<^verbatim>\<open>Cmp\<close> and
  \<^verbatim>\<open>KeyOfValue\<close>.
\<close>

section \<open>The vector\<close>

text \<open>The capacity is the length of \<open>vec_data\<close>.\<close>

record 'a Vector =
  vec_count :: nat
  vec_data :: "'a list"

definition vector_nth :: "'a Vector \<Rightarrow> nat \<Rightarrow> 'a option" where
  "vector_nth v index = do { fb_assert (index < vec_count v); Some (vec_data v ! index) }"

definition vector_clear :: "'a Vector \<Rightarrow> 'a Vector" where
  "vector_clear v = v\<lparr>vec_count := 0\<rparr>"

definition vector_insert :: "nat \<Rightarrow> 'a \<Rightarrow> 'a Vector \<Rightarrow> 'a Vector option" where
  "vector_insert index item v =
     do {
       fb_assert (index \<le> vec_count v);
       fb_assert (vec_count v < length (vec_data v));
       tail \<leftarrow> mem_read (vec_data v) index (vec_count v - index);
       d \<leftarrow> mem_write (vec_data v) (index + 1) tail;
       d \<leftarrow> mem_write d index [item];
       Some (v\<lparr>vec_data := d, vec_count := vec_count v + 1\<rparr>)
     }"

text \<open>Unlike the one of the array, \<open>add\<close> returns the new count.\<close>

definition vector_add :: "'a \<Rightarrow> 'a Vector \<Rightarrow> (nat \<times> 'a Vector) option" where
  "vector_add item v =
     do {
       fb_assert (vec_count v < length (vec_data v));
       d \<leftarrow> mem_write (vec_data v) (vec_count v) [item];
       Some (vec_count v + 1, v\<lparr>vec_data := d, vec_count := vec_count v + 1\<rparr>)
     }"

definition vector_remove :: "nat \<Rightarrow> 'a Vector \<Rightarrow> 'a Vector option" where
  "vector_remove index v =
     do {
       fb_assert (index < vec_count v);
       tail \<leftarrow> mem_read (vec_data v) (index + 1) (vec_count v - 1 - index);
       d \<leftarrow> mem_write (vec_data v) index tail;
       Some (v\<lparr>vec_data := d, vec_count := vec_count v - 1\<rparr>)
     }"

definition vector_removeCount :: "nat \<Rightarrow> nat \<Rightarrow> 'a Vector \<Rightarrow> 'a Vector option" where
  "vector_removeCount index n v =
     do {
       fb_assert (size_add index n \<le> vec_count v);
       tail \<leftarrow> mem_read (vec_data v) (index + n) (size_sub (size_sub (vec_count v) index) n);
       d \<leftarrow> mem_write (vec_data v) index tail;
       Some (v\<lparr>vec_data := d, vec_count := size_sub (vec_count v) n\<rparr>)
     }"

definition vector_shrink :: "nat \<Rightarrow> 'a Vector \<Rightarrow> 'a Vector option" where
  "vector_shrink newCount v = do { fb_assert (newCount \<le> vec_count v); Some (v\<lparr>vec_count := newCount\<rparr>) }"

definition vector_join :: "'a Vector \<Rightarrow> 'a Vector \<Rightarrow> 'a Vector option" where
  "vector_join L v =
     do {
       fb_assert (size_add (vec_count v) (vec_count L) \<le> length (vec_data v));
       src \<leftarrow> mem_read (vec_data L) 0 (vec_count L);
       d \<leftarrow> mem_write (vec_data v) (vec_count v) src;
       Some (v\<lparr>vec_data := d, vec_count := vec_count v + vec_count L\<rparr>)
     }"

definition vector_getBuffer :: "nat \<Rightarrow> 'a Vector \<Rightarrow> 'a Vector option" where
  "vector_getBuffer capacityL v =
     do { fb_assert (capacityL \<le> length (vec_data v)); Some (v\<lparr>vec_count := capacityL\<rparr>) }"

definition vector_pop :: "'a Vector \<Rightarrow> ('a \<times> 'a Vector) option" where
  "vector_pop v =
     do {
       fb_assert (vec_count v > 0);
       let v = v\<lparr>vec_count := vec_count v - 1\<rparr>;
       Some (vec_data v ! vec_count v, v)
     }"

definition vector_push_items :: "'a list \<Rightarrow> 'a Vector \<Rightarrow> 'a Vector option" where
  "vector_push_items items v =
     do {
       fb_assert (vec_count v \<le> FB_MAX_SIZEOF - length items);
       fb_assert (size_add (vec_count v) (length items) \<le> length (vec_data v));
       d \<leftarrow> mem_write (vec_data v) (vec_count v) items;
       Some (v\<lparr>vec_data := d, vec_count := vec_count v + length items\<rparr>)
     }"

fun vector_find_loop :: "'a list \<Rightarrow> nat \<Rightarrow> nat \<Rightarrow> 'a \<Rightarrow> nat option" where
  "vector_find_loop d i 0 item = None"
| "vector_find_loop d i (Suc n) item = (if d ! i = item then Some i else vector_find_loop d (i + 1) n item)"

definition vector_find :: "'a \<Rightarrow> 'a Vector \<Rightarrow> nat option" where
  "vector_find item v = vector_find_loop (vec_data v) 0 (vec_count v) item"

section \<open>Bisection\<close>

definition greaterThan :: "'k::linorder \<Rightarrow> 'k \<Rightarrow> bool" where
  "greaterThan i1 i2 \<longleftrightarrow> i1 > i2"

definition DefaultKeyValue :: "'v \<Rightarrow> 'v" where
  "DefaultKeyValue item = item"

text \<open>
  The loop of both \<open>find\<close> functions. The sum of the bounds is one of 32-bit numbers: \<open>None\<close> is a
  loop that does not end.
\<close>

partial_function (option) bisect :: "('k \<Rightarrow> 'k \<Rightarrow> bool) \<Rightarrow> ('v \<Rightarrow> 'k) \<Rightarrow> 'k \<Rightarrow> 'v list \<Rightarrow> nat \<Rightarrow> nat \<Rightarrow> (nat \<times> nat) option" where
  "bisect gt key item d lowBound highBound =
     (if highBound > lowBound then
        let temp = size_add highBound lowBound div 2
        in if gt item (key (d ! temp)) then bisect gt key item d (temp + 1) highBound
           else bisect gt key item d lowBound temp
      else Some (lowBound, highBound))"

declare bisect.simps [code]

definition sorted_vector_find :: "('k \<Rightarrow> 'k \<Rightarrow> bool) \<Rightarrow> ('v \<Rightarrow> 'k) \<Rightarrow> 'k \<Rightarrow> 'v Vector \<Rightarrow> (bool \<times> nat) option" where
  "sorted_vector_find gt key item v =
     do {
       (lowBound, highBound) \<leftarrow> bisect gt key item (vec_data v) 0 (vec_count v);
       Some (highBound \<noteq> vec_count v \<and> \<not> gt (key (vec_data v ! lowBound)) item, lowBound)
     }"

definition sorted_vector_add :: "('k \<Rightarrow> 'k \<Rightarrow> bool) \<Rightarrow> ('v \<Rightarrow> 'k) \<Rightarrow> 'v \<Rightarrow> 'v Vector \<Rightarrow> (nat \<times> 'v Vector) option" where
  "sorted_vector_add gt key item v =
     do {
       (found, pos) \<leftarrow> sorted_vector_find gt key (key item) v;
       v \<leftarrow> vector_insert pos item v;
       Some (pos, v)
     }"

section \<open>The sorted array\<close>

definition FB_ARRAY_SORT_MANUAL :: int where
  "FB_ARRAY_SORT_MANUAL = 0"

definition FB_ARRAY_SORT_WHEN_ADD :: int where
  "FB_ARRAY_SORT_WHEN_ADD = 1"

record 'v SortedArray = "'v Array" +
  sortMode :: int
  in_order :: bool

definition sorted_array_new :: "(nat \<Rightarrow> 'v list) \<Rightarrow> nat \<Rightarrow> nat \<Rightarrow> 'v SortedArray" where
  "sorted_array_new mem elem_size storage =
     \<lparr>arr_sizeof = elem_size, arr_storage = storage, arr_count = 0, arr_capacity = storage, arr_data = mem storage,
      sortMode = FB_ARRAY_SORT_WHEN_ADD, in_order = True\<rparr>"

definition sorted_array_find :: "('k \<Rightarrow> 'k \<Rightarrow> bool) \<Rightarrow> ('v \<Rightarrow> 'k) \<Rightarrow> 'k \<Rightarrow> 'v SortedArray \<Rightarrow> (bool \<times> nat) option" where
  "sorted_array_find gt key item a =
     do {
       fb_assert (in_order a);
       (lowBound, highBound) \<leftarrow> bisect gt key item (arr_data a) 0 (arr_count a);
       Some (highBound \<noteq> arr_count a \<and> \<not> gt (key (arr_data a ! lowBound)) item, lowBound)
     }"

definition sorted_array_exist :: "('k \<Rightarrow> 'k \<Rightarrow> bool) \<Rightarrow> ('v \<Rightarrow> 'k) \<Rightarrow> 'k \<Rightarrow> 'v SortedArray \<Rightarrow> bool option" where
  "sorted_array_exist gt key item a = map_option fst (sorted_array_find gt key item a)"

definition sorted_array_add ::
  "('k \<Rightarrow> 'k \<Rightarrow> bool) \<Rightarrow> ('v \<Rightarrow> 'k) \<Rightarrow> (nat \<Rightarrow> 'v list) \<Rightarrow> 'v \<Rightarrow> 'v SortedArray \<Rightarrow> (nat \<times> 'v SortedArray) option" where
  "sorted_array_add gt key mem item a =
     do {
       (pos, a) \<leftarrow>
         (if sortMode a = FB_ARRAY_SORT_WHEN_ADD
          then map_option (\<lambda>(found, pos). (pos, a)) (sorted_array_find gt key (key item) a)
          else Some (arr_count a, a\<lparr>in_order := False\<rparr>));
       a \<leftarrow> array_insert mem pos item a;
       Some (pos, a)
     }"

text \<open>The comparison given to \<open>qsort\<close>, which is a parameter: the C library's.\<close>

definition sort_compare :: "('k \<Rightarrow> 'k \<Rightarrow> bool) \<Rightarrow> ('v \<Rightarrow> 'k) \<Rightarrow> 'v \<Rightarrow> 'v \<Rightarrow> int" where
  "sort_compare gt key a b = (if gt (key a) (key b) then 1 else if gt (key b) (key a) then -1 else 0)"

definition sorted_array_sort ::
  "(('v \<Rightarrow> 'v \<Rightarrow> int) \<Rightarrow> 'v list \<Rightarrow> 'v list) \<Rightarrow> ('k \<Rightarrow> 'k \<Rightarrow> bool) \<Rightarrow> ('v \<Rightarrow> 'k) \<Rightarrow> 'v SortedArray \<Rightarrow> 'v SortedArray" where
  "sorted_array_sort qsort gt key a =
     (if in_order a then a
      else a\<lparr>arr_data := qsort (sort_compare gt key) (take (arr_count a) (arr_data a)) @ drop (arr_count a) (arr_data a),
             in_order := True\<rparr>)"

definition setSortMode ::
  "(('v \<Rightarrow> 'v \<Rightarrow> int) \<Rightarrow> 'v list \<Rightarrow> 'v list) \<Rightarrow> ('k \<Rightarrow> 'k \<Rightarrow> bool) \<Rightarrow> ('v \<Rightarrow> 'k) \<Rightarrow> int \<Rightarrow> 'v SortedArray \<Rightarrow> 'v SortedArray" where
  "setSortMode qsort gt key sm a =
     (if sortMode a \<noteq> FB_ARRAY_SORT_WHEN_ADD \<and> sm = FB_ARRAY_SORT_WHEN_ADD \<and> \<not> in_order a
      then sorted_array_sort qsort gt key a else a)\<lparr>sortMode := sm\<rparr>"

section \<open>Orders\<close>

text \<open>What the bisection relies on: the comparator is a strict weak order.\<close>

locale key_order =
  fixes gt :: "'k \<Rightarrow> 'k \<Rightarrow> bool"
  assumes asym: "gt x y \<Longrightarrow> \<not> gt y x"
    and negative_trans: "\<not> gt x y \<Longrightarrow> \<not> gt y z \<Longrightarrow> \<not> gt x z"
begin

definition ascending :: "('v \<Rightarrow> 'k) \<Rightarrow> 'v list \<Rightarrow> bool" where
  "ascending key xs \<longleftrightarrow> sorted_wrt (\<lambda>a b. \<not> gt (key a) (key b)) xs"

definition lower_bound :: "('v \<Rightarrow> 'k) \<Rightarrow> 'k \<Rightarrow> 'v list \<Rightarrow> nat \<Rightarrow> bool" where
  "lower_bound key item xs pos \<longleftrightarrow> pos \<le> length xs \<and>
     (\<forall>i < pos. gt item (key (xs ! i))) \<and> (\<forall>i. pos \<le> i \<and> i < length xs \<longrightarrow> \<not> gt item (key (xs ! i)))"

lemma ascending_nth:
  "ascending key xs \<Longrightarrow> i \<le> j \<Longrightarrow> j < length xs \<Longrightarrow> \<not> gt (key (xs ! i)) (key (xs ! j))"
  unfolding ascending_def sorted_wrt_iff_nth_less using asym by (cases "i = j") auto

lemma gt_trans: "gt x y \<Longrightarrow> \<not> gt z y \<Longrightarrow> gt x z"
  using negative_trans by blast

lemma lower_bound_found:
  assumes "ascending key xs" and "lower_bound key item xs pos"
  shows "(\<exists>x \<in> set xs. \<not> gt item (key x) \<and> \<not> gt (key x) item) \<longleftrightarrow> pos \<noteq> length xs \<and> \<not> gt (key (xs ! pos)) item"
proof
  assume "\<exists>x \<in> set xs. \<not> gt item (key x) \<and> \<not> gt (key x) item"
  then obtain i where i: "i < length xs" "\<not> gt item (key (xs ! i))" "\<not> gt (key (xs ! i)) item"
    by (auto simp: in_set_conv_nth)
  then have "pos \<le> i" using assms(2) by (auto simp: lower_bound_def not_less [symmetric])
  then have "\<not> gt (key (xs ! pos)) item"
    using negative_trans [OF ascending_nth [OF assms(1) _ i(1)] i(3)] by blast
  then show "pos \<noteq> length xs \<and> \<not> gt (key (xs ! pos)) item" using i(1) \<open>pos \<le> i\<close> by auto
next
  assume "pos \<noteq> length xs \<and> \<not> gt (key (xs ! pos)) item"
  then show "\<exists>x \<in> set xs. \<not> gt item (key x) \<and> \<not> gt (key x) item"
    using assms(2) by (auto simp: lower_bound_def intro!: bexI [of _ "xs ! pos"])
qed

lemma insert_ascending:
  assumes asc: "ascending key xs" and lb: "lower_bound key (key x) xs pos"
  shows "ascending key (take pos xs @ x # drop pos xs)"
proof -
  have tk: "\<not> gt (key a) (key x)" if "a \<in> set (take pos xs)" for a
    using lb that asym by (auto simp: lower_bound_def in_set_conv_nth)
  have dr: "\<not> gt (key x) (key b)" if "b \<in> set (drop pos xs)" for b
    using lb that by (auto simp: lower_bound_def in_set_conv_nth)
  have "\<not> gt (key a) (key b)" if "a \<in> set (take pos xs)" "b \<in> set (drop pos xs)" for a b
    using negative_trans [OF tk [OF that(1)] dr [OF that(2)]] .
  moreover have "ascending key (take pos xs)" "ascending key (drop pos xs)"
    using asc by (auto simp: ascending_def sorted_wrt_take sorted_wrt_drop)
  ultimately show ?thesis using tk dr by (auto simp: ascending_def sorted_wrt_append)
qed

lemma bisect_correct:
  "ascending key (take n d) \<Longrightarrow> n \<le> length d \<Longrightarrow> n \<le> 2 ^ 31 \<Longrightarrow> lo \<le> hi \<Longrightarrow> hi \<le> n \<Longrightarrow>
     (\<And>i. i < lo \<Longrightarrow> gt item (key (d ! i))) \<Longrightarrow> (\<And>i. hi \<le> i \<Longrightarrow> i < n \<Longrightarrow> \<not> gt item (key (d ! i))) \<Longrightarrow>
     \<exists>pos. bisect gt key item d lo hi = Some (pos, pos) \<and> lower_bound key item (take n d) pos"
proof (induction "hi - lo" arbitrary: lo hi rule: less_induct)
  case less
  show ?case
  proof (cases "hi > lo")
    case False
    then have "lo = hi" using less.prems(4) by simp
    then show ?thesis
      using less.prems by (auto simp: bisect.simps [of gt key item d hi hi] lower_bound_def)
  next
    case True
    define m where "m = (hi + lo) div 2"
    have m: "lo \<le> m" "m < hi" using True by (auto simp: m_def)
    have sa: "size_add hi lo div 2 = m"
      using True less.prems(3,5) by (simp add: size_add_def m_def)
    have asc: "\<not> gt (key (d ! i)) (key (d ! j))" if "i \<le> j" "j < n" for i j
      using ascending_nth [OF less.prems(1) that(1)] that less.prems(2) by simp
    show ?thesis
    proof (cases "gt item (key (d ! m))")
      case gt_m: True
      have "gt item (key (d ! i))" if "i < m + 1" for i
        using gt_trans [OF gt_m asc [of i m]] that m less.prems(5) by simp
      then show ?thesis
        using less.hyps [of hi "m + 1"] less.prems m True gt_m
        by (simp add: bisect.simps [of gt key item d lo hi] Let_def sa)
    next
      case False
      have "\<not> gt item (key (d ! i))" if "m \<le> i" "i < n" for i
        using negative_trans [OF False asc [OF that]] .
      then show ?thesis
        using less.hyps [of m lo] less.prems m True False
        by (simp add: bisect.simps [of gt key item d lo hi] Let_def sa)
    qed
  qed
qed

lemma bisect_all:
  assumes "ascending key (take n d)" and "n \<le> length d" and "n \<le> 2 ^ 31"
  shows "\<exists>pos. bisect gt key item d 0 n = Some (pos, pos) \<and> lower_bound key item (take n d) pos"
  using bisect_correct [OF assms, of 0 n item] by auto

end

interpretation default_order: key_order "greaterThan :: 'k::linorder \<Rightarrow> 'k \<Rightarrow> bool"
  by unfold_locales (auto simp: greaterThan_def)

text \<open>A container one can insert into at a position; \<open>room\<close> says that another item fits.\<close>

locale insert_container =
  fixes ok :: "'s \<Rightarrow> bool" and room :: "'s \<Rightarrow> bool" and contents :: "'s \<Rightarrow> 'v list"
    and insert_at :: "nat \<Rightarrow> 'v \<Rightarrow> 's \<Rightarrow> 's option"
  assumes insert_at: "ok s \<Longrightarrow> room s \<Longrightarrow> i \<le> length (contents s) \<Longrightarrow>
    \<exists>s'. insert_at i x s = Some s' \<and> ok s' \<and> contents s' = take i (contents s) @ x # drop i (contents s)"

locale sorted_container = key_order gt + insert_container ok room contents insert_at
  for gt :: "'k \<Rightarrow> 'k \<Rightarrow> bool" and ok :: "'s \<Rightarrow> bool" and room :: "'s \<Rightarrow> bool" and contents :: "'s \<Rightarrow> 'v list"
    and insert_at :: "nat \<Rightarrow> 'v \<Rightarrow> 's \<Rightarrow> 's option"
begin

lemma insert_sorted:
  assumes "ok s" and "room s" and "ascending key (contents s)" and "lower_bound key (key x) (contents s) pos"
  shows "\<exists>s'. insert_at pos x s = Some s' \<and> ok s' \<and> ascending key (contents s') \<and>
     mset (contents s') = add_mset x (mset (contents s)) \<and> contents s' ! pos = x \<and> pos < length (contents s')"
proof -
  have pos: "pos \<le> length (contents s)" using assms(4) by (simp add: lower_bound_def)
  obtain s' where s': "insert_at pos x s = Some s'" "ok s'" "contents s' = take pos (contents s) @ x # drop pos (contents s)"
    using insert_at [OF assms(1,2) pos] by blast
  have "mset (take pos (contents s)) + mset (drop pos (contents s)) = mset (contents s)"
    by (metis append_take_drop_id mset_append)
  then show ?thesis
    using s' pos insert_ascending [OF assms(3,4)] by (auto simp: nth_append)
qed

end

text \<open>Both containers provide it.\<close>

definition vec_elems :: "'a Vector \<Rightarrow> 'a list" where
  "vec_elems v = take (vec_count v) (vec_data v)"

definition vector_ok :: "'a Vector \<Rightarrow> bool" where
  "vector_ok v \<longleftrightarrow> vec_count v \<le> length (vec_data v)"

lemma vector_insert_at:
  assumes "vector_ok v" and "vec_count v < length (vec_data v)" and "i \<le> length (vec_elems v)"
  shows "\<exists>v'. vector_insert i x v = Some v' \<and> vector_ok v' \<and> vec_elems v' = take i (vec_elems v) @ x # drop i (vec_elems v)"
proof -
  have i: "i \<le> vec_count v" using assms by (simp add: vec_elems_def vector_ok_def)
  have e: "drop i (vec_elems v) = take (vec_count v - i) (drop i (vec_data v))" "take i (vec_elems v) = take i (vec_data v)"
    using i by (auto simp: vec_elems_def drop_take min_def)
  show ?thesis
    unfolding e using assms(1,2) i by (auto simp: vector_insert_def vector_ok_def vec_elems_def Suc_diff_le)
qed

interpretation sorted_vectors: sorted_container
  "greaterThan :: 'k::linorder \<Rightarrow> 'k \<Rightarrow> bool" vector_ok "\<lambda>v. vec_count v < length (vec_data v)" vec_elems vector_insert
  by unfold_locales (rule vector_insert_at)

interpretation sorted_arrays: sorted_container
  "greaterThan :: 'k::linorder \<Rightarrow> 'k \<Rightarrow> bool" "\<lambda>a. array_ok a \<and> mem_ok mem" "\<lambda>a. arr_count a < max_elements (arr_sizeof a)" elems
  "array_insert mem" for mem :: "nat \<Rightarrow> 'v list"
proof
  fix a :: "('v, 'b) Array_scheme" and i x
  assume "array_ok a \<and> mem_ok mem" "arr_count a < max_elements (arr_sizeof a)" "i \<le> length (elems a)"
  then show "\<exists>a'. array_insert mem i x a = Some a' \<and> (array_ok a' \<and> mem_ok mem) \<and>
      elems a' = take i (elems a) @ x # drop i (elems a)"
    using array_insert_correct [of a mem i x] length_elems [of a] by (auto simp: refines_list_def)
qed

section \<open>Sorted containers\<close>

lemma default_ascending: "default_order.ascending key xs \<longleftrightarrow> sorted (map key xs)"
  by (simp add: default_order.ascending_def greaterThan_def sorted_map not_less)

lemma default_lower_bound:
  "default_order.lower_bound key k xs pos \<longleftrightarrow> pos \<le> length xs \<and>
     (\<forall>i < pos. key (xs ! i) < k) \<and> (\<forall>i. pos \<le> i \<and> i < length xs \<longrightarrow> k \<le> key (xs ! i))"
  by (simp add: default_order.lower_bound_def greaterThan_def not_less)

lemma sorted_array_find_correct:
  assumes "array_ok a" and "in_order a" and "sorted (map key (elems a))" and "arr_count a \<le> 2 ^ 31"
  shows "\<exists>pos. sorted_array_find greaterThan key k a = Some (k \<in> key ` set (elems a), pos) \<and>
     default_order.lower_bound key k (elems a) pos"
proof -
  have asc: "default_order.ascending key (take (arr_count a) (arr_data a))"
    using assms(3) by (simp add: default_ascending elems_def)
  have len: "arr_count a \<le> length (arr_data a)" using assms(1) by (simp add: array_ok_def)
  obtain pos where pos: "bisect greaterThan key k (arr_data a) 0 (arr_count a) = Some (pos, pos)"
      "default_order.lower_bound key k (elems a) pos"
    using default_order.bisect_all [OF asc len assms(4), of k] by (auto simp: elems_def)
  have "k \<in> key ` set (elems a) \<longleftrightarrow> pos \<noteq> length (elems a) \<and> \<not> greaterThan (key (elems a ! pos)) k"
    using default_order.lower_bound_found [OF asc [folded elems_def] pos(2)]
    by (force simp: greaterThan_def not_less)
  moreover have "elems a ! pos = arr_data a ! pos" if "pos \<noteq> length (elems a)"
    using that pos(2) elems_nth [OF assms(1)] length_elems [OF assms(1)]
    by (simp add: default_order.lower_bound_def)
  ultimately show ?thesis
    using pos assms(2) length_elems [OF assms(1)] by (auto simp: sorted_array_find_def)
qed

lemma sorted_array_add_correct:
  assumes "array_ok a" and "mem_ok mem" and "in_order a" and "sortMode a = FB_ARRAY_SORT_WHEN_ADD"
    and "sorted (map key (elems a))" and "arr_count a < max_elements (arr_sizeof a)"
  shows "\<exists>pos a'. sorted_array_add greaterThan key mem x a = Some (pos, a') \<and> array_ok a' \<and> in_order a' \<and>
     sortMode a' = FB_ARRAY_SORT_WHEN_ADD \<and> sorted (map key (elems a')) \<and>
     mset (elems a') = add_mset x (mset (elems a)) \<and> elems a' ! pos = x \<and> pos < length (elems a') \<and> arr_sizeof a' = arr_sizeof a"
proof -
  have count: "arr_count a \<le> 2 ^ 31"
    using max_elements_le [of "arr_count a" "arr_sizeof a"] assms(6) by (simp add: FB_MAX_SIZEOF_def)
  obtain pos where pos: "sorted_array_find greaterThan key (key x) a = Some (key x \<in> key ` set (elems a), pos)"
      "default_order.lower_bound key (key x) (elems a) pos"
    using sorted_array_find_correct [of a key "key x"] assms count by auto
  obtain a' where a': "array_insert mem pos x a = Some a'" "array_ok a' \<and> mem_ok mem"
      "default_order.ascending key (elems a')" "mset (elems a') = add_mset x (mset (elems a))"
      "elems a' ! pos = x" "pos < length (elems a')"
    using sorted_arrays.insert_sorted [of a mem key x pos] assms pos(2) by (auto simp: default_ascending)
  moreover have "in_order a' = in_order a \<and> sortMode a' = sortMode a \<and> arr_sizeof a' = arr_sizeof a"
    using a'(1) by (auto simp: array_insert_def ensureCapacity_def Let_def fb_assert_def bind_eq_Some_conv
        split: if_splits)
  ultimately show ?thesis
    using pos(1) assms(3,4) by (auto simp: sorted_array_add_def default_ascending)
qed

fun sorted_array_adds ::
  "('k \<Rightarrow> 'k \<Rightarrow> bool) \<Rightarrow> ('v \<Rightarrow> 'k) \<Rightarrow> (nat \<Rightarrow> 'v list) \<Rightarrow> 'v list \<Rightarrow> 'v SortedArray \<Rightarrow> 'v SortedArray option" where
  "sorted_array_adds gt key mem [] a = Some a"
| "sorted_array_adds gt key mem (x # xs) a =
     do { (pos, a) \<leftarrow> sorted_array_add gt key mem x a; sorted_array_adds gt key mem xs a }"

lemma sorted_array_adds_correct:
  assumes "mem_ok mem"
  shows "array_ok a \<Longrightarrow> in_order a \<Longrightarrow> sortMode a = FB_ARRAY_SORT_WHEN_ADD \<Longrightarrow> sorted (map key (elems a)) \<Longrightarrow>
     arr_count a + length xs \<le> max_elements (arr_sizeof a) \<Longrightarrow>
     \<exists>a'. sorted_array_adds greaterThan key mem xs a = Some a' \<and> array_ok a' \<and> in_order a' \<and>
       sorted (map key (elems a')) \<and> mset (elems a') = mset xs + mset (elems a)"
proof (induction xs arbitrary: a)
  case (Cons x xs)
  obtain pos a' where a': "sorted_array_add greaterThan key mem x a = Some (pos, a')" "array_ok a'" "in_order a'"
      "sortMode a' = FB_ARRAY_SORT_WHEN_ADD" "sorted (map key (elems a'))" "mset (elems a') = add_mset x (mset (elems a))"
      "arr_sizeof a' = arr_sizeof a"
    using sorted_array_add_correct [of a mem key x] Cons.prems assms by auto
  have "arr_count a' = arr_count a + 1"
    using arg_cong [OF a'(6), of size] length_elems [OF a'(2)] length_elems [OF Cons.prems(1)] by simp
  then show ?case using Cons.IH [OF a'(2-5)] a'(1,6,7) Cons.prems(5) by auto
qed auto

text \<open>
  C32. A sorted array filled with \<open>add\<close> holds the added values in the order of their keys, and
  \<open>find\<close> tells whether a key is there and gives the position before which all keys are smaller
  and from which on none is. With elements of \<open>elem_size\<close> bytes it may have \<open>(2^32 - 1) div elem_size div 2\<close> of
  them, as the array; the sum of the bounds of the bisection then fits its unsigned type.
\<close>

theorem sorted_array_correct:
  fixes key :: "'v \<Rightarrow> 'k::linorder"
  assumes "mem_ok mem" and "storage \<le> FB_MAX_SIZEOF" and "0 < elem_size" and "length xs \<le> max_elements elem_size"
  shows "\<exists>a. sorted_array_adds greaterThan key mem xs (sorted_array_new mem elem_size storage) = Some a \<and>
     mset (elems a) = mset xs \<and> sorted (map key (elems a)) \<and>
     (\<forall>k. \<exists>pos. sorted_array_find greaterThan key k a = Some (k \<in> key ` set xs, pos) \<and> pos \<le> length xs \<and>
        (\<forall>i < pos. key (elems a ! i) < k) \<and> (\<forall>i. pos \<le> i \<and> i < length xs \<longrightarrow> k \<le> key (elems a ! i)))"
proof -
  have "array_ok (sorted_array_new mem elem_size storage)" "elems (sorted_array_new mem elem_size storage) = []"
    using assms(1-3) by (simp_all add: sorted_array_new_def array_ok_def elems_def mem_ok_def)
  then obtain a where a: "sorted_array_adds greaterThan key mem xs (sorted_array_new mem elem_size storage) = Some a" "array_ok a"
      "in_order a" "sorted (map key (elems a))" "mset (elems a) = mset xs"
    using sorted_array_adds_correct [OF assms(1), of "sorted_array_new mem elem_size storage" key xs] assms(4)
    by (auto simp: sorted_array_new_def)
  have len: "length (elems a) = length xs" "set (elems a) = set xs"
    using arg_cong [OF a(5), of size] arg_cong [OF a(5), of set_mset] by simp_all
  have "\<exists>pos. sorted_array_find greaterThan key k a = Some (k \<in> key ` set xs, pos) \<and> pos \<le> length xs \<and>
      (\<forall>i < pos. key (elems a ! i) < k) \<and> (\<forall>i. pos \<le> i \<and> i < length xs \<longrightarrow> k \<le> key (elems a ! i))" for k
    using sorted_array_find_correct [OF a(2,3,4), of k] max_elements_le [OF assms(4)] len length_elems [OF a(2)]
    by (simp add: default_lower_bound FB_MAX_SIZEOF_def)
  then show ?thesis using a(1,4,5) by blast
qed

theorem sorted_array_correct_witness:
  "\<exists>a. sorted_array_adds greaterThan snd (\<lambda>n. replicate n (0, 0)) [(1, 5), (2, 3), (3, 5)] (sorted_array_new (\<lambda>n. replicate n (0, 0)) 16 1) = Some a \<and>
     mset (elems a) = mset [(1 :: nat, 5), (2, 3), (3, 5)] \<and> sorted (map snd (elems a)) \<and>
     (\<forall>k. \<exists>pos. sorted_array_find greaterThan snd k a = Some (k \<in> snd ` set [(1 :: nat, 5 :: nat), (2, 3), (3, 5)], pos) \<and>
        pos \<le> length [(1 :: nat, 5 :: nat), (2, 3), (3, 5)] \<and>
        (\<forall>i < pos. snd (elems a ! i) < k) \<and>
        (\<forall>i. pos \<le> i \<and> i < length [(1 :: nat, 5 :: nat), (2, 3), (3, 5)] \<longrightarrow> k \<le> snd (elems a ! i)))"
  by (rule sorted_array_correct) (simp_all add: mem_ok_def FB_MAX_SIZEOF_def max_elements_def)

fun sorted_vector_adds :: "('k \<Rightarrow> 'k \<Rightarrow> bool) \<Rightarrow> ('v \<Rightarrow> 'k) \<Rightarrow> 'v list \<Rightarrow> 'v Vector \<Rightarrow> 'v Vector option" where
  "sorted_vector_adds gt key [] v = Some v"
| "sorted_vector_adds gt key (x # xs) v =
     do { (pos, v) \<leftarrow> sorted_vector_add gt key x v; sorted_vector_adds gt key xs v }"

lemma sorted_vector_find_correct:
  assumes "vector_ok v" and "sorted (map key (vec_elems v))" and "vec_count v \<le> 2 ^ 31"
  shows "\<exists>pos. sorted_vector_find greaterThan key k v = Some (k \<in> key ` set (vec_elems v), pos) \<and>
     default_order.lower_bound key k (vec_elems v) pos"
proof -
  have asc: "default_order.ascending key (take (vec_count v) (vec_data v))"
    using assms(2) by (simp add: default_ascending vec_elems_def)
  have len: "vec_count v \<le> length (vec_data v)" "length (vec_elems v) = vec_count v"
    using assms(1) by (simp_all add: vector_ok_def vec_elems_def)
  obtain pos where pos: "bisect greaterThan key k (vec_data v) 0 (vec_count v) = Some (pos, pos)"
      "default_order.lower_bound key k (vec_elems v) pos"
    using default_order.bisect_all [OF asc len(1) assms(3), of k] by (auto simp: vec_elems_def)
  have "k \<in> key ` set (vec_elems v) \<longleftrightarrow> pos \<noteq> length (vec_elems v) \<and> \<not> greaterThan (key (vec_elems v ! pos)) k"
    using default_order.lower_bound_found [OF asc [folded vec_elems_def] pos(2)]
    by (force simp: greaterThan_def not_less)
  moreover have "vec_elems v ! pos = vec_data v ! pos" if "pos \<noteq> length (vec_elems v)"
    using that pos(2) len by (simp add: default_order.lower_bound_def vec_elems_def)
  ultimately show ?thesis using pos len(2) by (auto simp: sorted_vector_find_def)
qed

lemma vector_insert_capacity:
  "vector_insert i x v = Some v' \<Longrightarrow> length (vec_data v') = length (vec_data v) \<and> vec_count v' = vec_count v + 1"
  by (auto simp: vector_insert_def mem_write_def mem_read_def fb_assert_def bind_eq_Some_conv split: if_splits)

lemma sorted_vector_adds_correct:
  "vector_ok v \<Longrightarrow> sorted (map key (vec_elems v)) \<Longrightarrow> vec_count v + length xs \<le> length (vec_data v) \<Longrightarrow>
     length (vec_data v) \<le> 2 ^ 31 \<Longrightarrow>
     \<exists>v'. sorted_vector_adds greaterThan key xs v = Some v' \<and> vector_ok v' \<and> sorted (map key (vec_elems v')) \<and>
       mset (vec_elems v') = mset xs + mset (vec_elems v) \<and> length (vec_data v') = length (vec_data v)"
proof (induction xs arbitrary: v)
  case (Cons x xs)
  obtain pos where pos: "sorted_vector_find greaterThan key (key x) v = Some (key x \<in> key ` set (vec_elems v), pos)"
      "default_order.lower_bound key (key x) (vec_elems v) pos"
    using sorted_vector_find_correct [of v key "key x"] Cons.prems by auto
  obtain v' where v': "vector_insert pos x v = Some v'" "vector_ok v'" "default_order.ascending key (vec_elems v')"
      "mset (vec_elems v') = add_mset x (mset (vec_elems v))"
    using sorted_vectors.insert_sorted [of v key x pos] Cons.prems pos(2) by (auto simp: default_ascending)
  note cap = vector_insert_capacity [OF v'(1)]
  show ?case
    using Cons.IH [of v'] v' cap Cons.prems(3,4) pos(1) by (auto simp: default_ascending sorted_vector_add_def)
qed simp

text \<open>
  A sorted vector keeps what is added, up to its capacity, in the order of the keys, and
  \<open>find\<close> is exact.
\<close>

theorem sorted_vector_correct:
  fixes key :: "'v \<Rightarrow> 'k::linorder"
  assumes "length xs \<le> length d" and "length d \<le> 2 ^ 31"
  shows "\<exists>v. sorted_vector_adds greaterThan key xs \<lparr>vec_count = 0, vec_data = d\<rparr> = Some v \<and>
     mset (vec_elems v) = mset xs \<and> sorted (map key (vec_elems v)) \<and>
     (\<forall>k. map_option fst (sorted_vector_find greaterThan key k v) = Some (k \<in> key ` set xs))"
proof -
  obtain v where v: "sorted_vector_adds greaterThan key xs \<lparr>vec_count = 0, vec_data = d\<rparr> = Some v" "vector_ok v"
      "sorted (map key (vec_elems v))" "mset (vec_elems v) = mset xs" "length (vec_data v) = length d"
    using sorted_vector_adds_correct [of "\<lparr>vec_count = 0, vec_data = d\<rparr>" key xs] assms
    by (auto simp: vector_ok_def vec_elems_def)
  have "set (vec_elems v) = set xs" using arg_cong [OF v(4), of set_mset] by simp
  moreover have "vec_count v \<le> 2 ^ 31" using v(2,5) assms(2) by (simp add: vector_ok_def)
  ultimately have "map_option fst (sorted_vector_find greaterThan key k v) = Some (k \<in> key ` set xs)" for k
    using sorted_vector_find_correct [OF v(2,3), of k] by auto
  then show ?thesis using v by blast
qed

theorem sorted_vector_correct_witness:
  "\<exists>v. sorted_vector_adds greaterThan DefaultKeyValue [7, 2, 5] \<lparr>vec_count = 0, vec_data = [0, 0, 0, 0]\<rparr> = Some v \<and>
     mset (vec_elems v) = mset [7, 2, 5] \<and> sorted (map DefaultKeyValue (vec_elems v)) \<and>
     (\<forall>k. map_option fst (sorted_vector_find greaterThan DefaultKeyValue k v) = Some (k \<in> DefaultKeyValue ` set [7, 2, 5 :: nat]))"
  by (rule sorted_vector_correct) simp_all

section \<open>Sorting on demand\<close>

text \<open>
  What the C library documents of \<open>qsort\<close>: it permutes the elements, and for a comparison
  that is a total preorder they end in ascending order.
\<close>

definition consistent_comparison :: "('v \<Rightarrow> 'v \<Rightarrow> int) \<Rightarrow> bool" where
  "consistent_comparison cmp \<longleftrightarrow>
     (\<forall>a b. cmp a b \<le> 0 \<or> cmp b a \<le> 0) \<and> (\<forall>a b c. cmp a b \<le> 0 \<longrightarrow> cmp b c \<le> 0 \<longrightarrow> cmp a c \<le> 0)"

definition qsort_contract :: "(('v \<Rightarrow> 'v \<Rightarrow> int) \<Rightarrow> 'v list \<Rightarrow> 'v list) \<Rightarrow> bool" where
  "qsort_contract qsort \<longleftrightarrow> (\<forall>cmp xs. mset (qsort cmp xs) = mset xs \<and>
     (consistent_comparison cmp \<longrightarrow> sorted_wrt (\<lambda>a b. cmp a b \<le> 0) (qsort cmp xs)))"

lemma sort_compare_le: "sort_compare greaterThan key a b \<le> 0 \<longleftrightarrow> key a \<le> key b"
  by (auto simp: sort_compare_def greaterThan_def)

lemma sort_compare_consistent: "consistent_comparison (sort_compare greaterThan key)"
  by (auto simp: consistent_comparison_def sort_compare_le)

lemma manual_adds_correct:
  assumes "mem_ok mem"
  shows "array_ok a \<Longrightarrow> sortMode a = FB_ARRAY_SORT_MANUAL \<Longrightarrow> arr_count a + length xs \<le> max_elements (arr_sizeof a) \<Longrightarrow>
     \<exists>a'. sorted_array_adds gt key mem xs a = Some a' \<and> array_ok a' \<and> elems a' = elems a @ xs \<and>
       sortMode a' = FB_ARRAY_SORT_MANUAL \<and> (xs \<noteq> [] \<longrightarrow> \<not> in_order a')  \<and> (\<not> in_order a \<longrightarrow> \<not> in_order a')"
proof (induction xs arbitrary: a)
  case (Cons x xs)
  define a1 where "a1 = a\<lparr>in_order := False\<rparr>"
  have ok: "array_ok a1" "elems a1 = elems a" "arr_count a1 = arr_count a" "arr_sizeof a1 = arr_sizeof a"
    using Cons.prems(1) by (simp_all add: a1_def array_ok_def elems_def)
  obtain a' where a': "array_insert mem (arr_count a) x a1 = Some a'" "array_ok a'" "elems a' = elems a @ [x]"
    using array_insert_correct [OF ok(1) assms, of "arr_count a" x] Cons.prems(3) ok length_elems [OF ok(1)]
    by (auto simp: refines_list_def)
  have f: "in_order a' = False \<and> sortMode a' = FB_ARRAY_SORT_MANUAL \<and> arr_count a' = arr_count a + 1 \<and> arr_sizeof a' = arr_sizeof a"
    using a'(1) Cons.prems(2)
    by (auto simp: a1_def array_insert_def ensureCapacity_def Let_def fb_assert_def bind_eq_Some_conv split: if_splits)
  have "sorted_array_add gt key mem x a = Some (arr_count a, a')"
    using a'(1) Cons.prems(2)
    by (simp add: sorted_array_add_def a1_def FB_ARRAY_SORT_MANUAL_def FB_ARRAY_SORT_WHEN_ADD_def)
  then show ?case using Cons.IH [OF a'(2)] f Cons.prems(3) a'(3) by auto
qed simp

text \<open>
  In manual mode \<open>add\<close> appends; switching to sorting on \<open>add\<close> then puts what was added in the
  order of the keys, so that \<open>find\<close> is exact again.
\<close>

theorem setSortMode_sorts:
  fixes key :: "'v \<Rightarrow> 'k::linorder"
  assumes "mem_ok mem" and "storage \<le> FB_MAX_SIZEOF" and "0 < elem_size" and "length xs \<le> max_elements elem_size"
    and "qsort_contract qsort"
  shows "\<exists>a b. sorted_array_adds greaterThan key mem xs
       (setSortMode qsort greaterThan key FB_ARRAY_SORT_MANUAL (sorted_array_new mem elem_size storage)) = Some a \<and>
     elems a = xs \<and> b = setSortMode qsort greaterThan key FB_ARRAY_SORT_WHEN_ADD a \<and>
     mset (elems b) = mset xs \<and> sorted (map key (elems b)) \<and>
     (\<forall>k. map_option fst (sorted_array_find greaterThan key k b) = Some (k \<in> key ` set xs))"
proof -
  define a0 where "a0 = setSortMode qsort greaterThan key FB_ARRAY_SORT_MANUAL (sorted_array_new mem elem_size storage)"
  have a0: "array_ok a0" "sortMode a0 = FB_ARRAY_SORT_MANUAL" "elems a0 = []" "arr_count a0 = 0" "in_order a0"
    "arr_sizeof a0 = elem_size" using assms(1-3) by (simp_all add: a0_def setSortMode_def sorted_array_new_def array_ok_def elems_def mem_ok_def)
  obtain a where a: "sorted_array_adds greaterThan key mem xs a0 = Some a" "array_ok a" "elems a = xs"
      "sortMode a = FB_ARRAY_SORT_MANUAL" "xs \<noteq> [] \<Longrightarrow> \<not> in_order a"
    using manual_adds_correct [OF assms(1) a0(1,2), of xs greaterThan key] a0(3,4,6) assms(4) by auto
  have in_order: "in_order a" if "xs = []" using that a(1) a0(5) by simp
  define b where "b = setSortMode qsort greaterThan key FB_ARRAY_SORT_WHEN_ADD a"
  define ys where "ys = (if xs = [] then [] else qsort (sort_compare greaterThan key) xs)"
  have q: "mset (qsort (sort_compare greaterThan key) xs) = mset xs"
    "sorted_wrt (\<lambda>x y. sort_compare greaterThan key x y \<le> 0) (qsort (sort_compare greaterThan key) xs)"
    using assms(5) sort_compare_consistent unfolding qsort_contract_def by blast+
  have ys: "mset ys = mset xs" "sorted (map key ys)"
    using q by (auto simp: ys_def sort_compare_le sorted_map)
  have len: "length ys = arr_count a" "arr_count a \<le> length (arr_data a)" "length xs = arr_count a"
    using arg_cong [OF ys(1), of size] length_elems [OF a(2)] a(2,3) by (auto simp: array_ok_def)
  have "array_ok b \<and> in_order b \<and> elems b = ys \<and> arr_count b = arr_count a"
  proof (cases "xs = []")
    case True
    then show ?thesis
      using a(2,3) in_order by (simp add: b_def setSortMode_def ys_def array_ok_def elems_def)
  next
    case False
    have "length (qsort (sort_compare greaterThan key) xs) = arr_count a"
      using arg_cong [OF q(1), of size] len(3) by simp
    then show ?thesis
      using False a(2-5) len
      by (simp add: b_def setSortMode_def sorted_array_sort_def ys_def array_ok_def elems_def
          FB_ARRAY_SORT_MANUAL_def FB_ARRAY_SORT_WHEN_ADD_def)
  qed
  moreover have "set ys = set xs" using arg_cong [OF ys(1), of set_mset] by simp
  ultimately have "map_option fst (sorted_array_find greaterThan key k b) = Some (k \<in> key ` set xs)" for k
    using sorted_array_find_correct [of b key k] ys(2) len max_elements_le [OF assms(4)] by (auto simp: FB_MAX_SIZEOF_def)
  then show ?thesis
    using a(1,3) ys \<open>array_ok b \<and> _\<close> unfolding a0_def b_def by auto
qed

text \<open>An insertion sort is a \<open>qsort\<close> as documented.\<close>

fun insert_by :: "('v \<Rightarrow> 'v \<Rightarrow> int) \<Rightarrow> 'v \<Rightarrow> 'v list \<Rightarrow> 'v list" where
  "insert_by cmp x [] = [x]"
| "insert_by cmp x (y # ys) = (if cmp x y \<le> 0 then x # y # ys else y # insert_by cmp x ys)"

lemma mset_insert_by [simp]: "mset (insert_by cmp x xs) = add_mset x (mset xs)"
  by (induction xs) auto

lemma set_insert_by [simp]: "set (insert_by cmp x xs) = insert x (set xs)"
  by (induction xs) auto

lemma sorted_insert_by:
  assumes "consistent_comparison cmp"
  shows "sorted_wrt (\<lambda>a b. cmp a b \<le> 0) xs \<Longrightarrow> sorted_wrt (\<lambda>a b. cmp a b \<le> 0) (insert_by cmp x xs)"
proof (induction xs)
  case (Cons y ys)
  have total: "cmp y x \<le> 0" if "\<not> cmp x y \<le> 0" using assms that unfolding consistent_comparison_def by blast
  have trans: "cmp x z \<le> 0" if "cmp x y \<le> 0" "cmp y z \<le> 0" for z
    using assms that unfolding consistent_comparison_def by blast
  show ?case using Cons total trans by auto
qed simp

lemma insertion_sort_contract:
  "qsort_contract (\<lambda>cmp xs. foldr (insert_by cmp) xs [] :: 'v list)"
proof -
  have "mset (foldr (insert_by cmp) xs []) = mset xs" for cmp :: "'v \<Rightarrow> 'v \<Rightarrow> int" and xs
    by (induction xs) auto
  moreover have "sorted_wrt (\<lambda>a b. cmp a b \<le> 0) (foldr (insert_by cmp) xs [])" if "consistent_comparison cmp"
    for cmp :: "'v \<Rightarrow> 'v \<Rightarrow> int" and xs
    by (induction xs) (auto intro: sorted_insert_by [OF that])
  ultimately show ?thesis by (simp add: qsort_contract_def)
qed

theorem setSortMode_sorts_witness:
  "\<exists>a b. sorted_array_adds greaterThan DefaultKeyValue (\<lambda>n. replicate n 0) [3, 1, 2]
       (setSortMode (\<lambda>cmp xs. foldr (insert_by cmp) xs []) greaterThan DefaultKeyValue FB_ARRAY_SORT_MANUAL
         (sorted_array_new (\<lambda>n. replicate n 0) 8 2)) = Some a \<and>
     elems a = [3, 1, 2] \<and>
     b = setSortMode (\<lambda>cmp xs. foldr (insert_by cmp) xs []) greaterThan DefaultKeyValue FB_ARRAY_SORT_WHEN_ADD a \<and>
     mset (elems b) = mset [3, 1, 2] \<and> sorted (map DefaultKeyValue (elems b)) \<and>
     (\<forall>k. map_option fst (sorted_array_find greaterThan DefaultKeyValue k b) = Some (k \<in> DefaultKeyValue ` set [3, 1, 2 :: nat]))"
  by (rule setSortMode_sorts) (simp_all add: mem_ok_def FB_MAX_SIZEOF_def max_elements_def insertion_sort_contract)

end
