(* ===== verification/FB_Similar.thy ===== *)
theory FB_Similar
  imports FB_Prelude
begin

text \<open>
  The regular expression matcher \<^verbatim>\<open>SimilarToMatcher\<close> (\<^verbatim>\<open>src/jrd/SimilarToMatcher.h\<close>): the
  recursive-descent compiler of a pattern into an array of nodes with relative jumps, and the
  backtracking machine that runs them with an explicit stack. A position of the pattern is the
  list of the characters from it on; a character of the pattern or of the value is its
  canonical form together with the bytes of the original character. The character set and
  collation services the code calls are the fields of \<open>similar_env\<close>.
\<close>

section \<open>Environment\<close>

datatype canonical_char =
    CHAR_ASTERISK | CHAR_AT | CHAR_CIRCUMFLEX | CHAR_COLON | CHAR_COMMA | CHAR_EQUAL | CHAR_MINUS | CHAR_PERCENT
  | CHAR_PLUS | CHAR_QUESTION_MARK | CHAR_SPACE | CHAR_TILDE | CHAR_UNDERLINE | CHAR_VERTICAL_BAR | CHAR_DOUBLE_QUOTE
  | CHAR_OPEN_BRACE | CHAR_CLOSE_BRACE | CHAR_OPEN_BRACKET | CHAR_CLOSE_BRACKET | CHAR_OPEN_PAREN | CHAR_CLOSE_PAREN
  | CHAR_LOWER_S | CHAR_UPPER_S

datatype canonical_class = UpperLetters | LowerLetters | Numbers | Space | WhiteSpaces

record 'c similar_env =
  canonicalChar :: "canonical_char \<Rightarrow> 'c"
  escapeChar :: 'c
  useEscape :: bool
  firstChar :: "UCHAR list \<Rightarrow> UCHAR list"
  toUnicode :: "UCHAR list \<Rightarrow> nat"
  upperUtf16 :: "UCHAR list \<Rightarrow> nat list"
  classChars :: "canonical_class \<Rightarrow> 'c list"
  collate :: "UCHAR list \<Rightarrow> UCHAR list \<Rightarrow> int"

type_synonym 'c similar_char = "'c \<times> UCHAR list"

abbreviation canon :: "'c similar_char \<Rightarrow> 'c" where "canon \<equiv> fst"

abbreviation orig :: "'c similar_char \<Rightarrow> UCHAR list" where "orig \<equiv> snd"

datatype similar_error = ISC_INVALID_SIMILAR_PATTERN | SIMILAR_ESCAPE_INVALID | READ_PAST_END | OUT_OF_FUEL

section \<open>Nodes\<close>

datatype similar_op =
    opBranch | opStart | opEnd | opRef | opRepeatingRefStart | opRepeatingRefEnd | opNothing
  | opAny | opAnyOf | opExactly | opExactlyOne | opRet | opRepeatingRestore

text \<open>
  \<open>n_str\<close> and \<open>n_str3\<close> are the \<open>n_len\<close> and \<open>len3\<close> characters the fields point to; \<open>n_str2\<close> and \<open>n_str4\<close> are
  buffers of ranges, here the list of their bounds. \<open>n_len\<close> is the count of a repetition.
\<close>

record 'c similar_node =
  n_op :: similar_op
  n_str :: "'c list"
  n_str2 :: "(UCHAR list \<times> UCHAR list) list"
  n_str3 :: "'c list"
  n_str4 :: "(UCHAR list \<times> UCHAR list) list"
  n_len :: int
  n_ref :: int
  n_branchNum :: int

definition node_str :: "similar_op \<Rightarrow> 'c list \<Rightarrow> 'c similar_node" where
  "node_str aOp aStr = \<lparr>n_op = aOp, n_str = aStr, n_str2 = [], n_str3 = aStr, n_str4 = [], n_len = int (length aStr), n_ref = 0, n_branchNum = -1\<rparr>"

definition node_rep :: "similar_op \<Rightarrow> int \<Rightarrow> int \<Rightarrow> 'c similar_node" where
  "node_rep aOp aLen1 aRef = \<lparr>n_op = aOp, n_str = [], n_str2 = [], n_str3 = [], n_str4 = [], n_len = aLen1, n_ref = aRef, n_branchNum = -1\<rparr>"

definition node_ref :: "similar_op \<Rightarrow> int \<Rightarrow> 'c similar_node" where
  "node_ref aOp aRef = \<lparr>n_op = aOp, n_str = [], n_str2 = [], n_str3 = [], n_str4 = [], n_len = 0, n_ref = aRef, n_branchNum = -1\<rparr>"

abbreviation node :: "similar_op \<Rightarrow> 'c similar_node" where "node aOp \<equiv> node_str aOp []"

section \<open>Parsing\<close>

text \<open>The two flags of a parsed piece: \<open>FLAG_NOT_EMPTY\<close> and \<open>FLAG_EXACTLY\<close>.\<close>

record similar_flags =
  not_empty :: bool
  exactly :: bool

definition no_flags :: similar_flags where
  "no_flags = \<lparr>not_empty = False, exactly = False\<rparr>"

record 'c parse_state =
  patternPos :: "'c similar_char list"
  nodes :: "'c similar_node list"
  branch_count :: nat

text \<open>\<^verbatim>\<open>patternPos < patternEnd && *patternPos == canonicalChar(m)\<close>\<close>

definition at_char :: "'c similar_env \<Rightarrow> canonical_char \<Rightarrow> 'c similar_char list \<Rightarrow> bool" where
  "at_char E m ps \<longleftrightarrow> (case ps of [] \<Rightarrow> False | c # _ \<Rightarrow> canon c = canonicalChar E m)"

definition at_escape :: "'c similar_env \<Rightarrow> 'c similar_char list \<Rightarrow> bool" where
  "at_escape E ps \<longleftrightarrow> (case ps of [] \<Rightarrow> False | c # _ \<Rightarrow> useEscape E \<and> canon c = escapeChar E)"

definition isRep :: "'c similar_env \<Rightarrow> 'c \<Rightarrow> bool" where
  "isRep E c \<longleftrightarrow> c = canonicalChar E CHAR_ASTERISK \<or> c = canonicalChar E CHAR_PLUS \<or>
     c = canonicalChar E CHAR_QUESTION_MARK \<or> c = canonicalChar E CHAR_OPEN_BRACE"

fun notInSet :: "'c list \<Rightarrow> 'c list \<Rightarrow> nat" where
  "notInSet [] charset = 0"
| "notInSet (c # cs) charset = (if c \<in> set charset then 0 else Suc (notInSet cs charset))"

definition metaCharacters :: "'c similar_env \<Rightarrow> 'c list" where
  "metaCharacters E =
     map (canonicalChar E)
       [CHAR_CIRCUMFLEX, CHAR_MINUS, CHAR_UNDERLINE, CHAR_PERCENT, CHAR_OPEN_BRACKET, CHAR_CLOSE_BRACKET,
        CHAR_OPEN_PAREN, CHAR_CLOSE_PAREN, CHAR_OPEN_BRACE, CHAR_CLOSE_BRACE, CHAR_VERTICAL_BAR,
        CHAR_QUESTION_MARK, CHAR_PLUS, CHAR_ASTERISK] @
     [if useEscape E then escapeChar E else canonicalChar E CHAR_ASTERISK]"

text \<open>The check after an escape character; \<open>ps\<close> starts with the escaped character.\<close>

definition check_escaped :: "'c similar_env \<Rightarrow> 'c similar_char list \<Rightarrow> similar_error + unit" where
  "check_escaped E ps =
     (case ps of
        [] \<Rightarrow> Inl SIMILAR_ESCAPE_INVALID
      | c # _ \<Rightarrow>
          if canon c \<noteq> escapeChar E \<and> notInSet [canon c] (metaCharacters E) \<noteq> 0
          then Inl SIMILAR_ESCAPE_INVALID else Inr ())"

subsection \<open>Character sets\<close>

definition char_classes :: "(canonical_class list \<times> string) list" where
  "char_classes =
     [([UpperLetters, LowerLetters, Numbers], ''ALNUM''), ([UpperLetters, LowerLetters], ''ALPHA''),
      ([Numbers], ''DIGIT''), ([LowerLetters], ''LOWER''), ([Space], ''SPACE''), ([UpperLetters], ''UPPER''),
      ([WhiteSpaces], ''WHITESPACE'')]"

fun find_class :: "nat list \<Rightarrow> (canonical_class list \<times> string) list \<Rightarrow> canonical_class list option" where
  "find_class name [] = None"
| "find_class name ((funcs, s) # cls) = (if name = map of_char s then Some funcs else find_class name cls)"

text \<open>\<open>ps\<close> starts after the bracket that opens a class name.\<close>

definition parse_class :: "'c similar_env \<Rightarrow> 'c similar_char list \<Rightarrow> similar_error + ('c list \<times> 'c similar_char list)" where
  "parse_class E ps =
     (if \<not> at_char E CHAR_COLON ps then Inl ISC_INVALID_SIMILAR_PATTERN
      else
        let start = tl ps;
            name = takeWhile (\<lambda>c. canon c \<noteq> canonicalChar E CHAR_COLON) start;
            rest = dropWhile (\<lambda>c. canon c \<noteq> canonicalChar E CHAR_COLON) start
        in if rest = [] \<or> \<not> at_char E CHAR_CLOSE_BRACKET (tl rest) then Inl ISC_INVALID_SIMILAR_PATTERN
           else
             (case find_class (upperUtf16 E (concat (map orig name))) char_classes of
                None \<Rightarrow> Inl ISC_INVALID_SIMILAR_PATTERN
              | Some funcs \<Rightarrow> Inr (concat (map (classChars E) funcs), tl (tl rest))))"

text \<open>
  The loop over the contents of a bracket expression. \<open>set_but\<close> says that a circumflex was seen: the
  node then already holds the characters before it, and the buffers those after it.
\<close>

record 'c set_state =
  set_node :: "'c similar_node"
  set_but :: bool
  charsBuffer :: "'c list"
  rangeBuffer :: "(UCHAR list \<times> UCHAR list) list"

definition store_set :: "'c set_state \<Rightarrow> 'c similar_node" where
  "store_set s =
     (if set_but s then (set_node s)\<lparr>n_str3 := charsBuffer s, n_str4 := rangeBuffer s\<rparr>
      else (set_node s)\<lparr>n_str := charsBuffer s, n_str2 := rangeBuffer s\<rparr>)"

text \<open>One character or a is_range of them; \<open>ps\<close> starts with the first character.\<close>

definition parse_set_char ::
  "'c similar_env \<Rightarrow> bool \<Rightarrow> 'c similar_char list \<Rightarrow> 'c set_state \<Rightarrow> similar_error + ('c similar_char list \<times> 'c set_state)" where
  "parse_set_char E is_range ps s =
     (case ps of
        [] \<Rightarrow> Inl READ_PAST_END
      | c # ps1 \<Rightarrow>
          let s1 = s\<lparr>charsBuffer := charsBuffer s @ [canon c]\<rparr>
          in if \<not> is_range then Inr (ps1, s1)
             else
               let ps2 = tl ps1
               in if ps2 = [] then Inl ISC_INVALID_SIMILAR_PATTERN
                  else
                    (case (if at_escape E ps2 then map_sum id (\<lambda>_. tl ps2) (check_escaped E (tl ps2)) else Inr ps2) of
                       Inl e \<Rightarrow> Inl e
                     | Inr ps3 \<Rightarrow>
                         (case ps3 of
                            [] \<Rightarrow> Inl READ_PAST_END
                          | d # ps4 \<Rightarrow>
                              Inr (ps4, s1\<lparr>charsBuffer := charsBuffer s1 @ [canon d],
                                            rangeBuffer := rangeBuffer s1 @ [(orig c, orig d)]\<rparr>))))"

fun set_loop ::
  "'c similar_env \<Rightarrow> nat \<Rightarrow> 'c similar_char list \<Rightarrow> 'c set_state \<Rightarrow> similar_error + ('c similar_char list \<times> 'c set_state)" where
  "set_loop E 0 ps s = Inl OUT_OF_FUEL"
| "set_loop E (Suc n) ps s =
     (if ps = [] then Inl ISC_INVALID_SIMILAR_PATTERN
      else if \<not> at_escape E ps \<and> at_char E CHAR_CIRCUMFLEX ps then
        (if set_but s then Inl ISC_INVALID_SIMILAR_PATTERN
         else
           let s1 = \<lparr>set_node = store_set s, set_but = True, charsBuffer = [], rangeBuffer = []\<rparr>; ps1 = tl ps
           in if ps1 = [] then Inl READ_PAST_END
              else if at_char E CHAR_CLOSE_BRACKET ps1 then Inr (ps1, s1) else set_loop E n ps1 s1)
      else
        (case
           (if at_escape E ps then
              (case check_escaped E (tl ps) of
                 Inl e \<Rightarrow> Inl e
               | Inr _ \<Rightarrow> parse_set_char E (at_char E CHAR_MINUS (tl (tl ps))) (tl ps) s)
            else if at_char E CHAR_OPEN_BRACKET ps then
              (case parse_class E (tl ps) of
                 Inl e \<Rightarrow> Inl e
               | Inr (cs, ps1) \<Rightarrow> Inr (ps1, s\<lparr>charsBuffer := charsBuffer s @ cs\<rparr>))
            else parse_set_char E (at_char E CHAR_MINUS (tl ps)) ps s) of
           Inl e \<Rightarrow> Inl e
         | Inr (ps1, s1) \<Rightarrow>
             if ps1 = [] then Inl ISC_INVALID_SIMILAR_PATTERN
             else if at_char E CHAR_CLOSE_BRACKET ps1 then Inr (ps1, s1) else set_loop E n ps1 s1))"

declare set_loop.simps(2) [simp del]

text \<open>\<open>ps\<close> starts after the opening bracket; the node is stored and the closing bracket skipped.\<close>

definition parse_set ::
  "'c similar_env \<Rightarrow> 'c similar_char list \<Rightarrow> similar_error + ('c similar_char list \<times> 'c similar_node)" where
  "parse_set E ps =
     (case set_loop E (Suc (length ps)) ps \<lparr>set_node = node opAnyOf, set_but = False, charsBuffer = [], rangeBuffer = []\<rparr> of
        Inl e \<Rightarrow> Inl e
      | Inr (ps1, s) \<Rightarrow> Inr (tl ps1, store_set s))"

subsection \<open>Repetitions\<close>

definition insert_node :: "nat \<Rightarrow> 'c similar_node \<Rightarrow> 'c similar_node list \<Rightarrow> 'c similar_node list" where
  "insert_node i n ns = take i ns @ n # drop i ns"

text \<open>The last character of a string is split off, to be repeated alone.\<close>

definition split_last :: "nat \<Rightarrow> 'c similar_node list \<Rightarrow> nat \<times> 'c similar_node list" where
  "split_last atomPos ns =
     (let l = last ns
      in if n_op l = opExactly \<and> length (n_str l) > 1
         then (length ns,
               butlast ns @ [l\<lparr>n_str := butlast (n_str l), n_len := n_len l - 1\<rparr>, l\<lparr>n_op := opExactlyOne, n_str := [last (n_str l)], n_len := 1\<rparr>])
         else (atomPos, ns))"

definition add_star :: "nat \<Rightarrow> 'c similar_node list \<Rightarrow> 'c similar_node list" where
  "add_star atomPos ns =
     (let ns1 = insert_node atomPos (node_ref opBranch (int (length ns) - int atomPos + 2)) ns;
          ns2 = ns1 @ [node_ref opRef (int atomPos - int (length ns1))]
      in ns2 @ [node opBranch])"

definition add_plus :: "nat \<Rightarrow> 'c similar_node list \<Rightarrow> 'c similar_node list" where
  "add_plus atomPos ns =
     (let ns1 = ns @ [node_ref opBranch 2];
          ns2 = ns1 @ [node_ref opRef (int atomPos - int (length ns1))]
      in ns2 @ [node opBranch])"

definition add_optional :: "nat \<Rightarrow> 'c similar_node list \<Rightarrow> 'c similar_node list" where
  "add_optional atomPos ns =
     insert_node atomPos (node_ref opBranch (int (length ns) - int atomPos + 1)) ns @ [node opBranch]"

definition INT_MAX :: int where
  "INT_MAX = 2 ^ 31 - 1"

definition add_repeat :: "nat \<Rightarrow> int \<Rightarrow> int \<Rightarrow> 'c similar_node list \<Rightarrow> 'c similar_node list" where
  "add_repeat atomPos n1 n2 ns =
     (if n1 = 0 \<and> n2 = INT_MAX then add_star atomPos ns
      else
        let ns0 = (if n1 = 0 then add_optional atomPos ns else ns);
            exprPos = atomPos + 1;
            exprSize = length ns0 - exprPos + 1;
            ns1 = insert_node atomPos
                    (node_rep opRepeatingRefStart (if n1 = 0 then n2 else n1) (int (length ns0) - int atomPos + 1)) ns0;
            ns2 = ns1 @ [node_ref opRepeatingRefEnd (int atomPos - int (length ns1))];
            copy = map (\<lambda>i. ns2 ! (exprPos + i)) [0 ..< exprSize]
        in if n2 \<noteq> n1 \<and> n1 \<noteq> 0 then
             (if n2 = INT_MAX
              then ns2 @ [node_ref opBranch (int exprSize + 2)] @ copy @ [node_ref opRef (- int exprSize - 1), node opBranch]
              else ns2 @ [node_rep opRepeatingRefStart (n2 - n1) (int exprSize + 3), node_ref opBranch (int exprSize + 1)] @
                     copy @ [node opBranch, node_ref opRepeatingRefEnd (- int exprSize - 3)])
           else ns2)"

text \<open>\<^verbatim>\<open>atoi\<close> of a string of digits.\<close>

definition atoi :: "nat list \<Rightarrow> int" where
  "atoi s = foldl (\<lambda>n d. n * 10 + int (d - 48)) 0 s"

text \<open>
  The loop over the bounds of a repetition: it reads the original bytes of the pattern from
  \<open>bytes\<close> on, a character for each character of \<open>ps\<close>. The result holds the digits of the bounds and
  whether a comma was seen.
\<close>

fun brace_loop ::
  "'c similar_env \<Rightarrow> 'c similar_char list \<Rightarrow> UCHAR list \<Rightarrow> bool \<Rightarrow> nat list \<Rightarrow> nat list
     \<Rightarrow> similar_error + (nat list \<times> nat list \<times> bool \<times> 'c similar_char list)" where
  "brace_loop E [] bytes comma s1 s2 =
     (if bytes = [] then Inl ISC_INVALID_SIMILAR_PATTERN else Inl READ_PAST_END)"
| "brace_loop E (c # ps) bytes comma s1 s2 =
     (if bytes = [] then Inl ISC_INVALID_SIMILAR_PATTERN
      else
        let b = firstChar E bytes; bytes' = drop (length b) bytes
        in if canon c = canonicalChar E CHAR_CLOSE_BRACE then
             (if s1 = [] then Inl ISC_INVALID_SIMILAR_PATTERN else Inr (s1, s2, comma, c # ps))
           else if canon c = canonicalChar E CHAR_COMMA then
             (if comma then Inl ISC_INVALID_SIMILAR_PATTERN else brace_loop E ps bytes' True s1 s2)
           else
             let ch = toUnicode E b
             in if 48 \<le> ch \<and> ch \<le> 57 then
                  (if comma then brace_loop E ps bytes' comma s1 (s2 @ [ch])
                   else brace_loop E ps bytes' comma (s1 @ [ch]) s2)
                else Inl ISC_INVALID_SIMILAR_PATTERN)"

text \<open>
  \<open>ps\<close> starts after the opening brace. The byte offset is the length of the substring of as many
  characters as go before, taken from the character with index 1.
\<close>

definition parse_bounds ::
  "'c similar_env \<Rightarrow> 'c similar_char list \<Rightarrow> 'c similar_char list \<Rightarrow> similar_error + (int \<times> int \<times> 'c similar_char list)" where
  "parse_bounds E pat ps =
     (let offset = length (concat (map orig (take (length pat - length ps) (drop 1 pat))))
      in case brace_loop E ps (drop offset (concat (map orig pat))) False [] [] of
           Inl e \<Rightarrow> Inl e
         | Inr (s1, s2, comma, ps1) \<Rightarrow>
             if length s1 > 9 \<or> length s2 > 9 then Inl ISC_INVALID_SIMILAR_PATTERN
             else
               let n1 = atoi s1; n2 = (if s2 = [] then (if comma then INT_MAX else n1) else atoi s2)
               in if n2 < n1 then Inl ISC_INVALID_SIMILAR_PATTERN else Inr (n1, n2, ps1))"

text \<open>What follows the parsed primary in \<open>parseFactor\<close>; \<open>c\<close> is the repetition character.\<close>

definition parse_repetition ::
  "'c similar_env \<Rightarrow> 'c similar_char list \<Rightarrow> nat \<Rightarrow> similar_flags \<Rightarrow> 'c \<Rightarrow> 'c parse_state
     \<Rightarrow> similar_error + (similar_flags \<times> 'c parse_state)" where
  "parse_repetition E pat atomPos flags c st =
     (if \<not> not_empty flags \<and> c \<noteq> canonicalChar E CHAR_QUESTION_MARK then Inl ISC_INVALID_SIMILAR_PATTERN
      else
        let (atomPos, ns) = (if exactly flags then split_last atomPos (nodes st) else (atomPos, nodes st))
        in case
             (if c = canonicalChar E CHAR_ASTERISK then Inr (no_flags, add_star atomPos ns, patternPos st)
              else if c = canonicalChar E CHAR_PLUS then Inr (no_flags\<lparr>not_empty := True\<rparr>, add_plus atomPos ns, patternPos st)
              else if c = canonicalChar E CHAR_QUESTION_MARK then Inr (no_flags, add_optional atomPos ns, patternPos st)
              else
                (case parse_bounds E pat (tl (patternPos st)) of
                   Inl e \<Rightarrow> Inl e
                 | Inr (n1, n2, ps1) \<Rightarrow> Inr (no_flags\<lparr>not_empty := (n1 \<noteq> 0)\<rparr>, add_repeat atomPos n1 n2 ns, ps1))) of
             Inl e \<Rightarrow> Inl e
           | Inr (flags', ns', ps1) \<Rightarrow>
               let ps2 = tl ps1
               in if (case ps2 of [] \<Rightarrow> False | d # _ \<Rightarrow> isRep E (canon d)) then Inl ISC_INVALID_SIMILAR_PATTERN
                  else Inr (flags', st\<lparr>patternPos := ps2, nodes := ns'\<rparr>))"

subsection \<open>The recursive descent\<close>

definition push_node :: "'c similar_node \<Rightarrow> 'c parse_state \<Rightarrow> 'c parse_state" where
  "push_node n st = st\<lparr>nodes := nodes st @ [n]\<rparr>"

definition set_ref :: "nat \<Rightarrow> int \<Rightarrow> 'c parse_state \<Rightarrow> 'c parse_state" where
  "set_ref i r st = st\<lparr>nodes := (nodes st)[i := (nodes st ! i)\<lparr>n_ref := r\<rparr>]\<rparr>"

text \<open>
  The mutually recursive functions, each as a body that makes its calls through \<open>self\<close>; \<open>parser\<close>
  ties them together and counts the depth of the calls. \<open>parse_alternatives\<close> is the loop of
  \<open>parseExpr\<close> entered with the references of the alternatives before, \<open>parse_factors\<close> that of \<open>parseTerm\<close>.
\<close>

datatype 'c parse_call =
    Expr "'c parse_state"
  | Alternatives similar_flags "nat list" "'c parse_state"
  | Factors bool similar_flags "'c parse_state"
  | Factor "'c parse_state"
  | Primary "'c parse_state"

type_synonym 'c parse_result = "similar_error + (similar_flags \<times> 'c parse_state)"

definition parseExpr :: "('c parse_call \<Rightarrow> 'c parse_result) \<Rightarrow> 'c parse_state \<Rightarrow> 'c parse_result" where
  "parseExpr self st = self (Alternatives (no_flags\<lparr>not_empty := True\<rparr>) [] st)"

definition parse_alternatives ::
  "'c similar_env \<Rightarrow> ('c parse_call \<Rightarrow> 'c parse_result) \<Rightarrow> similar_flags \<Rightarrow> nat list \<Rightarrow> 'c parse_state \<Rightarrow> 'c parse_result" where
  "parse_alternatives E self flagp refs st =
     (let thisBranchNum = int (branch_count st);
          start = length (nodes st);
          st1 = push_node ((node opBranch)\<lparr>n_branchNum := thisBranchNum\<rparr>) st
      in case self (Factors True no_flags st1) of
           Inl e \<Rightarrow> Inl e
         | Inr (flags, st2) \<Rightarrow>
             let ne = (not_empty flagp \<and> \<not> (\<not> not_empty flags));
                 flagp' = \<lparr>not_empty = ne \<or> not_empty flags, exactly = exactly flagp \<or> exactly flags\<rparr>;
                 refs' = refs @ [length (nodes st2)];
                 st3 = push_node ((node opRef)\<lparr>n_branchNum := thisBranchNum\<rparr>) st2;
                 st4 = set_ref start (int (length (nodes st3)) - int start) st3
             in if at_char E CHAR_VERTICAL_BAR (patternPos st4)
                then self (Alternatives flagp' refs' (st4\<lparr>patternPos := tl (patternPos st4)\<rparr>))
                else
                  let st5 = set_ref start 0 st4
                  in Inr (flagp', foldl (\<lambda>st i. set_ref i (int (length (nodes st)) - int i) st) st5 refs'))"

definition parse_factors ::
  "'c similar_env \<Rightarrow> ('c parse_call \<Rightarrow> 'c parse_result) \<Rightarrow> bool \<Rightarrow> similar_flags \<Rightarrow> 'c parse_state \<Rightarrow> 'c parse_result" where
  "parse_factors E self first flagp st =
     (if patternPos st \<noteq> [] \<and> \<not> at_char E CHAR_VERTICAL_BAR (patternPos st) \<and> \<not> at_char E CHAR_CLOSE_PAREN (patternPos st)
      then
        (case self (Factor st) of
           Inl e \<Rightarrow> Inl e
         | Inr (flags, st1) \<Rightarrow>
             let flagp1 = flagp\<lparr>not_empty := not_empty flagp \<or> not_empty flags\<rparr>;
                 flagp2 = (if first then \<lparr>not_empty = not_empty flagp1 \<or> not_empty flags,
                                          exactly = exactly flagp1 \<or> exactly flags\<rparr> else flagp1)
             in self (Factors False flagp2 st1))
      else Inr (flagp, if first then push_node (node opNothing) st else st))"

definition parseFactor ::
  "'c similar_env \<Rightarrow> 'c similar_char list \<Rightarrow> ('c parse_call \<Rightarrow> 'c parse_result) \<Rightarrow> 'c parse_state \<Rightarrow> 'c parse_result" where
  "parseFactor E pat self st =
     (let atomPos = length (nodes st)
      in case self (Primary st) of
           Inl e \<Rightarrow> Inl e
         | Inr (flags, st1) \<Rightarrow>
             (case patternPos st1 of
                [] \<Rightarrow> Inr (flags, st1)
              | c # _ \<Rightarrow>
                  if isRep E (canon c) then parse_repetition E pat atomPos flags (canon c) st1 else Inr (flags, st1)))"

definition parsePrimary ::
  "'c similar_env \<Rightarrow> ('c parse_call \<Rightarrow> 'c parse_result) \<Rightarrow> 'c parse_state \<Rightarrow> 'c parse_result" where
  "parsePrimary E self st =
     (case patternPos st of
        [] \<Rightarrow> Inl READ_PAST_END
      | c # ps \<Rightarrow>
          if canon c = canonicalChar E CHAR_UNDERLINE then
            Inr (no_flags\<lparr>not_empty := True\<rparr>, push_node (node opAny) (st\<lparr>patternPos := ps\<rparr>))
          else if canon c = canonicalChar E CHAR_PERCENT then
            Inr (no_flags, st\<lparr>patternPos := ps,
              nodes := nodes st @ [node_ref opBranch 3, node opAny, node_ref opRef (-2), node opBranch]\<rparr>)
          else if canon c = canonicalChar E CHAR_OPEN_BRACKET then
            (case parse_set E ps of
               Inl e \<Rightarrow> Inl e
             | Inr (ps1, nd) \<Rightarrow> Inr (no_flags\<lparr>not_empty := True\<rparr>, push_node nd (st\<lparr>patternPos := ps1\<rparr>)))
          else if canon c = canonicalChar E CHAR_OPEN_PAREN then
            (case self (Expr (st\<lparr>patternPos := ps\<rparr>)) of
               Inl e \<Rightarrow> Inl e
             | Inr (flags, st1) \<Rightarrow>
                 if at_char E CHAR_CLOSE_PAREN (patternPos st1)
                 then Inr (no_flags\<lparr>not_empty := not_empty flags\<rparr>,
                        st1\<lparr>patternPos := tl (patternPos st1), branch_count := branch_count st1 + 1\<rparr>)
                 else Inl ISC_INVALID_SIMILAR_PATTERN)
          else if useEscape E \<and> canon c = escapeChar E then
            (case check_escaped E ps of
               Inl e \<Rightarrow> Inl e
             | Inr _ \<Rightarrow> Inr (no_flags\<lparr>not_empty := True\<rparr>,
                 push_node (node_str opExactlyOne [canon (hd ps)]) (st\<lparr>patternPos := tl ps\<rparr>)))
          else
            let l = notInSet (map canon (c # ps)) (metaCharacters E)
            in if l = 0 then Inl ISC_INVALID_SIMILAR_PATTERN
               else Inr (\<lparr>not_empty = True, exactly = True\<rparr>,
                      push_node (node_str (if l = 1 then opExactlyOne else opExactly) (map canon (take l (c # ps))))
                        (st\<lparr>patternPos := drop l (c # ps)\<rparr>)))"

primrec parser :: "'c similar_env \<Rightarrow> 'c similar_char list \<Rightarrow> nat \<Rightarrow> 'c parse_call \<Rightarrow> 'c parse_result" where
  "parser E pat 0 call = Inl OUT_OF_FUEL"
| "parser E pat (Suc n) call =
     (case call of
        Expr st \<Rightarrow> parseExpr (parser E pat n) st
      | Alternatives flagp refs st \<Rightarrow> parse_alternatives E (parser E pat n) flagp refs st
      | Factors first flagp st \<Rightarrow> parse_factors E (parser E pat n) first flagp st
      | Factor st \<Rightarrow> parseFactor E pat (parser E pat n) st
      | Primary st \<Rightarrow> parsePrimary E (parser E pat n) st)"

text \<open>The constructor: the compiled nodes and the number of branches.\<close>

definition similar_compile ::
  "'c similar_env \<Rightarrow> nat \<Rightarrow> 'c similar_char list \<Rightarrow> similar_error + ('c similar_node list \<times> nat)" where
  "similar_compile E fuel pat =
     (case parser E pat fuel (Expr \<lparr>patternPos = pat, nodes = [node opStart], branch_count = 0\<rparr>) of
        Inl e \<Rightarrow> Inl e
      | Inr (flags, st) \<Rightarrow>
          if patternPos st \<noteq> [] then Inl ISC_INVALID_SIMILAR_PATTERN
          else Inr (nodes st @ [node opEnd], branch_count st))"

section \<open>The machine\<close>

text \<open>
  A scope of the stack: the node it is at, or one of the two special nodes \<^verbatim>\<open>nodeRet\<close> and
  \<^verbatim>\<open>nodeRepeatingRestore\<close>, and the saved position of a branch.
\<close>

datatype scope_node = AtNode int | NodeRet | NodeRepeatingRestore

record scope =
  sc_i :: scope_node
  sc_save :: nat

datatype match_state = msIterating | msReturningFalse | msReturningTrue

text \<open>The stacks have their top first; \<open>scopeSize\<close> is the number of scopes that the block of the scope stack has room
  for. Positions in the value are counted from \<^verbatim>\<open>bufferStart\<close>.\<close>

record machine =
  scopeStack :: "scope list"
  scopeSize :: nat
  m_state :: match_state
  repeatStack :: "int list"
  repeatCount :: int
  bufferPos :: nat
  branch_info :: "(int \<times> int) list"

type_synonym 'c similar_value = "'c similar_char list"

definition new_scope :: "scope_node \<Rightarrow> scope" where
  "new_scope n = \<lparr>sc_i = n, sc_save = 0\<rparr>"

text \<open>A push on a full stack moves the scopes to a new block and frees the old one.\<close>

abbreviation (input) INCREASE_FACTOR :: nat where "INCREASE_FACTOR \<equiv> 50"

definition push_scope :: "scope_node \<Rightarrow> machine \<Rightarrow> machine" where
  "push_scope n m =
     m\<lparr>scopeSize := (if length (scopeStack m) = scopeSize m then scopeSize m + INCREASE_FACTOR else scopeSize m),
       scopeStack := new_scope n # scopeStack m\<rparr>"

text \<open>The node at an index. There is none outside of the nodes; \<open>opRet\<close> stands for what would be read there.\<close>

definition fetch_node :: "'c similar_node list \<Rightarrow> int \<Rightarrow> 'c similar_node" where
  "fetch_node ns k = (if 0 \<le> k \<and> k < int (length ns) then ns ! nat k else node opRet)"

text \<open>A is_range test as the code writes it: the character is inside one of the ranges.\<close>

definition in_ranges :: "'c similar_env \<Rightarrow> (UCHAR list \<times> UCHAR list) list \<Rightarrow> UCHAR list \<Rightarrow> bool" where
  "in_ranges E rs c \<longleftrightarrow> (\<exists>r \<in> set rs. collate E c (fst r) \<ge> 0 \<and> collate E c (snd r) \<le> 0)"

definition match_set :: "'c similar_env \<Rightarrow> 'c similar_node \<Rightarrow> 'c similar_char \<Rightarrow> bool" where
  "match_set E nd c \<longleftrightarrow>
     (if notInSet [canon c] (n_str nd) \<noteq> 0 \<and> (length (n_str nd) + length (n_str2 nd) \<noteq> 0 \<and> \<not> in_ranges E (n_str2 nd) (orig c))
      then False
      else if notInSet [canon c] (n_str3 nd) = 0 then False
      else \<not> in_ranges E (n_str4 nd) (orig c))"

text \<open>How many characters a node that reads the value takes; \<open>None\<close> if it does not match.\<close>

definition match_chars :: "'c similar_env \<Rightarrow> 'c similar_node \<Rightarrow> 'c similar_value \<Rightarrow> nat \<Rightarrow> nat option" where
  "match_chars E nd v pos =
     (case n_op nd of
        opAny \<Rightarrow> if pos \<ge> length v then None else Some 1
      | opAnyOf \<Rightarrow> if pos \<ge> length v then None else if match_set E nd (v ! pos) then Some 1 else None
      | opExactly \<Rightarrow>
          if length v - pos \<ge> length (n_str nd) \<and> map canon (take (length (n_str nd)) (drop pos v)) = n_str nd
          then Some (length (n_str nd)) else None
      | opExactlyOne \<Rightarrow> if length v - pos \<ge> 1 \<and> hd (n_str nd) = canon (v ! pos) then Some 1 else None
      | _ \<Rightarrow> None)"

text \<open>What happens at the end of a turn that does not \<^verbatim>\<open>continue\<close>.\<close>

definition end_turn :: "machine \<Rightarrow> machine" where
  "end_turn m =
     (case m_state m of
        msIterating \<Rightarrow>
          (case scopeStack m of
             s # ss \<Rightarrow>
               (case sc_i s of AtNode k \<Rightarrow> m\<lparr>scopeStack := s\<lparr>sc_i := AtNode (k + 1)\<rparr> # ss\<rparr> | _ \<Rightarrow> m)
           | [] \<Rightarrow> m)
      | _ \<Rightarrow> m\<lparr>scopeStack := tl (scopeStack m)\<rparr>)"

text \<open>A turn leads to the next one, ends with a result or at a failed assertion, or reads a scope in a block that was
  freed.\<close>

datatype turn = Next machine | Result bool | Assertion | FreedRead

definition branch_start :: "'c similar_node \<Rightarrow> machine \<Rightarrow> machine" where
  "branch_start nd m =
     (if n_branchNum nd \<noteq> -1
      then m\<lparr>branch_info := (branch_info m)[nat (n_branchNum nd) :=
             (int (bufferPos m), snd (branch_info m ! nat (n_branchNum nd)))]\<rparr>
      else m)"

definition branch_length :: "'c similar_node \<Rightarrow> machine \<Rightarrow> machine" where
  "branch_length nd m =
     (if n_branchNum nd \<noteq> -1
      then m\<lparr>branch_info := (branch_info m)[nat (n_branchNum nd) :=
             (fst (branch_info m ! nat (n_branchNum nd)),
              int (bufferPos m) - fst (branch_info m ! nat (n_branchNum nd)))]\<rparr>
      else m)"

text \<open>One turn at node \<open>nd\<close>, which is at index \<open>k\<close>; \<open>s\<close> is the scope on top and \<open>ss\<close> those below.\<close>

definition node_turn ::
  "'c similar_env \<Rightarrow> 'c similar_node list \<Rightarrow> 'c similar_value \<Rightarrow> int \<Rightarrow> scope \<Rightarrow> scope list \<Rightarrow> machine \<Rightarrow> turn" where
  "node_turn E ns v k s ss m =
     (let nd = fetch_node ns k
      in case (n_op nd, m_state m) of
           (opBranch, msIterating) \<Rightarrow>
             Next (push_scope (AtNode (k + 1)) ((branch_start nd m)\<lparr>scopeStack := s\<lparr>sc_save := bufferPos m\<rparr> # ss\<rparr>))
         | (opBranch, msReturningFalse) \<Rightarrow>
             let m1 = m\<lparr>bufferPos := sc_save s\<rparr>
             in if n_ref nd \<noteq> 0 then
                  let k' = k + n_ref nd; m2 = m1\<lparr>m_state := msIterating, scopeStack := s\<lparr>sc_i := AtNode k'\<rparr> # ss\<rparr>
                  in if n_ref (fetch_node ns k') \<noteq> 0
                     then Next (push_scope (AtNode (k' + 1))
                            (m2\<lparr>scopeStack := s\<lparr>sc_i := AtNode k', sc_save := bufferPos m2\<rparr> # ss\<rparr>))
                     else Next (end_turn m2)
                else Next (end_turn m1)
         | (opBranch, msReturningTrue) \<Rightarrow> Next (end_turn m)
         | (opStart, msIterating) \<Rightarrow>
             Next (end_turn (if bufferPos m \<noteq> 0 then m\<lparr>m_state := msReturningFalse\<rparr> else m))
         | (opEnd, msIterating) \<Rightarrow>
             Next (end_turn (m\<lparr>m_state := (if bufferPos m = length v then msReturningTrue else msReturningFalse)\<rparr>))
         | (opRef, msIterating) \<Rightarrow>
             Next ((branch_length nd m)\<lparr>scopeStack := \<lparr>sc_i = AtNode (k + n_ref nd), sc_save = 0\<rparr> # ss\<rparr>)
         | (opRef, _) \<Rightarrow> Next (end_turn m)
         | (opRepeatingRefStart, msIterating) \<Rightarrow>
             Next (push_scope (AtNode (k + n_ref nd)) (m\<lparr>repeatStack := repeatCount m # repeatStack m, repeatCount := n_len nd\<rparr>))
         | (opRepeatingRefStart, _) \<Rightarrow>
             (case repeatStack m of
                [] \<Rightarrow> Assertion
              | c # cs \<Rightarrow> Next (end_turn (m\<lparr>repeatStack := cs, repeatCount := c\<rparr>)))
         | (opRepeatingRefEnd, msIterating) \<Rightarrow>
             if repeatCount m > 0
             then Next (push_scope (AtNode (k + n_ref nd + 1)) (m\<lparr>repeatCount := repeatCount m - 1\<rparr>))
             else
               (case repeatStack m of
                  [] \<Rightarrow> Assertion
                | c # cs \<Rightarrow>
                    let m1 = push_scope NodeRepeatingRestore (m\<lparr>repeatStack := cs, repeatCount := c\<rparr>)
                    in if scopeSize m1 \<noteq> scopeSize m then FreedRead else Next (push_scope (AtNode (k + 1)) m1))
         | (opRepeatingRefEnd, msReturningFalse) \<Rightarrow> Next (end_turn (m\<lparr>repeatCount := repeatCount m + 1\<rparr>))
         | (opRepeatingRefEnd, msReturningTrue) \<Rightarrow> Next (end_turn m)
         | (opNothing, _) \<Rightarrow> Next (end_turn m)
         | (opRet, _) \<Rightarrow> Assertion
         | (opRepeatingRestore, _) \<Rightarrow> Assertion
         | (_, msIterating) \<Rightarrow>
             (case match_chars E nd v (bufferPos m) of
                None \<Rightarrow> Next (end_turn (m\<lparr>m_state := msReturningFalse\<rparr>))
              | Some n \<Rightarrow> Next (end_turn (m\<lparr>bufferPos := bufferPos m + n\<rparr>)))
         | _ \<Rightarrow> Assertion)"

definition match_turn :: "'c similar_env \<Rightarrow> 'c similar_node list \<Rightarrow> 'c similar_value \<Rightarrow> machine \<Rightarrow> turn" where
  "match_turn E ns v m =
     (case scopeStack m of
        [] \<Rightarrow> Assertion
      | s # ss \<Rightarrow>
          (case sc_i s of
             AtNode k \<Rightarrow> node_turn E ns v k s ss m
           | NodeRepeatingRestore \<Rightarrow>
               (case m_state m of
                  msIterating \<Rightarrow> Assertion
                | _ \<Rightarrow> Next (end_turn (m\<lparr>repeatStack := repeatCount m # repeatStack m, repeatCount := -1\<rparr>)))
           | NodeRet \<Rightarrow>
               (case m_state m of
                  msIterating \<Rightarrow> Assertion
                | st \<Rightarrow> if repeatStack m = [] then Result (st = msReturningTrue) else Assertion)))"

text \<open>The loop; \<open>None\<close> means that it does not end.\<close>

datatype match_outcome = Returns bool | Fails | ReadsFreed

partial_function (option) match_loop ::
  "'c similar_env \<Rightarrow> 'c similar_node list \<Rightarrow> 'c similar_value \<Rightarrow> machine \<Rightarrow> match_outcome option" where
  "match_loop E ns v m =
     (case match_turn E ns v m of
        Next m' \<Rightarrow> match_loop E ns v m'
      | Result b \<Rightarrow> Some (Returns b)
      | Assertion \<Rightarrow> Some Fails
      | FreedRead \<Rightarrow> Some ReadsFreed)"

declare match_loop.simps [code]

definition match_init :: "nat \<Rightarrow> machine" where
  "match_init branches =
     \<lparr>scopeStack = [new_scope (AtNode 0), new_scope NodeRet], scopeSize = INCREASE_FACTOR, m_state = msIterating, repeatStack = [], repeatCount = 0,
      bufferPos = 0, branch_info = replicate (branches + 1) (0, 0)\<rparr>"

definition similar_match :: "'c similar_env \<Rightarrow> 'c similar_node list \<times> nat \<Rightarrow> 'c similar_value \<Rightarrow> match_outcome option" where
  "similar_match E prog v = match_loop E (fst prog) v (match_init (snd prog))"

text \<open>The buffer of the value: chunks are collected, the match is done for the result.\<close>

definition similar_processNextChunk :: "'c similar_value \<Rightarrow> 'c similar_value \<Rightarrow> bool \<times> 'c similar_value" where
  "similar_processNextChunk buffer data = (True, buffer @ data)"

definition similar_reset :: "'c similar_value \<Rightarrow> 'c similar_value" where
  "similar_reset buffer = []"

end
