(* ===== verification/FB_Similar_Machine.thy ===== *)
theory FB_Similar_Machine
  imports FB_Similar
begin

text \<open>
  What the machine of \<^verbatim>\<open>SimilarToMatcher\<close> does at each kind of node, as big-step rules, and when a
  piece of code implements a relation between the positions where a match starts and ends.
  A piece is put together from its parts independently of where it stands and of what follows.
\<close>

section \<open>Runs\<close>

text \<open>
  The machine with a stack that always has room for one more scope; the size of the block is left out. The machine does
  the same, or it reads a freed block after it has left a counted repetition.
\<close>

definition without_size :: "machine \<Rightarrow> machine" where
  "without_size m = m\<lparr>scopeSize := 0\<rparr>"

definition next_without_size :: "turn \<Rightarrow> turn" where
  "next_without_size t = (case t of Next m \<Rightarrow> Next (without_size m) | _ \<Rightarrow> t)"

definition roomy_turn :: "'c similar_env \<Rightarrow> 'c similar_node list \<Rightarrow> 'c similar_value \<Rightarrow> machine \<Rightarrow> turn" where
  "roomy_turn E ns v m = next_without_size (match_turn E ns v (m\<lparr>scopeSize := length (scopeStack m) + 1\<rparr>))"

definition repeats :: "'c similar_node list \<Rightarrow> bool" where
  "repeats ns \<longleftrightarrow> (\<exists>nd \<in> set ns. n_op nd = opRepeatingRefEnd)"

lemma fetch_repeats: "n_op (fetch_node ns k) = opRepeatingRefEnd \<Longrightarrow> repeats ns"
  by (auto simp: fetch_node_def repeats_def node_str_def split: if_splits)

lemma without_size_idem [simp]: "without_size (m\<lparr>scopeSize := z\<rparr>) = without_size m"
  by (simp add: without_size_def)

lemma without_size_push: "without_size (push_scope n m) = without_size (m\<lparr>scopeStack := new_scope n # scopeStack m\<rparr>)"
  by (simp add: without_size_def push_scope_def)

lemma without_size_end: "without_size (end_turn m) = end_turn (without_size m)"
  by (auto simp: without_size_def end_turn_def split: match_state.splits list.splits scope_node.splits)

lemma without_size_branch:
  "without_size (branch_start nd m) = branch_start nd (without_size m)"
  "without_size (branch_length nd m) = branch_length nd (without_size m)"
  by (simp_all add: without_size_def branch_start_def branch_length_def)

lemma turn_without_size:
  "match_turn E ns v m = FreedRead \<and> repeats ns \<or>
   roomy_turn E ns v (without_size m) = next_without_size (match_turn E ns v m)"
proof (cases "scopeStack m")
  case Nil
  then show ?thesis by (simp add: roomy_turn_def match_turn_def without_size_def next_without_size_def)
next
  case (Cons s ss)
  define m0 where "m0 = (without_size m)\<lparr>scopeSize := length (scopeStack m) + 1\<rparr>"
  have stack: "scopeStack m0 = s # ss" "scopeSize m0 = length ss + 2" and same: "without_size m0 = without_size m"
    using Cons by (simp_all add: m0_def without_size_def)
  have fields: "m_state m0 = m_state m" "repeatStack m0 = repeatStack m" "repeatCount m0 = repeatCount m" "bufferPos m0 = bufferPos m"
    "branch_info m0 = branch_info m" by (simp_all add: m0_def without_size_def)
  have turn: "roomy_turn E ns v (without_size m) = next_without_size (match_turn E ns v m0)"
    by (simp add: roomy_turn_def m0_def without_size_def)
  have upd: "without_size (f m0) = without_size (f m)" if "\<And>m. without_size (f m) = f (without_size m)" for f
    using that same by metis
  show ?thesis
  proof (cases "sc_i s")
    case (AtNode k)
    show ?thesis
      using stack same fields Cons AtNode fetch_repeats [of ns k]
      unfolding turn match_turn_def
      by (cases "n_op (fetch_node ns k)"; cases "m_state m")
        (auto simp: node_turn_def Let_def next_without_size_def without_size_push without_size_end without_size_branch
          without_size_def push_scope_def end_turn_def branch_start_def branch_length_def split: list.splits option.splits)
  next
    case NodeRet
    then show ?thesis using stack fields Cons unfolding turn match_turn_def
      by (cases "m_state m") (auto simp: next_without_size_def)
  next
    case NodeRepeatingRestore
    then show ?thesis using stack same fields Cons unfolding turn match_turn_def
      by (cases "m_state m") (auto simp: next_without_size_def without_size_end without_size_def end_turn_def)
  qed
qed
definition reaches :: "'c similar_env \<Rightarrow> 'c similar_node list \<Rightarrow> 'c similar_value \<Rightarrow> machine \<Rightarrow> machine \<Rightarrow> bool" where
  "reaches E ns v = (\<lambda>m m'. roomy_turn E ns v m = Next m')\<^sup>*\<^sup>*"

abbreviation conf :: "scope list \<Rightarrow> match_state \<Rightarrow> int list \<Rightarrow> int \<Rightarrow> nat \<Rightarrow> (int \<times> int) list \<Rightarrow> machine" where
  "conf ss st rs rc p bi \<equiv> \<lparr>scopeStack = ss, scopeSize = 0, m_state = st, repeatStack = rs, repeatCount = rc, bufferPos = p, branch_info = bi\<rparr>"

abbreviation scope_at :: "int \<Rightarrow> nat \<Rightarrow> scope" where
  "scope_at k sv \<equiv> \<lparr>sc_i = AtNode k, sc_save = sv\<rparr>"

definition returning :: "bool \<Rightarrow> match_state" where
  "returning b = (if b then msReturningTrue else msReturningFalse)"

lemma reaches_refl: "reaches E ns v m m"
  by (simp add: reaches_def)

lemma reaches_step: "roomy_turn E ns v m = Next m' \<Longrightarrow> reaches E ns v m' m'' \<Longrightarrow> reaches E ns v m m''"
  unfolding reaches_def by (rule converse_rtranclp_into_rtranclp)

lemma reaches_trans: "reaches E ns v m m' \<Longrightarrow> reaches E ns v m' m'' \<Longrightarrow> reaches E ns v m m''"
  unfolding reaches_def by (rule rtranclp_trans)

lemma match_loop_reaches:
  assumes "reaches E ns v (without_size m) m'"
  shows "(\<exists>m1. without_size m1 = m' \<and> match_loop E ns v m = match_loop E ns v m1) \<or>
    match_loop E ns v m = Some ReadsFreed \<and> repeats ns"
proof -
  have "\<forall>m. m0 = without_size m \<longrightarrow> (\<exists>m1. without_size m1 = m' \<and> match_loop E ns v m = match_loop E ns v m1) \<or>
      match_loop E ns v m = Some ReadsFreed \<and> repeats ns" if "reaches E ns v m0 m'" for m0
    using that unfolding reaches_def
  proof (induction rule: converse_rtranclp_induct)
    case (step m1 m2)
    show ?case
    proof (intro allI impI)
      fix m assume m: "m1 = without_size m"
      show "(\<exists>m1. without_size m1 = m' \<and> match_loop E ns v m = match_loop E ns v m1) \<or>
        match_loop E ns v m = Some ReadsFreed \<and> repeats ns"
      proof (cases "match_turn E ns v m = FreedRead \<and> repeats ns")
        case True
        then show ?thesis by (simp add: match_loop.simps)
      next
        case False
        then obtain m3 where "match_turn E ns v m = Next m3" "m2 = without_size m3"
          using turn_without_size [of E ns v m] step.hyps(1) m by (auto simp: next_without_size_def split: turn.splits)
        then show ?thesis using step.IH by (simp add: match_loop.simps [of E ns v m])
      qed
    qed
  qed blast
  then show ?thesis using assms by blast
qed

text \<open>
  A scope that starts at node \<open>k\<close> is popped with the answer \<open>b\<close>, whatever lies below it; after a
  failure the repetition counts are as before.
\<close>

definition eval :: "'c similar_env \<Rightarrow> 'c similar_node list \<Rightarrow> 'c similar_value \<Rightarrow> int \<Rightarrow> int list \<Rightarrow> int \<Rightarrow> nat \<Rightarrow> bool \<Rightarrow> bool" where
  "eval E ns v k rs rc p b \<longleftrightarrow> (\<forall>ss sv bi. \<exists>rs' rc' p' bi'.
     reaches E ns v (conf (scope_at k sv # ss) msIterating rs rc p bi) (conf ss (returning b) rs' rc' p' bi') \<and>
     length rs' = length rs \<and> (\<not> b \<longrightarrow> rs' = rs \<and> rc' = rc))"

lemma evalI:
  assumes "\<And>ss sv bi. \<exists>rs' rc' p' bi'.
     reaches E ns v (conf (scope_at k sv # ss) msIterating rs rc p bi) (conf ss (returning b) rs' rc' p' bi') \<and>
     length rs' = length rs \<and> (\<not> b \<longrightarrow> rs' = rs \<and> rc' = rc)"
  shows "eval E ns v k rs rc p b"
  using assms by (simp add: eval_def)

text \<open>A turn that only moves inside the scope.\<close>

lemma eval_move:
  assumes "\<And>ss sv bi. \<exists>sv' bi'. roomy_turn E ns v (conf (scope_at k sv # ss) msIterating rs rc p bi) =
      Next (conf (scope_at k' sv' # ss) msIterating rs rc p' bi')"
    and "eval E ns v k' rs rc p' b"
  shows "eval E ns v k rs rc p b"
proof (rule evalI)
  fix ss sv bi
  obtain sv' bi' where "roomy_turn E ns v (conf (scope_at k sv # ss) msIterating rs rc p bi) =
      Next (conf (scope_at k' sv' # ss) msIterating rs rc p' bi')" using assms(1) by blast
  moreover obtain rs' rc' q bi'' where
    "reaches E ns v (conf (scope_at k' sv' # ss) msIterating rs rc p' bi') (conf ss (returning b) rs' rc' q bi'')"
    "length rs' = length rs" "\<not> b \<longrightarrow> rs' = rs \<and> rc' = rc"
    using assms(2) unfolding eval_def by blast
  ultimately show "\<exists>rs' rc' p' bi'.
     reaches E ns v (conf (scope_at k sv # ss) msIterating rs rc p bi) (conf ss (returning b) rs' rc' p' bi') \<and>
     length rs' = length rs \<and> (\<not> b \<longrightarrow> rs' = rs \<and> rc' = rc)"
    using reaches_step by blast
qed

text \<open>A turn that pops the scope.\<close>

lemma eval_return:
  assumes "\<And>ss sv bi. roomy_turn E ns v (conf (scope_at k sv # ss) msIterating rs rc p bi) =
      Next (conf ss (returning b) rs rc p bi)"
  shows "eval E ns v k rs rc p b"
  by (rule evalI) (use reaches_step [OF assms reaches_refl] in blast)

lemmas turn_simps = roomy_turn_def next_without_size_def without_size_def match_turn_def node_turn_def Let_def end_turn_def push_scope_def new_scope_def
  branch_start_def branch_length_def returning_def

lemma eval_start:
  assumes "n_op (fetch_node ns k) = opStart" and "eval E ns v (k + 1) rs rc 0 b"
  shows "eval E ns v k rs rc 0 b"
  by (rule eval_move [OF _ assms(2)]) (simp add: turn_simps assms(1))

lemma eval_end:
  assumes "n_op (fetch_node ns k) = opEnd"
  shows "eval E ns v k rs rc p (p = length v)"
  by (rule eval_return) (simp add: turn_simps assms)

lemma eval_nothing:
  assumes "n_op (fetch_node ns k) = opNothing" and "eval E ns v (k + 1) rs rc p b"
  shows "eval E ns v k rs rc p b"
  by (rule eval_move [OF _ assms(2)]) (simp add: turn_simps assms(1))

lemma eval_ref:
  assumes "n_op (fetch_node ns k) = opRef" and "eval E ns v (k + n_ref (fetch_node ns k)) rs rc p b"
  shows "eval E ns v k rs rc p b"
  by (rule eval_move [OF _ assms(2)]) (simp add: turn_simps assms(1))

definition reading :: "similar_op \<Rightarrow> bool" where
  "reading o' \<longleftrightarrow> o' \<in> {opAny, opAnyOf, opExactly, opExactlyOne}"

lemma eval_chars:
  assumes "reading (n_op (fetch_node ns k))" and "match_chars E (fetch_node ns k) v p = Some n" and "eval E ns v (k + 1) rs rc (p + n) b"
  shows "eval E ns v k rs rc p b"
  by (rule eval_move [OF _ assms(3)]) (use assms(1,2) in \<open>auto simp: turn_simps reading_def\<close>)

lemma eval_chars_fail:
  assumes "reading (n_op (fetch_node ns k))" and "match_chars E (fetch_node ns k) v p = None"
  shows "eval E ns v k rs rc p False"
  by (rule eval_return) (use assms in \<open>auto simp: turn_simps reading_def\<close>)

text \<open>
  A branch tries what follows it, and, if that fails and it refers to another branch, goes on
  there from the same position.
\<close>

definition tries :: "'c similar_env \<Rightarrow> 'c similar_node list \<Rightarrow> 'c similar_value \<Rightarrow> int \<Rightarrow> int list \<Rightarrow> int \<Rightarrow> nat \<Rightarrow> bool \<Rightarrow> bool" where
  "tries E ns v k rs rc p b \<longleftrightarrow> (\<forall>ss bi. \<exists>rs' rc' p' bi'.
     reaches E ns v (conf (scope_at (k + 1) 0 # scope_at k p # ss) msIterating rs rc p bi) (conf ss (returning b) rs' rc' p' bi') \<and>
     length rs' = length rs \<and> (\<not> b \<longrightarrow> rs' = rs \<and> rc' = rc))"

definition resumes :: "'c similar_env \<Rightarrow> 'c similar_node list \<Rightarrow> 'c similar_value \<Rightarrow> int \<Rightarrow> int list \<Rightarrow> int \<Rightarrow> nat \<Rightarrow> bool \<Rightarrow> bool" where
  "resumes E ns v t rs rc p b \<longleftrightarrow>
     (if n_ref (fetch_node ns t) \<noteq> 0 then tries E ns v t rs rc p b else eval E ns v (t + 1) rs rc p b)"

lemma eval_branch:
  assumes "n_op (fetch_node ns k) = opBranch" and "tries E ns v k rs rc p b"
  shows "eval E ns v k rs rc p b"
proof (rule evalI)
  fix ss sv bi
  have "\<exists>bi0. roomy_turn E ns v (conf (scope_at k sv # ss) msIterating rs rc p bi) =
      Next (conf (scope_at (k + 1) 0 # scope_at k p # ss) msIterating rs rc p bi0)"
    using assms(1) by (cases "n_branchNum (fetch_node ns k) = -1") (auto simp: turn_simps)
  then obtain bi0 where "roomy_turn E ns v (conf (scope_at k sv # ss) msIterating rs rc p bi) =
      Next (conf (scope_at (k + 1) 0 # scope_at k p # ss) msIterating rs rc p bi0)" ..
  moreover obtain rs' rc' p' bi' where
    "reaches E ns v (conf (scope_at (k + 1) 0 # scope_at k p # ss) msIterating rs rc p bi0) (conf ss (returning b) rs' rc' p' bi')"
    "length rs' = length rs" "\<not> b \<longrightarrow> rs' = rs \<and> rc' = rc"
    using assms(2) unfolding tries_def by blast
  ultimately show "\<exists>rs' rc' p' bi'.
     reaches E ns v (conf (scope_at k sv # ss) msIterating rs rc p bi) (conf ss (returning b) rs' rc' p' bi') \<and>
     length rs' = length rs \<and> (\<not> b \<longrightarrow> rs' = rs \<and> rc' = rc)"
    using reaches_step by blast
qed

lemma tries_cases:
  assumes op: "n_op (fetch_node ns k) = opBranch" and first: "eval E ns v (k + 1) rs rc p b1"
    and rest: "\<not> b1 \<Longrightarrow> n_ref (fetch_node ns k) \<noteq> 0 \<Longrightarrow> resumes E ns v (k + n_ref (fetch_node ns k)) rs rc p b2"
  shows "tries E ns v k rs rc p (b1 \<or> n_ref (fetch_node ns k) \<noteq> 0 \<and> b2)" (is "tries E ns v k rs rc p ?b")
  unfolding tries_def
proof (intro allI)
  fix ss bi
  obtain rs' rc' q bi' where run:
    "reaches E ns v (conf (scope_at (k + 1) 0 # scope_at k p # ss) msIterating rs rc p bi)
       (conf (scope_at k p # ss) (returning b1) rs' rc' q bi')"
    "length rs' = length rs" "\<not> b1 \<longrightarrow> rs' = rs \<and> rc' = rc"
    using first unfolding eval_def by blast
  have "\<exists>rs'' rc'' p'' bi''. reaches E ns v (conf (scope_at k p # ss) (returning b1) rs' rc' q bi')
       (conf ss (returning ?b) rs'' rc'' p'' bi'') \<and> length rs'' = length rs \<and> (\<not> ?b \<longrightarrow> rs'' = rs \<and> rc'' = rc)"
  proof (cases b1)
    case True
    then have "roomy_turn E ns v (conf (scope_at k p # ss) (returning b1) rs' rc' q bi') = Next (conf ss (returning ?b) rs' rc' q bi')"
      using op by (simp add: turn_simps)
    then show ?thesis using reaches_step [OF _ reaches_refl] run(2) True by blast
  next
    case b1: False
    have same: "rs' = rs" "rc' = rc" using run(3) b1 by simp_all
    show ?thesis
    proof (cases "n_ref (fetch_node ns k) = 0")
      case True
      then have "roomy_turn E ns v (conf (scope_at k p # ss) (returning b1) rs' rc' q bi') = Next (conf ss (returning ?b) rs' rc' p bi')"
        using op b1 by (simp add: turn_simps)
      then show ?thesis using reaches_step [OF _ reaches_refl] same by blast
    next
      case False
      define t where "t = k + n_ref (fetch_node ns k)"
      have eq: "(b1 \<or> n_ref (fetch_node ns k) \<noteq> 0 \<and> b2) = b2" using b1 False by simp
      have r: "resumes E ns v t rs rc p b2" using rest [OF b1 False] by (simp add: t_def)
      show ?thesis
      proof (cases "n_ref (fetch_node ns t) = 0")
        case True
        have "roomy_turn E ns v (conf (scope_at k p # ss) (returning b1) rs' rc' q bi') =
            Next (conf (scope_at (t + 1) p # ss) msIterating rs rc p bi')"
          using op b1 False True same by (simp add: turn_simps t_def)
        moreover have "eval E ns v (t + 1) rs rc p b2" using r True by (simp add: resumes_def)
        ultimately show ?thesis unfolding eq eval_def by (meson reaches_step)
      next
        case nz: False
        have "roomy_turn E ns v (conf (scope_at k p # ss) (returning b1) rs' rc' q bi') =
            Next (conf (scope_at (t + 1) 0 # scope_at t p # ss) msIterating rs rc p bi')"
          using op b1 False nz same by (simp add: turn_simps t_def)
        moreover have "tries E ns v t rs rc p b2" using r nz by (simp add: resumes_def)
        ultimately show ?thesis unfolding eq tries_def by (meson reaches_step)
      qed
    qed
  qed
  then show "\<exists>rs' rc' p' bi'.
     reaches E ns v (conf (scope_at (k + 1) 0 # scope_at k p # ss) msIterating rs rc p bi) (conf ss (returning ?b) rs' rc' p' bi') \<and>
     length rs' = length rs \<and> (\<not> ?b \<longrightarrow> rs' = rs \<and> rc' = rc)"
    using reaches_trans [OF run(1)] by blast
qed

text \<open>Repetition with a count.\<close>

lemma eval_repeat_start:
  assumes op: "n_op (fetch_node ns k) = opRepeatingRefStart"
    and body: "eval E ns v (k + n_ref (fetch_node ns k)) (rc # rs) (n_len (fetch_node ns k)) p b"
  shows "eval E ns v k rs rc p b"
proof (rule evalI)
  fix ss sv bi
  define t where "t = k + n_ref (fetch_node ns k)"
  have first: "roomy_turn E ns v (conf (scope_at k sv # ss) msIterating rs rc p bi) =
      Next (conf (scope_at t 0 # scope_at k sv # ss) msIterating (rc # rs) (n_len (fetch_node ns k)) p bi)"
    using op by (simp add: turn_simps t_def)
  obtain rs' rc' q bi' where run:
    "reaches E ns v (conf (scope_at t 0 # scope_at k sv # ss) msIterating (rc # rs) (n_len (fetch_node ns k)) p bi)
       (conf (scope_at k sv # ss) (returning b) rs' rc' q bi')"
    "length rs' = length (rc # rs)" "\<not> b \<longrightarrow> rs' = rc # rs \<and> rc' = n_len (fetch_node ns k)"
    using body unfolding eval_def t_def by blast
  obtain c cs where rs': "rs' = c # cs" "length cs = length rs" using run(2) by (cases rs') auto
  have "roomy_turn E ns v (conf (scope_at k sv # ss) (returning b) rs' rc' q bi') = Next (conf ss (returning b) cs c q bi')"
    using op by (simp add: turn_simps rs')
  from reaches_step [OF first reaches_trans [OF run(1) reaches_step [OF this reaches_refl]]] rs' run(3)
  show "\<exists>rs' rc' p' bi'.
     reaches E ns v (conf (scope_at k sv # ss) msIterating rs rc p bi) (conf ss (returning b) rs' rc' p' bi') \<and>
     length rs' = length rs \<and> (\<not> b \<longrightarrow> rs' = rs \<and> rc' = rc)" by blast
qed

lemma eval_repeat_more:
  assumes op: "n_op (fetch_node ns k) = opRepeatingRefEnd" and pos: "0 < rc"
    and body: "eval E ns v (k + n_ref (fetch_node ns k) + 1) rs (rc - 1) p b"
  shows "eval E ns v k rs rc p b"
proof (rule evalI)
  fix ss sv bi
  define t where "t = k + n_ref (fetch_node ns k) + 1"
  have first: "roomy_turn E ns v (conf (scope_at k sv # ss) msIterating rs rc p bi) =
      Next (conf (scope_at t 0 # scope_at k sv # ss) msIterating rs (rc - 1) p bi)"
    using op pos by (simp add: turn_simps t_def)
  obtain rs' rc' q bi' where run:
    "reaches E ns v (conf (scope_at t 0 # scope_at k sv # ss) msIterating rs (rc - 1) p bi)
       (conf (scope_at k sv # ss) (returning b) rs' rc' q bi')"
    "length rs' = length rs" "\<not> b \<longrightarrow> rs' = rs \<and> rc' = rc - 1"
    using body unfolding eval_def t_def by blast
  have "roomy_turn E ns v (conf (scope_at k sv # ss) (returning b) rs' rc' q bi') =
      Next (conf ss (returning b) rs' (if b then rc' else rc' + 1) q bi')"
    using op by (simp add: turn_simps)
  from reaches_step [OF first reaches_trans [OF run(1) reaches_step [OF this reaches_refl]]] run(2,3)
  show "\<exists>rs' rc' p' bi'.
     reaches E ns v (conf (scope_at k sv # ss) msIterating rs rc p bi) (conf ss (returning b) rs' rc' p' bi') \<and>
     length rs' = length rs \<and> (\<not> b \<longrightarrow> rs' = rs \<and> rc' = rc)" by fastforce
qed

lemma eval_repeat_done:
  assumes op: "n_op (fetch_node ns k) = opRepeatingRefEnd"
    and body: "eval E ns v (k + 1) rs c p b"
  shows "eval E ns v k (c # rs) 0 p b"
proof (rule evalI)
  fix ss sv bi
  define restore where "restore = \<lparr>sc_i = NodeRepeatingRestore, sc_save = 0\<rparr>"
  have first: "roomy_turn E ns v (conf (scope_at k sv # ss) msIterating (c # rs) 0 p bi) =
      Next (conf (scope_at (k + 1) 0 # restore # scope_at k sv # ss) msIterating rs c p bi)"
    using op by (simp add: turn_simps restore_def)
  obtain rs' rc' q bi' where run:
    "reaches E ns v (conf (scope_at (k + 1) 0 # restore # scope_at k sv # ss) msIterating rs c p bi)
       (conf (restore # scope_at k sv # ss) (returning b) rs' rc' q bi')"
    "length rs' = length rs" "\<not> b \<longrightarrow> rs' = rs \<and> rc' = c"
    using body unfolding eval_def by blast
  have second: "roomy_turn E ns v (conf (restore # scope_at k sv # ss) (returning b) rs' rc' q bi') =
      Next (conf (scope_at k sv # ss) (returning b) (rc' # rs') (-1) q bi')"
    by (simp add: turn_simps restore_def)
  have third: "roomy_turn E ns v (conf (scope_at k sv # ss) (returning b) (rc' # rs') (-1) q bi') =
      Next (conf ss (returning b) (rc' # rs') (if b then -1 else 0) q bi')"
    using op by (simp add: turn_simps)
  from reaches_step [OF first reaches_trans [OF run(1) reaches_step [OF second reaches_step [OF third reaches_refl]]]] run(2,3)
  show "\<exists>rs' rc' p' bi'.
     reaches E ns v (conf (scope_at k sv # ss) msIterating (c # rs) 0 p bi) (conf ss (returning b) rs' rc' p' bi') \<and>
     length rs' = length (c # rs) \<and> (\<not> b \<longrightarrow> rs' = c # rs \<and> rc' = 0)" by fastforce
qed

text \<open>From the evaluation of the first node to the answer of the matcher.\<close>

lemma eval_similar_match:
  assumes "eval E (fst prog) v 0 [] 0 0 b"
  shows "similar_match E prog v = Some (Returns b) \<or> similar_match E prog v = Some ReadsFreed \<and> repeats (fst prog)"
proof -
  define ret where "ret = \<lparr>sc_i = NodeRet, sc_save = 0\<rparr>"
  obtain rs' rc' q bi' where run: "reaches E (fst prog) v (conf (scope_at 0 0 # [ret]) msIterating [] 0 0 (replicate (snd prog + 1) (0, 0)))
       (conf [ret] (returning b) rs' rc' q bi')" "length rs' = length ([] :: int list)"
    using assms unfolding eval_def by blast
  have init: "conf (scope_at 0 0 # [ret]) msIterating [] 0 0 (replicate (snd prog + 1) (0, 0)) = without_size (match_init (snd prog))"
    by (simp add: match_init_def without_size_def new_scope_def ret_def)
  have last: "match_loop E (fst prog) v m = Some (Returns b)" if "without_size m = conf [ret] (returning b) rs' rc' q bi'" for m
  proof -
    have "scopeStack m = [ret]" "m_state m = returning b" "repeatStack m = []"
      using arg_cong [OF that, of scopeStack] arg_cong [OF that, of m_state] arg_cong [OF that, of repeatStack] run(2)
      by (simp_all add: without_size_def)
    then have "match_turn E (fst prog) v m = Result b" by (simp add: match_turn_def ret_def returning_def)
    then show ?thesis by (subst match_loop.simps) simp
  qed
  show ?thesis using match_loop_reaches [OF run(1) [unfolded init]] last by (auto simp: similar_match_def)
qed

section \<open>Pieces of code\<close>

text \<open>
  \<open>L p q\<close>: the value from position \<open>p\<close> to \<open>q\<close> matches. A piece of code implements \<open>L\<close> when, wherever it
  stands, a scope that enters it succeeds exactly when for some \<open>q\<close> what follows the piece does.
\<close>

type_synonym span = "nat \<Rightarrow> nat \<Rightarrow> bool"

definition enters :: "'c similar_env \<Rightarrow> 'c similar_node list \<Rightarrow> 'c similar_value \<Rightarrow> int \<Rightarrow> int \<Rightarrow> span \<Rightarrow> bool" where
  "enters E ns v a z L \<longleftrightarrow> (\<forall>rs rc p K. (\<forall>q. L p q \<longrightarrow> eval E ns v z rs rc q (K q)) \<longrightarrow>
     eval E ns v a rs rc p (\<exists>q. L p q \<and> K q))"

definition implements :: "'c similar_env \<Rightarrow> 'c similar_value \<Rightarrow> 'c similar_node list \<Rightarrow> span \<Rightarrow> bool" where
  "implements E v code L \<longleftrightarrow> (\<forall>pre post. enters E (pre @ code @ post) v (int (length pre)) (int (length pre + length code)) L)"

lemma entersI:
  assumes "\<And>rs rc p K. (\<And>q. L p q \<Longrightarrow> eval E ns v z rs rc q (K q)) \<Longrightarrow> eval E ns v a rs rc p (\<exists>q. L p q \<and> K q)"
  shows "enters E ns v a z L"
  using assms by (simp add: enters_def)

lemma entersD:
  assumes "enters E ns v a z L" and "\<And>q. L p q \<Longrightarrow> eval E ns v z rs rc q (K q)"
  shows "eval E ns v a rs rc p (\<exists>q. L p q \<and> K q)"
  using assms unfolding enters_def by simp

lemma enters_trans:
  assumes "enters E ns v a y L" and "enters E ns v y z M"
  shows "enters E ns v a z (L OO M)"
proof (rule entersI)
  fix rs rc p K
  assume K: "\<And>r. (L OO M) p r \<Longrightarrow> eval E ns v z rs rc r (K r)"
  have "eval E ns v a rs rc p (\<exists>q. L p q \<and> (\<exists>r. M q r \<and> K r))"
    by (rule entersD [OF assms(1)], rule entersD [OF assms(2)]) (use K in blast)
  moreover have "(\<exists>q. L p q \<and> (\<exists>r. M q r \<and> K r)) = (\<exists>r. (L OO M) p r \<and> K r)" by blast
  ultimately show "eval E ns v a rs rc p (\<exists>r. (L OO M) p r \<and> K r)" by simp
qed

lemma implements_append:
  assumes "implements E v c L" and "implements E v d M"
  shows "implements E v (c @ d) (L OO M)"
  unfolding implements_def
proof (intro allI)
  fix pre post
  have "enters E (pre @ c @ d @ post) v (int (length pre)) (int (length pre + length c)) L"
    using assms(1) unfolding implements_def by blast
  moreover have "enters E ((pre @ c) @ d @ post) v (int (length (pre @ c))) (int (length (pre @ c) + length d)) M"
    using assms(2) unfolding implements_def by blast
  ultimately show "enters E (pre @ (c @ d) @ post) v (int (length pre)) (int (length pre + length (c @ d))) (L OO M)"
    using enters_trans [of E "pre @ c @ d @ post" v] by (simp add: add.assoc)
qed

lemma enters_code:
  assumes "implements E v code L" and "ns = pre @ code @ post" and "a = int (length pre)" and "z = a + int (length code)"
  shows "enters E ns v a z L"
  using assms unfolding implements_def by simp

section \<open>Loops, choices and repetitions\<close>

definition progress :: "nat \<Rightarrow> span \<Rightarrow> bool" where
  "progress n L \<longleftrightarrow> (\<forall>p q. L p q \<longrightarrow> p < q \<and> q \<le> n)"

lemma enters_ref:
  assumes "enters E ns v a y L" and "n_op (fetch_node ns y) = opRef" and "z = y + n_ref (fetch_node ns y)"
  shows "enters E ns v a z L"
  by (rule entersI, rule entersD [OF assms(1)], rule eval_ref [where k = y]) (use assms(2,3) in auto)

lemma enters_from_ref:
  assumes "enters E ns v y z L" and "n_op (fetch_node ns a) = opRef" and "y = a + n_ref (fetch_node ns a)"
  shows "enters E ns v a z L"
  by (rule entersI, rule eval_ref [OF assms(2)], rule entersD [OF assms(1)[unfolded assms(3)]]) auto

lemma eval_cong: "eval E ns v k rs rc p b \<Longrightarrow> b = b' \<Longrightarrow> eval E ns v k rs rc p b'"
  by simp

text \<open>A branch whose first way leads back to it, through a match of \<open>L\<close>.\<close>

lemma loop_enters:
  assumes br: "n_op (fetch_node ns j) = opBranch" "n_ref (fetch_node ns j) = r" "r \<noteq> 0" and out: "n_ref (fetch_node ns (j + r)) = 0"
    and body: "enters E ns v (j + 1) j L" and prog: "progress (length v) L"
  shows "enters E ns v j (j + r + 1) L\<^sup>*\<^sup>*"
proof (rule entersI)
  fix rs rc p K
  assume "\<And>q. L\<^sup>*\<^sup>* p q \<Longrightarrow> eval E ns v (j + r + 1) rs rc q (K q)"
  then show "eval E ns v j rs rc p (\<exists>q. L\<^sup>*\<^sup>* p q \<and> K q)"
  proof (induction "length v - p" arbitrary: p rule: less_induct)
    case less
    have "eval E ns v j rs rc q (\<exists>q'. L\<^sup>*\<^sup>* q q' \<and> K q')" if "L p q" for q
    proof (rule less.hyps)
      show "length v - q < length v - p" using prog that unfolding progress_def by (meson diff_less_mono2 order_less_le_trans)
      show "eval E ns v (j + r + 1) rs rc q' (K q')" if "L\<^sup>*\<^sup>* q q'" for q'
        using less.prems converse_rtranclp_into_rtranclp [of L p q q'] \<open>L p q\<close> that by blast
    qed
    then have first: "eval E ns v (j + 1) rs rc p (\<exists>q. L p q \<and> (\<exists>q'. L\<^sup>*\<^sup>* q q' \<and> K q'))"
      by (rule entersD [OF body])
    have "resumes E ns v (j + r) rs rc p (K p)" using less.prems [of p] out by (simp add: resumes_def)
    then have "tries E ns v j rs rc p ((\<exists>q. L p q \<and> (\<exists>q'. L\<^sup>*\<^sup>* q q' \<and> K q')) \<or> n_ref (fetch_node ns j) \<noteq> 0 \<and> K p)"
      using tries_cases [OF br(1) first] br(2) by simp
    moreover have "((\<exists>q. L p q \<and> (\<exists>q'. L\<^sup>*\<^sup>* q q' \<and> K q')) \<or> n_ref (fetch_node ns j) \<noteq> 0 \<and> K p) = (\<exists>q. L\<^sup>*\<^sup>* p q \<and> K q)"
      using br(2,3) by (metis converse_rtranclp_into_rtranclp converse_rtranclpE rtranclp.rtrancl_refl)
    ultimately show ?case using eval_branch [OF br(1)] by simp
  qed
qed

definition resumes_as :: "'c similar_env \<Rightarrow> 'c similar_node list \<Rightarrow> 'c similar_value \<Rightarrow> int \<Rightarrow> int \<Rightarrow> span \<Rightarrow> bool" where
  "resumes_as E ns v t z L \<longleftrightarrow> (\<forall>rs rc p K. (\<forall>q. L p q \<longrightarrow> eval E ns v z rs rc q (K q)) \<longrightarrow>
     resumes E ns v t rs rc p (\<exists>q. L p q \<and> K q))"

text \<open>A branch with another way, or the last of its chain.\<close>

lemma choice_tries:
  assumes br: "n_op (fetch_node ns a) = opBranch" and one: "enters E ns v (a + 1) z L"
    and two: "resumes_as E ns v (a + n_ref (fetch_node ns a)) z M" and nz: "n_ref (fetch_node ns a) \<noteq> 0"
    and K: "\<And>q. L p q \<or> M p q \<Longrightarrow> eval E ns v z rs rc q (K q)"
  shows "tries E ns v a rs rc p (\<exists>q. (L p q \<or> M p q) \<and> K q)"
proof -
  have "eval E ns v (a + 1) rs rc p (\<exists>q. L p q \<and> K q)" by (rule entersD [OF one]) (use K in blast)
  moreover have "resumes E ns v (a + n_ref (fetch_node ns a)) rs rc p (\<exists>q. M p q \<and> K q)"
    using two K unfolding resumes_as_def by blast
  ultimately have "tries E ns v a rs rc p ((\<exists>q. L p q \<and> K q) \<or> n_ref (fetch_node ns a) \<noteq> 0 \<and> (\<exists>q. M p q \<and> K q))"
    using tries_cases [OF br] by blast
  moreover have "((\<exists>q. L p q \<and> K q) \<or> n_ref (fetch_node ns a) \<noteq> 0 \<and> (\<exists>q. M p q \<and> K q)) = (\<exists>q. (L p q \<or> M p q) \<and> K q)"
    using nz by blast
  ultimately show ?thesis by simp
qed

lemma choice_enters:
  assumes "n_op (fetch_node ns a) = opBranch" and "enters E ns v (a + 1) z L"
    and "resumes_as E ns v (a + n_ref (fetch_node ns a)) z M" and "n_ref (fetch_node ns a) \<noteq> 0"
  shows "enters E ns v a z (\<lambda>p q. L p q \<or> M p q)"
  by (rule entersI, rule eval_branch [OF assms(1)], rule choice_tries [OF assms]) blast

lemma choice_resumes:
  assumes "n_op (fetch_node ns a) = opBranch" and "enters E ns v (a + 1) z L"
    and "resumes_as E ns v (a + n_ref (fetch_node ns a)) z M" and "n_ref (fetch_node ns a) \<noteq> 0"
  shows "resumes_as E ns v a z (\<lambda>p q. L p q \<or> M p q)"
  unfolding resumes_as_def
proof (intro allI impI)
  fix rs rc p K
  assume "\<forall>q. L p q \<or> M p q \<longrightarrow> eval E ns v z rs rc q (K q)"
  then have "tries E ns v a rs rc p (\<exists>q. (L p q \<or> M p q) \<and> K q)"
    by (intro choice_tries [OF assms]) blast
  then show "resumes E ns v a rs rc p (\<exists>q. (L p q \<or> M p q) \<and> K q)" using assms(4) by (simp add: resumes_def)
qed

lemma last_resumes:
  assumes "n_ref (fetch_node ns a) = 0" and "enters E ns v (a + 1) z L"
  shows "resumes_as E ns v a z L"
  unfolding resumes_as_def
proof (intro allI impI)
  fix rs rc p K
  assume "\<forall>q. L p q \<longrightarrow> eval E ns v z rs rc q (K q)"
  then have "eval E ns v (a + 1) rs rc p (\<exists>q. L p q \<and> K q)" using entersD [OF assms(2)] by simp
  then show "resumes E ns v a rs rc p (\<exists>q. L p q \<and> K q)" using assms(1) by (simp add: resumes_def)
qed

lemma last_enters:
  assumes br: "n_op (fetch_node ns a) = opBranch" "n_ref (fetch_node ns a) = 0" and one: "enters E ns v (a + 1) z L"
  shows "enters E ns v a z L"
proof (rule entersI)
  fix rs rc p K
  assume "\<And>q. L p q \<Longrightarrow> eval E ns v z rs rc q (K q)"
  then have "eval E ns v (a + 1) rs rc p (\<exists>q. L p q \<and> K q)" by (rule entersD [OF one])
  from tries_cases [OF br(1) this, of False] br(2) have "tries E ns v a rs rc p (\<exists>q. L p q \<and> K q)" by simp
  then show "eval E ns v a rs rc p (\<exists>q. L p q \<and> K q)" by (rule eval_branch [OF br(1)])
qed

lemma enters_self: "enters E ns v a a (=)"
proof (rule entersI)
  fix rs rc p K
  assume "\<And>q. p = q \<Longrightarrow> eval E ns v a rs rc q (K q)"
  moreover have "(\<exists>q. p = q \<and> K q) = K p" by simp
  ultimately show "eval E ns v a rs rc p (\<exists>q. p = q \<and> K q)" by simp
qed

text \<open>A body repeated a fixed number of times.\<close>

lemma repeat_enters:
  assumes st: "n_op (fetch_node ns a) = opRepeatingRefStart" "n_len (fetch_node ns a) = int n" "a + n_ref (fetch_node ns a) = e"
    and en: "n_op (fetch_node ns e) = opRepeatingRefEnd" "e + n_ref (fetch_node ns e) = a"
    and body: "enters E ns v (a + 1) e L"
  shows "enters E ns v a (e + 1) (L ^^ n)"
proof (rule entersI)
  fix rs rc p K
  assume K: "\<And>q. (L ^^ n) p q \<Longrightarrow> eval E ns v (e + 1) rs rc q (K q)"
  have "(\<And>q. (L ^^ m) p q \<Longrightarrow> eval E ns v (e + 1) rs rc q (K q)) \<Longrightarrow>
      eval E ns v e (rc # rs) (int m) p (\<exists>q. (L ^^ m) p q \<and> K q)" for m
  proof (induction m arbitrary: p)
    case 0
    then have "eval E ns v e (rc # rs) 0 p (K p)" using eval_repeat_done [OF en(1)] by simp
    then show ?case by simp
  next
    case (Suc m)
    have "eval E ns v e (rc # rs) (int m) q (\<exists>r. (L ^^ m) q r \<and> K r)" if "L p q" for q
      using Suc.IH [of q] Suc.prems that by (meson relpowp_Suc_I2)
    then have "eval E ns v (a + 1) (rc # rs) (int m) p (\<exists>q. L p q \<and> (\<exists>r. (L ^^ m) q r \<and> K r))"
      by (rule entersD [OF body])
    moreover have "(\<exists>q. L p q \<and> (\<exists>r. (L ^^ m) q r \<and> K r)) = (\<exists>r. (L ^^ Suc m) p r \<and> K r)"
      by (meson relpowp_Suc_I2 relpowp_Suc_E2)
    ultimately have "eval E ns v (e + n_ref (fetch_node ns e) + 1) (rc # rs) (int (Suc m) - 1) p (\<exists>r. (L ^^ Suc m) p r \<and> K r)"
      using en(2) by simp
    then show ?case using eval_repeat_more [OF en(1)] by simp
  qed
  from this [OF K] have "eval E ns v (a + n_ref (fetch_node ns a)) (rc # rs) (n_len (fetch_node ns a)) p (\<exists>q. (L ^^ n) p q \<and> K q)"
    using st by simp
  then show "eval E ns v a rs rc p (\<exists>q. (L ^^ n) p q \<and> K q)" by (rule eval_repeat_start [OF st(1)])
qed

section \<open>The pieces the parser emits\<close>

lemma nth_code:
  "k = int (length pre) \<Longrightarrow> fetch_node (pre @ x # post) k = x"
  by (simp add: fetch_node_def)

lemma fetch_first [simp]: "fetch_node (pre @ x # post) (int (length pre)) = x"
  by (simp add: nth_code)

lemma node_simps [simp]:
  "n_op (node_ref o1 r) = o1" "n_ref (node_ref o1 r) = r" "n_op (node_str o1 s) = o1" "n_ref (node_str o1 s) = 0"
  "n_op (node_rep o1 l r) = o1" "n_ref (node_rep o1 l r) = r" "n_len (node_rep o1 l r) = l" "n_str (node_str o1 s) = s"
  by (simp_all add: node_ref_def node_str_def node_rep_def)

lemma chars_code:
  assumes "reading (n_op nd)"
  shows "implements E v [nd] (\<lambda>p q. match_chars E nd v p = Some (q - p) \<and> p \<le> q)"
  unfolding implements_def
proof (intro allI, rule entersI)
  fix pre post rs rc p K
  let ?ns = "pre @ [nd] @ post" and ?k = "int (length pre)"
  assume K: "\<And>q. match_chars E nd v p = Some (q - p) \<and> p \<le> q \<Longrightarrow> eval E ?ns v (int (length pre + length [nd])) rs rc q (K q)"
  have nd: "fetch_node ?ns ?k = nd" by simp
  show "eval E ?ns v ?k rs rc p (\<exists>q. (match_chars E nd v p = Some (q - p) \<and> p \<le> q) \<and> K q)"
  proof (cases "match_chars E nd v p")
    case None
    have "eval E ?ns v ?k rs rc p False" by (rule eval_chars_fail) (simp_all add: nd assms None)
    then show ?thesis using None by simp
  next
    case (Some n)
    have "eval E ?ns v (?k + 1) rs rc (p + n) (K (p + n))" using K [of "p + n"] Some by (simp add: add.commute)
    then have "eval E ?ns v ?k rs rc p (K (p + n))" by (rule eval_chars [rotated 2]) (simp_all add: nd assms Some)
    moreover have "(match_chars E nd v p = Some (q - p) \<and> p \<le> q) = (q = p + n)" for q
      using Some by auto
    then have "(\<exists>q. (match_chars E nd v p = Some (q - p) \<and> p \<le> q) \<and> K q) = K (p + n)" by simp
    ultimately show ?thesis by simp
  qed
qed

lemma nothing_code:
  fixes v :: "'a similar_value"
  shows "implements E v [node opNothing] (=)"
  unfolding implements_def
proof (intro allI, rule entersI)
  fix pre post rs rc p K
  let ?ns = "pre @ [node opNothing :: 'a similar_node] @ post"
  assume K: "\<And>q. p = q \<Longrightarrow> eval E ?ns v (int (length pre + length [node opNothing :: 'a similar_node])) rs rc q (K q)"
  have "eval E ?ns v (int (length pre)) rs rc p (K p)"
    by (rule eval_nothing) (use K [OF refl] in \<open>simp_all add: add.commute\<close>)
  then show "eval E ?ns v (int (length pre)) rs rc p (\<exists>q. p = q \<and> K q)" by simp
qed

lemma implements_eq: "implements E v c L \<Longrightarrow> c = d \<Longrightarrow> L = M \<Longrightarrow> implements E v d M"
  by simp

lemma star_code:
  assumes body: "implements E v body L" and prog: "progress (length v) L"
  shows "implements E v (node_ref opBranch (int (length body) + 2) # body @ [node_ref opRef (- int (length body) - 1), node opBranch]) L\<^sup>*\<^sup>*"
    (is "implements E v ?code _")
  unfolding implements_def
proof (intro allI)
  fix pre post
  define ns where "ns = pre @ ?code @ post"
  define a where "a = int (length pre)"
  let ?n = "int (length body)"
  have n0: "fetch_node ns a = node_ref opBranch (?n + 2)" by (simp add: ns_def a_def)
  have n1: "fetch_node ns (a + 1 + ?n) = node_ref opRef (- ?n - 1)"
    using nth_code [of "a + 1 + ?n" "pre @ node_ref opBranch (?n + 2) # body"] by (simp add: ns_def a_def)
  have n2: "fetch_node ns (a + (?n + 2)) = node opBranch"
    using nth_code [of "a + (?n + 2)" "pre @ node_ref opBranch (?n + 2) # body @ [node_ref opRef (- ?n - 1)]"]
    by (simp add: ns_def a_def)
  have "enters E ns v (a + 1) (a + 1 + ?n) L"
    by (rule enters_code [OF body, where pre = "pre @ [node_ref opBranch (?n + 2)]"]) (simp_all add: ns_def a_def)
  then have "enters E ns v (a + 1) a L" by (rule enters_ref) (simp_all add: n1)
  then have "enters E ns v a (a + (?n + 2) + 1) L\<^sup>*\<^sup>*"
    by (intro loop_enters) (simp_all add: n0 n2 prog)
  then show "enters E (pre @ ?code @ post) v (int (length pre)) (int (length pre + length ?code)) L\<^sup>*\<^sup>*"
    by (simp add: ns_def a_def add.commute add.left_commute)
qed

lemma plus_code:
  assumes body: "implements E v body L" and prog: "progress (length v) L"
  shows "implements E v (body @ [node_ref opBranch 2, node_ref opRef (- int (length body) - 1), node opBranch]) (L OO L\<^sup>*\<^sup>*)"
    (is "implements E v ?code _")
  unfolding implements_def
proof (intro allI)
  fix pre post
  define ns where "ns = pre @ ?code @ post"
  define a where "a = int (length pre)"
  let ?n = "int (length body)"
  have n0: "fetch_node ns (a + ?n) = node_ref opBranch 2"
    using nth_code [of "a + ?n" "pre @ body"] by (simp add: ns_def a_def)
  have n1: "fetch_node ns (a + ?n + 1) = node_ref opRef (- ?n - 1)"
    using nth_code [of "a + ?n + 1" "pre @ body @ [node_ref opBranch 2]"] by (simp add: ns_def a_def)
  have n2: "fetch_node ns (a + ?n + 2) = node opBranch"
    using nth_code [of "a + ?n + 2" "pre @ body @ [node_ref opBranch 2, node_ref opRef (- ?n - 1)]"]
    by (simp add: ns_def a_def)
  have b: "enters E ns v a (a + ?n) L"
    by (rule enters_code [OF body, where pre = pre]) (simp_all add: ns_def a_def)
  have "enters E ns v (a + ?n + 1) (a + ?n) L"
    by (rule enters_from_ref [OF b]) (simp_all add: n1)
  then have "enters E ns v (a + ?n) (a + ?n + 2 + 1) L\<^sup>*\<^sup>*"
    by (intro loop_enters) (simp_all add: n0 n2 prog)
  from enters_trans [OF b this]
  show "enters E (pre @ ?code @ post) v (int (length pre)) (int (length pre + length ?code)) (L OO L\<^sup>*\<^sup>*)"
    by (simp add: ns_def a_def add.commute add.left_commute)
qed

lemma optional_code:
  assumes body: "implements E v body L"
  shows "implements E v (node_ref opBranch (int (length body) + 1) # body @ [node opBranch]) (\<lambda>p q. L p q \<or> p = q)"
    (is "implements E v ?code _")
  unfolding implements_def
proof (intro allI)
  fix pre post
  define ns where "ns = pre @ ?code @ post"
  define a where "a = int (length pre)"
  let ?n = "int (length body)"
  have n0: "fetch_node ns a = node_ref opBranch (?n + 1)" by (simp add: ns_def a_def)
  have n1: "fetch_node ns (a + (?n + 1)) = node opBranch"
    using nth_code [of "a + (?n + 1)" "pre @ node_ref opBranch (?n + 1) # body"] by (simp add: ns_def a_def)
  have b: "enters E ns v (a + 1) (a + (?n + 1)) L"
    by (rule enters_code [OF body, where pre = "pre @ [node_ref opBranch (?n + 1)]"]) (simp_all add: ns_def a_def)
  have e: "enters E ns v (a + (?n + 1)) (a + (?n + 1) + 1) (=)"
    by (rule last_enters) (simp_all add: n1 enters_self)
  have "enters E ns v (a + 1) (a + (?n + 1) + 1) L"
    using enters_trans [OF b e] by (simp add: OO_eq)
  moreover have "resumes_as E ns v (a + (?n + 1)) (a + (?n + 1) + 1) (=)"
    by (rule last_resumes) (simp_all add: n1 enters_self)
  ultimately have "enters E ns v a (a + (?n + 1) + 1) (\<lambda>p q. L p q \<or> p = q)"
    by (intro choice_enters) (simp_all add: n0)
  then show "enters E (pre @ ?code @ post) v (int (length pre)) (int (length pre + length ?code)) (\<lambda>p q. L p q \<or> p = q)"
    by (simp add: ns_def a_def add.commute add.left_commute)
qed

lemma repeat_code:
  assumes body: "implements E v body L"
  shows "implements E v (node_rep opRepeatingRefStart (int m) (int (length body) + 1) # body @
     [node_ref opRepeatingRefEnd (- int (length body) - 1)]) (L ^^ m)"
    (is "implements E v ?code _")
  unfolding implements_def
proof (intro allI)
  fix pre post
  define ns where "ns = pre @ ?code @ post"
  define a where "a = int (length pre)"
  let ?n = "int (length body)"
  have n0: "fetch_node ns a = node_rep opRepeatingRefStart (int m) (?n + 1)" by (simp add: ns_def a_def)
  have n1: "fetch_node ns (a + (?n + 1)) = node_ref opRepeatingRefEnd (- ?n - 1)"
    using nth_code [of "a + (?n + 1)" "pre @ node_rep opRepeatingRefStart (int m) (?n + 1) # body"]
    by (simp add: ns_def a_def)
  have "enters E ns v (a + 1) (a + (?n + 1)) L"
    by (rule enters_code [OF body, where pre = "pre @ [node_rep opRepeatingRefStart (int m) (?n + 1)]"])
      (simp_all add: ns_def a_def)
  then have "enters E ns v a (a + (?n + 1) + 1) (L ^^ m)"
    by (intro repeat_enters) (simp_all add: n0 n1)
  then show "enters E (pre @ ?code @ post) v (int (length pre)) (int (length pre + length ?code)) (L ^^ m)"
    by (simp add: ns_def a_def add.commute add.left_commute)
qed

text \<open>
  The alternatives of an expression, each with the number of its branch: every branch refers to
  the next one, the last one to none, and after each alternative a reference leads to the end.
\<close>

definition numbered :: "int \<Rightarrow> 'c similar_node \<Rightarrow> 'c similar_node" where
  "numbered b nd = nd\<lparr>n_branchNum := b\<rparr>"

lemma numbered_simps [simp]:
  "n_op (numbered b nd) = n_op nd" "n_ref (numbered b nd) = n_ref nd"
  by (simp_all add: numbered_def)

fun alternatives_code :: "(int \<times> 'c similar_node list) list \<Rightarrow> 'c similar_node list" where
  "alternatives_code [] = []"
| "alternatives_code ((b, c) # alts) =
     (if alts = [] then numbered b (node_ref opBranch 0) # c @ [numbered b (node_ref opRef 1)]
      else numbered b (node_ref opBranch (int (length c) + 2)) # c @
           numbered b (node_ref opRef (1 + int (length (alternatives_code alts)))) # alternatives_code alts)"

definition any_of :: "span list \<Rightarrow> span" where
  "any_of Ls p q \<longleftrightarrow> (\<exists>L \<in> set Ls. L p q)"

lemma any_of_simps: "any_of [L] = L" "any_of (L # Ls) = (\<lambda>p q. L p q \<or> any_of Ls p q)"
  by (auto simp: any_of_def fun_eq_iff)

lemma alternatives_enter:
  assumes "alts \<noteq> []" and "list_all2 (\<lambda>a L. implements E v (snd a) L) alts Ls"
    and "ns = pre @ alternatives_code alts @ post" and "a = int (length pre)" and "z = a + int (length (alternatives_code alts))"
  shows "enters E ns v a z (any_of Ls) \<and> resumes_as E ns v a z (any_of Ls)"
  using assms
proof (induction alts arbitrary: Ls pre a)
  case (Cons alt alts)
  obtain b c where alt: "alt = (b, c)" by (cases alt)
  obtain L Ls' where Ls: "Ls = L # Ls'" and c: "implements E v c L"
    and rest: "list_all2 (\<lambda>a L. implements E v (snd a) L) alts Ls'"
    using Cons.prems(2) by (auto simp: alt list_all2_Cons1)
  let ?n = "int (length c)"
  define br where "br = numbered b (node_ref opBranch (if alts = [] then 0 else ?n + 2) :: 'a similar_node)"
  define rf where "rf = numbered b (node_ref opRef (1 + int (length (alternatives_code alts))) :: 'a similar_node)"
  have code: "alternatives_code (alt # alts) = br # c @ rf # alternatives_code alts"
    by (simp add: alt br_def rf_def)
  have ns: "ns = pre @ br # c @ rf # alternatives_code alts @ post" using Cons.prems(3) code by simp
  have z: "z = a + 1 + ?n + 1 + int (length (alternatives_code alts))" using Cons.prems(5) code by simp
  note a = Cons.prems(4)
  have n0: "fetch_node ns a = br" by (simp add: ns a)
  have n1: "fetch_node ns (a + 1 + ?n) = rf"
    using nth_code [of "a + 1 + ?n" "pre @ br # c" rf "alternatives_code alts @ post"] by (simp add: ns a)
  have "enters E ns v (a + 1) (a + 1 + ?n) L"
    by (rule enters_code [OF c, where pre = "pre @ [br]"]) (simp_all add: ns a)
  then have one: "enters E ns v (a + 1) z L"
    by (rule enters_ref) (simp_all add: n1 rf_def z)
  show ?case
  proof (cases "alts = []")
    case True
    then have "Ls' = []" using rest by simp
    then show ?thesis
      using True last_enters [OF _ _ one] last_resumes [OF _ one] by (simp add: n0 br_def Ls any_of_simps(1))
  next
    case False
    have "enters E ns v (a + (?n + 2)) z (any_of Ls') \<and> resumes_as E ns v (a + (?n + 2)) z (any_of Ls')"
      by (rule Cons.IH [OF False rest, where pre = "pre @ br # c @ [rf]"]) (simp_all add: ns a z)
    then have two: "resumes_as E ns v (a + n_ref (fetch_node ns a)) z (any_of Ls')" by (simp add: n0 br_def False)
    show ?thesis
      unfolding Ls any_of_simps(2)
      using choice_enters [OF _ one two] choice_resumes [OF _ one two] by (simp add: n0 br_def False)
  qed
qed simp

lemma alternatives_code_implements:
  assumes "alts \<noteq> []" and "list_all2 (\<lambda>a L. implements E v (snd a) L) alts Ls"
  shows "implements E v (alternatives_code alts) (any_of Ls)"
  unfolding implements_def using alternatives_enter [OF assms] by auto

end
