(* ===== verification/FB_Similar_Regex.thy ===== *)
theory FB_Similar_Regex
  imports FB_Similar_Machine
begin

text \<open>
  What a SIMILAR TO pattern means: regular expressions with the constructs the parser of
  \<^verbatim>\<open>SimilarToMatcher\<close> knows, the strings each one matches, and the spans of a value that belong
  to it, in the form in which the code pieces of \<open>FB_Similar_Machine\<close> implement them.
\<close>

section \<open>Regular expressions\<close>

datatype 'c regex =
    Letter 'c
  | AnyOne
  | AnyMany
  | OneOf "'c similar_node"
  | Seq "'c regex list"
  | Choice "'c regex list"
  | Star "'c regex"
  | Plus "'c regex"
  | Opt "'c regex"
  | AtLeast nat "'c regex"
  | Between nat nat "'c regex"

definition conc :: "'a list set \<Rightarrow> 'a list set \<Rightarrow> 'a list set" where
  "conc A B = {u @ w |u w. u \<in> A \<and> w \<in> B}"

primrec power_lang :: "nat \<Rightarrow> 'a list set \<Rightarrow> 'a list set" where
  "power_lang 0 A = {[]}"
| "power_lang (Suc n) A = conc A (power_lang n A)"

definition concs :: "'a list set list \<Rightarrow> 'a list set" where
  "concs As = foldr conc As {[]}"

text \<open>A bracket expression: listed or in a range, where nothing listed before the circumflex means everything.\<close>

definition in_class :: "'c similar_env \<Rightarrow> 'c similar_node \<Rightarrow> 'c similar_char \<Rightarrow> bool" where
  "in_class E nd x \<longleftrightarrow>
     (n_str nd = [] \<and> n_str2 nd = [] \<or> canon x \<in> set (n_str nd) \<or> in_ranges E (n_str2 nd) (orig x)) \<and>
     canon x \<notin> set (n_str3 nd) \<and> \<not> in_ranges E (n_str4 nd) (orig x)"

primrec lang :: "'c similar_env \<Rightarrow> 'c regex \<Rightarrow> 'c similar_value set" where
  "lang E (Letter c) = {[x] |x. canon x = c}"
| "lang E AnyOne = {[x] |x. True}"
| "lang E AnyMany = UNIV"
| "lang E (OneOf nd) = {[x] |x. in_class E nd x}"
| "lang E (Seq rs) = concs (map (lang E) rs)"
| "lang E (Choice rs) = \<Union> (set (map (lang E) rs))"
| "lang E (Star r) = (\<Union>n. power_lang n (lang E r))"
| "lang E (Plus r) = (\<Union>n. power_lang (Suc n) (lang E r))"
| "lang E (Opt r) = lang E r \<union> {[]}"
| "lang E (AtLeast n r) = (\<Union>k\<in>{n..}. power_lang k (lang E r))"
| "lang E (Between n m r) = (\<Union>k\<in>{n..m}. power_lang k (lang E r))"

text \<open>Whether the empty string matches.\<close>

primrec nullable :: "'c regex \<Rightarrow> bool" where
  "nullable (Letter c) = False"
| "nullable AnyOne = False"
| "nullable AnyMany = True"
| "nullable (OneOf nd) = False"
| "nullable (Seq rs) = list_all id (map nullable rs)"
| "nullable (Choice rs) = list_ex id (map nullable rs)"
| "nullable (Star r) = True"
| "nullable (Plus r) = nullable r"
| "nullable (Opt r) = True"
| "nullable (AtLeast n r) = (n = 0 \<or> nullable r)"
| "nullable (Between n m r) = (n \<le> m \<and> (n = 0 \<or> nullable r))"

text \<open>Nothing that matches the empty string is repeated without a bound.\<close>

primrec productive :: "'c regex \<Rightarrow> bool" where
  "productive (Letter c) = True"
| "productive AnyOne = True"
| "productive AnyMany = True"
| "productive (OneOf nd) = True"
| "productive (Seq rs) = list_all id (map productive rs)"
| "productive (Choice rs) = list_all id (map productive rs)"
| "productive (Star r) = (productive r \<and> \<not> nullable r)"
| "productive (Plus r) = (productive r \<and> \<not> nullable r)"
| "productive (Opt r) = productive r"
| "productive (AtLeast n r) = (productive r \<and> \<not> nullable r)"
| "productive (Between n m r) = productive r"

lemma concs_simps: "concs [] = {[]}" "concs (A # As) = conc A (concs As)"
  by (simp_all add: concs_def)

lemma Nil_in_conc [simp]: "[] \<in> conc A B \<longleftrightarrow> [] \<in> A \<and> [] \<in> B"
  by (auto simp: conc_def)

lemma Nil_in_concs: "[] \<in> concs As \<longleftrightarrow> (\<forall>A \<in> set As. [] \<in> A)"
  by (induction As) (simp_all add: concs_simps)

lemma Nil_in_power: "[] \<in> power_lang n A \<longleftrightarrow> n = 0 \<or> [] \<in> A"
  by (induction n) auto

lemma nullable_iff: "nullable r \<longleftrightarrow> [] \<in> lang E r"
proof (induction r)
  case (AtLeast n r)
  then show ?case by (auto simp: Nil_in_power intro: bexI [of _ n])
next
  case (Between n m r)
  then show ?case by (auto simp: Nil_in_power intro: bexI [of _ n])
qed (auto simp: Nil_in_concs Nil_in_power list_all_iff list_ex_iff)

section \<open>Spans of a language\<close>

definition span_of :: "'a list \<Rightarrow> 'a list set \<Rightarrow> span" where
  "span_of v A p q \<longleftrightarrow> p \<le> q \<and> (p < q \<longrightarrow> q \<le> length v) \<and> take (q - p) (drop p v) \<in> A"

lemma take_drop_split:
  "p \<le> m \<Longrightarrow> m \<le> q \<Longrightarrow> take (q - p) (drop p v) = take (m - p) (drop p v) @ take (q - m) (drop m v)"
proof -
  assume le: "p \<le> m" "m \<le> q"
  then have "q - p = (m - p) + (q - m)" and "m - p + p = m" by simp_all
  then show ?thesis by (simp only: take_add drop_drop)
qed

lemma span_of_conc: "span_of v (conc A B) = span_of v A OO span_of v B"
proof (intro ext iffI)
  fix p q
  assume L: "span_of v (conc A B) p q"
  then obtain u w where uw: "take (q - p) (drop p v) = u @ w" "u \<in> A" "w \<in> B" by (auto simp: span_of_def conc_def)
  have pq: "p \<le> q" "p < q \<longrightarrow> q \<le> length v" using L by (auto simp: span_of_def)
  have len: "length u + length w = q - p"
    using arg_cong [OF uw(1), of length] pq by (cases "p < q") auto
  define m where "m = p + length u"
  have m: "p \<le> m" "m \<le> q" using len pq by (auto simp: m_def)
  have "u @ w = take (m - p) (drop p v) @ take (q - m) (drop m v)"
    using take_drop_split [OF m, of v] uw(1) by simp
  moreover have "length u = length (take (m - p) (drop p v))"
    using pq m by (cases "p < q") (auto simp: m_def)
  ultimately have "u = take (m - p) (drop p v)" "w = take (q - m) (drop m v)" by simp_all
  then show "(span_of v A OO span_of v B) p q" using m pq uw by (auto simp: span_of_def intro!: relcomppI [of _ p m])
next
  fix p q
  assume "(span_of v A OO span_of v B) p q"
  then obtain m where m: "span_of v A p m" "span_of v B m q" by blast
  then have pm: "p \<le> m" "m \<le> q" by (auto simp: span_of_def)
  then show "span_of v (conc A B) p q"
  proof -
    have "take (q - p) (drop p v) \<in> conc A B"
      using m unfolding take_drop_split [OF pm, of v] conc_def span_of_def by blast
    moreover have "p < q \<longrightarrow> q \<le> length v"
      using m pm by (cases "m < q") (auto simp: span_of_def)
    ultimately show ?thesis using pm by (auto simp: span_of_def)
  qed
qed

lemma span_of_Nil: "span_of v {[]} = (=)"
  by (auto simp: span_of_def fun_eq_iff)

lemma span_of_concs: "span_of v (concs As) = foldr (OO) (map (span_of v) As) (=)"
  by (induction As) (simp_all add: concs_simps span_of_Nil span_of_conc)

lemma relpowp_Suc': "L ^^ Suc n = L OO L ^^ n"
  by (metis relpowp.simps(2) relpowp_commute)

lemma span_of_power: "span_of v (power_lang n A) = span_of v A ^^ n"
proof (induction n)
  case 0
  then show ?case by (simp add: span_of_Nil)
next
  case (Suc n)
  then show ?case unfolding relpowp_Suc' by (simp add: span_of_conc)
qed

lemma span_of_UN: "span_of v (\<Union>i\<in>I. A i) p q \<longleftrightarrow> (\<exists>i\<in>I. span_of v (A i) p q)"
  by (auto simp: span_of_def)

lemma span_of_star: "span_of v (\<Union>n. power_lang n A) = (span_of v A)\<^sup>*\<^sup>*"
  by (intro ext) (simp add: span_of_UN span_of_power rtranclp_power)

lemma span_of_plus: "span_of v (\<Union>n. power_lang (Suc n) A) = span_of v A OO (span_of v A)\<^sup>*\<^sup>*"
  unfolding span_of_star [symmetric] span_of_conc [symmetric]
  by (rule arg_cong [where f = "span_of v"]) (auto simp: conc_def)

lemma span_of_opt: "span_of v (A \<union> {[]}) = (\<lambda>p q. span_of v A p q \<or> p = q)"
  by (auto simp: span_of_def fun_eq_iff)

lemma span_of_progress:
  assumes "[] \<notin> A"
  shows "progress (length v) (span_of v A)"
  unfolding progress_def span_of_def using assms by (metis diff_self_eq_0 le_neq_implies_less take0)

text \<open>Bounded repetition.\<close>

lemma relpowp_add: "L ^^ (m + n) = (L ^^ m) OO (L ^^ n)"
  by (induction n) (simp_all add: relcompp_assoc OO_eq)

lemma relpowp_opt: "((\<lambda>p q. L p q \<or> p = q) ^^ k) p q \<longleftrightarrow> (\<exists>j\<le>k. (L ^^ j) p q)"
proof (induction k arbitrary: p)
  case (Suc k)
  have "((\<lambda>p q. L p q \<or> p = q) ^^ Suc k) p q \<longleftrightarrow> (\<exists>r. (L p r \<or> p = r) \<and> (\<exists>j\<le>k. (L ^^ j) r q))"
    unfolding relpowp_Suc' using Suc.IH by (auto simp: relcompp_apply)
  also have "\<dots> \<longleftrightarrow> (\<exists>j\<le>k. (L ^^ j) p q) \<or> (\<exists>j\<le>k. (L ^^ Suc j) p q)"
    unfolding relpowp_Suc' by auto
  also have "\<dots> \<longleftrightarrow> (\<exists>j\<le>Suc k. (L ^^ j) p q)"
    by (metis le_Suc_eq le_zero_eq not0_implies_Suc Suc_le_mono le0)
  finally show ?case .
qed simp

lemma span_of_atleast: "span_of v (\<Union>k\<in>{n..}. power_lang k A) = (span_of v A ^^ n) OO (span_of v A)\<^sup>*\<^sup>*"
proof (intro ext)
  fix p q
  have "span_of v (\<Union>k\<in>{n..}. power_lang k A) p q \<longleftrightarrow> (\<exists>j. (span_of v A ^^ (n + j)) p q)"
    by (simp add: span_of_UN span_of_power) (metis atLeast_iff le_Suc_ex le_add1)
  also have "\<dots> \<longleftrightarrow> ((span_of v A ^^ n) OO (span_of v A)\<^sup>*\<^sup>*) p q"
    by (auto simp: relpowp_add relcompp_apply rtranclp_power)
  finally show "span_of v (\<Union>k\<in>{n..}. power_lang k A) p q = ((span_of v A ^^ n) OO (span_of v A)\<^sup>*\<^sup>*) p q" .
qed

lemma span_of_between:
  assumes "n \<le> m"
  shows "span_of v (\<Union>k\<in>{n..m}. power_lang k A) = (span_of v A ^^ n) OO ((\<lambda>p q. span_of v A p q \<or> p = q) ^^ (m - n))"
proof (intro ext)
  fix p q
  have "span_of v (\<Union>k\<in>{n..m}. power_lang k A) p q \<longleftrightarrow> (\<exists>j\<le>m - n. (span_of v A ^^ (n + j)) p q)"
  proof -
    have "(\<exists>k\<in>{n..m}. P k) \<longleftrightarrow> (\<exists>j\<le>m - n. P (n + j))" for P
    proof
      assume "\<exists>k\<in>{n..m}. P k"
      then obtain k where "n \<le> k" "k \<le> m" "P k" by auto
      then have "k - n \<le> m - n" "P (n + (k - n))" by auto
      then show "\<exists>j\<le>m - n. P (n + j)" by blast
    next
      assume "\<exists>j\<le>m - n. P (n + j)"
      then obtain j where "j \<le> m - n" "P (n + j)" by blast
      then show "\<exists>k\<in>{n..m}. P k" using assms by (intro bexI [of _ "n + j"]) auto
    qed
    then show ?thesis by (simp add: span_of_UN span_of_power)
  qed
  also have "\<dots> \<longleftrightarrow> ((span_of v A ^^ n) OO ((\<lambda>p q. span_of v A p q \<or> p = q) ^^ (m - n))) p q"
    by (auto simp: relpowp_add relcompp_apply relpowp_opt)
  finally show "span_of v (\<Union>k\<in>{n..m}. power_lang k A) p q =
      ((span_of v A ^^ n) OO ((\<lambda>p q. span_of v A p q \<or> p = q) ^^ (m - n))) p q" .
qed

section \<open>Single characters and strings\<close>

lemma notInSet_one: "notInSet [c] cs = 0 \<longleftrightarrow> c \<in> set cs"
  by simp

lemma match_set_in_class: "match_set E nd x = in_class E nd x"
  by (auto simp: match_set_def in_class_def)

lemma span_of_one:
  "span_of v {[x] |x. P x} p q \<longleftrightarrow> q = p + 1 \<and> p < length v \<and> P (v ! p)"
proof -
  have one: "take (q - p) (drop p v) = [x] \<longleftrightarrow> q = p + 1 \<and> x = v ! p" if "p < q" "q \<le> length v" for x
  proof -
    have "drop p v = v ! p # drop (Suc p) v" using that by (simp add: Cons_nth_drop_Suc)
    moreover have "q - p - 1 = 0 \<longleftrightarrow> q = p + 1" using that by auto
    moreover have "drop (Suc p) v = [] \<longrightarrow> q = p + 1" using that by auto
    ultimately show ?thesis using that by (cases "q - p") auto
  qed
  have "span_of v {[x] |x. P x} p q \<longleftrightarrow> p < q \<and> q \<le> length v \<and> (\<exists>x. take (q - p) (drop p v) = [x] \<and> P x)"
    by (cases "p < q") (auto simp: span_of_def)
  also have "\<dots> \<longleftrightarrow> p < q \<and> q \<le> length v \<and> (\<exists>x. (q = p + 1 \<and> x = v ! p) \<and> P x)"
    using one by blast
  also have "\<dots> \<longleftrightarrow> q = p + 1 \<and> p < length v \<and> P (v ! p)" by auto
  finally show ?thesis .
qed

lemma reading_one:
  assumes "reading (n_op nd)" and "\<And>p. match_chars E nd v p = (if p < length v \<and> P (v ! p) then Some 1 else None)"
  shows "implements E v [nd] (span_of v {[x] |x. P x})"
proof (rule implements_eq [OF chars_code [OF assms(1)] refl], intro ext)
  fix p q
  show "(match_chars E nd v p = Some (q - p) \<and> p \<le> q) = span_of v {[x] |x. P x} p q"
    unfolding span_of_one assms(2) by auto
qed

lemma any_implements: "implements E v [node opAny] (span_of v (lang E AnyOne))"
  unfolding lang.simps
  by (rule reading_one) (auto simp: reading_def match_chars_def)

lemma class_implements:
  assumes "n_op nd = opAnyOf"
  shows "implements E v [nd] (span_of v (lang E (OneOf nd)))"
  unfolding lang.simps
  by (rule reading_one) (auto simp: reading_def assms match_chars_def match_set_in_class)

lemma letter_implements:
  assumes "n_op nd = opExactlyOne" and "n_str nd = [c]"
  shows "implements E v [nd] (span_of v (lang E (Letter c)))"
  unfolding lang.simps
  by (rule reading_one) (auto simp: reading_def match_chars_def assms)

lemma letters_lang: "concs (map (lang E) (map Letter w)) = {u. map canon u = w}"
proof (induction w)
  case (Cons c w)
  have "conc {[x] |x. canon x = c} {u. map canon u = w} = {u. map canon u = c # w}"
    unfolding conc_def by (auto simp: map_eq_Cons_conv) (metis append_Cons append_Nil)
  then show ?case using Cons by (simp add: concs_simps)
qed (simp add: concs_simps)

lemma string_implements:
  assumes "w \<noteq> []" and nd: "n_op nd = opExactly" "n_str nd = w"
  shows "implements E v [nd] (span_of v (lang E (Seq (map Letter w))))"
proof (rule implements_eq [OF chars_code refl])
  show "reading (n_op nd)" by (simp add: reading_def nd)
  show "(\<lambda>p q. match_chars E nd v p = Some (q - p) \<and> p \<le> q) = span_of v (lang E (Seq (map Letter w)))"
  proof (intro ext)
    fix p q
    have "length w \<noteq> 0" using assms by simp
    then have "(length w \<le> length v - p \<and> map canon (take (length w) (drop p v)) = w) \<and> length w = q - p \<and> p \<le> q \<longleftrightarrow>
        p \<le> q \<and> (p < q \<longrightarrow> q \<le> length v) \<and> map canon (take (q - p) (drop p v)) = w"
      by (auto dest: arg_cong [where f = length])
    then show "(match_chars E nd v p = Some (q - p) \<and> p \<le> q) = span_of v (lang E (Seq (map Letter w))) p q"
      unfolding lang.simps letters_lang span_of_def by (auto simp: match_chars_def nd)
  qed
qed

lemma anymany_implements:
  fixes v :: "'a similar_value"
  shows "implements E v [node_ref opBranch 3, node opAny, node_ref opRef (-2), node opBranch] (span_of v (lang E AnyMany))"
proof -
  have "implements E v (node_ref opBranch (int (length [node opAny :: 'a similar_node]) + 2) # [node opAny] @
      [node_ref opRef (- int (length [node opAny :: 'a similar_node]) - 1), node opBranch]) (span_of v (lang E AnyOne))\<^sup>*\<^sup>*"
    by (rule star_code [OF any_implements span_of_progress]) simp
  moreover have "(span_of v (lang E AnyOne))\<^sup>*\<^sup>* = span_of v (lang E AnyMany)"
  proof -
    have "\<exists>n. u \<in> power_lang n {[x] |x. True}" for u :: "'a similar_value"
    proof (induction u)
      case Nil
      show ?case by (rule exI [of _ 0]) simp
    next
      case (Cons x u)
      then obtain n where n: "u \<in> power_lang n {[x] |x. True}" ..
      have "x # u = [x] @ u" by simp
      then have "x # u \<in> power_lang (Suc n) {[x] |x. True}" using n unfolding power_lang.simps conc_def by blast
      then show ?case ..
    qed
    then have "(\<Union>n. power_lang n (lang E AnyOne)) = (UNIV :: 'a similar_value set)" by auto
    then show ?thesis by (simp add: span_of_star [symmetric])
  qed
  ultimately show ?thesis by simp
qed

end
