(* ===== verification/FB_Similar_Parser.thy ===== *)
theory FB_Similar_Parser
  imports FB_Similar "HOL-Library.Sublist"
begin

text \<open>
  The parser of \<^verbatim>\<open>SimilarToMatcher\<close> as a reader of the pattern: every function consumes a prefix
  of what is left, so that the recursive descent ends, with an explicit bound on its depth.
\<close>

section \<open>Consumption\<close>

lemma suffix_tl: "suffix (tl xs) xs"
  by (cases xs) (simp_all add: suffix_ConsI)

lemma suffix_tl_trans: "suffix ys (tl xs) \<Longrightarrow> suffix ys xs"
  using suffix_tl suffix_order.order_trans by blast

lemma suffix_less_tl: "xs \<noteq> [] \<Longrightarrow> suffix ys (tl xs) \<Longrightarrow> suffix ys xs \<and> length ys < length xs"
  using suffix_length_le [of ys "tl xs"] suffix_tl_trans [of ys xs] by (cases xs) auto

lemma at_char_nonempty: "at_char E m ps \<Longrightarrow> ps \<noteq> []"
  by (auto simp: at_char_def)

lemma at_escape_nonempty: "at_escape E ps \<Longrightarrow> ps \<noteq> []"
  by (auto simp: at_escape_def)

lemma check_escaped_nonempty: "check_escaped E ps = Inr u \<Longrightarrow> ps \<noteq> []"
  by (auto simp: check_escaped_def)

lemma parse_set_char_consumes:
  assumes "parse_set_char E b ps s = Inr (ps', s')"
  shows "suffix ps' ps \<and> length ps' < length ps"
proof (cases ps)
  case (Cons c ps1)
  show ?thesis
  proof (cases b)
    case False
    then show ?thesis using assms by (simp add: parse_set_char_def Cons suffix_ConsI)
  next
    case True
    define ps2 where "ps2 = tl ps1"
    obtain ps3 d ps4 where "ps3 = ps2 \<or> ps3 = tl ps2" and "ps3 = d # ps4" and "ps' = ps4"
      using assms True by (auto simp: parse_set_char_def Cons Let_def ps2_def split: sum.splits list.splits if_splits dest!: map_sum_Inr_D)
    then have "suffix ps' (tl ps3)" and "suffix ps3 ps1"
      using suffix_tl [of ps1] suffix_tl_trans [OF suffix_tl, of ps1] by (auto simp: ps2_def)
    then have "suffix ps' ps1" using suffix_tl_trans suffix_order.order_trans by blast
    then show ?thesis using suffix_less_tl [of ps] by (simp add: Cons)
  qed
qed (use assms in \<open>simp add: parse_set_char_def\<close>)

lemma parse_class_consumes:
  assumes "parse_class E ps = Inr (cs, ps')"
  shows "suffix ps' ps"
proof -
  define rest where "rest = dropWhile (\<lambda>c. canon c \<noteq> canonicalChar E CHAR_COLON) (tl ps)"
  have "ps' = tl (tl rest)"
    using assms by (auto simp: parse_class_def Let_def rest_def split: if_splits option.splits)
  then have "suffix ps' rest" using suffix_tl suffix_tl_trans by blast
  also have "suffix rest (tl ps)" by (simp add: rest_def suffix_dropWhile)
  finally show ?thesis by (rule suffix_tl_trans)
qed

text \<open>One round of the loop over a bracket expression, when it is not a circumflex.\<close>

definition set_item ::
  "'c similar_env \<Rightarrow> 'c similar_char list \<Rightarrow> 'c set_state \<Rightarrow> similar_error + ('c similar_char list \<times> 'c set_state)" where
  "set_item E ps s =
     (if at_escape E ps then
        (case check_escaped E (tl ps) of
           Inl e \<Rightarrow> Inl e
         | Inr _ \<Rightarrow> parse_set_char E (at_char E CHAR_MINUS (tl (tl ps))) (tl ps) s)
      else if at_char E CHAR_OPEN_BRACKET ps then
        (case parse_class E (tl ps) of
           Inl e \<Rightarrow> Inl e
         | Inr (cs, ps1) \<Rightarrow> Inr (ps1, s\<lparr>charsBuffer := charsBuffer s @ cs\<rparr>))
      else parse_set_char E (at_char E CHAR_MINUS (tl ps)) ps s)"

definition set_except :: "'c set_state \<Rightarrow> 'c set_state" where
  "set_except s = \<lparr>set_node = store_set s, set_but = True, charsBuffer = [], rangeBuffer = []\<rparr>"

lemma set_loop_Suc:
  "set_loop E (Suc n) ps s =
     (if ps = [] then Inl ISC_INVALID_SIMILAR_PATTERN
      else if \<not> at_escape E ps \<and> at_char E CHAR_CIRCUMFLEX ps then
        (if set_but s then Inl ISC_INVALID_SIMILAR_PATTERN
         else if tl ps = [] then Inl READ_PAST_END
         else if at_char E CHAR_CLOSE_BRACKET (tl ps) then Inr (tl ps, set_except s) else set_loop E n (tl ps) (set_except s))
      else
        (case set_item E ps s of
           Inl e \<Rightarrow> Inl e
         | Inr (ps1, s1) \<Rightarrow>
             if ps1 = [] then Inl ISC_INVALID_SIMILAR_PATTERN
             else if at_char E CHAR_CLOSE_BRACKET ps1 then Inr (ps1, s1) else set_loop E n ps1 s1))"
  by (simp add: set_loop.simps set_item_def set_except_def Let_def)

lemma set_item_consumes:
  assumes "set_item E ps s = Inr (ps', s')" and "ps \<noteq> []"
  shows "suffix ps' ps \<and> length ps' < length ps"
proof (cases "at_escape E ps")
  case True
  then have "suffix ps' (tl ps)"
    using assms(1) by (auto simp: set_item_def split: sum.splits dest!: parse_set_char_consumes)
  then show ?thesis using suffix_less_tl assms(2) by blast
next
  case esc: False
  show ?thesis
  proof (cases "at_char E CHAR_OPEN_BRACKET ps")
    case True
    then have "suffix ps' (tl ps)"
      using assms(1) esc parse_class_consumes by (auto simp: set_item_def split: sum.splits)
    then show ?thesis using suffix_less_tl assms(2) by blast
  next
    case False
    then show ?thesis using assms(1) esc by (auto simp: set_item_def dest: parse_set_char_consumes)
  qed
qed

lemma set_loop_consumes:
  assumes "set_loop E n ps s = Inr (ps', s')"
  shows "suffix ps' ps \<and> at_char E CHAR_CLOSE_BRACKET ps'"
  using assms
proof (induction n arbitrary: ps s)
  case (Suc n)
  then have ne: "ps \<noteq> []" by (auto simp: set_loop_Suc)
  show ?case
  proof (cases "\<not> at_escape E ps \<and> at_char E CHAR_CIRCUMFLEX ps")
    case True
    then have "suffix ps' (tl ps) \<and> at_char E CHAR_CLOSE_BRACKET ps'"
      using Suc.prems Suc.IH [of "tl ps" "set_except s"] by (auto simp: set_loop_Suc split: if_splits)
    then show ?thesis using suffix_tl_trans by blast
  next
    case False
    then obtain ps1 s1 where item: "set_item E ps s = Inr (ps1, s1)"
      using Suc.prems by (auto simp: set_loop_Suc split: if_splits sum.splits)
    then have "suffix ps' ps1 \<and> at_char E CHAR_CLOSE_BRACKET ps'"
      using Suc.prems False Suc.IH [of ps1 s1] by (auto simp: set_loop_Suc split: if_splits)
    then show ?thesis using set_item_consumes [OF item ne] suffix_order.order_trans by blast
  qed
qed simp

lemma parse_set_consumes:
  assumes "parse_set E ps = Inr (ps', nd)"
  shows "suffix ps' ps"
proof -
  obtain ps1 s where "set_loop E (Suc (length ps)) ps \<lparr>set_node = node opAnyOf, set_but = False, charsBuffer = [], rangeBuffer = []\<rparr> = Inr (ps1, s)"
    and "ps' = tl ps1"
    using assms by (auto simp: parse_set_def split: sum.splits)
  then show ?thesis using set_loop_consumes suffix_tl suffix_order.order_trans by metis
qed

lemma brace_loop_consumes:
  "brace_loop E ps bytes comma s1 s2 = Inr (t1, t2, k, ps') \<Longrightarrow> suffix ps' ps"
proof (induction E ps bytes comma s1 s2 rule: brace_loop.induct)
  case (2 E c ps bytes comma s1 s2)
  then show ?case by (fastforce simp: Let_def suffix_ConsI split: if_splits)
qed (simp split: if_splits)

lemma parse_bounds_consumes:
  "parse_bounds E pat ps = Inr (n1, n2, ps') \<Longrightarrow> suffix ps' ps"
  by (auto simp: parse_bounds_def Let_def split: sum.splits if_splits dest: brace_loop_consumes)

lemma parse_repetition_consumes:
  assumes "parse_repetition E pat a fl c st = Inr (fl', st')"
  shows "suffix (patternPos st') (patternPos st)"
proof -
  have "\<exists>ps1. suffix ps1 (patternPos st) \<and> patternPos st' = tl ps1"
    using assms suffix_tl_trans [OF parse_bounds_consumes]
    by (fastforce simp: parse_repetition_def Let_def split: if_splits sum.splits prod.splits)
  then show ?thesis using suffix_tl suffix_order.order_trans by metis
qed

primrec call_state :: "'c parse_call \<Rightarrow> 'c parse_state" where
  "call_state (Expr st) = st"
| "call_state (Alternatives flagp refs st) = st"
| "call_state (Factors first flagp st) = st"
| "call_state (Factor st) = st"
| "call_state (Primary st) = st"

primrec strict_call :: "'c parse_call \<Rightarrow> bool" where
  "strict_call (Expr st) = False"
| "strict_call (Alternatives flagp refs st) = False"
| "strict_call (Factors first flagp st) = False"
| "strict_call (Factor st) = True"
| "strict_call (Primary st) = True"

abbreviation call_pos :: "'c parse_call \<Rightarrow> 'c similar_char list" where
  "call_pos call \<equiv> patternPos (call_state call)"

definition consumes :: "('c parse_call \<Rightarrow> 'c parse_result) \<Rightarrow> bool" where
  "consumes self \<longleftrightarrow> (\<forall>call fl st'. self call = Inr (fl, st') \<longrightarrow>
     suffix (patternPos st') (call_pos call) \<and> (strict_call call \<longrightarrow> length (patternPos st') < length (call_pos call)))"

lemma consumesD:
  "consumes self \<Longrightarrow> self call = Inr (fl, st') \<Longrightarrow> suffix (patternPos st') (call_pos call)"
  "consumes self \<Longrightarrow> self call = Inr (fl, st') \<Longrightarrow> strict_call call \<Longrightarrow> length (patternPos st') < length (call_pos call)"
  unfolding consumes_def by blast+

lemma push_node_pos [simp]: "patternPos (push_node n st) = patternPos st"
  by (simp add: push_node_def)

lemma set_ref_pos [simp]: "patternPos (set_ref i r st) = patternPos st"
  by (simp add: set_ref_def)

lemma set_refs_pos [simp]:
  "patternPos (foldl (\<lambda>st i. set_ref i (int (length (nodes st)) - int i) st) st refs) = patternPos st"
  by (induction refs arbitrary: st) simp_all

lemma alternatives_consumes:
  assumes self: "consumes self" and "parse_alternatives E self flagp refs st = Inr (fl, st')"
  shows "suffix (patternPos st') (patternPos st)"
proof -
  define st1 where "st1 = push_node ((node opBranch)\<lparr>n_branchNum := int (branch_count st)\<rparr>) st"
  obtain fl2 st2 where first: "self (Factors True no_flags st1) = Inr (fl2, st2)"
    and rest: "suffix (patternPos st') (patternPos st2)"
    using assms(2) consumesD(1) [OF self] suffix_tl_trans
    by (fastforce simp: parse_alternatives_def Let_def st1_def split: sum.splits if_splits)
  from consumesD(1) [OF self first] rest show ?thesis by (simp add: st1_def)
qed

lemma factors_consumes:
  assumes self: "consumes self" and "parse_factors E self first flagp st = Inr (fl, st')"
  shows "suffix (patternPos st') (patternPos st)"
proof (cases "patternPos st \<noteq> [] \<and> \<not> at_char E CHAR_VERTICAL_BAR (patternPos st) \<and> \<not> at_char E CHAR_CLOSE_PAREN (patternPos st)")
  case True
  then obtain fl1 st1 flagp2 where "self (Factor st) = Inr (fl1, st1)" and "self (Factors False flagp2 st1) = Inr (fl, st')"
    using assms(2) by (auto simp: parse_factors_def Let_def split: sum.splits)
  from this [THEN consumesD(1) [OF self]] show ?thesis by simp
next
  case False
  then show ?thesis using assms(2) by (auto simp: parse_factors_def)
qed

lemma factor_consumes:
  assumes self: "consumes self" and "parseFactor E pat self st = Inr (fl, st')"
  shows "suffix (patternPos st') (patternPos st) \<and> length (patternPos st') < length (patternPos st)"
proof -
  obtain fl1 st1 where p: "self (Primary st) = Inr (fl1, st1)" and "suffix (patternPos st') (patternPos st1)"
    using assms(2) parse_repetition_consumes
    by (fastforce simp: parseFactor_def Let_def split: sum.splits list.splits if_splits)
  with consumesD [OF self p] show ?thesis
    using suffix_length_le [of "patternPos st'" "patternPos st1"] suffix_order.order_trans by fastforce
qed

lemma primary_consumes:
  assumes self: "consumes self" and res: "parsePrimary E self st = Inr (fl, st')"
  shows "suffix (patternPos st') (patternPos st) \<and> length (patternPos st') < length (patternPos st)"
proof -
  obtain c ps where ps: "patternPos st = c # ps"
    using res by (cases "patternPos st") (simp_all add: parsePrimary_def)
  let ?l = "notInSet (map canon (c # ps)) (metaCharacters E)"
  have expr: "suffix (tl (patternPos st1)) ps" if "self (Expr (st\<lparr>patternPos := ps\<rparr>)) = Inr (f, st1)" for f st1
    using consumesD(1) [OF self that] suffix_tl suffix_order.order_trans by fastforce
  have "suffix (drop ?l (c # ps)) ps" if "?l \<noteq> 0"
    using that by (cases ?l) (auto simp: suffix_drop simp del: notInSet.simps)
  then have "suffix (patternPos st') ps"
    using res expr
    by (auto simp: parsePrimary_def ps Let_def suffix_tl push_node_def
        simp del: notInSet.simps split: if_splits sum.splits dest!: parse_set_consumes)
  then show ?thesis using suffix_less_tl [of "c # ps"] by (simp add: ps)
qed

lemma parser_consumes: "consumes (parser E pat n)"
proof (induction n)
  case 0
  show ?case by (simp add: consumes_def)
next
  case (Suc n)
  show ?case
    unfolding consumes_def
  proof (intro allI impI)
    fix call fl st'
    assume res: "parser E pat (Suc n) call = Inr (fl, st')"
    show "suffix (patternPos st') (call_pos call) \<and> (strict_call call \<longrightarrow> length (patternPos st') < length (call_pos call))"
    proof (cases call)
      case (Expr st)
      then show ?thesis using res consumesD(1) [OF Suc.IH] by (fastforce simp: parseExpr_def)
    qed (use res alternatives_consumes [OF Suc.IH] factors_consumes [OF Suc.IH] factor_consumes [OF Suc.IH]
         primary_consumes [OF Suc.IH] in \<open>auto\<close>)
  qed
qed

section \<open>Errors and the depth of the calls\<close>

text \<open>
  The errors a pattern can lead to: the two exceptions, and reading past the end, which only a
  repetition in braces or a circumflex as the last character can cause.
\<close>

definition pattern_error :: "'c similar_env \<Rightarrow> 'c similar_char list \<Rightarrow> similar_error \<Rightarrow> bool" where
  "pattern_error E pat e \<longleftrightarrow>
     (case e of
        OUT_OF_FUEL \<Rightarrow> False
      | READ_PAST_END \<Rightarrow>
          canonicalChar E CHAR_OPEN_BRACE \<in> canon ` set pat \<or>
          pat \<noteq> [] \<and> canon (last pat) = canonicalChar E CHAR_CIRCUMFLEX
      | _ \<Rightarrow> True)"

lemma pattern_error_simps [simp]:
  "pattern_error E pat ISC_INVALID_SIMILAR_PATTERN" "pattern_error E pat SIMILAR_ESCAPE_INVALID"
  "\<not> pattern_error E pat OUT_OF_FUEL"
  by (simp_all add: pattern_error_def)

lemma check_escaped_error: "check_escaped E ps = Inl e \<Longrightarrow> pattern_error E pat e"
  by (auto simp: check_escaped_def split: list.splits if_splits)

lemma parse_set_char_error:
  "parse_set_char E b ps s = Inl e \<Longrightarrow> ps \<noteq> [] \<Longrightarrow> pattern_error E pat e"
  by (cases ps)
    (auto simp: parse_set_char_def Let_def split: sum.splits list.splits if_splits
      dest!: map_sum_Inr_D map_sum_Inl_D check_escaped_error [where pat = pat] dest: check_escaped_nonempty)

lemma parse_class_error: "parse_class E ps = Inl e \<Longrightarrow> pattern_error E pat e"
  by (auto simp: parse_class_def Let_def split: if_splits option.splits)

lemma set_item_error:
  assumes "set_item E ps s = Inl e" and "ps \<noteq> []"
  shows "pattern_error E pat e"
  using assms
  by (auto simp: set_item_def split: sum.splits if_splits
      dest!: check_escaped_nonempty parse_class_error [where pat = pat] parse_set_char_error [where pat = pat]
      dest: check_escaped_error)

lemma suffix_last: "suffix ps pat \<Longrightarrow> ps \<noteq> [] \<Longrightarrow> pat \<noteq> [] \<and> last pat = last ps"
  by (auto simp: suffix_def)

lemma set_loop_error:
  assumes "set_loop E n ps s = Inl e" and "length ps < n" and "suffix ps pat"
  shows "pattern_error E pat e"
  using assms
proof (induction n arbitrary: ps s)
  case (Suc n)
  show ?case
  proof (cases "ps \<noteq> [] \<and> \<not> at_escape E ps \<and> at_char E CHAR_CIRCUMFLEX ps")
    case True
    then obtain c ps1 where ps: "ps = c # ps1" "canon c = canonicalChar E CHAR_CIRCUMFLEX"
      by (cases ps) (auto simp: at_char_def)
    show ?thesis
    proof (cases ps1)
      case Nil
      then show ?thesis
        using True Suc.prems suffix_last [of ps pat] ps by (auto simp: set_loop_Suc pattern_error_def split: if_splits)
    next
      case (Cons d ps2)
      have "suffix ps1 pat" using Suc.prems(3) ps by (metis suffix_ConsD)
      then show ?thesis
        using True Suc.prems Suc.IH [of ps1 "set_except s"] ps Cons by (auto simp: set_loop_Suc split: if_splits)
    qed
  next
    case other: False
    show ?thesis
    proof (cases "set_item E ps s")
      case (Inl e')
      then show ?thesis
        using other Suc.prems set_item_error [OF Inl] by (cases "ps = []") (auto simp: set_loop_Suc)
    next
      case (Inr r)
      obtain ps1 s1 where r: "r = (ps1, s1)" by (cases r)
      have "suffix ps1 pat \<and> length ps1 < length ps" if "ps \<noteq> []"
        using set_item_consumes [OF Inr [unfolded r] that] Suc.prems(3) suffix_order.order_trans by blast
      then show ?thesis
        using other Suc.prems Inr r Suc.IH [of ps1 s1]
        by (cases "ps = []") (auto simp: set_loop_Suc split: if_splits)
    qed
  qed
qed simp

lemma parse_set_error:
  "parse_set E ps = Inl e \<Longrightarrow> suffix ps pat \<Longrightarrow> pattern_error E pat e"
  by (auto simp: parse_set_def split: sum.splits dest: set_loop_error)

lemma brace_loop_error:
  "brace_loop E ps bytes comma s1 s2 = Inl e \<Longrightarrow> e = ISC_INVALID_SIMILAR_PATTERN \<or> e = READ_PAST_END"
  by (induction E ps bytes comma s1 s2 rule: brace_loop.induct) (auto simp: Let_def split: if_splits)

lemma parse_bounds_error:
  "parse_bounds E pat ps = Inl e \<Longrightarrow> e = ISC_INVALID_SIMILAR_PATTERN \<or> e = READ_PAST_END"
  by (auto simp: parse_bounds_def Let_def split: sum.splits if_splits dest: brace_loop_error)

lemma parse_repetition_error:
  assumes res: "parse_repetition E pat0 a fl c st = Inl e" and rep: "isRep E c"
    and c: "c = canon (hd (patternPos st))" "patternPos st \<noteq> []" and suf: "suffix (patternPos st) pat"
  shows "pattern_error E pat e"
proof (cases "c = canonicalChar E CHAR_ASTERISK \<or> c = canonicalChar E CHAR_PLUS \<or> c = canonicalChar E CHAR_QUESTION_MARK")
  case True
  then have "e = ISC_INVALID_SIMILAR_PATTERN"
    using res by (auto simp: parse_repetition_def Let_def split: prod.splits if_splits sum.splits)
  then show ?thesis by simp
next
  case False
  then have brace: "c = canonicalChar E CHAR_OPEN_BRACE" using rep by (simp add: isRep_def)
  have "hd (patternPos st) \<in> set pat" using suf c(2) by (metis hd_in_set set_mono_suffix subsetD)
  then have "pattern_error E pat READ_PAST_END" using c(1) brace by (simp add: pattern_error_def rev_image_eqI)
  moreover have "e = ISC_INVALID_SIMILAR_PATTERN \<or> e = READ_PAST_END"
    using res False parse_bounds_error [of E pat0 "tl (patternPos st)"]
    by (auto simp: parse_repetition_def Let_def split: prod.splits if_splits sum.splits)
  ultimately show ?thesis by auto
qed

text \<open>The depth a call needs: five levels for each character and five more.\<close>

primrec call_need :: "'c parse_call \<Rightarrow> nat" where
  "call_need (Expr st) = 5 * length (patternPos st) + 5"
| "call_need (Alternatives flagp refs st) = 5 * length (patternPos st) + 4"
| "call_need (Factors first flagp st) = 5 * length (patternPos st) + 3"
| "call_need (Factor st) = 5 * length (patternPos st) + 2"
| "call_need (Primary st) = 5 * length (patternPos st) + 1"

lemma call_need_pos: "0 < call_need call"
  by (cases call) simp_all

definition errs :: "'c similar_env \<Rightarrow> 'c similar_char list \<Rightarrow> nat \<Rightarrow> ('c parse_call \<Rightarrow> 'c parse_result) \<Rightarrow> bool" where
  "errs E pat n self \<longleftrightarrow> (\<forall>call e. self call = Inl e \<longrightarrow> call_need call \<le> n \<longrightarrow> suffix (call_pos call) pat \<longrightarrow>
     (strict_call call \<longrightarrow> call_pos call \<noteq> []) \<longrightarrow> pattern_error E pat e)"

lemma errsD:
  "errs E pat n self \<Longrightarrow> self call = Inl e \<Longrightarrow> call_need call \<le> n \<Longrightarrow> suffix (call_pos call) pat \<Longrightarrow>
     (strict_call call \<Longrightarrow> call_pos call \<noteq> []) \<Longrightarrow> pattern_error E pat e"
  unfolding errs_def by blast

lemma alternatives_errs:
  assumes errs: "errs E pat n self" and self: "consumes self" and res: "parse_alternatives E self flagp refs st = Inl e"
    and need: "5 * length (patternPos st) + 4 \<le> Suc n" and suf: "suffix (patternPos st) pat"
  shows "pattern_error E pat e"
proof -
  define st1 where "st1 = push_node ((node opBranch)\<lparr>n_branchNum := int (branch_count st)\<rparr>) st"
  show ?thesis
  proof (cases "self (Factors True no_flags st1)")
    case (Inl e')
    then have "e = e'" using res by (simp add: parse_alternatives_def Let_def st1_def)
    then show ?thesis using errsD [OF errs Inl] need suf by (simp add: st1_def)
  next
    case (Inr r)
    obtain fl st2 where r: "r = (fl, st2)" by (cases r)
    obtain flagp' refs' st4 where next_call: "self (Alternatives flagp' refs' st4) = Inl e"
      and st4: "patternPos st4 = tl (patternPos st2)" "patternPos st2 \<noteq> []"
      using res Inr r at_char_nonempty [of E CHAR_VERTICAL_BAR "patternPos st2"]
      by (auto simp: parse_alternatives_def Let_def st1_def split: if_splits)
    have "suffix (patternPos st2) (patternPos st)"
      using consumesD(1) [OF self Inr [unfolded r]] by (simp add: st1_def)
    moreover have "suffix (patternPos st4) (patternPos st2) \<and> length (patternPos st4) < length (patternPos st2)"
      unfolding st4(1) by (rule suffix_less_tl [OF st4(2) suffix_order.refl])
    ultimately have "suffix (patternPos st4) pat" and "length (patternPos st4) < length (patternPos st)"
      using suf suffix_length_le [of "patternPos st2" "patternPos st"] suffix_order.order_trans
      by (blast, linarith)
    then show ?thesis using errsD [OF errs next_call] need by simp
  qed
qed

lemma factors_errs:
  assumes errs: "errs E pat n self" and self: "consumes self" and res: "parse_factors E self first flagp st = Inl e"
    and need: "5 * length (patternPos st) + 3 \<le> Suc n" and suf: "suffix (patternPos st) pat"
  shows "pattern_error E pat e"
proof -
  have ne: "patternPos st \<noteq> []" using res by (auto simp: parse_factors_def split: if_splits)
  show ?thesis
  proof (cases "self (Factor st)")
    case (Inl e')
    then have "e = e'" using res by (auto simp: parse_factors_def split: if_splits)
    then show ?thesis using errsD [OF errs Inl] need suf ne by simp
  next
    case (Inr r)
    obtain fl st2 where r: "r = (fl, st2)" by (cases r)
    obtain flagp' where next_call: "self (Factors False flagp' st2) = Inl e"
      using res Inr r by (auto simp: parse_factors_def Let_def split: if_splits)
    have "suffix (patternPos st2) (patternPos st)" and "length (patternPos st2) < length (patternPos st)"
      using consumesD [OF self Inr [unfolded r]] by simp_all
    then show ?thesis using errsD [OF errs next_call] need suf suffix_order.order_trans by fastforce
  qed
qed

lemma factor_errs:
  assumes errs: "errs E pat n self" and self: "consumes self" and res: "parseFactor E pat0 self st = Inl e"
    and need: "5 * length (patternPos st) + 2 \<le> Suc n" and suf: "suffix (patternPos st) pat" and ne: "patternPos st \<noteq> []"
  shows "pattern_error E pat e"
proof (cases "self (Primary st)")
  case (Inl e')
  then have "e = e'" using res by (auto simp: parseFactor_def Let_def)
  then show ?thesis using errsD [OF errs Inl] need suf ne by simp
next
  case (Inr r)
  obtain fl st1 where r: "r = (fl, st1)" by (cases r)
  have "suffix (patternPos st1) pat"
    using consumesD(1) [OF self Inr [unfolded r]] suf suffix_order.order_trans by fastforce
  moreover obtain c ps where ps: "patternPos st1 = c # ps" "isRep E (canon c)"
    and rep: "parse_repetition E pat0 (length (nodes st)) fl (canon c) st1 = Inl e"
    using res Inr r by (auto simp: parseFactor_def Let_def split: list.splits if_splits)
  ultimately show ?thesis by (intro parse_repetition_error [OF rep]) simp_all
qed

lemma primary_errs:
  assumes errs: "errs E pat n self" and self: "consumes self" and res: "parsePrimary E self st = Inl e"
    and need: "5 * length (patternPos st) + 1 \<le> Suc n" and suf: "suffix (patternPos st) pat" and ne: "patternPos st \<noteq> []"
  shows "pattern_error E pat e"
proof -
  obtain c ps where ps: "patternPos st = c # ps" using ne by (cases "patternPos st") auto
  have "suffix ps pat" using suf by (metis ps suffix_ConsD)
  moreover have "pattern_error E pat e" if "self (Expr (st\<lparr>patternPos := ps\<rparr>)) = Inl e"
    using errsD [OF errs that] need \<open>suffix ps pat\<close> by (simp add: ps)
  ultimately show ?thesis
    using res
    by (auto simp: parsePrimary_def ps Let_def simp del: notInSet.simps split: if_splits sum.splits
        dest: parse_set_error check_escaped_error)
qed

lemma parser_errs: "errs E pat n (parser E pat0 n)"
proof (induction n)
  case 0
  show ?case using call_need_pos unfolding errs_def by (metis not_le)
next
  case (Suc n)
  note lemmas_n = parser_consumes [of E pat0 n]
  show ?case
    unfolding errs_def
  proof (intro allI impI)
    fix call e
    assume res: "parser E pat0 (Suc n) call = Inl e" and need: "call_need call \<le> Suc n"
      and suf: "suffix (call_pos call) pat" and ne: "strict_call call \<longrightarrow> call_pos call \<noteq> []"
    show "pattern_error E pat e"
    proof (cases call)
      case (Expr st)
      then show ?thesis using res need suf errsD [OF Suc.IH] by (fastforce simp: parseExpr_def)
    next
      case (Alternatives flagp refs st)
      then show ?thesis using res need suf alternatives_errs [OF Suc.IH parser_consumes] by simp
    next
      case (Factors first flagp st)
      then show ?thesis using res need suf factors_errs [OF Suc.IH parser_consumes] by simp
    next
      case (Factor st)
      then show ?thesis using res need suf ne factor_errs [OF Suc.IH parser_consumes] by simp
    next
      case (Primary st)
      then show ?thesis using res need suf ne primary_errs [OF Suc.IH parser_consumes] by simp
    qed
  qed
qed

text \<open>More depth than a call needs changes nothing.\<close>

definition agrees :: "('c parse_call \<Rightarrow> 'c parse_result) \<Rightarrow> ('c parse_call \<Rightarrow> 'c parse_result) \<Rightarrow> bool" where
  "agrees self self' \<longleftrightarrow> (\<forall>call. self call \<noteq> Inl OUT_OF_FUEL \<longrightarrow> self' call = self call)"

lemma agreesD: "agrees self self' \<Longrightarrow> self call \<noteq> Inl OUT_OF_FUEL \<Longrightarrow> self' call = self call"
  unfolding agrees_def by blast

lemma alternatives_agree:
  assumes "agrees self self'" and "parse_alternatives E self flagp refs st \<noteq> Inl OUT_OF_FUEL"
  shows "parse_alternatives E self' flagp refs st = parse_alternatives E self flagp refs st"
proof -
  define st1 where "st1 = push_node ((node opBranch)\<lparr>n_branchNum := int (branch_count st)\<rparr>) st"
  have "self (Factors True no_flags st1) \<noteq> Inl OUT_OF_FUEL"
    using assms(2) by (auto simp: parse_alternatives_def Let_def st1_def)
  then have "self' (Factors True no_flags st1) = self (Factors True no_flags st1)" by (rule agreesD [OF assms(1)])
  then show ?thesis
    using assms(2) agreesD [OF assms(1)]
    by (cases "self (Factors True no_flags st1)") (auto simp: parse_alternatives_def Let_def st1_def split: if_splits)
qed

lemma factors_agree:
  assumes "agrees self self'" and "parse_factors E self first flagp st \<noteq> Inl OUT_OF_FUEL"
  shows "parse_factors E self' first flagp st = parse_factors E self first flagp st"
proof (cases "patternPos st \<noteq> [] \<and> \<not> at_char E CHAR_VERTICAL_BAR (patternPos st) \<and> \<not> at_char E CHAR_CLOSE_PAREN (patternPos st)")
  case True
  then have "self (Factor st) \<noteq> Inl OUT_OF_FUEL" using assms(2) by (auto simp: parse_factors_def)
  then have eq: "self' (Factor st) = self (Factor st)" by (rule agreesD [OF assms(1)])
  show ?thesis
  proof (cases "self (Factor st)")
    case (Inl e)
    then show ?thesis using eq True by (simp add: parse_factors_def)
  next
    case (Inr r)
    obtain fl st2 where r: "r = (fl, st2)" by (cases r)
    obtain flagp' where eqs: "parse_factors E s first flagp st = s (Factors False flagp' st2)"
      if "s (Factor st) = Inr (fl, st2)" for s
      using True by (auto simp: parse_factors_def Let_def)
    show ?thesis using eqs [of self] eqs [of self'] eq Inr r assms agreesD [OF assms(1)] by simp
  qed
qed (auto simp: parse_factors_def)

lemma factor_agree:
  assumes "agrees self self'" and "parseFactor E pat self st \<noteq> Inl OUT_OF_FUEL"
  shows "parseFactor E pat self' st = parseFactor E pat self st"
  using assms(2) agreesD [OF assms(1), of "Primary st"] by (cases "self (Primary st)") (auto simp: parseFactor_def Let_def)

lemma primary_agree:
  assumes "agrees self self'" and "parsePrimary E self st \<noteq> Inl OUT_OF_FUEL"
  shows "parsePrimary E self' st = parsePrimary E self st"
proof (cases "patternPos st")
  case (Cons c ps)
  show ?thesis
    using assms(2) agreesD [OF assms(1), of "Expr (st\<lparr>patternPos := ps\<rparr>)"]
    by (cases "self (Expr (st\<lparr>patternPos := ps\<rparr>)) = Inl OUT_OF_FUEL")
      (auto simp: parsePrimary_def Cons Let_def simp del: notInSet.simps split: if_splits)
qed (simp add: parsePrimary_def)

lemma parser_agrees: "agrees (parser E pat n) (parser E pat (Suc n))"
proof (induction n)
  case (Suc n)
  show ?case
    unfolding agrees_def
  proof (intro allI impI)
    fix call
    assume res: "parser E pat (Suc n) call \<noteq> Inl OUT_OF_FUEL"
    show "parser E pat (Suc (Suc n)) call = parser E pat (Suc n) call"
    proof (cases call)
      case (Expr st)
      have step: "parser E pat (Suc k) call = parser E pat k (Alternatives (no_flags\<lparr>not_empty := True\<rparr>) [] st)" for k
        by (simp add: Expr parseExpr_def)
      show ?thesis using res agreesD [OF Suc.IH] unfolding step by blast
    next
      case (Alternatives flagp refs st)
      have step: "parser E pat (Suc k) call = parse_alternatives E (parser E pat k) flagp refs st" for k
        by (simp add: Alternatives)
      show ?thesis using res alternatives_agree [OF Suc.IH] unfolding step by blast
    next
      case (Factors first flagp st)
      have step: "parser E pat (Suc k) call = parse_factors E (parser E pat k) first flagp st" for k
        by (simp add: Factors)
      show ?thesis using res factors_agree [OF Suc.IH] unfolding step by blast
    next
      case (Factor st)
      have step: "parser E pat (Suc k) call = parseFactor E pat (parser E pat k) st" for k
        by (simp add: Factor)
      show ?thesis using res factor_agree [OF Suc.IH] unfolding step by blast
    next
      case (Primary st)
      have step: "parser E pat (Suc k) call = parsePrimary E (parser E pat k) st" for k
        by (simp add: Primary)
      show ?thesis using res primary_agree [OF Suc.IH] unfolding step by blast
    qed
  qed
qed (simp add: agrees_def)

lemma parser_enough:
  assumes "call_need call \<le> n" and "strict_call call \<Longrightarrow> call_pos call \<noteq> []"
  shows "parser E pat n call = parser E pat (call_need call) call"
  using assms(1)
proof (induction n rule: dec_induct)
  case (step n)
  have "parser E pat n call \<noteq> Inl OUT_OF_FUEL"
    using errsD [OF parser_errs [of E "call_pos call" n pat], of call OUT_OF_FUEL] step.hyps assms(2) by auto
  then show ?case using agreesD [OF parser_agrees] step.IH by metis
qed simp

section \<open>A single-byte character set\<close>

text \<open>A character set for concrete inputs: the ASCII codes, compared by code, with the backslash as escape.\<close>

primrec ascii_canonical :: "canonical_char \<Rightarrow> nat" where
  "ascii_canonical CHAR_ASTERISK = 42"
| "ascii_canonical CHAR_AT = 64"
| "ascii_canonical CHAR_CIRCUMFLEX = 94"
| "ascii_canonical CHAR_COLON = 58"
| "ascii_canonical CHAR_COMMA = 44"
| "ascii_canonical CHAR_EQUAL = 61"
| "ascii_canonical CHAR_MINUS = 45"
| "ascii_canonical CHAR_PERCENT = 37"
| "ascii_canonical CHAR_PLUS = 43"
| "ascii_canonical CHAR_QUESTION_MARK = 63"
| "ascii_canonical CHAR_SPACE = 32"
| "ascii_canonical CHAR_TILDE = 126"
| "ascii_canonical CHAR_UNDERLINE = 95"
| "ascii_canonical CHAR_VERTICAL_BAR = 124"
| "ascii_canonical CHAR_DOUBLE_QUOTE = 34"
| "ascii_canonical CHAR_OPEN_BRACE = 123"
| "ascii_canonical CHAR_CLOSE_BRACE = 125"
| "ascii_canonical CHAR_OPEN_BRACKET = 91"
| "ascii_canonical CHAR_CLOSE_BRACKET = 93"
| "ascii_canonical CHAR_OPEN_PAREN = 40"
| "ascii_canonical CHAR_CLOSE_PAREN = 41"
| "ascii_canonical CHAR_LOWER_S = 115"
| "ascii_canonical CHAR_UPPER_S = 83"

definition ascii_env :: "nat similar_env" where
  "ascii_env =
     \<lparr>canonicalChar = ascii_canonical, escapeChar = 92, useEscape = True, firstChar = take 1,
      toUnicode = (\<lambda>bs. case bs of [] \<Rightarrow> 0 | b # _ \<Rightarrow> unat b),
      upperUtf16 = map (\<lambda>b. if 97 \<le> b \<and> b \<le> 122 then unat b - 32 else unat b),
      classChars = (\<lambda>cl. case cl of UpperLetters \<Rightarrow> [65 ..< 91] | LowerLetters \<Rightarrow> [97 ..< 123] | Numbers \<Rightarrow> [48 ..< 58]
         | Space \<Rightarrow> [32] | WhiteSpaces \<Rightarrow> [9, 10, 11, 12, 13, 32]),
      collate = (\<lambda>a b. (case a of [] \<Rightarrow> 0 | x # _ \<Rightarrow> uint x) - (case b of [] \<Rightarrow> 0 | x # _ \<Rightarrow> uint x))\<rparr>"

definition ascii :: "string \<Rightarrow> nat similar_char list" where
  "ascii s = map (\<lambda>c. (of_char c, [of_char c])) s"

section \<open>Properties\<close>

text \<open>C18. The recursive descent ends: five levels of calls for each character of the pattern, and
  five more, are enough, more make no difference, and a pattern is rejected with one of the two
  exceptions of the code; only a brace or a final circumflex can make the parser read past the end.\<close>
theorem similar_compile_total:
  "similar_compile E (5 * length pat + 5 + extra) pat = similar_compile E (5 * length pat + 5) pat \<and>
   (case similar_compile E (5 * length pat + 5 + extra) pat of
      Inl e \<Rightarrow>
        e = ISC_INVALID_SIMILAR_PATTERN \<or> e = SIMILAR_ESCAPE_INVALID \<or>
        e = READ_PAST_END \<and>
          (canonicalChar E CHAR_OPEN_BRACE \<in> canon ` set pat \<or> pat \<noteq> [] \<and> canon (last pat) = canonicalChar E CHAR_CIRCUMFLEX)
    | Inr _ \<Rightarrow> True)"
proof -
  define call where "call = Expr \<lparr>patternPos = pat, nodes = [node opStart], branch_count = 0\<rparr>"
  have enough: "parser E pat (5 * length pat + 5 + extra) call = parser E pat (5 * length pat + 5) call"
    using parser_enough [of call "5 * length pat + 5 + extra" E pat] by (simp add: call_def)
  have "pattern_error E pat e" if "parser E pat (5 * length pat + 5) call = Inl e" for e
    by (rule errsD [OF parser_errs that]) (simp_all add: call_def)
  then have "case similar_compile E (5 * length pat + 5) pat of Inl e \<Rightarrow> pattern_error E pat e | Inr _ \<Rightarrow> True"
    by (auto simp: similar_compile_def call_def [symmetric] split: sum.splits)
  moreover have "similar_compile E (5 * length pat + 5 + extra) pat = similar_compile E (5 * length pat + 5) pat"
    using enough by (simp only: similar_compile_def call_def)
  ultimately show ?thesis
    by (auto simp: pattern_error_def split: sum.splits similar_error.splits)
qed

text \<open>The two ways past the end exist: a pattern that ends with an opening brace, and one that
  ends with a circumflex inside a bracket expression; and a repetition count after a character of two
  bytes is not found where the code looks for it.\<close>
theorem similar_reads_past_end:
  "similar_compile ascii_env 100 (ascii ''a{'') = Inl READ_PAST_END \<and>
   similar_compile ascii_env 100 (ascii ''[a^'') = Inl READ_PAST_END \<and>
   isl (similar_compile (ascii_env\<lparr>firstChar := \<lambda>bs. take (if hd bs \<ge> 128 then 2 else 1) bs\<rparr>) 100
          ((233, [195, 169]) # ascii ''{2}''))"
  by code_simp

end
