(* ===== verification/FB_Similar_Compile.thy ===== *)
theory FB_Similar_Compile
  imports FB_Similar_Regex FB_Similar_Parser
begin

text \<open>
  Correctness of the SIMILAR TO compiler: the grammar of patterns as an inductive relation between
  a pattern and a regular expression, and the proof that the parser emits code that matches
  exactly the language of the expression its pattern denotes.
\<close>

section \<open>The grammar\<close>

definition digit_of :: "'c similar_env \<Rightarrow> 'c similar_char \<Rightarrow> bool" where
  "digit_of E x \<longleftrightarrow> 48 \<le> toUnicode E (orig x) \<and> toUnicode E (orig x) \<le> 57 \<and>
     canon x \<noteq> canonicalChar E CHAR_CLOSE_BRACE \<and> canon x \<noteq> canonicalChar E CHAR_COMMA"

definition number :: "'c similar_env \<Rightarrow> 'c similar_char list \<Rightarrow> nat \<Rightarrow> bool" where
  "number E w n \<longleftrightarrow> w \<noteq> [] \<and> length w \<le> 9 \<and> (\<forall>x \<in> set w. digit_of E x) \<and>
     n = foldl (\<lambda>n x. n * 10 + (toUnicode E (orig x) - 48)) 0 w"

inductive repetition :: "'c similar_env \<Rightarrow> 'c similar_char list \<Rightarrow> ('c regex \<Rightarrow> 'c regex) \<Rightarrow> 'c similar_char list \<Rightarrow> bool"
  for E where
  rep_star: "canon c = canonicalChar E CHAR_ASTERISK \<Longrightarrow> repetition E (c # ps) Star ps"
| rep_plus: "canon c = canonicalChar E CHAR_PLUS \<Longrightarrow> repetition E (c # ps) Plus ps"
| rep_opt: "canon c = canonicalChar E CHAR_QUESTION_MARK \<Longrightarrow> repetition E (c # ps) Opt ps"
| rep_exact: "canon c = canonicalChar E CHAR_OPEN_BRACE \<Longrightarrow> number E w n \<Longrightarrow> canon d = canonicalChar E CHAR_CLOSE_BRACE \<Longrightarrow>
    repetition E (c # w @ d # ps) (Between n n) ps"
| rep_atleast: "canon c = canonicalChar E CHAR_OPEN_BRACE \<Longrightarrow> number E w n \<Longrightarrow> canon k = canonicalChar E CHAR_COMMA \<Longrightarrow>
    canon d = canonicalChar E CHAR_CLOSE_BRACE \<Longrightarrow> repetition E (c # w @ k # d # ps) (AtLeast n) ps"
| rep_between: "canon c = canonicalChar E CHAR_OPEN_BRACE \<Longrightarrow> number E w n \<Longrightarrow> canon k = canonicalChar E CHAR_COMMA \<Longrightarrow>
    number E u m \<Longrightarrow> n \<le> m \<Longrightarrow> canon d = canonicalChar E CHAR_CLOSE_BRACE \<Longrightarrow>
    repetition E (c # w @ k # u @ d # ps) (Between n m) ps"

definition rep_next :: "'c similar_env \<Rightarrow> 'c similar_char list \<Rightarrow> bool" where
  "rep_next E ps \<longleftrightarrow> (case ps of [] \<Rightarrow> False | c # _ \<Rightarrow> isRep E (canon c))"

definition escapable :: "'c similar_env \<Rightarrow> 'c \<Rightarrow> bool" where
  "escapable E c \<longleftrightarrow> c = escapeChar E \<or> c \<in> set (metaCharacters E)"

definition starts_primary :: "'c similar_env \<Rightarrow> 'c \<Rightarrow> bool" where
  "starts_primary E c \<longleftrightarrow> c \<in> canonicalChar E ` {CHAR_UNDERLINE, CHAR_PERCENT, CHAR_OPEN_BRACKET, CHAR_OPEN_PAREN}"

text \<open>
  \<open>primary ps r ps'\<close>: the pattern from \<open>ps\<close> to \<open>ps'\<close> is a primary that denotes \<open>r\<close>; \<open>factors\<close> is a
  sequence of primaries with their repetitions, \<open>choice\<close> the alternatives between vertical bars.
\<close>

inductive primary :: "'c similar_env \<Rightarrow> 'c similar_char list \<Rightarrow> 'c regex \<Rightarrow> 'c similar_char list \<Rightarrow> bool"
  and factors :: "'c similar_env \<Rightarrow> 'c similar_char list \<Rightarrow> 'c regex list \<Rightarrow> 'c similar_char list \<Rightarrow> bool"
  and choice :: "'c similar_env \<Rightarrow> 'c similar_char list \<Rightarrow> 'c regex list \<Rightarrow> 'c similar_char list \<Rightarrow> bool"
  for E where
  p_any: "canon c = canonicalChar E CHAR_UNDERLINE \<Longrightarrow> primary E (c # ps) AnyOne ps"
| p_many: "canon c = canonicalChar E CHAR_PERCENT \<Longrightarrow> primary E (c # ps) AnyMany ps"
| p_set: "canon c = canonicalChar E CHAR_OPEN_BRACKET \<Longrightarrow> parse_set E ps = Inr (ps', nd) \<Longrightarrow> primary E (c # ps) (OneOf nd) ps'"
| p_group: "canon c = canonicalChar E CHAR_OPEN_PAREN \<Longrightarrow> choice E ps rs (d # ps') \<Longrightarrow>
    canon d = canonicalChar E CHAR_CLOSE_PAREN \<Longrightarrow> primary E (c # ps) (Choice rs) ps'"
| p_escape: "useEscape E \<Longrightarrow> canon c = escapeChar E \<Longrightarrow> \<not> starts_primary E (canon c) \<Longrightarrow> escapable E (canon d) \<Longrightarrow>
    primary E (c # d # ps) (Letter (canon d)) ps"
| p_letter: "canon c \<notin> set (metaCharacters E) \<Longrightarrow> primary E (c # ps) (Letter (canon c)) ps"
| f_none: "factors E ps [] ps"
| f_one: "primary E ps r ps1 \<Longrightarrow> \<not> rep_next E ps1 \<Longrightarrow> factors E ps1 rs ps2 \<Longrightarrow> factors E ps (r # rs) ps2"
| f_rep: "primary E ps r ps1 \<Longrightarrow> repetition E ps1 f ps2 \<Longrightarrow> \<not> rep_next E ps2 \<Longrightarrow> factors E ps2 rs ps3 \<Longrightarrow>
    factors E ps (f r # rs) ps3"
| c_last: "factors E ps rs ps1 \<Longrightarrow> ps1 = [] \<or> at_char E CHAR_CLOSE_PAREN ps1 \<Longrightarrow> choice E ps [Seq rs] ps1"
| c_more: "factors E ps rs (d # ps1) \<Longrightarrow> canon d = canonicalChar E CHAR_VERTICAL_BAR \<Longrightarrow> choice E ps1 alts ps2 \<Longrightarrow>
    choice E ps (Seq rs # alts) ps2"

definition pattern_denotes :: "'c similar_env \<Rightarrow> 'c similar_char list \<Rightarrow> 'c regex \<Rightarrow> bool" where
  "pattern_denotes E pat r \<longleftrightarrow> (\<exists>rs. r = Choice rs \<and> choice E pat rs [])"

lemma factors_append_all:
  "primary E ps r ps1 \<Longrightarrow> True"
  "factors E ps rs ps1 \<Longrightarrow> factors E ps1 rs' ps2 \<longrightarrow> factors E ps (rs @ rs') ps2"
  "choice E ps rs ps1 \<Longrightarrow> True"
  by (induction rule: primary_factors_choice.inducts) (auto intro: f_one f_rep)

lemma factors_append: "factors E ps rs ps1 \<Longrightarrow> factors E ps1 rs' ps2 \<Longrightarrow> factors E ps (rs @ rs') ps2"
  using factors_append_all(2) by blast

text \<open>Where a choice is empty, its last alternative is: this is what the parser's flag looks at.\<close>

primrec choices_ok :: "'c regex \<Rightarrow> bool" where
  "choices_ok (Letter c) = True"
| "choices_ok AnyOne = True"
| "choices_ok AnyMany = True"
| "choices_ok (OneOf nd) = True"
| "choices_ok (Seq rs) = list_all id (map choices_ok rs)"
| "choices_ok (Choice rs) = (list_all id (map choices_ok rs) \<and> (nullable (last rs) \<or> \<not> list_ex nullable rs))"
| "choices_ok (Star r) = choices_ok r"
| "choices_ok (Plus r) = choices_ok r"
| "choices_ok (Opt r) = choices_ok r"
| "choices_ok (AtLeast n r) = choices_ok r"
| "choices_ok (Between n m r) = choices_ok r"

section \<open>Code for an expression\<close>

definition compiles :: "'c similar_env \<Rightarrow> 'c regex \<Rightarrow> 'c similar_node list \<Rightarrow> bool" where
  "compiles E r c \<longleftrightarrow> (productive r \<longrightarrow> (\<forall>v. implements E v c (span_of v (lang E r))))"

definition rep_distinct :: "'c similar_env \<Rightarrow> bool" where
  "rep_distinct E \<longleftrightarrow> distinct (map (canonicalChar E) [CHAR_ASTERISK, CHAR_PLUS, CHAR_QUESTION_MARK, CHAR_OPEN_BRACE])"

definition flag_ok :: "'c similar_env \<Rightarrow> bool \<Rightarrow> 'c regex \<Rightarrow> bool" where
  "flag_ok E ne r \<longleftrightarrow> (rep_distinct E \<longrightarrow> choices_ok r \<longrightarrow> productive r \<and> (ne \<longrightarrow> \<not> nullable r))"

lemma lang_Seq: "lang E (Seq rs) = concs (map (lang E) rs)"
  by simp

lemma implements_Nil: "implements E v [] (=)"
  by (simp add: implements_def enters_self)

lemma foldr_OO: "foldr (OO) (Ls @ Ms) (=) = foldr (OO) Ls (=) OO foldr (OO) Ms (=)"
  by (induction Ls) (simp_all add: eq_OO relcompp_assoc)

lemma compiles_append:
  assumes "compiles E (Seq rs) c" and "compiles E (Seq rs') d"
  shows "compiles E (Seq (rs @ rs')) (c @ d)"
  unfolding compiles_def
proof (intro impI allI)
  fix v
  assume p: "productive (Seq (rs @ rs'))"
  then have "implements E v c (span_of v (lang E (Seq rs)))" and "implements E v d (span_of v (lang E (Seq rs')))"
    using assms by (simp_all add: compiles_def)
  from implements_append [OF this]
  show "implements E v (c @ d) (span_of v (lang E (Seq (rs @ rs'))))"
    unfolding lang_Seq span_of_concs map_append foldr_OO .
qed

lemma conc_Nil: "conc A {[]} = A"
  by (auto simp: conc_def)

lemma compiles_one: "compiles E r c \<Longrightarrow> compiles E (Seq [r]) c"
  by (simp add: compiles_def concs_simps conc_Nil)

lemma compiles_none: "compiles E (Seq []) []"
  by (simp add: compiles_def concs_simps span_of_Nil implements_Nil)

lemma compiles_nothing: "compiles E (Seq []) [node opNothing]"
  by (simp add: compiles_def concs_simps span_of_Nil nothing_code)

lemma progress_of:
  "\<not> nullable r \<Longrightarrow> progress (length v) (span_of v (lang E r))"
  by (simp add: span_of_progress nullable_iff [symmetric])

lemma compiles_star:
  assumes "compiles E r c"
  shows "compiles E (Star r) (node_ref opBranch (int (length c) + 2) # c @ [node_ref opRef (- int (length c) - 1), node opBranch])"
  using assms star_code progress_of by (fastforce simp: compiles_def span_of_star)

lemma compiles_plus:
  assumes "compiles E r c"
  shows "compiles E (Plus r) (c @ [node_ref opBranch 2, node_ref opRef (- int (length c) - 1), node opBranch])"
  using assms plus_code progress_of by (fastforce simp: compiles_def span_of_plus simp del: power_lang.simps)

lemma compiles_opt:
  assumes "compiles E r c"
  shows "compiles E (Opt r) (node_ref opBranch (int (length c) + 1) # c @ [node opBranch])"
  using assms unfolding compiles_def lang.simps span_of_opt by (simp add: optional_code)

definition repeated :: "int \<Rightarrow> 'c similar_node list \<Rightarrow> 'c similar_node list" where
  "repeated m c = node_rep opRepeatingRefStart m (int (length c) + 1) # c @ [node_ref opRepeatingRefEnd (- int (length c) - 1)]"

definition starred :: "'c similar_node list \<Rightarrow> 'c similar_node list" where
  "starred c = node_ref opBranch (int (length c) + 2) # c @ [node_ref opRef (- int (length c) - 1), node opBranch]"

definition optional :: "'c similar_node list \<Rightarrow> 'c similar_node list" where
  "optional c = node_ref opBranch (int (length c) + 1) # c @ [node opBranch]"

lemma repeated_implements:
  assumes "\<forall>v. implements E v c (L v)" and "0 \<le> m"
  shows "implements E v (repeated m c) (L v ^^ nat m)"
  unfolding repeated_def using repeat_code [of E v c "L v" "nat m"] assms by simp

lemma compiles_exact:
  assumes "compiles E r c"
  shows "compiles E (Between n n r) (repeated (int n) c)"
  unfolding compiles_def
proof (intro impI allI)
  fix v
  assume "productive (Between n n r)"
  then have "\<forall>v. implements E v c (span_of v (lang E r))" using assms by (simp add: compiles_def)
  from repeated_implements [OF this, of "int n" v]
  show "implements E v (repeated (int n) c) (span_of v (lang E (Between n n r)))"
    by (simp add: span_of_power)
qed

lemma compiles_atleast:
  assumes "compiles E r c"
  shows "compiles E (AtLeast n r) (repeated (int n) c @ starred c)"
  unfolding compiles_def
proof (intro impI allI)
  fix v
  assume p: "productive (AtLeast n r)"
  then have c: "\<forall>v. implements E v c (span_of v (lang E r))" using assms by (simp add: compiles_def)
  have "implements E v (repeated (int n) c) (span_of v (lang E r) ^^ n)"
    using repeated_implements [OF c, of "int n" v] by simp
  moreover have "implements E v (starred c) (span_of v (lang E r))\<^sup>*\<^sup>*"
    unfolding starred_def using star_code c p progress_of by fastforce
  ultimately show "implements E v (repeated (int n) c @ starred c) (span_of v (lang E (AtLeast n r)))"
    using implements_append by (fastforce simp: span_of_atleast)
qed

lemma compiles_between:
  assumes "compiles E r c" and "n \<le> m"
  shows "compiles E (Between n m r) (repeated (int n) c @ repeated (int m - int n) (optional c))"
  unfolding compiles_def
proof (intro impI allI)
  fix v
  assume p: "productive (Between n m r)"
  then have c: "\<forall>v. implements E v c (span_of v (lang E r))" using assms by (simp add: compiles_def)
  then have opt: "\<forall>v. implements E v (optional c) (\<lambda>p q. span_of v (lang E r) p q \<or> p = q)"
    unfolding optional_def using optional_code by blast
  have nat: "nat (int m - int n) = m - n" by simp
  have "implements E v (repeated (int n) c) (span_of v (lang E r) ^^ n)"
    using repeated_implements [OF c, of "int n" v] by simp
  moreover have "implements E v (repeated (int m - int n) (optional c)) ((\<lambda>p q. span_of v (lang E r) p q \<or> p = q) ^^ (m - n))"
    using repeated_implements [OF opt, of "int m - int n" v] assms(2) unfolding nat by simp
  ultimately show "implements E v (repeated (int n) c @ repeated (int m - int n) (optional c)) (span_of v (lang E (Between n m r)))"
    using implements_append by (fastforce simp: span_of_between [OF assms(2)])
qed

lemma compiles_upto:
  assumes "compiles E r c"
  shows "compiles E (Between 0 m r) (repeated (int m) (optional c))"
  unfolding compiles_def
proof (intro impI allI)
  fix v
  assume p: "productive (Between 0 m r)"
  then have "\<forall>v. implements E v c (span_of v (lang E r))" using assms by (simp add: compiles_def)
  then have opt: "\<forall>v. implements E v (optional c) (\<lambda>p q. span_of v (lang E r) p q \<or> p = q)"
    unfolding optional_def using optional_code by blast
  have eq: "span_of v (lang E (Between 0 m r)) = (\<lambda>p q. span_of v (lang E r) p q \<or> p = q) ^^ m"
    using span_of_between [of 0 m v "lang E r"] by (simp add: eq_OO)
  show "implements E v (repeated (int m) (optional c)) (span_of v (lang E (Between 0 m r)))"
    using repeated_implements [OF opt, of "int m" v] unfolding eq by simp
qed

section \<open>The repetitions the parser emits\<close>

lemma minus_one_first: "- 1 - (x :: int) = - x - 1"
  by simp

lemma three_last: "- 3 - (x :: int) = - x - 3" "3 + x = x + 3"
  by simp_all

lemma insert_node_append: "insert_node (length pre) n (pre @ c) = pre @ n # c"
  by (simp add: insert_node_def)

lemma add_star_code: "add_star (length pre) (pre @ c) = pre @ starred c"
  by (simp add: add_star_def starred_def Let_def insert_node_append minus_one_first)

lemma add_plus_code:
  "add_plus (length pre) (pre @ c) = pre @ c @ [node_ref opBranch 2, node_ref opRef (- int (length c) - 1), node opBranch]"
  by (simp add: add_plus_def Let_def minus_one_first)

lemma add_optional_code: "add_optional (length pre) (pre @ c) = pre @ optional c"
  by (simp add: add_optional_def optional_def insert_node_append)

lemma copy_code: "map (\<lambda>i. (pre @ c @ post) ! (length pre + i)) [0 ..< length c] = c"
  by (rule nth_equalityI) (simp_all add: nth_append)

lemma add_repeat_code:
  fixes c :: "'c similar_node list"
  assumes "c \<noteq> []"
  shows "add_repeat (length pre) n1 n2 (pre @ c) = pre @
     (if n1 = 0 \<and> n2 = INT_MAX then starred c
      else if n1 = 0 then repeated n2 (optional c)
      else if n2 = n1 then repeated n1 c
      else if n2 = INT_MAX then repeated n1 c @ starred c
      else repeated n1 c @ repeated (n2 - n1) (optional c))"
proof -
  define rs :: "'c similar_node" where "rs = node_rep opRepeatingRefStart n1 (int (length c) + 1)"
  have len: "length (pre @ c) - (length pre + 1) + 1 = length c" using assms by (cases c) simp_all
  have copy: "map (\<lambda>i. (pre @ rs # c @ post) ! (length pre + 1 + i)) [0 ..< length c] = c" for post
    using copy_code [of "pre @ [rs]" c post] by simp
  consider "n1 = 0 \<and> n2 = INT_MAX" | "n1 = 0" "n2 \<noteq> INT_MAX" | "n1 \<noteq> 0" by blast
  then show ?thesis
  proof cases
    case 1
    then show ?thesis by (simp add: add_repeat_def add_star_code)
  next
    case 2
    then show ?thesis
      by (simp add: add_repeat_def Let_def add_optional_code insert_node_append repeated_def minus_one_first)
  next
    case 3
    then show ?thesis
      using copy [of "[node_ref opRepeatingRefEnd (- int (length c) - 1)]"] len
      by (auto simp: add_repeat_def Let_def insert_node_append repeated_def starred_def optional_def rs_def minus_one_first three_last)
  qed
qed

section \<open>Repetition counts\<close>

text \<open>
  The counts are read from the bytes of the pattern at an offset that is computed from the characters
  before them, which is the right one when all characters have the same number of bytes.
\<close>

definition byte_aligned :: "'c similar_env \<Rightarrow> 'c similar_char list \<Rightarrow> bool" where
  "byte_aligned E pat \<longleftrightarrow> (\<exists>w > 0. \<forall>x \<in> set pat. length (orig x) = w) \<and>
     (\<forall>x \<in> set pat. \<forall>bs. firstChar E (orig x @ bs) = orig x)"

definition braces_aligned :: "'c similar_env \<Rightarrow> 'c similar_char list \<Rightarrow> bool" where
  "braces_aligned E pat \<longleftrightarrow> (canonicalChar E CHAR_OPEN_BRACE \<in> canon ` set pat \<longrightarrow> byte_aligned E pat)"

abbreviation codes :: "'c similar_env \<Rightarrow> 'c similar_char list \<Rightarrow> nat list" where
  "codes E w \<equiv> map (\<lambda>x. toUnicode E (orig x)) w"

lemma brace_loop_result:
  assumes "brace_loop E ps bytes comma s1 s2 = Inr (t1, t2, k, ps')" and "bytes = concat (map orig ps)"
    and "\<forall>x \<in> set ps. \<forall>bs. firstChar E (orig x @ bs) = orig x"
  shows "t1 \<noteq> [] \<and> at_char E CHAR_CLOSE_BRACE ps' \<and>
    (if comma then k \<and> t1 = s1 \<and> (\<exists>w. ps = w @ ps' \<and> (\<forall>x \<in> set w. digit_of E x) \<and> t2 = s2 @ codes E w)
     else \<not> k \<and> t2 = s2 \<and> (\<exists>w. ps = w @ ps' \<and> (\<forall>x \<in> set w. digit_of E x) \<and> t1 = s1 @ codes E w) \<or>
       k \<and> (\<exists>w x u. ps = w @ x # u @ ps' \<and> canon x = canonicalChar E CHAR_COMMA \<and>
         (\<forall>x \<in> set w. digit_of E x) \<and> (\<forall>x \<in> set u. digit_of E x) \<and> t1 = s1 @ codes E w \<and> t2 = s2 @ codes E u))"
  using assms
proof (induction E ps bytes comma s1 s2 rule: brace_loop.induct)
  case (1 E bytes comma s1 s2)
  then show ?case by (simp split: if_splits)
next
  case (2 E c ps bytes comma s1 s2)
  have first: "firstChar E bytes = orig c" and rest: "drop (length (orig c)) bytes = concat (map orig ps)"
    using 2(5,6) by simp_all
  have ps: "\<forall>x \<in> set ps. \<forall>bs. firstChar E (orig x @ bs) = orig x" using 2(6) by simp
  have ne: "bytes \<noteq> []" using 2(4) by auto
  consider (close) "canon c = canonicalChar E CHAR_CLOSE_BRACE" "s1 \<noteq> []" "t1 = s1" "t2 = s2" "k = comma" "ps' = c # ps"
    | (comma) "canon c \<noteq> canonicalChar E CHAR_CLOSE_BRACE" "canon c = canonicalChar E CHAR_COMMA" "\<not> comma"
        "brace_loop E ps (concat (map orig ps)) True s1 s2 = Inr (t1, t2, k, ps')"
    | (digit2) "digit_of E c" comma "brace_loop E ps (concat (map orig ps)) True s1 (s2 @ [toUnicode E (orig c)]) = Inr (t1, t2, k, ps')"
    | (digit1) "digit_of E c" "\<not> comma" "brace_loop E ps (concat (map orig ps)) False (s1 @ [toUnicode E (orig c)]) s2 = Inr (t1, t2, k, ps')"
    using 2(4) ne by (auto simp: Let_def first rest digit_of_def split: if_splits)
  then show ?case
  proof cases
    case close
    then show ?thesis by (simp add: at_char_def)
  next
    case comma
    have "t1 \<noteq> [] \<and> at_char E CHAR_CLOSE_BRACE ps' \<and>
        k \<and> t1 = s1 \<and> (\<exists>w. ps = w @ ps' \<and> (\<forall>x \<in> set w. digit_of E x) \<and> t2 = s2 @ codes E w)"
      by (rule 2(1) [OF ne first [symmetric] refl comma(1-3), unfolded rest if_True, OF comma(4) refl ps])
    then obtain w where "t1 \<noteq> []" "at_char E CHAR_CLOSE_BRACE ps'" k "t1 = s1"
      and "ps = w @ ps'" "\<forall>x \<in> set w. digit_of E x" "t2 = s2 @ codes E w" by blast
    moreover from this have "c # ps = [] @ c # w @ ps'" "t1 = s1 @ codes E []" by simp_all
    ultimately show ?thesis
      using comma(2,3) by (metis empty_iff list.set(1))
  next
    case digit2
    note d = digit2(1) [unfolded digit_of_def]
    have "t1 \<noteq> [] \<and> at_char E CHAR_CLOSE_BRACE ps' \<and> k \<and> t1 = s1 \<and>
        (\<exists>w. ps = w @ ps' \<and> (\<forall>x \<in> set w. digit_of E x) \<and> t2 = s2 @ toUnicode E (orig c) # codes E w)"
      using 2(2) [OF ne first [symmetric] refl] d digit2(2,3) rest ps by (auto simp: first)
    then obtain w where "ps = w @ ps'" "\<forall>x \<in> set w. digit_of E x" "t2 = s2 @ toUnicode E (orig c) # codes E w"
      and "t1 \<noteq> []" "at_char E CHAR_CLOSE_BRACE ps'" k "t1 = s1" by blast
    then show ?thesis using digit2(1,2) by (auto intro!: exI [of _ "c # w"])
  next
    case digit1
    note d = digit1(1) [unfolded digit_of_def]
    have "t1 \<noteq> [] \<and> at_char E CHAR_CLOSE_BRACE ps' \<and>
      (\<not> k \<and> t2 = s2 \<and> (\<exists>w. ps = w @ ps' \<and> (\<forall>x \<in> set w. digit_of E x) \<and> t1 = s1 @ codes E (c # w)) \<or>
       k \<and> (\<exists>w x u. ps = w @ x # u @ ps' \<and> canon x = canonicalChar E CHAR_COMMA \<and>
         (\<forall>x \<in> set w. digit_of E x) \<and> (\<forall>x \<in> set u. digit_of E x) \<and> t1 = s1 @ codes E (c # w) \<and> t2 = s2 @ codes E u))"
      using 2(3) [OF ne first [symmetric] refl] d digit1(2,3) rest ps by (simp add: first)
    then show ?thesis using digit1(1,2) by (metis append_Cons set_ConsD)
  qed
qed

lemma atoi_codes:
  assumes "\<forall>x \<in> set w. digit_of E x"
  shows "atoi (codes E w) = int (foldl (\<lambda>n x. n * 10 + (toUnicode E (orig x) - 48)) 0 w)"
proof -
  have "foldl (\<lambda>n d. n * 10 + int (d - 48)) (int n) (codes E w) = int (foldl (\<lambda>n x. n * 10 + (toUnicode E (orig x) - 48)) n w)" for n
  proof (induction w arbitrary: n)
    case (Cons x w)
    show ?case using Cons.IH [of "n * 10 + (toUnicode E (orig x) - 48)"] by simp
  qed simp
  from this [of 0] show ?thesis by (simp add: atoi_def)
qed

lemma number_bound:
  assumes "number E w n"
  shows "int n < INT_MAX"
proof -
  have "foldl (\<lambda>n x. n * 10 + (toUnicode E (orig x) - 48)) k w < (k + 1) * 10 ^ length w"
    if "\<forall>x \<in> set w. digit_of E x" for k
    using that
  proof (induction w arbitrary: k)
    case (Cons x w)
    let ?d = "toUnicode E (orig x) - 48"
    have "toUnicode E (orig x) \<le> 57" using Cons.prems by (simp add: digit_of_def)
    then have "?d \<le> 9" by linarith
    then have "(k * 10 + ?d + 1) * 10 ^ length w \<le> ((k + 1) * 10) * 10 ^ length w"
      by (intro mult_right_mono) auto
    then show ?case using Cons.IH [of "k * 10 + ?d"] Cons.prems by (simp add: algebra_simps)
  qed simp
  from this [of 0] assms have "n < 10 ^ length w" by (simp add: number_def)
  also have "(10 :: nat) ^ length w \<le> 10 ^ 9" using assms by (intro power_increasing) (auto simp: number_def)
  finally show ?thesis by (simp add: INT_MAX_def)
qed

lemma at_charE: "at_char E m ps \<Longrightarrow> (\<And>d qs. ps = d # qs \<Longrightarrow> canon d = canonicalChar E m \<Longrightarrow> thesis) \<Longrightarrow> thesis"
  by (auto simp: at_char_def split: list.splits)

definition bounds_of :: "('c regex \<Rightarrow> 'c regex) \<Rightarrow> int \<Rightarrow> int \<Rightarrow> bool" where
  "bounds_of f n1 n2 \<longleftrightarrow>
     (\<exists>n m. f = Between n m \<and> n1 = int n \<and> n2 = int m \<and> n \<le> m \<and> n2 < INT_MAX) \<or>
     (\<exists>n. f = AtLeast n \<and> n1 = int n \<and> n1 < INT_MAX \<and> n2 = INT_MAX)"

lemma concat_length_uniform: "(\<forall>x \<in> set xs. length (f x) = w) \<Longrightarrow> length (concat (map f xs)) = length xs * w"
  by (induction xs) auto

lemma parse_bounds_result:
  assumes res: "parse_bounds E pat ps = Inr (n1, n2, ps1)" and suf: "suffix (c # ps) pat"
    and al: "byte_aligned E pat" and c: "canon c = canonicalChar E CHAR_OPEN_BRACE"
  shows "\<exists>f. repetition E (c # ps) f (tl ps1) \<and> bounds_of f n1 n2"
proof -
  obtain pre where pat: "pat = pre @ c # ps" using suf by (auto simp: suffix_def)
  obtain w where w: "w > 0" "\<forall>x \<in> set pat. length (orig x) = w"
    and fc: "\<forall>x \<in> set pat. \<forall>bs. firstChar E (orig x @ bs) = orig x"
    using al by (auto simp: byte_aligned_def)
  let ?k = "length pat - length ps"
  let ?offset = "length (concat (map orig (take ?k (drop 1 pat))))"
  obtain s1 s2 comma where loop: "brace_loop E ps (drop ?offset (concat (map orig pat))) False [] [] = Inr (s1, s2, comma, ps1)"
    and nine: "length s1 \<le> 9" "length s2 \<le> 9" and n1: "n1 = atoi s1"
    and n2: "n2 = (if s2 = [] then (if comma then INT_MAX else n1) else atoi s2)" and le: "n1 \<le> n2"
    using res by (auto simp: parse_bounds_def Let_def not_less split: sum.splits if_splits)
  have ne: "ps \<noteq> []" using loop by (auto split: if_splits)
  have k: "?k = length (pre @ [c])" using pat by simp
  have "length (take ?k (drop 1 pat)) = ?k" using ne unfolding k by (cases ps) (simp_all add: pat)
  moreover have "\<forall>x \<in> set (take ?k (drop 1 pat)). length (orig x) = w"
    using w(2) by (meson in_set_dropD in_set_takeD)
  ultimately have "?offset = ?k * w" using concat_length_uniform [of "take ?k (drop 1 pat)" orig w] by simp
  moreover have "length (concat (map orig (pre @ [c]))) = length (pre @ [c]) * w"
    by (rule concat_length_uniform) (use w(2) pat in auto)
  ultimately have offset: "?offset = length (concat (map orig (pre @ [c])))" using k by simp
  have "concat (map orig pat) = concat (map orig (pre @ [c])) @ concat (map orig ps)" by (simp add: pat)
  then have bytes: "drop ?offset (concat (map orig pat)) = concat (map orig ps)"
    unfolding offset by simp
  have "\<forall>x \<in> set ps. \<forall>bs. firstChar E (orig x @ bs) = orig x" using fc by (simp add: pat)
  from brace_loop_result [OF loop bytes this]
  have t1: "s1 \<noteq> []" and close: "at_char E CHAR_CLOSE_BRACE ps1"
    and cases: "\<not> comma \<and> s2 = [] \<and> (\<exists>w. ps = w @ ps1 \<and> (\<forall>x \<in> set w. digit_of E x) \<and> s1 = codes E w) \<or>
       comma \<and> (\<exists>w x u. ps = w @ x # u @ ps1 \<and> canon x = canonicalChar E CHAR_COMMA \<and>
         (\<forall>x \<in> set w. digit_of E x) \<and> (\<forall>x \<in> set u. digit_of E x) \<and> s1 = codes E w \<and> s2 = codes E u)"
    by simp_all
  obtain d qs where ps1: "ps1 = d # qs" and d: "canon d = canonicalChar E CHAR_CLOSE_BRACE"
    using close by (rule at_charE)
  have num: "\<exists>n. number E u n \<and> atoi (codes E u) = int n"
    if "codes E u \<noteq> []" "\<forall>x \<in> set u. digit_of E x" "length (codes E u) \<le> 9" for u
    using that atoi_codes [OF that(2)] by (auto simp: number_def)
  from cases show ?thesis
  proof (elim disjE conjE exE)
    fix u assume a: "\<not> comma" "s2 = []" "ps = u @ ps1" "\<forall>x \<in> set u. digit_of E x" "s1 = codes E u"
    obtain n where n: "number E u n" "n1 = int n" using num [of u] t1 nine a n1 by auto
    have "repetition E (c # ps) (Between n n) qs" unfolding a(3) ps1 by (rule rep_exact [OF c n(1) d])
    moreover have "bounds_of (Between n n) n1 n2"
      using n number_bound [OF n(1)] n2 a by (simp add: bounds_of_def)
    ultimately show ?thesis by (auto simp: ps1)
  next
    fix u x u'
    assume a: comma "ps = u @ x # u' @ ps1" "canon x = canonicalChar E CHAR_COMMA"
      "\<forall>x \<in> set u. digit_of E x" "\<forall>x \<in> set u'. digit_of E x" "s1 = codes E u" "s2 = codes E u'"
    obtain n where n: "number E u n" "n1 = int n" using num [of u] t1 nine a n1 by auto
    show ?thesis
    proof (cases "u' = []")
      case True
      have "repetition E (c # ps) (AtLeast n) qs" unfolding a(2) ps1 True by (simp add: rep_atleast [OF c n(1) a(3) d])
      moreover have "bounds_of (AtLeast n) n1 n2"
        using n number_bound [OF n(1)] n2 a True by (simp add: bounds_of_def)
      ultimately show ?thesis by (auto simp: ps1)
    next
      case False
      obtain m where m: "number E u' m" "n2 = int m" using num [of u'] False nine a n2 by auto
      have "n \<le> m" using le n m by simp
      then have "repetition E (c # ps) (Between n m) qs" unfolding a(2) ps1 by (rule rep_between [OF c n(1) a(3) m(1) _ d])
      moreover have "bounds_of (Between n m) n1 n2"
        using n m \<open>n \<le> m\<close> number_bound [OF m(1)] by (simp add: bounds_of_def)
      ultimately show ?thesis by (auto simp: ps1)
    qed
  qed
qed

section \<open>Repetitions\<close>

lemma compiles_atleast_0:
  assumes "compiles E r c"
  shows "compiles E (AtLeast 0 r) (starred c)"
  using compiles_star [OF assms] by (simp add: compiles_def starred_def)

lemma compiles_bounds:
  assumes "bounds_of f n1 n2" and "compiles E r c" and "c \<noteq> []"
  shows "\<exists>d. add_repeat (length pre) n1 n2 (pre @ c) = pre @ d \<and> d \<noteq> [] \<and> compiles E (f r) d"
  using assms(1) unfolding bounds_of_def
proof (elim disjE exE conjE)
  fix n m assume f: "f = Between n m" "n1 = int n" "n2 = int m" "n \<le> m" "n2 < INT_MAX"
  consider "n = 0" | "n \<noteq> 0" "m = n" | "n \<noteq> 0" "m \<noteq> n" by blast
  then show ?thesis
  proof cases
    case 1
    then show ?thesis using f add_repeat_code [OF assms(3)] compiles_upto [OF assms(2)] by (auto simp: repeated_def)
  next
    case 2
    then show ?thesis using f add_repeat_code [OF assms(3)] compiles_exact [OF assms(2)] by (auto simp: repeated_def)
  next
    case 3
    then show ?thesis using f add_repeat_code [OF assms(3)] compiles_between [OF assms(2) f(4)] by (auto simp: repeated_def)
  qed
next
  fix n assume f: "f = AtLeast n" "n1 = int n" "n1 < INT_MAX" "n2 = INT_MAX"
  show ?thesis
  proof (cases "n = 0")
    case True
    then show ?thesis using f add_repeat_code [OF assms(3)] compiles_atleast_0 [OF assms(2)] by (auto simp: starred_def)
  next
    case False
    then show ?thesis using f add_repeat_code [OF assms(3)] compiles_atleast [OF assms(2)] by (auto simp: repeated_def)
  qed
qed

lemma flag_ok_bounds:
  assumes "bounds_of f n1 n2" and "flag_ok E True r"
  shows "flag_ok E (n1 \<noteq> 0) (f r)"
  using assms by (auto simp: bounds_of_def flag_ok_def)

definition rep_code ::
  "'c similar_env \<Rightarrow> 'c similar_char list \<Rightarrow> nat \<Rightarrow> 'c similar_node list \<Rightarrow> 'c \<Rightarrow> 'c similar_char list
     \<Rightarrow> similar_error + (similar_flags \<times> 'c similar_node list \<times> 'c similar_char list)" where
  "rep_code E pat atomPos ns c pos =
     (if c = canonicalChar E CHAR_ASTERISK then Inr (no_flags, add_star atomPos ns, pos)
      else if c = canonicalChar E CHAR_PLUS then Inr (no_flags\<lparr>not_empty := True\<rparr>, add_plus atomPos ns, pos)
      else if c = canonicalChar E CHAR_QUESTION_MARK then Inr (no_flags, add_optional atomPos ns, pos)
      else
        (case parse_bounds E pat (tl pos) of
           Inl e \<Rightarrow> Inl e
         | Inr (n1, n2, ps1) \<Rightarrow> Inr (no_flags\<lparr>not_empty := (n1 \<noteq> 0)\<rparr>, add_repeat atomPos n1 n2 ns, ps1)))"

lemma parse_repetition_Inr:
  assumes "parse_repetition E pat a fl c st = Inr (fl', st')"
    and "(if exactly fl then split_last a (nodes st) else (a, nodes st)) = (a', ns)"
  shows "(not_empty fl \<or> c = canonicalChar E CHAR_QUESTION_MARK) \<and>
    (\<exists>ps1. rep_code E pat a' ns c (patternPos st) = Inr (fl', nodes st', ps1) \<and> patternPos st' = tl ps1) \<and>
    \<not> rep_next E (patternPos st')"
  using assms unfolding parse_repetition_def rep_code_def [symmetric] Let_def
  by (auto simp: rep_next_def split: if_splits sum.splits prod.splits)

lemma flag_ok_mono: "flag_ok E ne r \<Longrightarrow> ne \<Longrightarrow> flag_ok E True r"
  by (simp add: flag_ok_def)

lemma rep_code_result:
  assumes res: "rep_code E pat (length pre) (pre @ c) ch pos = Inr (fl', ns', ps1)"
    and pos: "pos = x # ps" "ch = canon x" "isRep E ch" "suffix pos pat" and al: "braces_aligned E pat"
    and c: "compiles E r c" "c \<noteq> []" and flag: "flag_ok E ne r" "ne \<or> ch = canonicalChar E CHAR_QUESTION_MARK"
  shows "\<exists>f d. repetition E pos f (tl ps1) \<and> ns' = pre @ d \<and> d \<noteq> [] \<and> compiles E (f r) d \<and> flag_ok E (not_empty fl') (f r)"
proof -
  consider (star) "canon x = canonicalChar E CHAR_ASTERISK"
    | (plus) "canon x \<noteq> canonicalChar E CHAR_ASTERISK" "canon x = canonicalChar E CHAR_PLUS"
    | (opt) "canon x \<noteq> canonicalChar E CHAR_ASTERISK" "canon x \<noteq> canonicalChar E CHAR_PLUS" "canon x = canonicalChar E CHAR_QUESTION_MARK"
    | (brace) "canon x \<noteq> canonicalChar E CHAR_ASTERISK" "canon x \<noteq> canonicalChar E CHAR_PLUS"
        "canon x \<noteq> canonicalChar E CHAR_QUESTION_MARK" "canon x = canonicalChar E CHAR_OPEN_BRACE"
    using pos unfolding isRep_def by metis
  then show ?thesis
  proof cases
    case star
    have eqs: "fl' = no_flags" "ns' = pre @ starred c" "ps1 = pos" using res star pos by (simp_all add: rep_code_def add_star_code)
    have "flag_ok E False (Star r)" using flag star pos by (auto simp: flag_ok_def rep_distinct_def)
    moreover have "compiles E (Star r) (starred c)" unfolding starred_def by (rule compiles_star [OF c(1)])
    ultimately show ?thesis using rep_star [OF star] eqs pos
      by (intro exI [of _ Star] exI [of _ "starred c"]) (simp add: starred_def no_flags_def)
  next
    case plus
    define d where "d = c @ [node_ref opBranch 2, node_ref opRef (- int (length c) - 1), node opBranch]"
    have eqs: "fl' = no_flags\<lparr>not_empty := True\<rparr>" "ns' = pre @ d" "ps1 = pos"
      using res plus pos by (simp_all add: rep_code_def add_plus_code d_def)
    have "flag_ok E True (Plus r)" using flag plus pos by (auto simp: flag_ok_def rep_distinct_def)
    moreover have "compiles E (Plus r) d" unfolding d_def by (rule compiles_plus [OF c(1)])
    ultimately show ?thesis using rep_plus [OF plus(2)] eqs pos
      by (intro exI [of _ Plus] exI [of _ d]) (simp add: d_def)
  next
    case opt
    have eqs: "fl' = no_flags" "ns' = pre @ optional c" "ps1 = pos"
      using res opt pos by (simp_all add: rep_code_def add_optional_code)
    have "flag_ok E False (Opt r)" using flag by (simp add: flag_ok_def)
    moreover have "compiles E (Opt r) (optional c)" unfolding optional_def by (rule compiles_opt [OF c(1)])
    ultimately show ?thesis using rep_opt [OF opt(3)] eqs pos
      by (intro exI [of _ Opt] exI [of _ "optional c"]) (simp add: optional_def no_flags_def)
  next
    case brace
    obtain n1 n2 where pb: "parse_bounds E pat ps = Inr (n1, n2, ps1)"
      and eqs: "fl' = no_flags\<lparr>not_empty := (n1 \<noteq> 0)\<rparr>" "ns' = add_repeat (length pre) n1 n2 (pre @ c)"
      using res brace pos by (auto simp: rep_code_def split: sum.splits)
    have suf: "suffix (x # ps) pat" using pos by simp
    have "x \<in> set pat" using set_mono_suffix [OF suf] by auto
    then have "byte_aligned E pat" using al brace(4) by (auto simp: braces_aligned_def rev_image_eqI)
    from parse_bounds_result [OF pb suf this brace(4)]
    obtain f where f: "repetition E pos f (tl ps1)" "bounds_of f n1 n2" using pos by auto
    obtain d where d: "ns' = pre @ d" "d \<noteq> []" "compiles E (f r) d"
      using compiles_bounds [OF f(2) c, of pre] eqs by auto
    have "flag_ok E True r" using flag brace pos flag_ok_mono by metis
    then have "flag_ok E (not_empty fl') (f r)" using flag_ok_bounds [OF f(2)] eqs by simp
    then show ?thesis using f(1) d by blast
  qed
qed

section \<open>Literal runs\<close>

abbreviation letters :: "'c similar_char list \<Rightarrow> 'c regex list" where
  "letters w \<equiv> map (\<lambda>x. Letter (canon x)) w"

lemma isRep_meta: "isRep E c \<Longrightarrow> c \<in> set (metaCharacters E)"
  by (auto simp: isRep_def metaCharacters_def)

lemma factors_letters:
  assumes "\<forall>x \<in> set w. canon x \<notin> set (metaCharacters E)" and "\<not> rep_next E ps"
  shows "factors E (w @ ps) (letters w) ps"
  using assms
proof (induction w)
  case (Cons x w)
  have "\<not> rep_next E (w @ ps)" using Cons.prems by (cases w) (auto simp: rep_next_def dest: isRep_meta)
  moreover have "factors E (w @ ps) (letters w) ps" and "canon x \<notin> set (metaCharacters E)" using Cons by simp_all
  ultimately show ?case using f_one [OF p_letter] by fastforce
qed (simp add: f_none)

lemma choices_ok_letters [simp]: "choices_ok (Seq (letters w))" "productive (Seq (letters w))"
  by (simp_all add: list_all_iff)

definition literal_node :: "'c similar_char list \<Rightarrow> 'c similar_node" where
  "literal_node w = node_str (if length w = 1 then opExactlyOne else opExactly) (map canon w)"

lemma compiles_string:
  assumes "w \<noteq> []" and "n_op nd = opExactly" and "n_str nd = map canon w"
  shows "compiles E (Seq (letters w)) [nd]"
  unfolding compiles_def using string_implements [of "map canon w" nd E] assms by (simp add: comp_def)

lemma compiles_letter:
  assumes "n_op nd = opExactlyOne" and "n_str nd = [c]"
  shows "compiles E (Letter c) [nd]"
  unfolding compiles_def using letter_implements [OF assms] by simp

lemma compiles_literal:
  assumes "w \<noteq> []"
  shows "compiles E (Seq (letters w)) [literal_node w]"
proof (cases "length w = 1")
  case True
  then obtain x where "w = [x]" by (auto simp: length_Suc_conv)
  then show ?thesis using compiles_one [OF compiles_letter [of "literal_node w" "canon x" E]] by (simp add: literal_node_def)
qed (use assms in \<open>simp add: compiles_string literal_node_def\<close>)

lemma notInSet_run:
  assumes "notInSet (map canon ps) metas = l"
  shows "\<forall>x \<in> set (take l ps). canon x \<notin> set metas" and "l \<le> length ps"
  using assms by (induction ps arbitrary: l) (auto split: if_splits)

text \<open>The last letter of a run is split off when a repetition follows.\<close>

lemma split_last_literal:
  assumes "w \<noteq> []"
  obtains u x c1 nd where "w = u @ [x]" and "split_last (length pre) (pre @ [literal_node w]) = (length (pre @ c1), pre @ c1 @ [nd])"
    and "compiles E (Seq (letters u)) c1" and "compiles E (Letter (canon x)) [nd]"
proof (cases "length w = 1")
  case True
  then obtain x where x: "w = [x]" by (auto simp: length_Suc_conv)
  show ?thesis
  proof (rule that)
    show "w = [] @ [x]" using x by simp
    show "split_last (length pre) (pre @ [literal_node w]) = (length (pre @ []), pre @ [] @ [literal_node w])"
      by (simp add: split_last_def Let_def x literal_node_def)
    show "compiles E (Seq (letters [])) []" using compiles_none by simp
    show "compiles E (Letter (canon x)) [literal_node w]" by (rule compiles_letter) (simp_all add: x literal_node_def)
  qed
next
  case False
  then have len: "length w > 1" using assms by (cases w) auto
  define u x where "u = butlast w" and "x = last w"
  have w: "w = u @ [x]" and u: "u \<noteq> []"
    using assms len by (simp add: u_def x_def, cases w) (auto simp: u_def)
  define l where "l = literal_node w"
  have l: "n_op l = opExactly" "n_str l = map canon w" using False by (simp_all add: l_def literal_node_def)
  define nd1 where "nd1 = l\<lparr>n_str := butlast (n_str l), n_len := n_len l - 1\<rparr>"
  define nd where "nd = l\<lparr>n_op := opExactlyOne, n_str := [last (n_str l)], n_len := 1\<rparr>"
  show ?thesis
  proof (rule that)
    show "w = u @ [x]" by (rule w)
    show "split_last (length pre) (pre @ [literal_node w]) = (length (pre @ [nd1]), pre @ [nd1] @ [nd])"
      using len by (simp add: split_last_def Let_def l_def [symmetric] l nd1_def nd_def)
    show "compiles E (Seq (letters u)) [nd1]"
      by (rule compiles_string [OF u]) (simp_all add: nd1_def l w)
    show "compiles E (Letter (canon x)) [nd]"
      by (rule compiles_letter) (simp_all add: nd_def l w)
  qed
qed

section \<open>The parser\<close>

text \<open>What a call promises about the code it adds and the part of the pattern it reads.\<close>

definition primary_result :: "'c similar_env \<Rightarrow> 'c parse_state \<Rightarrow> similar_flags \<Rightarrow> 'c parse_state \<Rightarrow> bool" where
  "primary_result E st fl st' \<longleftrightarrow>
     (exactly fl \<and> (\<exists>w. w \<noteq> [] \<and> nodes st' = nodes st @ [literal_node w] \<and> patternPos st = w @ patternPos st' \<and>
        (\<forall>x \<in> set w. canon x \<notin> set (metaCharacters E)))) \<or>
     (\<not> exactly fl \<and> (\<exists>r c. primary E (patternPos st) r (patternPos st') \<and> nodes st' = nodes st @ c \<and> c \<noteq> [] \<and>
        compiles E r c \<and> flag_ok E (not_empty fl) r))"

definition factors_result :: "'c similar_env \<Rightarrow> bool \<Rightarrow> 'c parse_state \<Rightarrow> similar_flags \<Rightarrow> 'c parse_state \<Rightarrow> bool" where
  "factors_result E ne st fl st' \<longleftrightarrow>
     (\<exists>rs c. factors E (patternPos st) rs (patternPos st') \<and> nodes st' = nodes st @ c \<and> compiles E (Seq rs) c \<and>
        flag_ok E (not_empty fl \<and> \<not> ne) (Seq rs))"

definition choice_result :: "'c similar_env \<Rightarrow> 'c parse_state \<Rightarrow> bool \<Rightarrow> 'c similar_node list \<Rightarrow> 'c parse_state \<Rightarrow> bool" where
  "choice_result E st ne c st' \<longleftrightarrow>
     (\<exists>rs alts. choice E (patternPos st) rs (patternPos st') \<and> c = alternatives_code alts \<and> rs \<noteq> [] \<and>
        list_all2 (\<lambda>a r. compiles E r (snd a)) alts rs \<and>
        (rep_distinct E \<longrightarrow> list_all choices_ok rs \<longrightarrow> list_all productive rs \<and> (ne \<longrightarrow> \<not> nullable (last rs))))"

definition fix_refs :: "nat list \<Rightarrow> 'c similar_node list \<Rightarrow> 'c similar_node list" where
  "fix_refs refs ns = foldl (\<lambda>ns i. ns[i := (ns ! i)\<lparr>n_ref := int (length ns) - int i\<rparr>]) ns refs"

primrec call_result :: "'c similar_env \<Rightarrow> 'c parse_call \<Rightarrow> similar_flags \<Rightarrow> 'c parse_state \<Rightarrow> bool" where
  "call_result E (Expr st) fl st' = (\<exists>c. nodes st' = nodes st @ c \<and> choice_result E st (not_empty fl) c st')"
| "call_result E (Alternatives flagp refs st) fl st' = ((\<forall>i \<in> set refs. i < length (nodes st)) \<longrightarrow>
     (\<exists>c. nodes st' = fix_refs refs (nodes st @ c) \<and> choice_result E st (not_empty fl) c st'))"
| "call_result E (Factors first flagp st) fl st' =
     (factors_result E (not_empty flagp) st fl st' \<and> (patternPos st' = [] \<or> at_char E CHAR_VERTICAL_BAR (patternPos st') \<or>
        at_char E CHAR_CLOSE_PAREN (patternPos st')))"
| "call_result E (Factor st) fl st' = factors_result E False st fl st'"
| "call_result E (Primary st) fl st' = primary_result E st fl st'"

definition call_sound :: "'c similar_env \<Rightarrow> 'c similar_char list \<Rightarrow> ('c parse_call \<Rightarrow> 'c parse_result) \<Rightarrow> bool" where
  "call_sound E pat self \<longleftrightarrow>
     (\<forall>call fl st'. self call = Inr (fl, st') \<longrightarrow> suffix (call_pos call) pat \<longrightarrow> call_result E call fl st')"

lemma call_soundD:
  "call_sound E pat self \<Longrightarrow> self call = Inr (fl, st') \<Longrightarrow> suffix (call_pos call) pat \<Longrightarrow> call_result E call fl st'"
  unfolding call_sound_def by blast

text \<open>The language of the alternatives.\<close>

lemma span_of_Union: "span_of v (\<Union> (set As)) = any_of (map (span_of v) As)"
  by (auto simp: span_of_def any_of_def fun_eq_iff)

lemma compiles_choice:
  assumes "list_all2 (\<lambda>a r. compiles E r (snd a)) alts rs" and "rs \<noteq> []"
  shows "compiles E (Choice rs) (alternatives_code alts)"
  unfolding compiles_def
proof (intro impI allI)
  fix v
  assume p: "productive (Choice rs)"
  have "list_all2 (\<lambda>a L. implements E v (snd a) L) alts (map (\<lambda>r. span_of v (lang E r)) rs)"
    using assms(1) p unfolding list_all2_conv_all_nth compiles_def by (simp add: list_all_iff)
  moreover have "alts \<noteq> []" using assms by auto
  ultimately have "implements E v (alternatives_code alts) (any_of (map (\<lambda>r. span_of v (lang E r)) rs))"
    by (intro alternatives_code_implements)
  moreover have "span_of v (lang E (Choice rs)) = any_of (map (\<lambda>r. span_of v (lang E r)) rs)"
    using span_of_Union [of v "map (lang E) rs"] by (simp add: comp_def)
  ultimately show "implements E v (alternatives_code alts) (span_of v (lang E (Choice rs)))" by simp
qed

lemma alternatives_code_nonempty: "alts \<noteq> [] \<Longrightarrow> alternatives_code alts \<noteq> []"
  by (cases alts) (auto split: if_splits)

lemma choice_result_code:
  assumes "choice_result E st ne c st'"
  obtains rs where "choice E (patternPos st) rs (patternPos st')" "compiles E (Choice rs) c" "c \<noteq> []" "flag_ok E ne (Choice rs)"
proof -
  obtain rs alts where *: "choice E (patternPos st) rs (patternPos st')" "c = alternatives_code alts" "rs \<noteq> []"
      "list_all2 (\<lambda>a r. compiles E r (snd a)) alts rs"
      "rep_distinct E \<longrightarrow> list_all choices_ok rs \<longrightarrow> list_all productive rs \<and> (ne \<longrightarrow> \<not> nullable (last rs))"
    using assms unfolding choice_result_def by blast
  have "alts \<noteq> []" using * by auto
  show ?thesis
  proof (rule that)
    show "c \<noteq> []" using * alternatives_code_nonempty [OF \<open>alts \<noteq> []\<close>] by simp
    show "flag_ok E ne (Choice rs)" using *(5) by (auto simp: flag_ok_def list_all_iff list_ex_iff)
  qed (use * compiles_choice in auto)
qed

lemma compiles_any: "compiles E AnyOne [node opAny]"
  unfolding compiles_def by (intro impI allI any_implements)

lemma compiles_many: "compiles E AnyMany [node_ref opBranch 3, node opAny, node_ref opRef (-2), node opBranch]"
  unfolding compiles_def by (intro impI allI anymany_implements)

lemma parse_set_char_op: "parse_set_char E b ps s = Inr (ps', s') \<Longrightarrow> set_node s' = set_node s \<and> set_but s' = set_but s"
  by (cases ps) (auto simp: parse_set_char_def Let_def split: sum.splits list.splits if_splits)

lemma set_item_op: "set_item E ps s = Inr (ps', s') \<Longrightarrow> set_node s' = set_node s \<and> set_but s' = set_but s"
  by (auto simp: set_item_def split: sum.splits if_splits dest: parse_set_char_op)

lemma store_set_op: "n_op (store_set s) = n_op (set_node s)"
  by (simp add: store_set_def)

lemma set_loop_op: "set_loop E n ps s = Inr (ps', s') \<Longrightarrow> n_op (set_node s') = n_op (set_node s)"
proof (induction n arbitrary: ps s)
  case (Suc n)
  show ?case
  proof (cases "\<not> at_escape E ps \<and> at_char E CHAR_CIRCUMFLEX ps")
    case True
    then show ?thesis
      using Suc.prems Suc.IH [of "tl ps" "set_except s"]
      by (auto simp: set_loop_Suc set_except_def store_set_op split: if_splits)
  next
    case False
    then obtain ps1 s1 where item: "set_item E ps s = Inr (ps1, s1)"
      using Suc.prems by (auto simp: set_loop_Suc split: if_splits sum.splits)
    then show ?thesis
      using Suc.prems False Suc.IH [of ps1 s1] set_item_op [OF item] by (auto simp: set_loop_Suc split: if_splits)
  qed
qed simp

lemma parse_set_op: "parse_set E ps = Inr (ps', nd) \<Longrightarrow> n_op nd = opAnyOf"
  by (auto simp: parse_set_def store_set_op simp del: set_loop.simps split: sum.splits dest!: set_loop_op)

lemma primary_sound:
  assumes self: "call_sound E pat self" and res: "parsePrimary E self st = Inr (fl, st')" and suf: "suffix (patternPos st) pat"
  shows "primary_result E st fl st'"
proof -
  obtain c ps where ps: "patternPos st = c # ps" using res by (cases "patternPos st") (simp_all add: parsePrimary_def)
  have sufps: "suffix ps pat" using suf by (metis ps suffix_ConsD)
  have result: "primary_result E st fl st'"
    if "primary E (patternPos st) r (patternPos st')" "nodes st' = nodes st @ d" "d \<noteq> []" "compiles E r d"
      "flag_ok E (not_empty fl) r" "\<not> exactly fl" for r d
    unfolding primary_result_def using that by blast
  have no: "\<not> exactly no_flags" by (simp add: no_flags_def)
  define special where "special \<longleftrightarrow> starts_primary E (canon c)"
  consider (any) "canon c = canonicalChar E CHAR_UNDERLINE"
    | (many) "canon c \<noteq> canonicalChar E CHAR_UNDERLINE" "canon c = canonicalChar E CHAR_PERCENT"
    | (bracket) "canon c \<noteq> canonicalChar E CHAR_UNDERLINE" "canon c \<noteq> canonicalChar E CHAR_PERCENT"
        "canon c = canonicalChar E CHAR_OPEN_BRACKET"
    | (group) "canon c \<noteq> canonicalChar E CHAR_UNDERLINE" "canon c \<noteq> canonicalChar E CHAR_PERCENT"
        "canon c \<noteq> canonicalChar E CHAR_OPEN_BRACKET" "canon c = canonicalChar E CHAR_OPEN_PAREN"
    | (escape) "\<not> special" "useEscape E \<and> canon c = escapeChar E"
    | (literal) "\<not> special" "\<not> (useEscape E \<and> canon c = escapeChar E)"
    unfolding special_def starts_primary_def by blast
  then show ?thesis
  proof cases
    case any
    then have r: "fl = no_flags\<lparr>not_empty := True\<rparr>" "st' = push_node (node opAny) (st\<lparr>patternPos := ps\<rparr>)"
      using res by (simp_all add: parsePrimary_def ps)
    show ?thesis
      by (rule result [where r = AnyOne and d = "[node opAny]"])
        (use any no p_any in \<open>simp_all add: r ps push_node_def compiles_any flag_ok_def\<close>)
  next
    case many
    define d where "d = [node_ref opBranch 3, node opAny, node_ref opRef (-2), node opBranch :: 'a similar_node]"
    have r: "fl = no_flags" "st' = st\<lparr>patternPos := ps, nodes := nodes st @ d\<rparr>"
      using res many by (simp_all add: parsePrimary_def ps d_def)
    show ?thesis
      by (rule result [where r = AnyMany and d = d])
        (use many no p_many in \<open>simp_all add: r ps d_def compiles_many [unfolded d_def] flag_ok_def no_flags_def\<close>)
  next
    case bracket
    obtain ps1 nd where set: "parse_set E ps = Inr (ps1, nd)"
      and r: "fl = no_flags\<lparr>not_empty := True\<rparr>" "st' = push_node nd (st\<lparr>patternPos := ps1\<rparr>)"
      using res bracket by (auto simp: parsePrimary_def ps split: sum.splits)
    have "compiles E (OneOf nd) [nd]"
      unfolding compiles_def by (intro impI allI class_implements parse_set_op [OF set])
    then show ?thesis
      by (intro result [where r = "OneOf nd" and d = "[nd]"])
        (use bracket no p_set [OF _ set] in \<open>simp_all add: r ps push_node_def flag_ok_def\<close>)
  next
    case group
    obtain fl1 st1 where call: "self (Expr (st\<lparr>patternPos := ps\<rparr>)) = Inr (fl1, st1)"
      and close: "at_char E CHAR_CLOSE_PAREN (patternPos st1)"
      and r: "fl = no_flags\<lparr>not_empty := not_empty fl1\<rparr>"
        "st' = st1\<lparr>patternPos := tl (patternPos st1), branch_count := branch_count st1 + 1\<rparr>"
      using res group by (auto simp: parsePrimary_def ps split: sum.splits if_splits)
    obtain d qs where qs: "patternPos st1 = d # qs" "canon d = canonicalChar E CHAR_CLOSE_PAREN" using close by (rule at_charE)
    obtain code where code: "nodes st1 = nodes st @ code" "choice_result E (st\<lparr>patternPos := ps\<rparr>) (not_empty fl1) code st1"
      using call_soundD [OF self call] sufps by auto
    obtain rs where rs: "choice E ps rs (d # qs)" "compiles E (Choice rs) code" "code \<noteq> []" "flag_ok E (not_empty fl1) (Choice rs)"
      using choice_result_code [OF code(2)] qs by auto
    show ?thesis
      by (rule result [where r = "Choice rs" and d = code])
        (use p_group [OF group(4) rs(1) qs(2)] rs code no in \<open>simp_all add: r ps qs\<close>)
  next
    case escape
    have nospecial: "canon c \<noteq> canonicalChar E CHAR_UNDERLINE" "canon c \<noteq> canonicalChar E CHAR_PERCENT"
      "canon c \<noteq> canonicalChar E CHAR_OPEN_BRACKET" "canon c \<noteq> canonicalChar E CHAR_OPEN_PAREN"
      using escape(1) by (auto simp: special_def starts_primary_def)
    obtain u where chk: "check_escaped E ps = Inr u"
      and r: "fl = no_flags\<lparr>not_empty := True\<rparr>"
        "st' = push_node (node_str opExactlyOne [canon (hd ps)]) (st\<lparr>patternPos := tl ps\<rparr>)"
      using res escape(2) nospecial by (auto simp: parsePrimary_def ps split: sum.splits)
    obtain d qs where qs: "ps = d # qs" "escapable E (canon d)"
      using chk by (auto simp: check_escaped_def escapable_def split: list.splits if_splits)
    have "compiles E (Letter (canon d)) [node_str opExactlyOne [canon d]]" by (rule compiles_letter) simp_all
    then show ?thesis
      by (intro result [where r = "Letter (canon d)" and d = "[node_str opExactlyOne [canon d]]"])
        (use escape no qs p_escape [of E c d qs] in \<open>simp_all add: r ps push_node_def flag_ok_def special_def\<close>)
  next
    case literal
    define l where "l = notInSet (map canon (c # ps)) (metaCharacters E)"
    have nospecial: "canon c \<noteq> canonicalChar E CHAR_UNDERLINE" "canon c \<noteq> canonicalChar E CHAR_PERCENT"
      "canon c \<noteq> canonicalChar E CHAR_OPEN_BRACKET" "canon c \<noteq> canonicalChar E CHAR_OPEN_PAREN"
      using literal(1) by (auto simp: special_def starts_primary_def)
    define nd where "nd = push_node (node_str (if l = 1 then opExactlyOne else opExactly) (map canon (take l (c # ps))))
                        (st\<lparr>patternPos := drop l (c # ps)\<rparr>)"
    have "parsePrimary E self st = (if l = 0 then Inl ISC_INVALID_SIMILAR_PATTERN else Inr (\<lparr>not_empty = True, exactly = True\<rparr>, nd))"
      using literal(2) nospecial unfolding parsePrimary_def ps l_def nd_def Let_def list.case by (simp only: if_False)
    then have l: "l \<noteq> 0" and fl: "fl = \<lparr>not_empty = True, exactly = True\<rparr>"
      and st': "st' = push_node (node_str (if l = 1 then opExactlyOne else opExactly) (map canon (take l (c # ps))))
                        (st\<lparr>patternPos := drop l (c # ps)\<rparr>)"
      using res unfolding nd_def by (cases "l = 0"; simp)+
    note run = notInSet_run [OF l_def [symmetric]]
    define w where "w = take l (c # ps)"
    have w: "length w = l" "w \<noteq> []" using run(2) l by (auto simp: w_def)
    have "nodes st' = nodes st @ [literal_node w]" by (simp add: st' push_node_def literal_node_def w) (simp add: w_def)
    moreover have "patternPos st = w @ patternPos st'" unfolding st' push_node_pos ps w_def by simp
    ultimately show ?thesis
      unfolding primary_result_def using run(1) w(2) by (auto simp: fl w_def)
  qed
qed

lemma factors_one:
  assumes "primary E ps r ps1" and "\<not> rep_next E ps1"
  shows "factors E ps [r] ps1"
  by (rule f_one [OF assms f_none])

lemma flag_ok_letters: "w \<noteq> [] \<Longrightarrow> flag_ok E ne (Seq (letters w))"
  by (cases w) (simp_all add: flag_ok_def list_all_iff)

lemma flag_ok_append:
  assumes "flag_ok E a (Seq rs)" and "flag_ok E b (Seq rs')"
  shows "flag_ok E (a \<or> b) (Seq (rs @ rs'))"
  using assms by (auto simp: flag_ok_def)

lemma flag_ok_one: "flag_ok E ne r \<Longrightarrow> flag_ok E ne (Seq [r])"
  by (simp add: flag_ok_def)

lemma factor_sound:
  assumes self: "call_sound E pat self" and "consumes self" and al: "braces_aligned E pat"
    and res: "parseFactor E pat self st = Inr (fl, st')" and suf: "suffix (patternPos st) pat"
  shows "factors_result E False st fl st'"
proof -
  obtain fl1 st1 where call: "self (Primary st) = Inr (fl1, st1)"
    using res by (auto simp: parseFactor_def Let_def split: sum.splits)
  have pr: "primary_result E st fl1 st1" using call_soundD [OF self call] suf by simp
  have suf1: "suffix (patternPos st1) pat" using consumesD(1) [OF assms(2) call] suf suffix_order.order_trans by fastforce
  show ?thesis
  proof (cases "rep_next E (patternPos st1)")
    case False
    then have r: "fl = fl1" "st' = st1"
      using res call by (auto simp: parseFactor_def Let_def rep_next_def split: list.splits)
    show ?thesis
    proof (cases "exactly fl1")
      case True
      then obtain w where w: "w \<noteq> []" "nodes st1 = nodes st @ [literal_node w]" "patternPos st = w @ patternPos st1"
        "\<forall>x \<in> set w. canon x \<notin> set (metaCharacters E)"
        using pr unfolding primary_result_def by blast
      have "factors E (patternPos st) (letters w) (patternPos st1)"
        unfolding w(3) by (rule factors_letters [OF w(4) False])
      then show ?thesis
        unfolding factors_result_def r using w compiles_literal flag_ok_letters by blast
    next
      case notexact: False
      then obtain r' c where "primary E (patternPos st) r' (patternPos st1)" "nodes st1 = nodes st @ c"
        "compiles E r' c" "flag_ok E (not_empty fl1) r'"
        using pr unfolding primary_result_def by blast
      then show ?thesis
        unfolding factors_result_def r using factors_one False compiles_one flag_ok_one by fastforce
    qed
  next
    case True
    then obtain x ps where x: "patternPos st1 = x # ps" "isRep E (canon x)" by (auto simp: rep_next_def split: list.splits)
    have rep: "parse_repetition E pat (length (nodes st)) fl1 (canon x) st1 = Inr (fl, st')"
      using res call x by (simp add: parseFactor_def Let_def)
    have suffix: "suffix (patternPos st1) pat" by (rule suf1)
    show ?thesis
    proof (cases "exactly fl1")
      case True
      then obtain w where w: "w \<noteq> []" "nodes st1 = nodes st @ [literal_node w]" "patternPos st = w @ patternPos st1"
        "\<forall>x \<in> set w. canon x \<notin> set (metaCharacters E)"
        using pr unfolding primary_result_def by blast
      obtain u y c1 nd where u: "w = u @ [y]"
        "split_last (length (nodes st)) (nodes st @ [literal_node w]) = (length (nodes st @ c1), nodes st @ c1 @ [nd])"
        "compiles E (Seq (letters u)) c1" "compiles E (Letter (canon y)) [nd]"
        using split_last_literal [OF w(1), of "nodes st" E] by blast
      have split: "(if exactly fl1 then split_last (length (nodes st)) (nodes st1) else (length (nodes st), nodes st1)) =
          (length (nodes st @ c1), (nodes st @ c1) @ [nd])"
        using True u(2) w(2) by simp
      obtain ps1 where rc: "rep_code E pat (length (nodes st @ c1)) ((nodes st @ c1) @ [nd]) (canon x) (patternPos st1) =
          Inr (fl, nodes st', ps1)" and pos: "patternPos st' = tl ps1" and next_ok: "\<not> rep_next E (patternPos st')"
        using parse_repetition_Inr [OF rep split] by blast
      have fy: "flag_ok E True (Letter (canon y))" by (simp add: flag_ok_def)
      obtain f d where f: "repetition E (patternPos st1) f (tl ps1)" "nodes st' = (nodes st @ c1) @ d"
          "compiles E (f (Letter (canon y))) d" "flag_ok E (not_empty fl) (f (Letter (canon y)))"
        using rep_code_result [OF rc x(1) refl x(2) suffix al u(4) _ fy] by auto
      have "canon y \<notin> set (metaCharacters E)" using w(4) u(1) by simp
      then have "factors E (y # patternPos st1) [f (Letter (canon y))] (patternPos st')"
        using f_rep [OF p_letter f(1) _ f_none] next_ok pos by simp
      moreover have "factors E (u @ y # patternPos st1) (letters u) (y # patternPos st1)"
        by (rule factors_letters) (use w(4) u(1) in \<open>auto simp: rep_next_def dest: isRep_meta\<close>)
      ultimately have "factors E (patternPos st) (letters u @ [f (Letter (canon y))]) (patternPos st')"
        using factors_append w(3) u(1) by fastforce
      moreover have "compiles E (Seq (letters u @ [f (Letter (canon y))])) (c1 @ d)"
        by (rule compiles_append [OF u(3) compiles_one [OF f(3)]])
      moreover have "flag_ok E (not_empty fl) (Seq (letters u @ [f (Letter (canon y))]))"
        using flag_ok_append [of E False "letters u" "not_empty fl", OF _ flag_ok_one [OF f(4)]] flag_ok_letters [of u E False]
        by (cases u) (simp_all add: flag_ok_one [OF f(4)])
      ultimately show ?thesis
        unfolding factors_result_def using f(2) by (metis append.assoc)
    next
      case False
      then obtain r c where r: "primary E (patternPos st) r (patternPos st1)" "nodes st1 = nodes st @ c" "c \<noteq> []"
        "compiles E r c" "flag_ok E (not_empty fl1) r"
        using pr unfolding primary_result_def by blast
      have split: "(if exactly fl1 then split_last (length (nodes st)) (nodes st1) else (length (nodes st), nodes st1)) =
          (length (nodes st), nodes st @ c)"
        using False r(2) by simp
      obtain ps1 where rc: "rep_code E pat (length (nodes st)) (nodes st @ c) (canon x) (patternPos st1) = Inr (fl, nodes st', ps1)"
        and pos: "patternPos st' = tl ps1" and next_ok: "\<not> rep_next E (patternPos st')"
        and ne: "not_empty fl1 \<or> canon x = canonicalChar E CHAR_QUESTION_MARK"
        using parse_repetition_Inr [OF rep split] by blast
      obtain f d where f: "repetition E (patternPos st1) f (tl ps1)" "nodes st' = nodes st @ d"
          "compiles E (f r) d" "flag_ok E (not_empty fl) (f r)"
        using rep_code_result [OF rc x(1) refl x(2) suffix al r(4,3,5) ne] by auto
      have "factors E (patternPos st) [f r] (patternPos st')"
        using f_rep [OF r(1) f(1) _ f_none] next_ok pos by simp
      then show ?thesis
        unfolding factors_result_def using f compiles_one flag_ok_one by fastforce
    qed
  qed
qed

lemma flag_ok_weaken: "flag_ok E a r \<Longrightarrow> (b \<Longrightarrow> a) \<Longrightarrow> flag_ok E b r"
  by (auto simp: flag_ok_def)

lemma factors_sound:
  assumes self: "call_sound E pat self" and cons: "consumes self"
    and res: "parse_factors E self first flagp st = Inr (fl, st')" and suf: "suffix (patternPos st) pat"
  shows "call_result E (Factors first flagp st) fl st'"
proof (cases "patternPos st \<noteq> [] \<and> \<not> at_char E CHAR_VERTICAL_BAR (patternPos st) \<and> \<not> at_char E CHAR_CLOSE_PAREN (patternPos st)")
  case True
  obtain flags st1 flagp2 where one: "self (Factor st) = Inr (flags, st1)"
    and more: "self (Factors False flagp2 st1) = Inr (fl, st')"
    and flagp2: "not_empty flagp2 \<longleftrightarrow> not_empty flagp \<or> not_empty flags"
    using res True by (auto simp: parse_factors_def Let_def split: sum.splits if_splits)
  have suf1: "suffix (patternPos st1) pat" using consumesD(1) [OF cons one] suf suffix_order.order_trans by fastforce
  obtain rs c where a: "factors E (patternPos st) rs (patternPos st1)" "nodes st1 = nodes st @ c" "compiles E (Seq rs) c"
      "flag_ok E (not_empty flags) (Seq rs)"
    using call_soundD [OF self one] suf by (auto simp: factors_result_def)
  have "call_result E (Factors False flagp2 st1) fl st'" using call_soundD [OF self more] suf1 by simp
  then obtain rs' d where b: "factors E (patternPos st1) rs' (patternPos st')" "nodes st' = nodes st1 @ d" "compiles E (Seq rs') d"
      "flag_ok E (not_empty fl \<and> \<not> not_empty flagp2) (Seq rs')"
      and stop: "patternPos st' = [] \<or> at_char E CHAR_VERTICAL_BAR (patternPos st') \<or> at_char E CHAR_CLOSE_PAREN (patternPos st')"
    by (auto simp: factors_result_def)
  have "flag_ok E (not_empty fl \<and> \<not> not_empty flagp) (Seq (rs @ rs'))"
    by (rule flag_ok_weaken [OF flag_ok_append [OF a(4) b(4)]]) (use flagp2 in blast)
  then have "factors_result E (not_empty flagp) st fl st'"
    unfolding factors_result_def using factors_append [OF a(1) b(1)] compiles_append [OF a(3) b(3)] a(2) b(2)
    by (metis append.assoc)
  then show ?thesis using stop by simp
next
  case False
  then have r: "fl = flagp" "st' = (if first then push_node (node opNothing) st else st)"
    using res by (auto simp: parse_factors_def)
  have "flag_ok E (not_empty fl \<and> \<not> not_empty flagp) (Seq [])" by (simp add: flag_ok_def r)
  moreover have "\<exists>c. nodes st' = nodes st @ c \<and> compiles E (Seq []) c"
    using compiles_none compiles_nothing by (fastforce simp: r push_node_def)
  moreover have "patternPos st' = patternPos st" by (simp add: r)
  ultimately have "factors_result E (not_empty flagp) st fl st'"
    unfolding factors_result_def using f_none by metis
  then show ?thesis using False r by auto
qed

lemma fix_refs_snoc:
  assumes "i \<notin> set refs"
  shows "fix_refs (refs @ [i]) ns = fix_refs refs (ns[i := (ns ! i)\<lparr>n_ref := int (length ns) - int i\<rparr>])"
  using assms unfolding fix_refs_def
proof (induction refs arbitrary: ns)
  case (Cons j refs)
  then show ?case by (simp add: list_update_swap)
qed simp

lemma nodes_set_refs:
  "nodes (foldl (\<lambda>st i. set_ref i (int (length (nodes st)) - int i) st) st refs) = fix_refs refs (nodes st)"
  unfolding fix_refs_def by (induction refs arbitrary: st) (simp_all add: set_ref_def)

lemma numbered_branch: "(node opBranch)\<lparr>n_branchNum := b, n_ref := r\<rparr> = numbered b (node_ref opBranch r)"
  "(node opRef)\<lparr>n_branchNum := b, n_ref := r\<rparr> = numbered b (node_ref opRef r)"
  by (simp_all add: numbered_def node_str_def node_ref_def)

lemma numbered_zero: "(node o1)\<lparr>n_branchNum := b\<rparr> = numbered b (node_ref o1 0)"
  by (simp add: numbered_def node_str_def node_ref_def)

lemma two_last: "2 + (x :: int) = x + 2"
  by simp

lemma numbered_set_ref: "(numbered b (node_ref o1 r))\<lparr>n_ref := r'\<rparr> = numbered b (node_ref o1 r')"
  by (simp add: numbered_def node_ref_def)

lemma alternatives_sound:
  assumes self: "call_sound E pat self" and cons: "consumes self"
    and res: "parse_alternatives E self flagp refs st = Inr (fl, st')" and suf: "suffix (patternPos st) pat"
    and refs: "\<forall>i \<in> set refs. i < length (nodes st)"
  shows "\<exists>c. nodes st' = fix_refs refs (nodes st @ c) \<and> choice_result E st (not_empty fl) c st'"
proof -
  define b where "b = int (branch_count st)"
  define st1 where "st1 = push_node ((node opBranch)\<lparr>n_branchNum := b\<rparr>) st"
  obtain flags st2 where term_call: "self (Factors True no_flags st1) = Inr (flags, st2)"
    using res by (auto simp: parse_alternatives_def Let_def st1_def b_def split: sum.splits)
  have suf1: "suffix (patternPos st1) pat" using suf by (simp add: st1_def)
  have suf2: "suffix (patternPos st2) pat" using consumesD(1) [OF cons term_call] suf1 suffix_order.order_trans by fastforce
  obtain rs c where c: "factors E (patternPos st) rs (patternPos st2)" "nodes st2 = nodes st1 @ c" "compiles E (Seq rs) c"
      "flag_ok E (not_empty flags) (Seq rs)"
      and stop: "patternPos st2 = [] \<or> at_char E CHAR_VERTICAL_BAR (patternPos st2) \<or> at_char E CHAR_CLOSE_PAREN (patternPos st2)"
    using call_soundD [OF self term_call] suf1 by (auto simp: factors_result_def no_flags_def st1_def)
  define start where "start = length (nodes st)"
  define i where "i = length (nodes st2)"
  define st3 where "st3 = push_node ((node opRef)\<lparr>n_branchNum := b\<rparr>) st2"
  define st4 where "st4 = set_ref start (int (length (nodes st3)) - int start) st3"
  define flagp' where "flagp' = \<lparr>not_empty = (not_empty flagp \<and> \<not> (\<not> not_empty flags)) \<or> not_empty flags, exactly = exactly flagp \<or> exactly flags\<rparr>"
  have body: "parse_alternatives E self flagp refs st =
      (if at_char E CHAR_VERTICAL_BAR (patternPos st4)
       then self (Alternatives flagp' (refs @ [i]) (st4\<lparr>patternPos := tl (patternPos st4)\<rparr>))
       else Inr (flagp', foldl (\<lambda>st i. set_ref i (int (length (nodes st)) - int i) st) (set_ref start 0 st4) (refs @ [i])))"
    using term_call
    by (simp only: parse_alternatives_def Let_def st1_def b_def start_def i_def st3_def st4_def flagp'_def sum.case prod.case)
  have pos4: "patternPos st4 = patternPos st2" by (simp add: st4_def st3_def)
  have nodes3: "nodes st3 = nodes st @ numbered b (node_ref opBranch 0) # c @ [numbered b (node_ref opRef 0)]"
    by (simp add: st3_def push_node_def c(2) st1_def numbered_zero)
  have nodes4: "nodes st4 = nodes st @ numbered b (node_ref opBranch (int (length c) + 2)) # c @ [numbered b (node_ref opRef 0)]"
    using nodes3 by (simp add: st4_def set_ref_def start_def numbered_set_ref two_last)
  have i: "i = length (nodes st) + 1 + length c" by (simp add: i_def c(2) st1_def push_node_def)
  have fresh: "i \<notin> set refs" using refs by (auto simp: i)
  have ne: "not_empty flagp' \<longleftrightarrow> not_empty flags" by (auto simp: flagp'_def)
  show ?thesis
  proof (cases "at_char E CHAR_VERTICAL_BAR (patternPos st4)")
    case True
    define st5 where "st5 = st4\<lparr>patternPos := tl (patternPos st4)\<rparr>"
    have call: "self (Alternatives flagp' (refs @ [i]) st5) = Inr (fl, st')" using res body True by (simp add: st5_def)
    obtain d qs where d: "patternPos st2 = d # qs" "canon d = canonicalChar E CHAR_VERTICAL_BAR"
      using True by (auto simp: pos4 elim: at_charE)
    have "suffix qs pat" using suf2 by (metis d(1) suffix_ConsD)
    moreover have "\<forall>j \<in> set (refs @ [i]). j < length (nodes st5)" using refs by (auto simp: st5_def nodes4 i)
    ultimately obtain code where code: "nodes st' = fix_refs (refs @ [i]) (nodes st4 @ code)" "choice_result E st5 (not_empty fl) code st'"
      using call_soundD [OF self call] by (auto simp: st5_def pos4 d(1))
    obtain rs' alts where rs': "choice E qs rs' (patternPos st')" "code = alternatives_code alts" "rs' \<noteq> []"
        "list_all2 (\<lambda>a r. compiles E r (snd a)) alts rs'"
        "rep_distinct E \<longrightarrow> list_all choices_ok rs' \<longrightarrow> list_all productive rs' \<and> (not_empty fl \<longrightarrow> \<not> nullable (last rs'))"
      using code(2) unfolding choice_result_def by (auto simp: st5_def pos4 d(1))
    have alts: "alts \<noteq> []" using rs' by auto
    have "nodes st' = fix_refs refs (nodes st @ alternatives_code ((b, c) # alts))"
      unfolding code(1) fix_refs_snoc [OF fresh]
      by (rule arg_cong [where f = "fix_refs refs"])
        (simp add: nodes4 i nth_append list_update_append rs'(2) alts numbered_set_ref algebra_simps)
    moreover have "choice_result E st (not_empty fl) (alternatives_code ((b, c) # alts)) st'"
      unfolding choice_result_def
    proof (intro exI conjI)
      show "choice E (patternPos st) (Seq rs # rs') (patternPos st')"
        by (rule c_more [OF c(1) [unfolded d(1)] d(2) rs'(1)])
      show "list_all2 (\<lambda>a r. compiles E r (snd a)) ((b, c) # alts) (Seq rs # rs')" using c(3) rs'(4) by simp
      show "rep_distinct E \<longrightarrow> list_all choices_ok (Seq rs # rs') \<longrightarrow> list_all productive (Seq rs # rs') \<and>
          (not_empty fl \<longrightarrow> \<not> nullable (last (Seq rs # rs')))"
        using rs'(3,5) c(4) unfolding flag_ok_def by auto
    qed simp_all
    ultimately show ?thesis by blast
  next
    case False
    have r: "fl = flagp'" "st' = foldl (\<lambda>st i. set_ref i (int (length (nodes st)) - int i) st) (set_ref start 0 st4) (refs @ [i])"
      using res body False by simp_all
    have pos: "patternPos st' = patternPos st2" unfolding r(2) by (simp only: set_refs_pos set_ref_pos pos4)
    have nodes5: "nodes (set_ref start 0 st4) = nodes st @ numbered b (node_ref opBranch 0) # c @ [numbered b (node_ref opRef 0)]"
      using nodes4 by (simp add: set_ref_def start_def numbered_set_ref)
    have "nodes st' = fix_refs refs (nodes st @ alternatives_code [(b, c)])"
      unfolding r(2) nodes_set_refs fix_refs_snoc [OF fresh] nodes5
      by (rule arg_cong [where f = "fix_refs refs"]) (simp add: i nth_append list_update_append numbered_set_ref)
    moreover have "choice_result E st (not_empty fl) (alternatives_code [(b, c)]) st'"
      unfolding choice_result_def
    proof (intro exI conjI)
      show "choice E (patternPos st) [Seq rs] (patternPos st')"
        using c_last [OF c(1)] stop False by (simp add: pos pos4)
      show "list_all2 (\<lambda>a r. compiles E r (snd a)) [(b, c)] [Seq rs]" using c(3) by simp
      show "rep_distinct E \<longrightarrow> list_all choices_ok [Seq rs] \<longrightarrow> list_all productive [Seq rs] \<and>
          (not_empty fl \<longrightarrow> \<not> nullable (last [Seq rs]))"
        using c(4) ne unfolding flag_ok_def r(1) by auto
    qed simp_all
    ultimately show ?thesis by blast
  qed
qed

lemma parser_sound:
  assumes al: "braces_aligned E pat"
  shows "call_sound E pat (parser E pat n)"
proof (induction n)
  case 0
  show ?case by (simp add: call_sound_def)
next
  case (Suc n)
  show ?case
    unfolding call_sound_def
  proof (intro allI impI)
    fix call fl st'
    assume res: "parser E pat (Suc n) call = Inr (fl, st')" and suf: "suffix (call_pos call) pat"
    show "call_result E call fl st'"
    proof (cases call)
      case (Expr st)
      then have call: "parser E pat n (Alternatives (no_flags\<lparr>not_empty := True\<rparr>) [] st) = Inr (fl, st')"
        using res by (simp add: parseExpr_def)
      show ?thesis
        using call_soundD [OF Suc.IH call] suf by (simp add: Expr fix_refs_def)
    next
      case (Alternatives flagp refs st)
      then show ?thesis using res suf alternatives_sound [OF Suc.IH parser_consumes] by simp
    next
      case (Factors first flagp st)
      then show ?thesis using res suf factors_sound [OF Suc.IH parser_consumes] by simp
    next
      case (Factor st)
      then show ?thesis using res suf factor_sound [OF Suc.IH parser_consumes al] by simp
    next
      case (Primary st)
      then show ?thesis using res suf primary_sound [OF Suc.IH] by simp
    qed
  qed
qed

section \<open>Correctness\<close>

text \<open>The machine returns the answer. A program with a counted repetition may instead read a freed block, namely if the stack is
  full where the repetition ends.\<close>

definition decides :: "'c similar_env \<Rightarrow> 'c similar_node list \<times> nat \<Rightarrow> 'c similar_value \<Rightarrow> bool \<Rightarrow> bool" where
  "decides E prog v b \<longleftrightarrow>
     similar_match E prog v = Some (Returns b) \<or> similar_match E prog v = Some ReadsFreed \<and> repeats (fst prog)"

lemma accepted_pattern:
  assumes compiled: "similar_compile E fuel pat = Inr prog" and al: "braces_aligned E pat"
  obtains r where "pattern_denotes E pat r" "flag_ok E False r"
    "productive r \<Longrightarrow> \<forall>v. decides E prog v (v \<in> lang E r)"
proof -
  define st where "st = \<lparr>patternPos = pat, nodes = [node opStart], branch_count = 0\<rparr>"
  obtain fl st' where parsed: "parser E pat fuel (Expr st) = Inr (fl, st')" and rest: "patternPos st' = []"
    and prog: "prog = (nodes st' @ [node opEnd], branch_count st')"
    using compiled by (auto simp: similar_compile_def st_def split: sum.splits prod.splits if_splits)
  obtain c where c: "nodes st' = node opStart # c" "choice_result E st (not_empty fl) c st'"
    using call_soundD [OF parser_sound [OF al] parsed] by (auto simp: st_def)
  obtain rs where rs: "choice E pat rs []" "compiles E (Choice rs) c" "flag_ok E (not_empty fl) (Choice rs)"
    using choice_result_code [OF c(2)] by (metis rest parse_state.select_convs(1) st_def)
  show ?thesis
  proof (rule that [of "Choice rs"])
    show "pattern_denotes E pat (Choice rs)" using rs(1) by (simp add: pattern_denotes_def)
    show "flag_ok E False (Choice rs)" by (rule flag_ok_weaken [OF rs(3)]) simp
    assume "productive (Choice rs)"
    then have imp: "implements E v c (span_of v (lang E (Choice rs)))" for v using rs(2) by (simp add: compiles_def)
    show "\<forall>v. decides E prog v (v \<in> lang E (Choice rs))"
    proof
      fix v
      define ns where "ns = [node opStart] @ c @ [node opEnd :: 'a similar_node]"
      have "enters E ns v 1 (1 + int (length c)) (span_of v (lang E (Choice rs)))"
        by (rule enters_code [OF imp, where pre = "[node opStart]" and post = "[node opEnd]"]) (simp_all add: ns_def)
      moreover have "n_op (fetch_node ns (1 + int (length c))) = opEnd"
        using nth_code [of "1 + int (length c)" "node opStart # c" "node opEnd" "[]"] by (simp add: ns_def)
      ultimately have "eval E ns v 1 [] 0 0 (\<exists>q. span_of v (lang E (Choice rs)) 0 q \<and> q = length v)"
        by (intro entersD [of E ns v 1 "1 + int (length c)"] eval_end)
      moreover have "(\<exists>q. span_of v (lang E (Choice rs)) 0 q \<and> q = length v) = (v \<in> lang E (Choice rs))"
        by (simp add: span_of_def del: lang.simps)
      moreover have "n_op (fetch_node ns 0) = opStart" by (simp add: ns_def fetch_node_def)
      ultimately have "eval E ns v 0 [] 0 0 (v \<in> lang E (Choice rs))" using eval_start [of ns 0] by simp
      moreover have "fst prog = ns" by (simp add: prog c(1) ns_def)
      ultimately show "decides E prog v (v \<in> lang E (Choice rs))"
        unfolding decides_def by (intro eval_similar_match) simp
    qed
  qed
qed

text \<open>C2. An accepted pattern denotes, by the grammar, a regular expression, and the compiled program
  returns on every value and tells whether the value is in the language of the expression, provided
  that no repetition without an upper bound has a body that matches the empty string. A program with a
  counted repetition may instead read a scope of a stack that it has just freed; a program without one
  never does. The counts in braces are read from the bytes of the pattern, so a pattern with a brace has
  to have characters of the same length.\<close>
theorem similar_compile_correct:
  assumes "similar_compile E fuel pat = Inr prog" and "braces_aligned E pat"
  shows "\<exists>r. pattern_denotes E pat r \<and>
    (productive r \<longrightarrow> (\<forall>v. decides E prog v (v \<in> lang E r)))"
  by (rule accepted_pattern [OF assms]) blast

lemma Inr_projr: "\<not> isl x \<Longrightarrow> x = Inr (projr x)"
  by (cases x) simp_all

lemma example_accepted:
  "similar_compile ascii_env 60 (ascii ''x(a|b){2,}'') = Inr (projr (similar_compile ascii_env 60 (ascii ''x(a|b){2,}'')))"
  by (rule Inr_projr, code_simp)

lemma ascii_aligned: "braces_aligned ascii_env (ascii s)"
  by (auto simp: braces_aligned_def byte_aligned_def ascii_def ascii_env_def)

lemma ascii_rep_distinct: "rep_distinct ascii_env"
  by (simp add: rep_distinct_def ascii_env_def)

theorem similar_compile_correct_witness:
  "\<exists>r. pattern_denotes ascii_env (ascii ''x(a|b){2,}'') r \<and>
    (productive r \<longrightarrow> (\<forall>v. decides ascii_env (projr (similar_compile ascii_env 60 (ascii ''x(a|b){2,}''))) v
       (v \<in> lang ascii_env r)))"
  by (rule similar_compile_correct [OF example_accepted ascii_aligned])

text \<open>C15. The parser rejects the repetitions that could match the empty string for ever, as far as its
  flag tells: when every choice with an empty alternative has an empty alternative at its end, an
  accepted pattern is productive, so that the match ends. The counts in braces are as above, and the
  characters for the four repetitions differ.\<close>
theorem similar_accepted_productive:
  assumes "similar_compile E fuel pat = Inr prog" and "braces_aligned E pat" and "rep_distinct E"
  shows "\<exists>r. pattern_denotes E pat r \<and> (choices_ok r \<longrightarrow> productive r \<and> (\<forall>v. decides E prog v (v \<in> lang E r)))"
  by (rule accepted_pattern [OF assms(1,2)]) (use assms(3) in \<open>auto simp: flag_ok_def\<close>)

theorem similar_accepted_productive_witness:
  "\<exists>r. pattern_denotes ascii_env (ascii ''x(a|b){2,}'') r \<and> (choices_ok r \<longrightarrow> productive r \<and>
     (\<forall>v. decides ascii_env (projr (similar_compile ascii_env 60 (ascii ''x(a|b){2,}''))) v (v \<in> lang ascii_env r)))"
  by (rule similar_accepted_productive [OF example_accepted ascii_aligned ascii_rep_distinct])

end
