(* ===== verification/FB_Similar_Diverge.thy ===== *)
theory FB_Similar_Diverge
  imports FB_Similar_Compile
begin

text \<open>
  Where the flag of the parser does not tell: a repetition whose body is a choice with an empty
  alternative that is not the last one is accepted, and the machine of \<^verbatim>\<open>SimilarToMatcher\<close> runs on
  it without end and with an ever longer stack.
\<close>

section \<open>Runs that do not end\<close>

text \<open>A set of states from each of which a later one is reached.\<close>

definition goes_on :: "(machine \<Rightarrow> bool) \<Rightarrow> 'c similar_env \<Rightarrow> 'c similar_node list \<Rightarrow> 'c similar_value \<Rightarrow> bool" where
  "goes_on J E ns v \<longleftrightarrow> \<not> repeats ns \<and> (\<forall>m. J m \<longrightarrow> (\<exists>m1. roomy_turn E ns v m = Next m1 \<and> J m1))"

lemma goes_on_turn:
  assumes "goes_on J E ns v" "J (without_size m)"
  shows "\<exists>m1. match_turn E ns v m = Next m1 \<and> J (without_size m1)"
  using assms turn_without_size [of E ns v m]
  by (fastforce simp: goes_on_def next_without_size_def split: turn.splits)

lemma match_loop_ends:
  "match_loop E ns v m = Some y \<Longrightarrow> \<forall>J. goes_on J E ns v \<longrightarrow> \<not> J (without_size m)"
proof (rule match_loop.raw_induct [of "\<lambda>E ns v m y. \<forall>J. goes_on J E ns v \<longrightarrow> \<not> J (without_size m)", rotated])
  fix f :: "'a similar_env \<Rightarrow> 'a similar_node list \<Rightarrow> 'a similar_value \<Rightarrow> machine \<Rightarrow> match_outcome option" and E ns v m y
  assume IH: "\<And>E ns v m y. f E ns v m = Some y \<Longrightarrow> \<forall>J. goes_on J E ns v \<longrightarrow> \<not> J (without_size m)"
    and res: "(case match_turn E ns v m of Next m' \<Rightarrow> f E ns v m' | Result b \<Rightarrow> Some (Returns b) | Assertion \<Rightarrow> Some Fails
      | FreedRead \<Rightarrow> Some ReadsFreed) = Some y"
  show "\<forall>J. goes_on J E ns v \<longrightarrow> \<not> J (without_size m)"
    using goes_on_turn [of _ E ns v m] res IH by fastforce
qed

lemma match_loop_diverges:
  assumes again: "\<And>m. I m \<Longrightarrow> \<exists>m1 m2. roomy_turn E ns v m = Next m1 \<and> reaches E ns v m1 m2 \<and> I m2"
    and start: "reaches E ns v (without_size m) m0" "I m0" and "\<not> repeats ns"
  shows "match_loop E ns v m = None"
proof -
  define J where "J m \<longleftrightarrow> (\<exists>m1. reaches E ns v m m1 \<and> I m1)" for m
  have "\<exists>m1. roomy_turn E ns v m = Next m1 \<and> J m1" if J: "J m" for m
  proof -
    obtain m1 where m1: "reaches E ns v m m1" "I m1" using J unfolding J_def by blast
    from m1(1) show ?thesis
      unfolding reaches_def
    proof (cases rule: converse_rtranclpE)
      case base
      then show ?thesis using again [OF m1(2)] unfolding J_def reaches_def by blast
    next
      case (step m2)
      then show ?thesis using m1(2) unfolding J_def reaches_def by blast
    qed
  qed
  then have "goes_on J E ns v" using assms(4) by (simp add: goes_on_def)
  moreover have "J (without_size m)" using start unfolding J_def by blast
  ultimately show ?thesis using match_loop_ends [of E ns v m] by fastforce
qed

section \<open>The pattern\<close>

definition empty_first :: "nat similar_char list" where
  "empty_first = ascii ''(a?|b)*''"

definition empty_first_code :: "nat similar_node list \<times> nat" where
  "empty_first_code = projr (similar_compile ascii_env 60 empty_first)"

definition only_b :: "nat similar_value" where
  "only_b = ascii ''b''"

lemma empty_first_compiled: "similar_compile ascii_env 60 empty_first = Inr empty_first_code"
  unfolding empty_first_code_def by (rule Inr_projr, code_simp)

lemma code_at:
  "map (\<lambda>nd. (n_op nd, n_ref nd)) (fst empty_first_code) =
     [(opStart, 0), (opBranch, 0), (opBranch, 10), (opBranch, 5), (opBranch, 2), (opExactlyOne, 0), (opBranch, 0),
      (opRef, 4), (opBranch, 0), (opExactlyOne, 0), (opRef, 1), (opRef, -9), (opBranch, 0), (opRef, 1), (opEnd, 0)]"
  by code_simp

lemma letter_at: "match_chars ascii_env (fetch_node (fst empty_first_code) 5) only_b 0 = None"
  by code_simp

lemma code_length: "length (fst empty_first_code) = 15"
  using arg_cong [OF code_at, of length] by simp

lemma node_at:
  assumes "0 \<le> k" "k < 15"
  shows "n_op (fetch_node (fst empty_first_code) k) = fst (map (\<lambda>nd. (n_op nd, n_ref nd)) (fst empty_first_code) ! nat k)"
    and "n_ref (fetch_node (fst empty_first_code) k) = snd (map (\<lambda>nd. (n_op nd, n_ref nd)) (fst empty_first_code) ! nat k)"
  using assms code_length by (simp_all add: fetch_node_def)

lemma no_repeats: "\<not> repeats (fst empty_first_code)"
proof
  assume "repeats (fst empty_first_code)"
  then have "opRepeatingRefEnd \<in> fst ` set (map (\<lambda>nd. (n_op nd, n_ref nd)) (fst empty_first_code))"
    by (force simp: repeats_def)
  then show False unfolding code_at by simp
qed

lemmas nodes_at = node_at [unfolded code_at]

definition at_loop :: "machine \<Rightarrow> bool" where
  "at_loop m \<longleftrightarrow> (\<exists>sv ss bi. m = conf (scope_at 2 sv # ss) msIterating [] 0 0 bi)"

abbreviation (input) turn_to :: "machine \<Rightarrow> machine \<Rightarrow> bool" where
  "turn_to m m' \<equiv> roomy_turn ascii_env (fst empty_first_code) only_b m = Next m'"

lemma branch_turn:
  assumes "n_op (fetch_node ns k) = opBranch"
  shows "\<exists>bi'. roomy_turn E ns v (conf (scope_at k sv # ss) msIterating rs rc p bi) =
    Next (conf (scope_at (k + 1) 0 # scope_at k p # ss) msIterating rs rc p bi')"
  using assms by (cases "n_branchNum (fetch_node ns k) = -1") (auto simp: turn_simps)

lemma ref_turn:
  assumes "n_op (fetch_node ns k) = opRef"
  shows "\<exists>bi'. roomy_turn E ns v (conf (scope_at k sv # ss) msIterating rs rc p bi) =
    Next (conf (scope_at (k + n_ref (fetch_node ns k)) 0 # ss) msIterating rs rc p bi')"
  using assms by (cases "n_branchNum (fetch_node ns k) = -1") (auto simp: turn_simps)

lemma loop_again:
  assumes "at_loop m"
  shows "\<exists>m1 m2. turn_to m m1 \<and> reaches ascii_env (fst empty_first_code) only_b m1 m2 \<and> at_loop m2"
proof -
  obtain sv ss bi where m: "m = conf (scope_at 2 sv # ss) msIterating [] 0 0 bi" using assms by (auto simp: at_loop_def)
  define s1 where "s1 = scope_at 2 0 # ss"
  define s2 where "s2 = scope_at 3 0 # s1"
  obtain bi1 where t1: "turn_to m (conf (scope_at 3 0 # s1) msIterating [] 0 0 bi1)"
    using branch_turn [of "fst empty_first_code" 2 ascii_env only_b sv ss "[]" 0 0 bi] by (auto simp: nodes_at m s1_def)
  obtain bi2 where t2: "turn_to (conf (scope_at 3 0 # s1) msIterating [] 0 0 bi1) (conf (scope_at 4 0 # s2) msIterating [] 0 0 bi2)"
    using branch_turn [of "fst empty_first_code" 3 ascii_env only_b 0 s1 "[]" 0 0 bi1] by (auto simp: nodes_at s2_def)
  obtain bi3 where t3: "turn_to (conf (scope_at 4 0 # s2) msIterating [] 0 0 bi2)
      (conf (scope_at 5 0 # scope_at 4 0 # s2) msIterating [] 0 0 bi3)"
    using branch_turn [of "fst empty_first_code" 4 ascii_env only_b 0 s2 "[]" 0 0 bi2] by (auto simp: nodes_at)
  have t4: "turn_to (conf (scope_at 5 0 # scope_at 4 0 # s2) msIterating [] 0 0 bi3)
      (conf (scope_at 4 0 # s2) msReturningFalse [] 0 0 bi3)"
    by (simp add: turn_simps nodes_at letter_at)
  have t5: "turn_to (conf (scope_at 4 0 # s2) msReturningFalse [] 0 0 bi3) (conf (scope_at 7 0 # s2) msIterating [] 0 0 bi3)"
    by (simp add: turn_simps nodes_at)
  obtain bi4 where t6: "turn_to (conf (scope_at 7 0 # s2) msIterating [] 0 0 bi3) (conf (scope_at 11 0 # s2) msIterating [] 0 0 bi4)"
    using ref_turn [of "fst empty_first_code" 7 ascii_env only_b 0 s2 "[]" 0 0 bi3] by (auto simp: nodes_at)
  obtain bi5 where t7: "turn_to (conf (scope_at 11 0 # s2) msIterating [] 0 0 bi4) (conf (scope_at 2 0 # s2) msIterating [] 0 0 bi5)"
    using ref_turn [of "fst empty_first_code" 11 ascii_env only_b 0 s2 "[]" 0 0 bi4] by (auto simp: nodes_at)
  have "at_loop (conf (scope_at 2 0 # s2) msIterating [] 0 0 bi5)" by (auto simp: at_loop_def)
  moreover note reaches_step [OF t2 reaches_step [OF t3 reaches_step [OF t4 reaches_step [OF t5 reaches_step [OF t6
    reaches_step [OF t7 reaches_refl]]]]]]
  ultimately show ?thesis using t1 by blast
qed

text \<open>C36. The pattern \<^verbatim>\<open>(a?|b)*\<close> is accepted, the string \<^verbatim>\<open>b\<close> is in its language, and the match of the
  two does not return: the flag of the expression is that of its last alternative only.\<close>
theorem similar_match_diverges:
  "similar_compile ascii_env 60 empty_first = Inr empty_first_code \<and>
   similar_match ascii_env empty_first_code only_b = None"
proof
  let ?m = "match_init (snd empty_first_code)"
  let ?ret = "new_scope NodeRet"
  define bi where "bi = replicate (snd empty_first_code + 1) (0 :: int, 0 :: int)"
  have t0: "turn_to (without_size ?m) (conf [scope_at 1 0, ?ret] msIterating [] 0 0 bi)"
    by (simp add: turn_simps match_init_def nodes_at bi_def)
  obtain bi1 where t1: "turn_to (conf [scope_at 1 0, ?ret] msIterating [] 0 0 bi)
      (conf [scope_at 2 0, scope_at 1 0, ?ret] msIterating [] 0 0 bi1)"
    using branch_turn [of "fst empty_first_code" 1 ascii_env only_b 0 "[?ret]" "[]" 0 0 bi] by (auto simp: nodes_at)
  have "at_loop (conf [scope_at 2 0, scope_at 1 0, ?ret] msIterating [] 0 0 bi1)" by (auto simp: at_loop_def)
  moreover note run = reaches_step [OF t0 reaches_step [OF t1 reaches_refl]]
  ultimately show "similar_match ascii_env empty_first_code only_b = None"
    unfolding similar_match_def
    by (intro match_loop_diverges [where I = at_loop, OF loop_again run _ no_repeats])
qed (rule empty_first_compiled)

section \<open>A freed stack\<close>



end
