(* ===== verification/FB_Similar_Substring.thy ===== *)
theory FB_Similar_Substring
  imports FB_Similar_Parser
begin

text \<open>
  \<^verbatim>\<open>SUBSTRING(s SIMILAR pattern ESCAPE e)\<close>: the class \<^verbatim>\<open>SubstringSimilarMatcher\<close> of
  \<^verbatim>\<open>src/jrd/SimilarToMatcher.h\<close>. Its constructor splits the pattern into three segments at the escaped
  double quotes, \<open>substring_result\<close> searches for the shortest start and the longest middle part. The four
  matchers the search uses are functions on byte strings.
\<close>

section \<open>The constructor\<close>

text \<open>\<open>cur\<close> is the segment from \<^verbatim>\<open>lastStart\<close> on, \<open>segs\<close> the segments before it.\<close>

fun split_loop ::
  "'c similar_env \<Rightarrow> 'c similar_char list \<Rightarrow> 'c similar_char list \<Rightarrow> 'c similar_char list list
     \<Rightarrow> similar_error + 'c similar_char list list" where
  "split_loop E [] cur segs = Inr (segs @ [cur])"
| "split_loop E [c] cur segs =
     (if canon c \<noteq> escapeChar E then Inr (segs @ [cur @ [c]]) else Inl ISC_INVALID_SIMILAR_PATTERN)"
| "split_loop E (c # d # ps) cur segs =
     (if canon c \<noteq> escapeChar E then split_loop E (d # ps) (cur @ [c]) segs
      else if canon d = canonicalChar E CHAR_DOUBLE_QUOTE then
        (if length segs \<ge> 2 then Inl ISC_INVALID_SIMILAR_PATTERN else split_loop E ps [] (segs @ [cur]))
      else split_loop E ps (cur @ [c, d]) segs)"

record 'c substring_matcher =
  sub_r1 :: "'c similar_node list \<times> nat"
  sub_r2 :: "'c similar_node list \<times> nat"
  sub_r3 :: "'c similar_node list \<times> nat"
  sub_r23 :: "'c similar_node list \<times> nat"

definition compile_segment ::
  "'c similar_env \<Rightarrow> 'c similar_char list \<Rightarrow> similar_error + ('c similar_node list \<times> nat)" where
  "compile_segment E ps = similar_compile (E\<lparr>useEscape := True\<rparr>) (5 * length ps + 5) ps"

text \<open>
  The pattern is scanned from its start for as many characters as it has bytes after the conversion:
  \<open>beyond\<close> is what lies behind it in memory and is scanned with it, nothing if a character has one byte.
\<close>

definition substring_compile ::
  "'c similar_env \<Rightarrow> 'c similar_char list \<Rightarrow> 'c similar_char list \<Rightarrow> similar_error + 'c substring_matcher" where
  "substring_compile E pat beyond =
     (case split_loop E (pat @ beyond) [] [] of
        Inl e \<Rightarrow> Inl e
      | Inr segs \<Rightarrow>
          if length segs \<noteq> 3 then Inl ISC_INVALID_SIMILAR_PATTERN
          else
            (case compile_segment E (segs ! 0) of Inl e \<Rightarrow> Inl e | Inr p1 \<Rightarrow>
            (case compile_segment E (segs ! 1) of Inl e \<Rightarrow> Inl e | Inr p2 \<Rightarrow>
            (case compile_segment E (segs ! 2) of Inl e \<Rightarrow> Inl e | Inr p3 \<Rightarrow>
            (case compile_segment E (segs ! 1 @ segs ! 2) of Inl e \<Rightarrow> Inl e | Inr p23 \<Rightarrow>
               Inr \<lparr>sub_r1 = p1, sub_r2 = p2, sub_r3 = p3, sub_r23 = p23\<rparr>)))))"

section \<open>The search\<close>

text \<open>The first \<open>n\<close> characters of a byte string, and how many it has.\<close>

fun char_prefix :: "'c similar_env \<Rightarrow> nat \<Rightarrow> UCHAR list \<Rightarrow> UCHAR list" where
  "char_prefix E 0 bs = []"
| "char_prefix E (Suc n) bs =
     (if bs = [] then [] else firstChar E bs @ char_prefix E n (drop (length (firstChar E bs)) bs))"

fun char_count :: "'c similar_env \<Rightarrow> nat \<Rightarrow> UCHAR list \<Rightarrow> nat" where
  "char_count E 0 bs = 0"
| "char_count E (Suc n) bs = (if bs = [] then 0 else Suc (char_count E n (drop (length (firstChar E bs)) bs)))"

type_synonym matcher_fun = "UCHAR list \<Rightarrow> bool"

text \<open>The inner loop: \<open>rest\<close> is what follows \<open>p\<close>, \<open>n\<close> the number of its characters given to \<open>r2\<close>.\<close>

fun shrink_loop :: "'c similar_env \<Rightarrow> matcher_fun \<Rightarrow> matcher_fun \<Rightarrow> UCHAR list \<Rightarrow> nat \<Rightarrow> UCHAR list \<Rightarrow> nat option" where
  "shrink_loop E r2 r3 rest n mid =
     (if r2 mid \<and> r3 (drop (length mid) rest) then Some (length mid)
      else case n of 0 \<Rightarrow> None | Suc k \<Rightarrow> shrink_loop E r2 r3 rest k (char_prefix E k rest))"

declare shrink_loop.simps [simp del]

definition middle_length :: "'c similar_env \<Rightarrow> matcher_fun \<Rightarrow> matcher_fun \<Rightarrow> UCHAR list \<Rightarrow> nat option" where
  "middle_length E r2 r3 rest = shrink_loop E r2 r3 rest (char_count E (length rest) rest) rest"

text \<open>The outer loop over the end \<open>p\<close> of the first part; the result holds \<open>matchedStart\<close> and \<open>matchedLength\<close>.\<close>

fun start_loop ::
  "'c similar_env \<Rightarrow> matcher_fun \<Rightarrow> matcher_fun \<Rightarrow> matcher_fun \<Rightarrow> matcher_fun \<Rightarrow> nat \<Rightarrow> UCHAR list \<Rightarrow> nat
     \<Rightarrow> similar_error + (nat \<times> nat) option" where
  "start_loop E r1 r2 r3 r23 0 buffer p = Inl OUT_OF_FUEL"
| "start_loop E r1 r2 r3 r23 (Suc n) buffer p =
     (let rest = drop p buffer;
          found = (if r1 (take p buffer) \<and> r23 rest then middle_length E r2 r3 rest else None)
      in case found of
           Some l \<Rightarrow> Inr (Some (p, l))
         | None \<Rightarrow>
             let p' = p + length (char_prefix E 1 rest)
             in if p' < length buffer then start_loop E r1 r2 r3 r23 n buffer p' else Inr None)"

definition substring_result ::
  "'c similar_env \<Rightarrow> matcher_fun \<Rightarrow> matcher_fun \<Rightarrow> matcher_fun \<Rightarrow> matcher_fun \<Rightarrow> UCHAR list \<Rightarrow> similar_error + (nat \<times> nat) option" where
  "substring_result E r1 r2 r3 r23 buffer = start_loop E r1 r2 r3 r23 (Suc (length buffer)) buffer 0"

definition substring_process :: "UCHAR list \<Rightarrow> UCHAR list \<Rightarrow> bool \<times> UCHAR list" where
  "substring_process buffer data = (True, buffer @ data)"

definition substring_reset :: "UCHAR list \<Rightarrow> UCHAR list" where
  "substring_reset buffer = []"

section \<open>Segments\<close>

definition marker :: "'c similar_env \<Rightarrow> 'c similar_char list \<Rightarrow> bool" where
  "marker E m \<longleftrightarrow> (\<exists>c d. m = [c, d] \<and> canon c = escapeChar E \<and> canon d = canonicalChar E CHAR_DOUBLE_QUOTE)"

text \<open>\<open>joined segs ps\<close>: the segments with a marker between each and the next.\<close>

fun joined :: "'c similar_env \<Rightarrow> 'c similar_char list list \<Rightarrow> 'c similar_char list \<Rightarrow> bool" where
  "joined E [] ps = (ps = [])"
| "joined E [s] ps = (ps = s)"
| "joined E (s # t # segs) ps = (\<exists>m qs. ps = s @ m @ qs \<and> marker E m \<and> joined E (t # segs) qs)"

lemma joined_cons_prefix: "joined E ((u @ s) # segs) (u @ ps) = joined E (s # segs) ps"
  by (cases segs) auto

lemma split_loop_joined:
  "split_loop E ps cur segs = Inr segs' \<Longrightarrow> \<exists>new. segs' = segs @ new \<and> new \<noteq> [] \<and> joined E new (cur @ ps)"
proof (induction E ps cur segs rule: split_loop.induct)
  case (3 E c d ps cur segs)
  show ?case
  proof (cases "canon c = escapeChar E")
    case False
    then show ?thesis using 3 by fastforce
  next
    case esc: True
    show ?thesis
    proof (cases "canon d = canonicalChar E CHAR_DOUBLE_QUOTE")
      case True
      then have "length segs < 2" "split_loop E ps [] (segs @ [cur]) = Inr segs'"
        using 3(4) esc by (auto split: if_splits)
      then obtain new where new: "segs' = (segs @ [cur]) @ new" "new \<noteq> []" "joined E new ps"
        using 3(2) esc True by fastforce
      obtain t ts where "new = t # ts" using new(2) by (cases new) auto
      moreover have "marker E [c, d]" using esc True by (simp add: marker_def)
      moreover have "cur @ c # d # ps = cur @ [c, d] @ ps" by simp
      ultimately have "joined E (cur # new) (cur @ c # d # ps)"
        using new(3) by (simp only: joined.simps(3)) blast
      then show ?thesis using new(1) by fastforce
    next
      case False
      then show ?thesis using 3 esc by fastforce
    qed
  qed
qed (auto split: if_splits)

section \<open>Positions at characters\<close>

definition whole_chars :: "'c similar_env \<Rightarrow> UCHAR list list \<Rightarrow> bool" where
  "whole_chars E cs \<longleftrightarrow> (\<forall>c \<in> set cs. c \<noteq> [] \<and> (\<forall>bs. firstChar E (c @ bs) = c))"

lemma whole_chars_Cons [simp]:
  "whole_chars E (c # cs) \<longleftrightarrow> c \<noteq> [] \<and> (\<forall>bs. firstChar E (c @ bs) = c) \<and> whole_chars E cs"
  by (auto simp: whole_chars_def)

lemma whole_chars_drop: "whole_chars E cs \<Longrightarrow> whole_chars E (drop i cs)"
  by (auto simp: whole_chars_def dest: in_set_dropD)

lemma char_prefix_concat: "whole_chars E cs \<Longrightarrow> char_prefix E n (concat cs) = concat (take n cs)"
proof (induction n arbitrary: cs)
  case (Suc n)
  then show ?case by (cases cs) auto
qed simp

lemma char_count_concat: "whole_chars E cs \<Longrightarrow> length (concat cs) \<le> n \<Longrightarrow> char_count E n (concat cs) = length cs"
proof (induction n arbitrary: cs)
  case 0
  then show ?case by (cases cs) auto
next
  case (Suc n)
  show ?case
  proof (cases cs)
    case (Cons c cs')
    then have "length (concat cs') \<le> n" using Suc.prems by (cases c) auto
    then show ?thesis using Suc Cons by simp
  qed simp
qed

lemma drop_concat_take: "drop (length (concat (take k cs))) (concat cs) = concat (drop k cs)"
  by (metis append_eq_conv_conj append_take_drop_id concat_append)

lemma take_concat_take: "take (length (concat (take k cs))) (concat cs) = concat (take k cs)"
  by (metis append_eq_conv_conj append_take_drop_id concat_append)

text \<open>The longest middle part that leaves a rest for \<open>r3\<close>.\<close>

definition middle :: "matcher_fun \<Rightarrow> matcher_fun \<Rightarrow> UCHAR list list \<Rightarrow> nat \<Rightarrow> bool" where
  "middle r2 r3 cs k \<longleftrightarrow> k \<le> length cs \<and> r2 (concat (take k cs)) \<and> r3 (concat (drop k cs))"

lemma shrink_loop_result:
  assumes "whole_chars E cs"
  shows "n \<le> length cs \<Longrightarrow> case shrink_loop E r2 r3 (concat cs) n (concat (take n cs)) of
      None \<Rightarrow> \<forall>k\<le>n. \<not> middle r2 r3 cs k
    | Some l \<Rightarrow> \<exists>k\<le>n. l = length (concat (take k cs)) \<and> middle r2 r3 cs k \<and> (\<forall>j. middle r2 r3 cs j \<and> j \<le> n \<longrightarrow> j \<le> k)"
proof (induction n)
  case 0
  then show ?case
    using drop_concat_take [of 0 cs] by (subst shrink_loop.simps) (auto simp: middle_def)
next
  case (Suc n)
  show ?case
  proof (cases "middle r2 r3 cs (Suc n)")
    case True
    then have "r2 (concat (take (Suc n) cs)) \<and> r3 (drop (length (concat (take (Suc n) cs))) (concat cs))"
      unfolding drop_concat_take by (simp add: middle_def)
    then have "shrink_loop E r2 r3 (concat cs) (Suc n) (concat (take (Suc n) cs)) = Some (length (concat (take (Suc n) cs)))"
      by (subst shrink_loop.simps) simp
    then show ?thesis using True by (auto intro!: exI [of _ "Suc n"])
  next
    case False
    then have "\<not> (r2 (concat (take (Suc n) cs)) \<and> r3 (drop (length (concat (take (Suc n) cs))) (concat cs)))"
      unfolding drop_concat_take using Suc.prems by (simp add: middle_def)
    then have eq: "shrink_loop E r2 r3 (concat cs) (Suc n) (concat (take (Suc n) cs)) = shrink_loop E r2 r3 (concat cs) n (concat (take n cs))"
      by (subst shrink_loop.simps) (simp only: if_False nat.case char_prefix_concat [OF assms])
    show ?thesis
    proof (cases "shrink_loop E r2 r3 (concat cs) n (concat (take n cs))")
      case None
      then show ?thesis using Suc False eq by (auto simp: le_Suc_eq)
    next
      case (Some l)
      then obtain k where "k \<le> n" "l = length (concat (take k cs))" "middle r2 r3 cs k" "\<forall>j. middle r2 r3 cs j \<and> j \<le> n \<longrightarrow> j \<le> k"
        using Suc by auto
      then show ?thesis using False eq Some by (auto simp: le_Suc_eq intro!: exI [of _ k])
    qed
  qed
qed

lemma middle_length_result:
  assumes "whole_chars E cs"
  shows "case middle_length E r2 r3 (concat cs) of
      None \<Rightarrow> \<forall>k. \<not> middle r2 r3 cs k
    | Some l \<Rightarrow> \<exists>k. l = length (concat (take k cs)) \<and> middle r2 r3 cs k \<and> (\<forall>j. middle r2 r3 cs j \<longrightarrow> j \<le> k)"
proof -
  have "middle_length E r2 r3 (concat cs) = shrink_loop E r2 r3 (concat cs) (length cs) (concat (take (length cs) cs))"
    by (simp add: middle_length_def char_count_concat [OF assms])
  moreover have "middle r2 r3 cs j \<Longrightarrow> j \<le> length cs" for j by (simp add: middle_def)
  ultimately show ?thesis
    using shrink_loop_result [OF assms, of "length cs" r2 r3] by (auto split: option.splits)
qed

text \<open>A start of the middle part: the shortest one for which a middle part exists.\<close>

definition starts_at :: "matcher_fun \<Rightarrow> matcher_fun \<Rightarrow> matcher_fun \<Rightarrow> matcher_fun \<Rightarrow> UCHAR list list \<Rightarrow> nat \<Rightarrow> bool" where
  "starts_at r1 r2 r3 r23 cs i \<longleftrightarrow>
     i \<le> length cs \<and> r1 (concat (take i cs)) \<and> r23 (concat (drop i cs)) \<and> (\<exists>k. middle r2 r3 (drop i cs) k)"

definition is_result :: "matcher_fun \<Rightarrow> matcher_fun \<Rightarrow> matcher_fun \<Rightarrow> matcher_fun \<Rightarrow> UCHAR list list \<Rightarrow> nat \<times> nat \<Rightarrow> bool" where
  "is_result r1 r2 r3 r23 cs r \<longleftrightarrow>
     (\<exists>i k. r = (length (concat (take i cs)), length (concat (take k (drop i cs)))) \<and>
        starts_at r1 r2 r3 r23 cs i \<and> (\<forall>j < i. \<not> starts_at r1 r2 r3 r23 cs j) \<and>
        middle r2 r3 (drop i cs) k \<and> (\<forall>j. middle r2 r3 (drop i cs) j \<longrightarrow> j \<le> k))"

lemma length_concat_mono: "whole_chars E cs \<Longrightarrow> i < length cs \<Longrightarrow> length (concat (take i cs)) < length (concat cs)"
proof (induction cs arbitrary: i)
  case (Cons c cs)
  then show ?case by (cases i) auto
qed simp

lemma start_loop_result:
  assumes "whole_chars E cs"
  shows "i \<le> length cs \<Longrightarrow> cs = [] \<or> i < length cs \<Longrightarrow> length cs - i < n \<Longrightarrow> \<forall>j < i. \<not> starts_at r1 r2 r3 r23 cs j \<Longrightarrow>
    \<exists>res. start_loop E r1 r2 r3 r23 n (concat cs) (length (concat (take i cs))) = Inr res \<and>
      (case res of
         Some r \<Rightarrow> is_result r1 r2 r3 r23 cs r
       | None \<Rightarrow> \<forall>j. starts_at r1 r2 r3 r23 cs j \<longrightarrow> j = length cs \<and> cs \<noteq> [])"
proof (induction n arbitrary: i)
  case (Suc n)
  let ?rest = "concat (drop i cs)"
  have w: "whole_chars E (drop i cs)" using assms by (rule whole_chars_drop)
  show ?case
  proof (cases "starts_at r1 r2 r3 r23 cs i")
    case True
    then obtain k0 where "middle r2 r3 (drop i cs) k0" by (auto simp: starts_at_def)
    then obtain l k where l: "middle_length E r2 r3 ?rest = Some l" "l = length (concat (take k (drop i cs)))"
        "middle r2 r3 (drop i cs) k" "\<forall>j. middle r2 r3 (drop i cs) j \<longrightarrow> j \<le> k"
      using middle_length_result [OF w, of r2 r3] by (auto split: option.splits)
    have "start_loop E r1 r2 r3 r23 (Suc n) (concat cs) (length (concat (take i cs))) = Inr (Some (length (concat (take i cs)), l))"
      using True l(1) by (simp add: drop_concat_take take_concat_take starts_at_def Let_def)
    moreover have "is_result r1 r2 r3 r23 cs (length (concat (take i cs)), l)"
      unfolding is_result_def using True Suc.prems(4) l(2-4) by blast
    ultimately show ?thesis by auto
  next
    case False
    have none: "(if r1 (concat (take i cs)) \<and> r23 ?rest then middle_length E r2 r3 ?rest else None) = None"
      using False Suc.prems(1) middle_length_result [OF w, of r2 r3] by (auto simp: starts_at_def split: option.splits)
    have next_pos: "length (concat (take i cs)) + length (char_prefix E 1 ?rest) = length (concat (take (Suc i) cs))"
      unfolding char_prefix_concat [OF w] by (cases "i < length cs") (simp_all add: take_Suc_conv_app_nth drop_Suc hd_drop_conv_nth take_Suc)
    have below: "\<forall>j < Suc i. \<not> starts_at r1 r2 r3 r23 cs j" using Suc.prems(4) False by (auto simp: less_Suc_eq)
    have step: "start_loop E r1 r2 r3 r23 (Suc n) (concat cs) (length (concat (take i cs))) =
        (if length (concat (take (Suc i) cs)) < length (concat cs)
         then start_loop E r1 r2 r3 r23 n (concat cs) (length (concat (take (Suc i) cs))) else Inr None)"
      using none next_pos by (simp add: drop_concat_take take_concat_take Let_def del: take_Suc_Cons)
    show ?thesis
    proof (cases "Suc i < length cs")
      case True
      then have "length (concat (take (Suc i) cs)) < length (concat cs)" by (rule length_concat_mono [OF assms])
      then show ?thesis unfolding step using Suc.IH [of "Suc i"] True Suc.prems below by auto
    next
      case last: False
      then have "concat (take (Suc i) cs) = concat cs" by simp
      then have "start_loop E r1 r2 r3 r23 (Suc n) (concat cs) (length (concat (take i cs))) = Inr None" unfolding step by simp
      moreover have "j = length cs \<and> cs \<noteq> []" if "starts_at r1 r2 r3 r23 cs j" for j
      proof -
        have "Suc i \<le> j" using below that by (meson not_less)
        moreover have "j \<le> length cs" using that by (simp add: starts_at_def)
        ultimately show ?thesis using last Suc.prems(2) by (cases cs) auto
      qed
      ultimately show ?thesis by auto
    qed
  qed
qed simp

section \<open>Properties\<close>

text \<open>C34. The search returns, and what it returns is the shortest start for which the rest matches and
  can be split, with the longest middle part; when it returns nothing there is no such start, except
  that the whole of a value that is not empty is never tried as the first part.\<close>
theorem substring_result_correct:
  assumes "whole_chars E cs"
  shows "\<exists>res. substring_result E r1 r2 r3 r23 (concat cs) = Inr res \<and>
    (case res of
       Some r \<Rightarrow> is_result r1 r2 r3 r23 cs r
     | None \<Rightarrow> \<forall>j. starts_at r1 r2 r3 r23 cs j \<longrightarrow> j = length cs \<and> cs \<noteq> [])"
proof -
  have "length cs \<le> length (concat cs)"
    using assms
  proof (induction cs)
    case (Cons c cs)
    then show ?case by (cases c) auto
  qed simp
  then show ?thesis
    using start_loop_result [OF assms, of 0 "Suc (length (concat cs))" r1 r2 r3 r23]
    by (auto simp: substring_result_def simp del: start_loop.simps)
qed

theorem substring_result_correct_witness:
  "\<exists>res. substring_result ascii_env (\<lambda>b. b = [120]) (\<lambda>b. True) (\<lambda>b. b = [121]) (\<lambda>b. b \<noteq> [] \<and> last b = 121) (concat [[120], [97], [121]]) = Inr res \<and>
    (case res of
       Some r \<Rightarrow> is_result (\<lambda>b. b = [120]) (\<lambda>b. True) (\<lambda>b. b = [121]) (\<lambda>b. b \<noteq> [] \<and> last b = 121) [[120], [97], [121]] r
     | None \<Rightarrow> \<forall>j. starts_at (\<lambda>b. b = [120]) (\<lambda>b. True) (\<lambda>b. b = [121]) (\<lambda>b. b \<noteq> [] \<and> last b = 121) [[120], [97], [121]] j \<longrightarrow>
         j = length [[120 :: UCHAR], [97], [121]] \<and> [[120 :: UCHAR], [97], [121]] \<noteq> [])"
  by (rule substring_result_correct) (simp add: ascii_env_def whole_chars_def)

text \<open>The value whose first part is all of it is missed: nothing is found, though the empty string after
  the value is the result the comment of the class asks for.\<close>
theorem substring_misses_whole_value:
  "substring_result ascii_env (\<lambda>b. b = [97]) (\<lambda>b. b = []) (\<lambda>b. b = []) (\<lambda>b. b = []) [97] = Inr None \<and>
   is_result (\<lambda>b. b = [97]) (\<lambda>b. b = []) (\<lambda>b. b = []) (\<lambda>b. b = []) [[97]] (1, 0)"
proof
  show "substring_result ascii_env (\<lambda>b. b = [97]) (\<lambda>b. b = []) (\<lambda>b. b = []) (\<lambda>b. b = []) [97] = Inr None" by code_simp
  have *: "starts_at (\<lambda>b. b = [97]) (\<lambda>b. b = []) (\<lambda>b. b = []) (\<lambda>b. b = []) [[97]] j \<longleftrightarrow> j = 1" for j
    by (cases j) (auto simp: starts_at_def middle_def)
  show "is_result (\<lambda>b. b = [97]) (\<lambda>b. b = []) (\<lambda>b. b = []) (\<lambda>b. b = []) [[97]] (1, 0)"
    unfolding is_result_def * by (intro exI [of _ 1] exI [of _ 0]) (simp add: middle_def)
qed

text \<open>A pattern that is accepted has exactly two markers of an escape and a double quote between its
  segments, and the matchers are those compiled from the segments, the last one from the second and third
  together.\<close>
theorem substring_compile_segments:
  assumes "substring_compile E pat [] = Inr m"
  shows "\<exists>s1 s2 s3. joined E [s1, s2, s3] pat \<and> compile_segment E s1 = Inr (sub_r1 m) \<and> compile_segment E s2 = Inr (sub_r2 m) \<and>
    compile_segment E s3 = Inr (sub_r3 m) \<and> compile_segment E (s2 @ s3) = Inr (sub_r23 m)"
proof -
  obtain segs where segs: "split_loop E pat [] [] = Inr segs" "length segs = 3"
    using assms by (auto simp: substring_compile_def split: sum.splits if_splits)
  then obtain s1 s2 s3 where s: "segs = [s1, s2, s3]" by (auto simp: eval_nat_numeral length_Suc_conv)
  have "joined E [s1, s2, s3] pat" using split_loop_joined [OF segs(1)] s by simp
  moreover have "compile_segment E s1 = Inr (sub_r1 m) \<and> compile_segment E s2 = Inr (sub_r2 m) \<and>
    compile_segment E s3 = Inr (sub_r3 m) \<and> compile_segment E (s2 @ s3) = Inr (sub_r23 m)"
    using assms segs s by (auto simp: substring_compile_def split: sum.splits)
  ultimately show ?thesis by blast
qed

lemma substring_example:
  "substring_compile ascii_env (ascii [CHR ''a'', CHR 92, CHR 34, CHR ''b'', CHR 92, CHR 34, CHR ''c'']) [] =
   Inr (projr (substring_compile ascii_env (ascii [CHR ''a'', CHR 92, CHR 34, CHR ''b'', CHR 92, CHR 34, CHR ''c'']) []))"
proof -
  have "\<not> isl (substring_compile ascii_env (ascii [CHR ''a'', CHR 92, CHR 34, CHR ''b'', CHR 92, CHR 34, CHR ''c'']) [])"
    by code_simp
  then show ?thesis by (cases "substring_compile ascii_env (ascii [CHR ''a'', CHR 92, CHR 34, CHR ''b'', CHR 92, CHR 34, CHR ''c'']) []") auto
qed

theorem substring_compile_segments_witness:
  "\<exists>s1 s2 s3. joined ascii_env [s1, s2, s3] (ascii [CHR ''a'', CHR 92, CHR 34, CHR ''b'', CHR 92, CHR 34, CHR ''c'']) \<and>
    compile_segment ascii_env s1 = Inr (sub_r1 (projr (substring_compile ascii_env (ascii [CHR ''a'', CHR 92, CHR 34, CHR ''b'', CHR 92, CHR 34, CHR ''c'']) []))) \<and>
    compile_segment ascii_env s2 = Inr (sub_r2 (projr (substring_compile ascii_env (ascii [CHR ''a'', CHR 92, CHR 34, CHR ''b'', CHR 92, CHR 34, CHR ''c'']) []))) \<and>
    compile_segment ascii_env s3 = Inr (sub_r3 (projr (substring_compile ascii_env (ascii [CHR ''a'', CHR 92, CHR 34, CHR ''b'', CHR 92, CHR 34, CHR ''c'']) []))) \<and>
    compile_segment ascii_env (s2 @ s3) = Inr (sub_r23 (projr (substring_compile ascii_env (ascii [CHR ''a'', CHR 92, CHR 34, CHR ''b'', CHR 92, CHR 34, CHR ''c'']) [])))"
  by (rule substring_compile_segments [OF substring_example])

end
