(* ===== verification/FB_Isc_Consts.thy ===== *)
theory FB_Isc_Consts
  imports FB_Prelude
begin

text \<open>
  The tags of parameter blocks that the clumplet classes know, from \<^verbatim>\<open>src/include/consts_pub.h\<close> and
  \<^verbatim>\<open>src/jrd/inf_pub.h\<close>.
\<close>

abbreviation (input) isc_dpb_version1 :: UCHAR where "isc_dpb_version1 \<equiv> 1"
abbreviation (input) isc_dpb_version2 :: UCHAR where "isc_dpb_version2 \<equiv> 2"
abbreviation (input) isc_tpb_lock_read :: UCHAR where "isc_tpb_lock_read \<equiv> 10"
abbreviation (input) isc_tpb_lock_write :: UCHAR where "isc_tpb_lock_write \<equiv> 11"
abbreviation (input) isc_tpb_lock_timeout :: UCHAR where "isc_tpb_lock_timeout \<equiv> 21"
abbreviation (input) isc_spb_version1 :: UCHAR where "isc_spb_version1 \<equiv> 1"
abbreviation (input) isc_spb_current_version :: UCHAR where "isc_spb_current_version \<equiv> 2"
abbreviation (input) isc_spb_version :: UCHAR where "isc_spb_version \<equiv> 2"
abbreviation (input) isc_spb_version3 :: UCHAR where "isc_spb_version3 \<equiv> 3"
abbreviation (input) isc_spb_command_line :: UCHAR where "isc_spb_command_line \<equiv> 105"
abbreviation (input) isc_spb_dbname :: UCHAR where "isc_spb_dbname \<equiv> 106"
abbreviation (input) isc_spb_verbose :: UCHAR where "isc_spb_verbose \<equiv> 107"
abbreviation (input) isc_spb_options :: UCHAR where "isc_spb_options \<equiv> 108"
abbreviation (input) isc_spb_trusted_auth :: UCHAR where "isc_spb_trusted_auth \<equiv> 111"
abbreviation (input) isc_spb_verbint :: UCHAR where "isc_spb_verbint \<equiv> 114"
abbreviation (input) isc_spb_auth_block :: UCHAR where "isc_spb_auth_block \<equiv> 115"
abbreviation (input) isc_spb_auth_plugin_name :: UCHAR where "isc_spb_auth_plugin_name \<equiv> 116"
abbreviation (input) isc_spb_auth_plugin_list :: UCHAR where "isc_spb_auth_plugin_list \<equiv> 117"
abbreviation (input) isc_spb_sql_role_name :: UCHAR where "isc_spb_sql_role_name \<equiv> 60"
abbreviation (input) isc_action_svc_backup :: UCHAR where "isc_action_svc_backup \<equiv> 1"
abbreviation (input) isc_action_svc_restore :: UCHAR where "isc_action_svc_restore \<equiv> 2"
abbreviation (input) isc_action_svc_repair :: UCHAR where "isc_action_svc_repair \<equiv> 3"
abbreviation (input) isc_action_svc_add_user :: UCHAR where "isc_action_svc_add_user \<equiv> 4"
abbreviation (input) isc_action_svc_delete_user :: UCHAR where "isc_action_svc_delete_user \<equiv> 5"
abbreviation (input) isc_action_svc_modify_user :: UCHAR where "isc_action_svc_modify_user \<equiv> 6"
abbreviation (input) isc_action_svc_display_user :: UCHAR where "isc_action_svc_display_user \<equiv> 7"
abbreviation (input) isc_action_svc_properties :: UCHAR where "isc_action_svc_properties \<equiv> 8"
abbreviation (input) isc_action_svc_db_stats :: UCHAR where "isc_action_svc_db_stats \<equiv> 11"
abbreviation (input) isc_action_svc_get_ib_log :: UCHAR where "isc_action_svc_get_ib_log \<equiv> 12"
abbreviation (input) isc_action_svc_nbak :: UCHAR where "isc_action_svc_nbak \<equiv> 20"
abbreviation (input) isc_action_svc_nrest :: UCHAR where "isc_action_svc_nrest \<equiv> 21"
abbreviation (input) isc_action_svc_trace_start :: UCHAR where "isc_action_svc_trace_start \<equiv> 22"
abbreviation (input) isc_action_svc_trace_stop :: UCHAR where "isc_action_svc_trace_stop \<equiv> 23"
abbreviation (input) isc_action_svc_trace_suspend :: UCHAR where "isc_action_svc_trace_suspend \<equiv> 24"
abbreviation (input) isc_action_svc_trace_resume :: UCHAR where "isc_action_svc_trace_resume \<equiv> 25"
abbreviation (input) isc_action_svc_set_mapping :: UCHAR where "isc_action_svc_set_mapping \<equiv> 27"
abbreviation (input) isc_action_svc_drop_mapping :: UCHAR where "isc_action_svc_drop_mapping \<equiv> 28"
abbreviation (input) isc_action_svc_display_user_adm :: UCHAR where "isc_action_svc_display_user_adm \<equiv> 29"
abbreviation (input) isc_action_svc_validate :: UCHAR where "isc_action_svc_validate \<equiv> 30"
abbreviation (input) isc_info_svc_auth_block :: UCHAR where "isc_info_svc_auth_block \<equiv> 69"
abbreviation (input) isc_spb_sec_userid :: UCHAR where "isc_spb_sec_userid \<equiv> 5"
abbreviation (input) isc_spb_sec_groupid :: UCHAR where "isc_spb_sec_groupid \<equiv> 6"
abbreviation (input) isc_spb_sec_username :: UCHAR where "isc_spb_sec_username \<equiv> 7"
abbreviation (input) isc_spb_sec_password :: UCHAR where "isc_spb_sec_password \<equiv> 8"
abbreviation (input) isc_spb_sec_groupname :: UCHAR where "isc_spb_sec_groupname \<equiv> 9"
abbreviation (input) isc_spb_sec_firstname :: UCHAR where "isc_spb_sec_firstname \<equiv> 10"
abbreviation (input) isc_spb_sec_middlename :: UCHAR where "isc_spb_sec_middlename \<equiv> 11"
abbreviation (input) isc_spb_sec_lastname :: UCHAR where "isc_spb_sec_lastname \<equiv> 12"
abbreviation (input) isc_spb_sec_admin :: UCHAR where "isc_spb_sec_admin \<equiv> 13"
abbreviation (input) isc_spb_bkp_file :: UCHAR where "isc_spb_bkp_file \<equiv> 5"
abbreviation (input) isc_spb_bkp_factor :: UCHAR where "isc_spb_bkp_factor \<equiv> 6"
abbreviation (input) isc_spb_bkp_length :: UCHAR where "isc_spb_bkp_length \<equiv> 7"
abbreviation (input) isc_spb_bkp_skip_data :: UCHAR where "isc_spb_bkp_skip_data \<equiv> 8"
abbreviation (input) isc_spb_bkp_stat :: UCHAR where "isc_spb_bkp_stat \<equiv> 15"
abbreviation (input) isc_spb_prp_page_buffers :: UCHAR where "isc_spb_prp_page_buffers \<equiv> 5"
abbreviation (input) isc_spb_prp_sweep_interval :: UCHAR where "isc_spb_prp_sweep_interval \<equiv> 6"
abbreviation (input) isc_spb_prp_shutdown_db :: UCHAR where "isc_spb_prp_shutdown_db \<equiv> 7"
abbreviation (input) isc_spb_prp_deny_new_attachments :: UCHAR where "isc_spb_prp_deny_new_attachments \<equiv> 9"
abbreviation (input) isc_spb_prp_deny_new_transactions :: UCHAR where "isc_spb_prp_deny_new_transactions \<equiv> 10"
abbreviation (input) isc_spb_prp_reserve_space :: UCHAR where "isc_spb_prp_reserve_space \<equiv> 11"
abbreviation (input) isc_spb_prp_write_mode :: UCHAR where "isc_spb_prp_write_mode \<equiv> 12"
abbreviation (input) isc_spb_prp_access_mode :: UCHAR where "isc_spb_prp_access_mode \<equiv> 13"
abbreviation (input) isc_spb_prp_set_sql_dialect :: UCHAR where "isc_spb_prp_set_sql_dialect \<equiv> 14"
abbreviation (input) isc_spb_prp_force_shutdown :: UCHAR where "isc_spb_prp_force_shutdown \<equiv> 41"
abbreviation (input) isc_spb_prp_attachments_shutdown :: UCHAR where "isc_spb_prp_attachments_shutdown \<equiv> 42"
abbreviation (input) isc_spb_prp_transactions_shutdown :: UCHAR where "isc_spb_prp_transactions_shutdown \<equiv> 43"
abbreviation (input) isc_spb_prp_shutdown_mode :: UCHAR where "isc_spb_prp_shutdown_mode \<equiv> 44"
abbreviation (input) isc_spb_prp_online_mode :: UCHAR where "isc_spb_prp_online_mode \<equiv> 45"
abbreviation (input) isc_spb_rpr_commit_trans :: UCHAR where "isc_spb_rpr_commit_trans \<equiv> 15"
abbreviation (input) isc_spb_rpr_rollback_trans :: UCHAR where "isc_spb_rpr_rollback_trans \<equiv> 34"
abbreviation (input) isc_spb_rpr_recover_two_phase :: UCHAR where "isc_spb_rpr_recover_two_phase \<equiv> 17"
abbreviation (input) isc_spb_rpr_commit_trans_64 :: UCHAR where "isc_spb_rpr_commit_trans_64 \<equiv> 49"
abbreviation (input) isc_spb_rpr_rollback_trans_64 :: UCHAR where "isc_spb_rpr_rollback_trans_64 \<equiv> 50"
abbreviation (input) isc_spb_rpr_recover_two_phase_64 :: UCHAR where "isc_spb_rpr_recover_two_phase_64 \<equiv> 51"
abbreviation (input) isc_spb_res_buffers :: UCHAR where "isc_spb_res_buffers \<equiv> 9"
abbreviation (input) isc_spb_res_page_size :: UCHAR where "isc_spb_res_page_size \<equiv> 10"
abbreviation (input) isc_spb_res_length :: UCHAR where "isc_spb_res_length \<equiv> 11"
abbreviation (input) isc_spb_res_access_mode :: UCHAR where "isc_spb_res_access_mode \<equiv> 12"
abbreviation (input) isc_spb_res_fix_fss_data :: UCHAR where "isc_spb_res_fix_fss_data \<equiv> 13"
abbreviation (input) isc_spb_res_fix_fss_metadata :: UCHAR where "isc_spb_res_fix_fss_metadata \<equiv> 14"
abbreviation (input) isc_spb_val_tab_incl :: UCHAR where "isc_spb_val_tab_incl \<equiv> 1"
abbreviation (input) isc_spb_val_tab_excl :: UCHAR where "isc_spb_val_tab_excl \<equiv> 2"
abbreviation (input) isc_spb_val_idx_incl :: UCHAR where "isc_spb_val_idx_incl \<equiv> 3"
abbreviation (input) isc_spb_val_idx_excl :: UCHAR where "isc_spb_val_idx_excl \<equiv> 4"
abbreviation (input) isc_spb_val_lock_timeout :: UCHAR where "isc_spb_val_lock_timeout \<equiv> 5"
abbreviation (input) isc_spb_sts_table :: UCHAR where "isc_spb_sts_table \<equiv> 64"
abbreviation (input) isc_spb_nbk_level :: UCHAR where "isc_spb_nbk_level \<equiv> 5"
abbreviation (input) isc_spb_nbk_file :: UCHAR where "isc_spb_nbk_file \<equiv> 6"
abbreviation (input) isc_spb_nbk_direct :: UCHAR where "isc_spb_nbk_direct \<equiv> 7"
abbreviation (input) isc_spb_nbk_guid :: UCHAR where "isc_spb_nbk_guid \<equiv> 8"
abbreviation (input) isc_spb_trc_id :: UCHAR where "isc_spb_trc_id \<equiv> 1"
abbreviation (input) isc_spb_trc_name :: UCHAR where "isc_spb_trc_name \<equiv> 2"
abbreviation (input) isc_spb_trc_cfg :: UCHAR where "isc_spb_trc_cfg \<equiv> 3"
abbreviation (input) isc_info_end :: UCHAR where "isc_info_end \<equiv> 1"
abbreviation (input) isc_info_truncated :: UCHAR where "isc_info_truncated \<equiv> 2"
abbreviation (input) isc_info_error :: UCHAR where "isc_info_error \<equiv> 3"
abbreviation (input) isc_info_data_not_ready :: UCHAR where "isc_info_data_not_ready \<equiv> 4"
abbreviation (input) isc_info_length :: UCHAR where "isc_info_length \<equiv> 126"
abbreviation (input) isc_info_flag_end :: UCHAR where "isc_info_flag_end \<equiv> 127"

end
