(* ===== verification/FB_Clumplet.thy ===== *)
theory FB_Clumplet
  imports FB_Isc_Consts
begin

text \<open>
  Parameter blocks: \<^verbatim>\<open>ClumpletReader\<close>, \<^verbatim>\<open>AuthReader\<close> and \<^verbatim>\<open>ClumpletWriter\<close>
  (\<^verbatim>\<open>src/common/classes/ClumpletReader.h\<close>, \<^verbatim>\<open>ClumpletReader.cpp\<close>, \<^verbatim>\<open>ClumpletWriter.cpp\<close>).
  A reader is its buffer with the current offset and the state of the service block; the buffer of a
  writer is the list of its bytes. The virtual functions that report an error throw, as they do in
  these classes. Offsets and sizes are \<^verbatim>\<open>FB_SIZE_T\<close>: their additions wrap at 32 bits. An access
  to bytes behind the buffer is the error \<open>READ_BEHIND\<close>.
\<close>

section \<open>Readers\<close>

datatype Kind =
    EndOfList | Tagged | UnTagged | SpbAttach | SpbStart | Tpb | WideTagged | WideUnTagged
  | SpbSendItems | SpbReceiveItems

datatype ClumpletType = TraditionalDpb | SingleTpb | StringSpb | IntSpb | BigIntSpb | ByteSpb | Wide

datatype clumplet_error = USAGE_MISTAKE | INVALID_STRUCTURE | SIZE_OVERFLOW | READ_BEHIND

record ClumpletReader =
  kind :: Kind
  buffer :: "UCHAR list"
  cur_offset :: nat
  spbState :: UCHAR

definition isTagged :: "'a ClumpletReader_scheme \<Rightarrow> bool" where
  "isTagged r \<longleftrightarrow> kind r \<in> {Tpb, Tagged, WideTagged, SpbAttach}"

definition getBufferTag :: "'a ClumpletReader_scheme \<Rightarrow> clumplet_error + UCHAR" where
  "getBufferTag r =
     (case kind r of
        Tpb \<Rightarrow> if buffer r = [] then Inl INVALID_STRUCTURE else Inr (buffer r ! 0)
      | Tagged \<Rightarrow> if buffer r = [] then Inl INVALID_STRUCTURE else Inr (buffer r ! 0)
      | WideTagged \<Rightarrow> if buffer r = [] then Inl INVALID_STRUCTURE else Inr (buffer r ! 0)
      | SpbAttach \<Rightarrow>
          if buffer r = [] then Inl INVALID_STRUCTURE
          else if buffer r ! 0 = isc_spb_version1 then Inr (buffer r ! 0)
          else if buffer r ! 0 = isc_spb_version then
            (if length (buffer r) = 1 then Inl INVALID_STRUCTURE else Inr (buffer r ! 1))
          else if buffer r ! 0 = isc_spb_version3 then Inr (buffer r ! 0)
          else Inl INVALID_STRUCTURE
      | EndOfList \<Rightarrow> Inr 0
      | _ \<Rightarrow> Inl USAGE_MISTAKE)"

text \<open>The type of a clumplet in a service start block, by the action it belongs to.\<close>

definition spb_start_type :: "UCHAR \<Rightarrow> UCHAR \<Rightarrow> clumplet_error + ClumpletType" where
  "spb_start_type state tag =
     (if state = 0 then Inr SingleTpb
      else if state \<in> {isc_action_svc_backup, isc_action_svc_restore} then
        (if tag \<in> {isc_spb_bkp_file, isc_spb_dbname, isc_spb_res_fix_fss_data, isc_spb_res_fix_fss_metadata,
             isc_spb_bkp_stat, isc_spb_bkp_skip_data} then Inr StringSpb
         else if tag \<in> {isc_spb_bkp_factor, isc_spb_bkp_length, isc_spb_res_length, isc_spb_res_buffers,
             isc_spb_res_page_size, isc_spb_options, isc_spb_verbint} then Inr IntSpb
         else if tag = isc_spb_verbose then Inr SingleTpb
         else if tag = isc_spb_res_access_mode then Inr ByteSpb
         else Inl INVALID_STRUCTURE)
      else if state = isc_action_svc_repair then
        (if tag = isc_spb_dbname then Inr StringSpb
         else if tag \<in> {isc_spb_options, isc_spb_rpr_commit_trans, isc_spb_rpr_rollback_trans,
             isc_spb_rpr_recover_two_phase} then Inr IntSpb
         else if tag \<in> {isc_spb_rpr_commit_trans_64, isc_spb_rpr_rollback_trans_64,
             isc_spb_rpr_recover_two_phase_64} then Inr BigIntSpb
         else Inl INVALID_STRUCTURE)
      else if state \<in> {isc_action_svc_add_user, isc_action_svc_delete_user, isc_action_svc_modify_user,
          isc_action_svc_display_user, isc_action_svc_display_user_adm, isc_action_svc_set_mapping,
          isc_action_svc_drop_mapping} then
        (if tag \<in> {isc_spb_dbname, isc_spb_sql_role_name, isc_spb_sec_username, isc_spb_sec_password,
             isc_spb_sec_groupname, isc_spb_sec_firstname, isc_spb_sec_middlename, isc_spb_sec_lastname}
         then Inr StringSpb
         else if tag \<in> {isc_spb_sec_userid, isc_spb_sec_groupid, isc_spb_sec_admin} then Inr IntSpb
         else Inl INVALID_STRUCTURE)
      else if state = isc_action_svc_properties then
        (if tag = isc_spb_dbname then Inr StringSpb
         else if tag \<in> {isc_spb_prp_page_buffers, isc_spb_prp_sweep_interval, isc_spb_prp_shutdown_db,
             isc_spb_prp_deny_new_attachments, isc_spb_prp_deny_new_transactions, isc_spb_prp_set_sql_dialect,
             isc_spb_options, isc_spb_prp_force_shutdown, isc_spb_prp_attachments_shutdown,
             isc_spb_prp_transactions_shutdown} then Inr IntSpb
         else if tag \<in> {isc_spb_prp_reserve_space, isc_spb_prp_write_mode, isc_spb_prp_access_mode,
             isc_spb_prp_shutdown_mode, isc_spb_prp_online_mode} then Inr ByteSpb
         else Inl INVALID_STRUCTURE)
      else if state = isc_action_svc_db_stats then
        (if tag \<in> {isc_spb_dbname, isc_spb_command_line, isc_spb_sts_table} then Inr StringSpb
         else if tag = isc_spb_options then Inr IntSpb
         else Inl INVALID_STRUCTURE)
      else if state = isc_action_svc_get_ib_log then Inl INVALID_STRUCTURE
      else if state \<in> {isc_action_svc_nbak, isc_action_svc_nrest} then
        (if tag \<in> {isc_spb_nbk_file, isc_spb_nbk_direct, isc_spb_dbname, isc_spb_nbk_guid} then Inr StringSpb
         else if tag \<in> {isc_spb_nbk_level, isc_spb_options} then Inr IntSpb
         else Inl INVALID_STRUCTURE)
      else if state \<in> {isc_action_svc_trace_start, isc_action_svc_trace_stop, isc_action_svc_trace_suspend,
          isc_action_svc_trace_resume} then
        (if tag \<in> {isc_spb_trc_cfg, isc_spb_trc_name} then Inr StringSpb
         else if tag = isc_spb_trc_id then Inr IntSpb
         else Inl INVALID_STRUCTURE)
      else if state = isc_action_svc_validate then
        (if tag \<in> {isc_spb_val_tab_incl, isc_spb_val_tab_excl, isc_spb_val_idx_incl, isc_spb_val_idx_excl,
             isc_spb_dbname} then Inr StringSpb
         else if tag = isc_spb_val_lock_timeout then Inr IntSpb
         else Inl INVALID_STRUCTURE)
      else Inl INVALID_STRUCTURE)"

definition getClumpletType :: "'a ClumpletReader_scheme \<Rightarrow> UCHAR \<Rightarrow> clumplet_error + ClumpletType" where
  "getClumpletType r tag =
     (case kind r of
        Tagged \<Rightarrow> Inr TraditionalDpb
      | UnTagged \<Rightarrow> Inr TraditionalDpb
      | SpbAttach \<Rightarrow> Inr TraditionalDpb
      | WideTagged \<Rightarrow> Inr Wide
      | WideUnTagged \<Rightarrow> Inr Wide
      | Tpb \<Rightarrow>
          if tag \<in> {isc_tpb_lock_write, isc_tpb_lock_read, isc_tpb_lock_timeout} then Inr TraditionalDpb else Inr SingleTpb
      | SpbSendItems \<Rightarrow>
          if tag = isc_info_svc_auth_block then Inr Wide
          else if tag \<in> {isc_info_end, isc_info_truncated, isc_info_error, isc_info_data_not_ready, isc_info_length,
            isc_info_flag_end} then Inr SingleTpb
          else Inr StringSpb
      | SpbReceiveItems \<Rightarrow> Inr SingleTpb
      | SpbStart \<Rightarrow>
          if tag \<in> {isc_spb_auth_block, isc_spb_trusted_auth, isc_spb_auth_plugin_name, isc_spb_auth_plugin_list}
          then Inr Wide else spb_start_type (spbState r) tag
      | EndOfList \<Rightarrow> Inl INVALID_STRUCTURE)"

definition getBufferLength :: "'a ClumpletReader_scheme \<Rightarrow> nat" where
  "getBufferLength r =
     (if length (buffer r) = 1 \<and> kind r \<notin> {UnTagged, SpbStart, WideUnTagged, SpbSendItems, SpbReceiveItems} then 0
      else length (buffer r))"

definition isEof :: "'a ClumpletReader_scheme \<Rightarrow> bool" where
  "isEof r \<longleftrightarrow> cur_offset r \<ge> getBufferLength r"

definition rewind :: "'a ClumpletReader_scheme \<Rightarrow> 'a ClumpletReader_scheme" where
  "rewind r =
     r\<lparr>cur_offset :=
         (case kind r of
            UnTagged \<Rightarrow> 0 | WideUnTagged \<Rightarrow> 0 | SpbStart \<Rightarrow> 0 | SpbSendItems \<Rightarrow> 0 | SpbReceiveItems \<Rightarrow> 0
          | _ \<Rightarrow> if kind r = SpbAttach \<and> getBufferLength r > 0 \<and> buffer r ! 0 \<noteq> isc_spb_version1 then 2 else 1),
       spbState := 0\<rparr>"

text \<open>A null pointer for the buffer is \<open>None\<close>: then \<^verbatim>\<open>rewind\<close> goes to offset 0.\<close>

definition ClumpletReader_new :: "Kind \<Rightarrow> UCHAR list option \<Rightarrow> ClumpletReader" where
  "ClumpletReader_new k bytes =
     (case bytes of
        None \<Rightarrow> \<lparr>kind = k, buffer = [], cur_offset = 0, spbState = 0\<rparr>
      | Some bs \<Rightarrow> rewind \<lparr>kind = k, buffer = bs, cur_offset = 0, spbState = 0\<rparr>)"

text \<open>The constructor for a list of possible kinds with their tags.\<close>

type_synonym KindList = "(Kind \<times> UCHAR) list"

definition dpbList :: KindList where
  "dpbList = [(Tagged, isc_dpb_version1), (WideTagged, isc_dpb_version2)]"

definition spbList :: KindList where
  "spbList = [(SpbAttach, isc_spb_current_version), (SpbAttach, isc_spb_version1), (WideTagged, isc_spb_version3)]"

fun create_loop :: "KindList \<Rightarrow> ClumpletReader \<Rightarrow> clumplet_error + ClumpletReader" where
  "create_loop [] r = Inl INVALID_STRUCTURE"
| "create_loop ((k, tag) # kl) r =
     (case getBufferTag (r\<lparr>kind := k\<rparr>) of
        Inl e \<Rightarrow> Inl e
      | Inr t \<Rightarrow> if t = tag then Inr (r\<lparr>kind := k\<rparr>) else create_loop kl (r\<lparr>kind := k\<rparr>))"

definition ClumpletReader_create :: "KindList \<Rightarrow> UCHAR list option \<Rightarrow> clumplet_error + ClumpletReader" where
  "ClumpletReader_create kl bytes =
     (case bytes of
        None \<Rightarrow> Inr (ClumpletReader_new (fst (hd kl)) None)
      | Some [] \<Rightarrow> Inr (ClumpletReader_new (fst (hd kl)) (Some []))
      | Some bs \<Rightarrow>
          map_sum id rewind (create_loop kl \<lparr>kind = fst (hd kl), buffer = bs, cur_offset = 0, spbState = 0\<rparr>))"

section \<open>The current clumplet\<close>

definition getClumpTag :: "'a ClumpletReader_scheme \<Rightarrow> clumplet_error + UCHAR" where
  "getClumpTag r = (if cur_offset r \<ge> length (buffer r) then Inl USAGE_MISTAKE else Inr (buffer r ! cur_offset r))"

text \<open>The sizes of the length component and of the data; \<open>c\<close> is the buffer from the clumplet on.\<close>

definition clumplet_sizes :: "ClumpletType \<Rightarrow> UCHAR list \<Rightarrow> clumplet_error + (nat \<times> nat)" where
  "clumplet_sizes t c =
     (case t of
        Wide \<Rightarrow>
          if length c < 5 then Inl INVALID_STRUCTURE
          else Inr (4, ((unat (c ! 4) * 256 + unat (c ! 3)) * 256 + unat (c ! 2)) * 256 + unat (c ! 1))
      | TraditionalDpb \<Rightarrow> if length c < 2 then Inl INVALID_STRUCTURE else Inr (1, unat (c ! 1))
      | SingleTpb \<Rightarrow> Inr (0, 0)
      | StringSpb \<Rightarrow>
          if length c < 3 then Inl INVALID_STRUCTURE else Inr (2, unat (c ! 2) * 256 + unat (c ! 1))
      | IntSpb \<Rightarrow> Inr (0, 4)
      | BigIntSpb \<Rightarrow> Inr (0, 8)
      | ByteSpb \<Rightarrow> Inr (0, 1))"

definition getClumpletSize :: "'a ClumpletReader_scheme \<Rightarrow> bool \<Rightarrow> bool \<Rightarrow> bool \<Rightarrow> clumplet_error + nat" where
  "getClumpletSize r wTag wLength wData =
     (let c = drop (cur_offset r) (buffer r)
      in if cur_offset r \<ge> length (buffer r) then Inl USAGE_MISTAKE
         else
           (case getClumpletType r (c ! 0) of
              Inl e \<Rightarrow> Inl e
            | Inr t \<Rightarrow>
                (case clumplet_sizes t c of
                   Inl e \<Rightarrow> Inl e
                 | Inr (lengthSize, dataSize) \<Rightarrow>
                     let total = size_add (1 + lengthSize) dataSize
                     in if total > length c then Inl INVALID_STRUCTURE
                        else Inr (size_add (size_add (if wTag then 1 else 0) (if wLength then lengthSize else 0))
                               (if wData then dataSize else 0)))))"

definition adjustSpbState :: "'a ClumpletReader_scheme \<Rightarrow> clumplet_error + 'a ClumpletReader_scheme" where
  "adjustSpbState r =
     (if kind r = SpbStart \<and> spbState r = 0 then
        (case getClumpletSize r True True True of
           Inl e \<Rightarrow> Inl e
         | Inr n \<Rightarrow> if n = 1 then map_sum id (\<lambda>tag. r\<lparr>spbState := tag\<rparr>) (getClumpTag r) else Inr r)
      else Inr r)"

definition moveNext :: "'a ClumpletReader_scheme \<Rightarrow> clumplet_error + 'a ClumpletReader_scheme" where
  "moveNext r =
     (if isEof r then Inr r
      else
        (case getClumpletSize r True True True of
           Inl e \<Rightarrow> Inl e
         | Inr cs \<Rightarrow> map_sum id (\<lambda>r. r\<lparr>cur_offset := size_add (cur_offset r) cs\<rparr>) (adjustSpbState r)))"

text \<open>
  The search for a tag. The loop may not end: then the result is \<open>None\<close>. Otherwise it is the
  reader at the clumplet, or \<open>None\<close> inside if there is no such clumplet, with the state of the
  reader at the end.
\<close>

partial_function (option) find_loop ::
  "UCHAR \<Rightarrow> 'a ClumpletReader_scheme \<Rightarrow> (clumplet_error + (bool \<times> 'a ClumpletReader_scheme)) option" where
  "find_loop tag r =
     (if isEof r then Some (Inr (False, r))
      else
        case getClumpTag r of
          Inl e \<Rightarrow> Some (Inl e)
        | Inr t \<Rightarrow>
            if tag = t then Some (Inr (True, r))
            else case moveNext r of Inl e \<Rightarrow> Some (Inl e) | Inr r' \<Rightarrow> find_loop tag r')"

declare find_loop.simps [code]

definition restore_offset ::
  "nat \<Rightarrow> clumplet_error + (bool \<times> 'a ClumpletReader_scheme) \<Rightarrow> clumplet_error + (bool \<times> 'a ClumpletReader_scheme)" where
  "restore_offset co = map_sum id (\<lambda>(found, r). (found, if found then r else r\<lparr>cur_offset := co\<rparr>))"

definition find_tag ::
  "UCHAR \<Rightarrow> 'a ClumpletReader_scheme \<Rightarrow> (clumplet_error + (bool \<times> 'a ClumpletReader_scheme)) option" where
  "find_tag tag r = map_option (restore_offset (cur_offset r)) (find_loop tag (rewind r))"

definition next_tag ::
  "UCHAR \<Rightarrow> 'a ClumpletReader_scheme \<Rightarrow> (clumplet_error + (bool \<times> 'a ClumpletReader_scheme)) option" where
  "next_tag tag r =
     (if isEof r then Some (Inr (False, r))
      else
        case getClumpTag r of
          Inl e \<Rightarrow> Some (Inl e)
        | Inr t \<Rightarrow>
            case (if tag = t then moveNext r else Inr r) of
              Inl e \<Rightarrow> Some (Inl e)
            | Inr r' \<Rightarrow> map_option (restore_offset (cur_offset r)) (find_loop tag r'))"

definition getClumpLength :: "'a ClumpletReader_scheme \<Rightarrow> clumplet_error + nat" where
  "getClumpLength r = getClumpletSize r False False True"

text \<open>\<open>getBytes\<close> is a pointer: the offset of the data in the buffer.\<close>

definition getBytes :: "'a ClumpletReader_scheme \<Rightarrow> clumplet_error + nat" where
  "getBytes r = map_sum id (\<lambda>n. cur_offset r + n) (getClumpletSize r True True False)"

text \<open>The bytes of the data as every accessor reads them.\<close>

definition clumplet_data :: "'a ClumpletReader_scheme \<Rightarrow> clumplet_error + UCHAR list" where
  "clumplet_data r =
     (case getClumpLength r of
        Inl e \<Rightarrow> Inl e
      | Inr n \<Rightarrow>
          (case getBytes r of
             Inl e \<Rightarrow> Inl e
           | Inr p \<Rightarrow> if p + n \<le> length (buffer r) then Inr (take n (drop p (buffer r))) else Inl READ_BEHIND))"

fun vax_loop :: "UCHAR list \<Rightarrow> nat \<Rightarrow> SINT64 \<Rightarrow> SINT64" where
  "vax_loop [] shift v = v"
| "vax_loop [b] shift v = v + push_bit shift (scast b)"
| "vax_loop (b # c # bs) shift v = vax_loop (c # bs) (shift + 8) (v + push_bit shift (ucast b))"

definition fromVaxInteger :: "UCHAR list \<Rightarrow> SINT64" where
  "fromVaxInteger bs = (if bs = [] \<or> length bs > 8 then 0 else vax_loop bs 0 0)"

definition getInt :: "'a ClumpletReader_scheme \<Rightarrow> clumplet_error + SLONG" where
  "getInt r =
     (case getClumpLength r of
        Inl e \<Rightarrow> Inl e
      | Inr n \<Rightarrow>
          if n > 4 then Inl INVALID_STRUCTURE else map_sum id (\<lambda>bs. ucast (fromVaxInteger bs)) (clumplet_data r))"

definition getBigInt :: "'a ClumpletReader_scheme \<Rightarrow> clumplet_error + SINT64" where
  "getBigInt r =
     (case getClumpLength r of
        Inl e \<Rightarrow> Inl e
      | Inr n \<Rightarrow> if n > 8 then Inl INVALID_STRUCTURE else map_sum id fromVaxInteger (clumplet_data r))"

definition getTimeStamp :: "'a ClumpletReader_scheme \<Rightarrow> clumplet_error + (SLONG \<times> ULONG)" where
  "getTimeStamp r =
     (case getClumpLength r of
        Inl e \<Rightarrow> Inl e
      | Inr n \<Rightarrow>
          if n \<noteq> 8 then Inl INVALID_STRUCTURE
          else map_sum id (\<lambda>bs. (ucast (fromVaxInteger (take 4 bs)), ucast (fromVaxInteger (drop 4 bs)))) (clumplet_data r))"

text \<open>A string ends at the first zero byte; at most one byte may follow.\<close>

definition getString :: "'a ClumpletReader_scheme \<Rightarrow> clumplet_error + UCHAR list" where
  "getString r =
     (case clumplet_data r of
        Inl e \<Rightarrow> Inl e
      | Inr bs \<Rightarrow>
          let str = takeWhile (\<lambda>b. b \<noteq> 0) bs
          in if length str + 1 < length bs then Inl INVALID_STRUCTURE else Inr str)"

definition getBoolean :: "'a ClumpletReader_scheme \<Rightarrow> clumplet_error + bool" where
  "getBoolean r =
     (case getClumpLength r of
        Inl e \<Rightarrow> Inl e
      | Inr n \<Rightarrow>
          if n > 1 then Inl INVALID_STRUCTURE
          else map_sum id (\<lambda>bs. bs \<noteq> [] \<and> hd bs \<noteq> 0) (clumplet_data r))"

type_synonym SingleClumplet = "UCHAR \<times> UCHAR list"

definition getClumplet :: "'a ClumpletReader_scheme \<Rightarrow> clumplet_error + SingleClumplet" where
  "getClumplet r =
     (case getClumpTag r of
        Inl e \<Rightarrow> Inl e
      | Inr tag \<Rightarrow> map_sum id (Pair tag) (clumplet_data r))"

section \<open>Authentication blocks\<close>

text \<open>\<^verbatim>\<open>AuthReader::Info\<close>; an upper- and lower-case insensitive string is its bytes.\<close>

record auth_info =
  auth_type :: "UCHAR list"
  auth_name :: "UCHAR list"
  auth_plugin :: "UCHAR list"
  auth_secDb :: "UCHAR list"
  auth_origPlug :: "UCHAR list"

definition AUTH_NAME :: UCHAR where "AUTH_NAME = 1"
definition AUTH_PLUGIN :: UCHAR where "AUTH_PLUGIN = 2"
definition AUTH_TYPE :: UCHAR where "AUTH_TYPE = 3"
definition AUTH_SECURE_DB :: UCHAR where "AUTH_SECURE_DB = 4"
definition AUTH_ORIG_PLUG :: UCHAR where "AUTH_ORIG_PLUG = 5"

definition set_info :: "UCHAR \<Rightarrow> ClumpletReader \<Rightarrow> auth_info \<Rightarrow> clumplet_error + auth_info" where
  "set_info tag r info =
     (if tag = AUTH_TYPE then map_sum id (\<lambda>bs. info\<lparr>auth_type := bs\<rparr>) (clumplet_data r)
      else if tag = AUTH_NAME then map_sum id (\<lambda>bs. info\<lparr>auth_name := bs\<rparr>) (clumplet_data r)
      else if tag = AUTH_PLUGIN then map_sum id (\<lambda>bs. info\<lparr>auth_plugin := bs\<rparr>) (clumplet_data r)
      else if tag = AUTH_SECURE_DB then map_sum id (\<lambda>bs. info\<lparr>auth_secDb := bs\<rparr>) (clumplet_data r)
      else if tag = AUTH_ORIG_PLUG then map_sum id (\<lambda>bs. info\<lparr>auth_origPlug := bs\<rparr>) (clumplet_data r)
      else Inr info)"

partial_function (option) info_loop :: "ClumpletReader \<Rightarrow> auth_info \<Rightarrow> (clumplet_error + auth_info) option" where
  "info_loop r info =
     (if isEof r then Some (Inr info)
      else
        case getClumpTag r of
          Inl e \<Rightarrow> Some (Inl e)
        | Inr tag \<Rightarrow>
            case set_info tag r info of
              Inl e \<Rightarrow> Some (Inl e)
            | Inr info' \<Rightarrow> case moveNext r of Inl e \<Rightarrow> Some (Inl e) | Inr r' \<Rightarrow> info_loop r' info')"

declare info_loop.simps [code]

definition empty_info :: auth_info where
  "empty_info = \<lparr>auth_type = [], auth_name = [], auth_plugin = [], auth_secDb = [], auth_origPlug = []\<rparr>"

definition auth_getInfo :: "'a ClumpletReader_scheme \<Rightarrow> (clumplet_error + auth_info option) option" where
  "auth_getInfo r =
     (if isEof r then Some (Inr None)
      else
        case clumplet_data r of
          Inl e \<Rightarrow> Some (Inl e)
        | Inr bs \<Rightarrow> map_option (map_sum id Some) (info_loop (ClumpletReader_new WideUnTagged (Some bs)) empty_info))"

section \<open>Writers\<close>

text \<open>A writer: \<open>kindList\<close> is the list of versions to upgrade to, \<open>None\<close> for a null pointer.\<close>

record ClumpletWriter = ClumpletReader +
  sizeLimit :: nat
  kindList :: "KindList option"

text \<open>The other kinds have no tag: the code asserts that it is 0, which only a debug build checks, and leaves the buffer
  empty.\<close>

definition initNewBuffer :: "UCHAR \<Rightarrow> ClumpletWriter \<Rightarrow> ClumpletWriter" where
  "initNewBuffer tag w =
     (case kind w of
        SpbAttach \<Rightarrow> w\<lparr>buffer := buffer w @ (if tag \<noteq> isc_spb_version1 then [isc_spb_version] else []) @ [tag]\<rparr>
      | Tagged \<Rightarrow> w\<lparr>buffer := buffer w @ [tag]\<rparr>
      | Tpb \<Rightarrow> w\<lparr>buffer := buffer w @ [tag]\<rparr>
      | WideTagged \<Rightarrow> w\<lparr>buffer := buffer w @ [tag]\<rparr>
      | _ \<Rightarrow> w)"

definition blank_writer :: "Kind \<Rightarrow> nat \<Rightarrow> KindList option \<Rightarrow> ClumpletWriter" where
  "blank_writer k limit kl = \<lparr>kind = k, buffer = [], cur_offset = 0, spbState = 0, sizeLimit = limit, kindList = kl\<rparr>"

definition ClumpletWriter_new :: "Kind \<Rightarrow> nat \<Rightarrow> UCHAR \<Rightarrow> ClumpletWriter" where
  "ClumpletWriter_new k limit tag = rewind (initNewBuffer tag (blank_writer k limit None))"

definition writer_create :: "UCHAR list \<Rightarrow> UCHAR \<Rightarrow> ClumpletWriter \<Rightarrow> ClumpletWriter" where
  "writer_create bytes tag w =
     rewind (if bytes \<noteq> [] then w\<lparr>buffer := buffer w @ bytes\<rparr> else initNewBuffer tag w)"

definition ClumpletWriter_of :: "Kind \<Rightarrow> nat \<Rightarrow> UCHAR list \<Rightarrow> UCHAR \<Rightarrow> ClumpletWriter" where
  "ClumpletWriter_of k limit bytes tag = writer_create bytes tag (blank_writer k limit None)"

definition ClumpletWriter_list :: "KindList \<Rightarrow> nat \<Rightarrow> UCHAR list \<Rightarrow> clumplet_error + ClumpletWriter" where
  "ClumpletWriter_list kl limit bytes =
     map_sum id (\<lambda>r. writer_create bytes (snd (hd kl)) (blank_writer (kind r) limit (Some kl)))
       (ClumpletReader_create kl (Some bytes))"

fun find_version :: "UCHAR \<Rightarrow> KindList \<Rightarrow> Kind option" where
  "find_version tag [] = None"
| "find_version tag ((k, t) # kl) = (if tag = t then Some k else find_version tag kl)"

definition writer_reset :: "UCHAR \<Rightarrow> ClumpletWriter \<Rightarrow> clumplet_error + ClumpletWriter" where
  "writer_reset tag w =
     (case kindList w of
        None \<Rightarrow> Inr (rewind (initNewBuffer tag (w\<lparr>buffer := []\<rparr>)))
      | Some kl \<Rightarrow>
          (case find_version tag kl of
             None \<Rightarrow> Inl INVALID_STRUCTURE
           | Some k \<Rightarrow> Inr (rewind (initNewBuffer tag (w\<lparr>kind := k, buffer := []\<rparr>)))))"

text \<open>The buffer is cleared before its tag is asked for.\<close>

definition writer_reset_buffer :: "UCHAR list \<Rightarrow> ClumpletWriter \<Rightarrow> clumplet_error + ClumpletWriter" where
  "writer_reset_buffer bytes w =
     (let w1 = w\<lparr>buffer := []\<rparr>
      in if bytes \<noteq> [] then Inr (rewind (w1\<lparr>buffer := bytes\<rparr>))
         else
           (case (if kind w1 \<in> {SpbStart, UnTagged, WideUnTagged} then Inr 0 else getBufferTag w1) of
              Inl e \<Rightarrow> Inl e
            | Inr tag \<Rightarrow> Inr (rewind (initNewBuffer tag w1))))"

definition writer_clear :: "ClumpletWriter \<Rightarrow> clumplet_error + ClumpletWriter" where
  "writer_clear w =
     (case (if isTagged w then getBufferTag w else Inr 0) of Inl e \<Rightarrow> Inl e | Inr tag \<Rightarrow> writer_reset tag w)"

fun toVaxInteger :: "nat \<Rightarrow> nat \<Rightarrow> SINT64 \<Rightarrow> UCHAR list" where
  "toVaxInteger 0 shift v = []"
| "toVaxInteger (Suc n) shift v = ucast (signed_drop_bit shift v) # toVaxInteger n (shift + 8) v"

text \<open>The size of the length component, \<open>None\<close> if the type does not allow data of this length.\<close>

definition length_size :: "ClumpletType \<Rightarrow> nat \<Rightarrow> nat option" where
  "length_size t n =
     (case t of
        Wide \<Rightarrow> if n > 4294967295 then None else Some 4
      | TraditionalDpb \<Rightarrow> if n > 255 then None else Some 1
      | SingleTpb \<Rightarrow> if n > 0 then None else Some 0
      | StringSpb \<Rightarrow> if n > 65535 then None else Some 2
      | IntSpb \<Rightarrow> if n \<noteq> 4 then None else Some 0
      | BigIntSpb \<Rightarrow> if n \<noteq> 8 then None else Some 0
      | ByteSpb \<Rightarrow> if n \<noteq> 1 then None else Some 0)"

text \<open>The part of \<^verbatim>\<open>insertBytesLengthCheck\<close> after the check of the length.\<close>

definition insert_data :: "UCHAR \<Rightarrow> UCHAR list \<Rightarrow> nat \<Rightarrow> ClumpletWriter \<Rightarrow> clumplet_error + ClumpletWriter" where
  "insert_data tag bytes lenSize w =
     (let n = length bytes; off = cur_offset w;
          lenBytes = toVaxInteger lenSize 0 (of_nat n)
      in if size_add (size_add (size_add (length (buffer w)) n) lenSize) 1 > sizeLimit w then Inl SIZE_OVERFLOW
         else
           map_sum id (\<lambda>w. w\<lparr>cur_offset := off + 1 + lenSize + n\<rparr>)
             (adjustSpbState (w\<lparr>buffer := take off (buffer w) @ tag # lenBytes @ bytes @ drop off (buffer w)\<rparr>)))"

text \<open>Insertion without a list of versions: no upgrade is possible.\<close>

definition insert_plain :: "UCHAR \<Rightarrow> UCHAR list \<Rightarrow> ClumpletWriter \<Rightarrow> clumplet_error + ClumpletWriter" where
  "insert_plain tag bytes w =
     (if cur_offset w > length (buffer w) then Inl USAGE_MISTAKE
      else
        (case getClumpletType w tag of
           Inl e \<Rightarrow> Inl e
         | Inr t \<Rightarrow>
             (case length_size t (length bytes) of
                None \<Rightarrow> Inl USAGE_MISTAKE
              | Some lenSize \<Rightarrow> insert_data tag bytes lenSize w)))"

partial_function (option) copy_loop ::
  "nat \<Rightarrow> nat \<Rightarrow> ClumpletWriter \<Rightarrow> ClumpletWriter \<Rightarrow> (clumplet_error + (nat \<times> ClumpletWriter \<times> ClumpletWriter)) option" where
  "copy_loop currentPosition newPos w newPb =
     (if isEof w then Some (Inr (newPos, w, newPb))
      else
        let newPos' = (if currentPosition = cur_offset w then cur_offset newPb else newPos)
        in case getClumplet w of
             Inl e \<Rightarrow> Some (Inl e)
           | Inr c \<Rightarrow>
               case insert_plain (fst c) (snd c) newPb of
                 Inl e \<Rightarrow> Some (Inl e)
               | Inr newPb1 \<Rightarrow>
                   case moveNext newPb1 of
                     Inl e \<Rightarrow> Some (Inl e)
                   | Inr newPb2 \<Rightarrow>
                       case moveNext w of Inl e \<Rightarrow> Some (Inl e) | Inr w' \<Rightarrow> copy_loop currentPosition newPos' w' newPb2)"

declare copy_loop.simps [code]

fun newest_version :: "KindList \<Rightarrow> Kind \<times> UCHAR \<Rightarrow> Kind \<times> UCHAR" where
  "newest_version [] v = v"
| "newest_version ((k, t) # kl) v = newest_version kl (if t > snd v then (k, t) else v)"

definition upgradeVersion :: "ClumpletWriter \<Rightarrow> (clumplet_error + (bool \<times> ClumpletWriter)) option" where
  "upgradeVersion w =
     (case kindList w of
        None \<Rightarrow> Some (Inr (False, w))
      | Some kl \<Rightarrow>
          let newest = newest_version kl (hd kl)
          in case (if getBufferLength w \<noteq> 0 then map_sum id (\<lambda>t. snd newest \<le> t) (getBufferTag w) else Inr False) of
               Inl e \<Rightarrow> Some (Inl e)
             | Inr True \<Rightarrow> Some (Inr (False, w))
             | Inr False \<Rightarrow>
                 map_option (map_sum id (\<lambda>(newPos, w0, newPb).
                     let w1 = w0\<lparr>kind := fst newest, buffer := buffer newPb\<rparr>
                     in (True, if newPos \<noteq> 0 then w1\<lparr>cur_offset := newPos\<rparr> else rewind w1)))
                   (copy_loop (cur_offset w) 0 (rewind w) (ClumpletWriter_new (fst newest) (sizeLimit w) (snd newest))))"

partial_function (option) check_length ::
  "UCHAR \<Rightarrow> nat \<Rightarrow> ClumpletWriter \<Rightarrow> (clumplet_error + (nat \<times> ClumpletWriter)) option" where
  "check_length tag n w =
     (case getClumpletType w tag of
        Inl e \<Rightarrow> Some (Inl e)
      | Inr t \<Rightarrow>
          (case length_size t n of
             Some lenSize \<Rightarrow> Some (Inr (lenSize, w))
           | None \<Rightarrow>
               (case upgradeVersion w of
                  None \<Rightarrow> None
                | Some res \<Rightarrow>
                    (case res of
                       Inl e \<Rightarrow> Some (Inl e)
                     | Inr up \<Rightarrow> if fst up then check_length tag n (snd up) else Some (Inl USAGE_MISTAKE)))))"

declare check_length.simps [code]

definition insertBytesLengthCheck :: "UCHAR \<Rightarrow> UCHAR list \<Rightarrow> ClumpletWriter \<Rightarrow> (clumplet_error + ClumpletWriter) option" where
  "insertBytesLengthCheck tag bytes w =
     (if cur_offset w > length (buffer w) then Some (Inl USAGE_MISTAKE)
      else
        (case check_length tag (length bytes) w of
           None \<Rightarrow> None
         | Some (Inl e) \<Rightarrow> Some (Inl e)
         | Some (Inr (lenSize, w')) \<Rightarrow> Some (insert_data tag bytes lenSize w')))"

definition insertInt :: "UCHAR \<Rightarrow> SLONG \<Rightarrow> ClumpletWriter \<Rightarrow> (clumplet_error + ClumpletWriter) option" where
  "insertInt tag v = insertBytesLengthCheck tag (toVaxInteger 4 0 (scast v))"

definition insertBigInt :: "UCHAR \<Rightarrow> SINT64 \<Rightarrow> ClumpletWriter \<Rightarrow> (clumplet_error + ClumpletWriter) option" where
  "insertBigInt tag v = insertBytesLengthCheck tag (toVaxInteger 8 0 v)"

definition insertTimeStamp :: "UCHAR \<Rightarrow> SLONG \<times> ULONG \<Rightarrow> ClumpletWriter \<Rightarrow> (clumplet_error + ClumpletWriter) option" where
  "insertTimeStamp tag v =
     insertBytesLengthCheck tag (toVaxInteger 4 0 (scast (fst v)) @ toVaxInteger 4 0 (ucast (snd v)))"

definition insertByte :: "UCHAR \<Rightarrow> UCHAR \<Rightarrow> ClumpletWriter \<Rightarrow> (clumplet_error + ClumpletWriter) option" where
  "insertByte tag b = insertBytesLengthCheck tag [b]"

definition insertTag :: "UCHAR \<Rightarrow> ClumpletWriter \<Rightarrow> (clumplet_error + ClumpletWriter) option" where
  "insertTag tag = insertBytesLengthCheck tag []"

definition insertEndMarker :: "UCHAR \<Rightarrow> ClumpletWriter \<Rightarrow> clumplet_error + ClumpletWriter" where
  "insertEndMarker tag w =
     (if cur_offset w > length (buffer w) then Inl USAGE_MISTAKE
      else if cur_offset w + 1 > sizeLimit w then Inl SIZE_OVERFLOW
      else Inr (w\<lparr>buffer := take (cur_offset w) (buffer w) @ [tag], cur_offset := cur_offset w + 2\<rparr>))"

definition deleteClumplet :: "ClumpletWriter \<Rightarrow> clumplet_error + ClumpletWriter" where
  "deleteClumplet w =
     (if cur_offset w \<ge> length (buffer w) then Inl USAGE_MISTAKE
      else if length (buffer w) - cur_offset w < 2 then Inr (w\<lparr>buffer := take (cur_offset w) (buffer w)\<rparr>)
      else
        (case getClumpletSize w True True True of
           Inl e \<Rightarrow> Inl e
         | Inr n \<Rightarrow>
             if cur_offset w + n > length (buffer w) then Inl READ_BEHIND
             else Inr (w\<lparr>buffer := take (cur_offset w) (buffer w) @ drop (cur_offset w + n) (buffer w)\<rparr>)))"

partial_function (option) deleteWithTag_loop ::
  "UCHAR \<Rightarrow> bool \<Rightarrow> ClumpletWriter \<Rightarrow> (clumplet_error + (bool \<times> ClumpletWriter)) option" where
  "deleteWithTag_loop tag rc w =
     (case find_tag tag w of
        None \<Rightarrow> None
      | Some res \<Rightarrow>
          (case res of
             Inl e \<Rightarrow> Some (Inl e)
           | Inr f \<Rightarrow>
               if fst f then
                 (case deleteClumplet (snd f) of Inl e \<Rightarrow> Some (Inl e) | Inr w' \<Rightarrow> deleteWithTag_loop tag True w')
               else Some (Inr (rc, snd f))))"

declare deleteWithTag_loop.simps [code]

definition deleteWithTag :: "UCHAR \<Rightarrow> ClumpletWriter \<Rightarrow> (clumplet_error + (bool \<times> ClumpletWriter)) option" where
  "deleteWithTag tag = deleteWithTag_loop tag False"

end
