(* ===== verification/FB_Clumplet_Read.thy ===== *)
theory FB_Clumplet_Read
  imports FB_Clumplet
begin

text \<open>
  What a clumplet reader does on a well-formed buffer: the encoding of a list of clumplets, a
  reader that stands at one of them, and the search for a tag.
\<close>

section \<open>Encoding\<close>

definition type_in :: "Kind \<Rightarrow> UCHAR \<Rightarrow> UCHAR \<Rightarrow> clumplet_error + ClumpletType" where
  "type_in k st tag = getClumpletType \<lparr>kind = k, buffer = [], cur_offset = 0, spbState = st\<rparr> tag"

lemma getClumpletType_in: "getClumpletType r tag = type_in (kind r) (spbState r) tag"
  by (simp only: getClumpletType_def type_in_def ClumpletReader.select_convs)

definition next_state :: "Kind \<Rightarrow> UCHAR \<Rightarrow> UCHAR \<Rightarrow> nat \<Rightarrow> UCHAR" where
  "next_state k st tag n = (if k = SpbStart \<and> st = 0 \<and> n = 0 then tag else st)"

definition length_bytes :: "nat \<Rightarrow> nat \<Rightarrow> UCHAR list" where
  "length_bytes ls n = toVaxInteger ls 0 (of_nat n)"

text \<open>
  The clumplets \<open>cs\<close>, the first one in state \<open>st\<close>, are the bytes \<open>bs\<close>; the state of a service start
  block is set by the first clumplet of one byte.
\<close>

fun encodes :: "Kind \<Rightarrow> UCHAR \<Rightarrow> SingleClumplet list \<Rightarrow> UCHAR list \<Rightarrow> bool" where
  "encodes k st [] bs = (bs = [])"
| "encodes k st ((tag, d) # cs) bs =
     (\<exists>t ls bs'. type_in k st tag = Inr t \<and> length_size t (length d) = Some ls \<and>
        bs = tag # length_bytes ls (length d) @ d @ bs' \<and> encodes k (next_state k st tag (ls + length d)) cs bs')"

fun end_state :: "Kind \<Rightarrow> UCHAR \<Rightarrow> SingleClumplet list \<Rightarrow> UCHAR" where
  "end_state k st [] = st"
| "end_state k st ((tag, d) # cs) =
     (case type_in k st tag of
        Inr t \<Rightarrow> end_state k (next_state k st tag (the (length_size t (length d)) + length d)) cs
      | Inl _ \<Rightarrow> st)"

lemma encodes_append:
  "encodes k st cs bs \<Longrightarrow> encodes k (end_state k st cs) cs' bs' \<Longrightarrow> encodes k st (cs @ cs') (bs @ bs')"
  by (induction cs arbitrary: st bs) fastforce+

lemma end_state_append:
  "encodes k st cs bs \<Longrightarrow> end_state k st (cs @ cs') = end_state k (end_state k st cs) cs'"
  by (induction cs arbitrary: st bs) auto

section \<open>Length bytes\<close>

lemma length_toVaxInteger [simp]: "length (toVaxInteger n s v) = n"
  by (induction n arbitrary: s) simp_all

lemma length_length_bytes [simp]: "length (length_bytes ls n) = ls"
  by (simp add: length_bytes_def)

lemma bit_signed_drop_bit_low:
  fixes v :: SINT64
  assumes "s + i < 64"
  shows "bit (signed_drop_bit s v) i = bit v (s + i)"
  using assms by (auto simp: bit_signed_drop_bit_iff)

lemma vax_byte:
  fixes v :: SINT64
  assumes "s + 8 \<le> 64"
  shows "unat (ucast (signed_drop_bit s v) :: UCHAR) = unat v div 2 ^ s mod 256"
proof -
  have "(ucast (signed_drop_bit s v) :: UCHAR) = ucast (drop_bit s v)"
    by (rule bit_word_eqI) (use assms in \<open>simp add: bit_ucast_iff bit_signed_drop_bit_low bit_drop_bit_eq\<close>)
  moreover have "unat (ucast (drop_bit s v) :: UCHAR) = take_bit 8 (unat (drop_bit s v))" by (simp add: unsigned_ucast_eq)
  moreover have "unat (drop_bit s v) = drop_bit s (unat v)" by (rule unat_drop_bit_eq)
  ultimately show ?thesis by (simp only: drop_bit_eq_div take_bit_eq_mod) simp
qed

lemma unat_byte: "unat (of_nat n :: UCHAR) = n mod 256"
  by (simp add: unsigned_of_nat take_bit_eq_mod)

lemma toVaxInteger_numeral:
  "toVaxInteger 1 0 v = [ucast (signed_drop_bit 0 v)]"
  "toVaxInteger 2 0 v = [ucast (signed_drop_bit 0 v), ucast (signed_drop_bit 8 v)]"
  "toVaxInteger 4 0 v = [ucast (signed_drop_bit 0 v), ucast (signed_drop_bit 8 v), ucast (signed_drop_bit 16 v), ucast (signed_drop_bit 24 v)]"
proof -
  have "(2 :: nat) = Suc (Suc 0)" "(4 :: nat) = Suc (Suc (Suc (Suc 0)))" by simp_all
  then show "toVaxInteger 1 0 v = [ucast (signed_drop_bit 0 v)]"
    "toVaxInteger 2 0 v = [ucast (signed_drop_bit 0 v), ucast (signed_drop_bit 8 v)]"
    "toVaxInteger 4 0 v = [ucast (signed_drop_bit 0 v), ucast (signed_drop_bit 8 v), ucast (signed_drop_bit 16 v), ucast (signed_drop_bit 24 v)]"
    by (simp_all only: One_nat_def toVaxInteger.simps) simp_all
qed

lemma vax_bytes:
  assumes "n < 2 ^ 32"
  shows "length_bytes 1 n = [of_nat n]"
    and "length_bytes 2 n = [of_nat n, of_nat (n div 256)]"
    and "length_bytes 4 n = [of_nat n, of_nat (n div 256), of_nat (n div 65536), of_nat (n div 16777216)]"
proof -
  have n: "unat (of_nat n :: SINT64) = n" using assms by (simp add: unsigned_of_nat take_bit_nat_eq_self_iff)
  have byte: "(ucast (signed_drop_bit s (of_nat n :: SINT64)) :: UCHAR) = of_nat (n div 2 ^ s)" if "s + 8 \<le> 64" for s
    unfolding word_unat_eq_iff vax_byte [OF that] n unat_byte ..
  show "length_bytes 1 n = [of_nat n]"
    unfolding length_bytes_def toVaxInteger_numeral using byte [of 0] by simp
  show "length_bytes 2 n = [of_nat n, of_nat (n div 256)]"
    unfolding length_bytes_def toVaxInteger_numeral using byte [of 0] byte [of 8] by simp
  show "length_bytes 4 n = [of_nat n, of_nat (n div 256), of_nat (n div 65536), of_nat (n div 16777216)]"
    unfolding length_bytes_def toVaxInteger_numeral using byte [of 0] byte [of 8] byte [of 16] byte [of 24] by simp
qed

text \<open>The sizes of an encoded clumplet are read back.\<close>

lemma clumplet_sizes_encoded:
  assumes "length_size t (length d) = Some ls" and "length d < 2 ^ 32"
  shows "clumplet_sizes t (tag # length_bytes ls (length d) @ d @ bs) = Inr (ls, length d)"
proof -
  let ?n = "length d"
  note vb = vax_bytes [OF assms(2)] vax_bytes(1) [OF assms(2), unfolded One_nat_def]
  have four: "((unat (of_nat (?n div 16777216) :: UCHAR) * 256 + unat (of_nat (?n div 65536) :: UCHAR)) * 256 +
      unat (of_nat (?n div 256) :: UCHAR)) * 256 + unat (of_nat ?n :: UCHAR) = ?n"
  proof -
    have "?n div 16777216 < 256" using assms(2) by simp
    moreover have "?n div 65536 = ?n div 256 div 256" "?n div 16777216 = ?n div 256 div 256 div 256"
      by (simp_all add: div_mult2_eq [symmetric])
    moreover have "x div 256 * 256 + x mod 256 = x" for x :: nat by (rule div_mult_mod_eq)
    ultimately show ?thesis by (simp add: unat_byte)
  qed
  show ?thesis
    using assms(1) four
    by (cases t) (auto simp: clumplet_sizes_def length_size_def vb unat_byte split: if_splits)
qed

section \<open>A reader at a list of clumplets\<close>

definition at_clumplets :: "'a ClumpletReader_scheme \<Rightarrow> SingleClumplet list \<Rightarrow> bool" where
  "at_clumplets r cs \<longleftrightarrow>
     cur_offset r \<le> length (buffer r) \<and> length (buffer r) < 2 ^ 32 - 5 \<and>
     (kind r \<in> {UnTagged, SpbStart, WideUnTagged, SpbSendItems, SpbReceiveItems} \<or> cur_offset r \<noteq> 0) \<and>
     encodes (kind r) (spbState r) cs (drop (cur_offset r) (buffer r))"

lemma at_clumplets_eof: "at_clumplets r cs \<Longrightarrow> isEof r \<longleftrightarrow> cs = []"
proof -
  assume at: "at_clumplets r cs"
  have "cs = [] \<longleftrightarrow> cur_offset r = length (buffer r)"
  proof (cases cs)
    case Nil
    then show ?thesis using at by (auto simp: at_clumplets_def)
  next
    case (Cons c cs')
    then have "drop (cur_offset r) (buffer r) \<noteq> []" using at by (cases c) (auto simp: at_clumplets_def)
    then show ?thesis using Cons by auto
  qed
  then show ?thesis using at by (auto simp: at_clumplets_def isEof_def getBufferLength_def)
qed

lemma getClumpletSize_at:
  assumes at: "at_clumplets r ((tag, d) # cs)"
  shows "\<exists>t ls. type_in (kind r) (spbState r) tag = Inr t \<and> length_size t (length d) = Some ls \<and>
    (\<forall>wTag wLength wData. getClumpletSize r wTag wLength wData =
       Inr ((if wTag then 1 else 0) + (if wLength then ls else 0) + (if wData then length d else 0))) \<and>
    cur_offset r + 1 + ls + length d \<le> length (buffer r) \<and>
    take (length d) (drop (cur_offset r + 1 + ls) (buffer r)) = d \<and>
    encodes (kind r) (next_state (kind r) (spbState r) tag (ls + length d)) cs (drop (cur_offset r + 1 + ls + length d) (buffer r))"
proof -
  let ?c = "drop (cur_offset r) (buffer r)"
  obtain t ls bs where t: "type_in (kind r) (spbState r) tag = Inr t" and ls: "length_size t (length d) = Some ls"
    and c: "?c = tag # length_bytes ls (length d) @ d @ bs"
    and rest: "encodes (kind r) (next_state (kind r) (spbState r) tag (ls + length d)) cs bs"
    using at by (auto simp: at_clumplets_def)
  have len: "length (buffer r) - cur_offset r = 1 + ls + length d + length bs" using arg_cong [OF c, of length] by simp
  have "length (buffer r) < 2 ^ 32 - 5" using at by (simp add: at_clumplets_def)
  then have small: "1 + ls + length d < 2 ^ 32" using len by linarith
  have lt: "cur_offset r < length (buffer r)" using len by simp
  have hd: "?c ! 0 = tag" using c by simp
  have add: "size_add a b = a + b" if "a + b < 2 ^ 32" for a b using that by (simp add: size_add_def)
  have "length d < 2 ^ 32" using small by simp
  from clumplet_sizes_encoded [OF ls this] have sizes: "clumplet_sizes t ?c = Inr (ls, length d)" unfolding c .
  have size: "getClumpletSize r wTag wLength wData =
       Inr ((if wTag then 1 else 0) + (if wLength then ls else 0) + (if wData then length d else 0))" for wTag wLength wData
    unfolding getClumpletSize_def Let_def getClumpletType_in hd t
    using lt len small by (simp add: add sizes)
  have pos: "drop (cur_offset r + k) (buffer r) = drop k ?c" for k by (simp add: add.commute)
  have d: "drop (cur_offset r + 1 + ls) (buffer r) = d @ bs"
    using pos [of "1 + ls"] by (simp add: c add.assoc)
  have b: "drop (cur_offset r + 1 + ls + length d) (buffer r) = bs"
    using pos [of "1 + ls + length d"] by (simp add: c add.assoc)
  have "cur_offset r + 1 + ls + length d \<le> length (buffer r)" using len by simp
  then show ?thesis using t ls size rest d b by (intro exI [of _ t] exI [of _ ls]) simp
qed

lemma at_getClumpTag: "at_clumplets r ((tag, d) # cs) \<Longrightarrow> getClumpTag r = Inr tag"
proof -
  assume at: "at_clumplets r ((tag, d) # cs)"
  then obtain bs where "drop (cur_offset r) (buffer r) = tag # bs" by (auto simp: at_clumplets_def)
  then have "cur_offset r < length (buffer r)" and "buffer r ! cur_offset r = tag"
    by (metis drop_eq_Nil list.simps(3) not_less, metis hd_drop_conv_nth drop_eq_Nil list.sel(1) list.simps(3) not_less)
  then show ?thesis by (simp add: getClumpTag_def)
qed

lemma at_clumplet_data:
  assumes at: "at_clumplets r ((tag, d) # cs)"
  shows "clumplet_data r = Inr d" and "getClumpLength r = Inr (length d)" and "getClumplet r = Inr (tag, d)"
proof -
  obtain ls where size: "\<And>wTag wLength wData. getClumpletSize r wTag wLength wData =
       Inr ((if wTag then 1 else 0) + (if wLength then ls else 0) + (if wData then length d else 0))"
    and "cur_offset r + 1 + ls + length d \<le> length (buffer r)" "take (length d) (drop (cur_offset r + 1 + ls) (buffer r)) = d"
    using getClumpletSize_at [OF at] by blast
  then show "clumplet_data r = Inr d" and "getClumpLength r = Inr (length d)"
    by (simp_all add: clumplet_data_def getClumpLength_def getBytes_def)
  then show "getClumplet r = Inr (tag, d)" using at_getClumpTag [OF at] by (simp add: getClumplet_def)
qed

lemma at_adjustSpbState:
  assumes at: "at_clumplets r ((tag, d) # cs)"
  shows "\<exists>t ls. type_in (kind r) (spbState r) tag = Inr t \<and> length_size t (length d) = Some ls \<and>
    adjustSpbState r = Inr (r\<lparr>spbState := next_state (kind r) (spbState r) tag (ls + length d)\<rparr>)"
proof -
  obtain t ls where t: "type_in (kind r) (spbState r) tag = Inr t" "length_size t (length d) = Some ls"
    and size: "getClumpletSize r True True True = Inr (1 + ls + length d)"
    using getClumpletSize_at [OF at] by auto
  have "adjustSpbState r = Inr (r\<lparr>spbState := next_state (kind r) (spbState r) tag (ls + length d)\<rparr>)"
    using size at_getClumpTag [OF at] by (auto simp: adjustSpbState_def next_state_def)
  with t show ?thesis by blast
qed

lemma at_moveNext_to:
  assumes at: "at_clumplets r ((tag, d) # cs)"
  shows "\<exists>t ls. type_in (kind r) (spbState r) tag = Inr t \<and> length_size t (length d) = Some ls \<and>
    moveNext r = Inr (r\<lparr>spbState := next_state (kind r) (spbState r) tag (ls + length d), cur_offset := cur_offset r + 1 + ls + length d\<rparr>) \<and>
    cur_offset r + 1 + ls + length d \<le> length (buffer r) \<and>
    encodes (kind r) (next_state (kind r) (spbState r) tag (ls + length d)) cs (drop (cur_offset r + 1 + ls + length d) (buffer r))"
proof -
  obtain t ls where t: "type_in (kind r) (spbState r) tag = Inr t" "length_size t (length d) = Some ls"
    and size: "\<And>wTag wLength wData. getClumpletSize r wTag wLength wData =
       Inr ((if wTag then 1 else 0) + (if wLength then ls else 0) + (if wData then length d else 0))"
    and fits: "cur_offset r + 1 + ls + length d \<le> length (buffer r)"
    and rest: "encodes (kind r) (next_state (kind r) (spbState r) tag (ls + length d)) cs (drop (cur_offset r + 1 + ls + length d) (buffer r))"
    using getClumpletSize_at [OF at] by blast
  have adj: "adjustSpbState r = Inr (r\<lparr>spbState := next_state (kind r) (spbState r) tag (ls + length d)\<rparr>)"
    using at_adjustSpbState [OF at] t by auto
  have eof: "\<not> isEof r" using at_clumplets_eof [OF at] by simp
  have add: "size_add (cur_offset r) (1 + ls + length d) = cur_offset r + 1 + ls + length d"
    using fits at by (simp add: size_add_def at_clumplets_def)
  have "moveNext r = Inr (r\<lparr>spbState := next_state (kind r) (spbState r) tag (ls + length d), cur_offset := cur_offset r + 1 + ls + length d\<rparr>)"
    using eof size adj add by (simp add: moveNext_def)
  then show ?thesis using t fits rest by blast
qed

lemma at_moveNext:
  assumes at: "at_clumplets r ((tag, d) # cs)"
  shows "\<exists>r'. moveNext r = Inr r' \<and> at_clumplets r' cs \<and> kind r' = kind r \<and> buffer r' = buffer r \<and>
    ClumpletReader.more r' = ClumpletReader.more r"
  using at_moveNext_to [OF at] at by (auto simp: at_clumplets_def)

text \<open>Reading everything from a position on.\<close>

fun reads :: "'a ClumpletReader_scheme \<Rightarrow> SingleClumplet list \<Rightarrow> bool" where
  "reads r [] = isEof r"
| "reads r (c # cs) =
     (\<not> isEof r \<and> getClumplet r = Inr c \<and> (case moveNext r of Inl e \<Rightarrow> False | Inr r' \<Rightarrow> reads r' cs))"

lemma at_reads: "at_clumplets r cs \<Longrightarrow> reads r cs"
proof (induction cs arbitrary: r)
  case Nil
  then show ?case by (simp add: at_clumplets_eof)
next
  case (Cons c cs)
  obtain tag d where c: "c = (tag, d)" by (cases c)
  show ?case
    using Cons.prems Cons.IH at_clumplets_eof [OF Cons.prems] at_clumplet_data(3) at_moveNext
    by (fastforce simp: c)
qed

section \<open>Search\<close>

lemma find_loop_at:
  assumes "at_clumplets r cs"
  shows "\<exists>r'. find_loop tag r = Some (Inr (tag \<in> fst ` set cs, r')) \<and> at_clumplets r' (dropWhile (\<lambda>c. fst c \<noteq> tag) cs) \<and>
    kind r' = kind r \<and> buffer r' = buffer r \<and> ClumpletReader.more r' = ClumpletReader.more r"
  using assms
proof (induction cs arbitrary: r)
  case Nil
  then show ?case using at_clumplets_eof [OF Nil] by (subst find_loop.simps) simp
next
  case (Cons c cs)
  obtain t d where c: "c = (t, d)" by (cases c)
  have eof: "\<not> isEof r" using at_clumplets_eof [OF Cons.prems] by simp
  have tag: "getClumpTag r = Inr t" using at_getClumpTag Cons.prems by (simp add: c)
  show ?case
  proof (cases "tag = t")
    case True
    then show ?thesis using eof tag Cons.prems by (subst find_loop.simps) (simp add: c)
  next
    case False
    obtain r1 where r1: "moveNext r = Inr r1" "at_clumplets r1 cs" "kind r1 = kind r" "buffer r1 = buffer r"
        "ClumpletReader.more r1 = ClumpletReader.more r"
      using at_moveNext Cons.prems by (fastforce simp: c)
    have "find_loop tag r = find_loop tag r1" using eof tag False r1(1) by (subst find_loop.simps) simp
    then show ?thesis using Cons.IH [OF r1(2)] r1 False by (auto simp: c)
  qed
qed

end
