(* ===== verification/FB_Clumplet_Write.thy ===== *)
theory FB_Clumplet_Write
  imports FB_Clumplet_Read
begin

text \<open>
  What a clumplet writer builds: the buffer of a writer to which clumplets are appended is their
  encoding behind the header of its kind, so that a reader gets them back; deletion by tag and the
  upgrade to a wide format keep the other clumplets.
\<close>

section \<open>Headers\<close>

definition header :: "Kind \<Rightarrow> UCHAR \<Rightarrow> UCHAR list" where
  "header k tag =
     (if k = SpbAttach then (if tag \<noteq> isc_spb_version1 then [isc_spb_version] else []) @ [tag]
      else if k \<in> {Tagged, Tpb, WideTagged} then [tag] else [])"

lemma initNewBuffer_header: "initNewBuffer tag w = w\<lparr>buffer := buffer w @ header (kind w) tag\<rparr>"
  by (cases "kind w") (simp_all add: initNewBuffer_def header_def)

lemma rewind_header:
  assumes "buffer r = header (kind r) tag @ bs" and "kind r \<noteq> EndOfList"
  shows "rewind r = r\<lparr>cur_offset := length (header (kind r) tag), spbState := 0\<rparr>"
  using assms by (cases "kind r") (auto simp: rewind_def header_def getBufferLength_def)

lemma header_untagged:
  assumes "k \<noteq> EndOfList"
  shows "k \<in> {UnTagged, SpbStart, WideUnTagged, SpbSendItems, SpbReceiveItems} \<or> header k tag \<noteq> []"
  using assms by (cases k) (simp_all add: header_def)

lemma header_short: "length (header k tag) \<le> 2"
  by (simp add: header_def)

text \<open>A reader that has read the clumplets \<open>pre\<close> and has \<open>cs\<close> before it.\<close>

definition positioned :: "'a ClumpletReader_scheme \<Rightarrow> UCHAR list \<Rightarrow> SingleClumplet list \<Rightarrow> SingleClumplet list \<Rightarrow> bool" where
  "positioned r hdr pre cs \<longleftrightarrow>
     (\<exists>bs1 bs2. buffer r = hdr @ bs1 @ bs2 \<and> cur_offset r = length (hdr @ bs1) \<and> encodes (kind r) 0 pre bs1 \<and>
        spbState r = end_state (kind r) 0 pre \<and> encodes (kind r) (spbState r) cs bs2) \<and>
     length (buffer r) < 2 ^ 32 - 5 \<and>
     (kind r \<in> {UnTagged, SpbStart, WideUnTagged, SpbSendItems, SpbReceiveItems} \<or> hdr \<noteq> [])"

lemma positioned_at: "positioned r hdr pre cs \<Longrightarrow> at_clumplets r cs"
  by (auto simp: positioned_def at_clumplets_def)

lemma positioned_rewind:
  assumes "buffer r = header (kind r) tag @ bs" and "kind r \<noteq> EndOfList" and "encodes (kind r) 0 cs bs"
    and "length (buffer r) < 2 ^ 32 - 5"
  shows "positioned (rewind r) (header (kind r) tag) [] cs"
  using assms rewind_header [OF assms(1,2)] header_untagged [OF assms(2), of tag] by (simp add: positioned_def)

lemma encodes_one:
  "type_in k st tag = Inr t \<Longrightarrow> length_size t (length d) = Some ls \<Longrightarrow>
     encodes k st [(tag, d)] (tag # length_bytes ls (length d) @ d)"
  by simp

lemma positioned_moveNext:
  assumes pos: "positioned r hdr pre ((tag, d) # cs)"
  shows "\<exists>r'. moveNext r = Inr r' \<and> positioned r' hdr (pre @ [(tag, d)]) cs \<and> kind r' = kind r \<and> buffer r' = buffer r \<and>
    ClumpletReader.more r' = ClumpletReader.more r"
proof -
  obtain bs1 bs2 where b: "buffer r = hdr @ bs1 @ bs2" "cur_offset r = length (hdr @ bs1)" "encodes (kind r) 0 pre bs1"
      "spbState r = end_state (kind r) 0 pre" "encodes (kind r) (spbState r) ((tag, d) # cs) bs2"
    using pos by (auto simp: positioned_def)
  obtain t ls bs3 where t: "type_in (kind r) (spbState r) tag = Inr t" "length_size t (length d) = Some ls"
    and bs2: "bs2 = tag # length_bytes ls (length d) @ d @ bs3"
    and rest: "encodes (kind r) (next_state (kind r) (spbState r) tag (ls + length d)) cs bs3"
    using b(5) by auto
  define r' where "r' = r\<lparr>spbState := next_state (kind r) (spbState r) tag (ls + length d), cur_offset := cur_offset r + 1 + ls + length d\<rparr>"
  have "moveNext r = Inr r'" using at_moveNext_to [OF positioned_at [OF pos]] t by (auto simp: r'_def)
  moreover have "positioned r' hdr (pre @ [(tag, d)]) cs"
    unfolding positioned_def
  proof (intro conjI exI)
    show "buffer r' = hdr @ (bs1 @ tag # length_bytes ls (length d) @ d) @ bs3" by (simp add: r'_def b(1) bs2)
    show "cur_offset r' = length (hdr @ bs1 @ tag # length_bytes ls (length d) @ d)" by (simp add: r'_def b(2))
    show "encodes (kind r') 0 (pre @ [(tag, d)]) (bs1 @ tag # length_bytes ls (length d) @ d)"
      using encodes_append [OF b(3)] encodes_one [OF t] by (simp add: r'_def b(4) [symmetric])
    show "spbState r' = end_state (kind r') 0 (pre @ [(tag, d)])"
      using t by (simp add: r'_def end_state_append [OF b(3)] b(4) [symmetric])
    show "encodes (kind r') (spbState r') cs bs3" using rest by (simp add: r'_def)
  qed (use pos in \<open>auto simp: r'_def positioned_def\<close>)
  ultimately show ?thesis by (simp add: r'_def)
qed

lemma find_loop_positioned:
  assumes "positioned r hdr pre cs"
  shows "\<exists>r'. find_loop tag r = Some (Inr (tag \<in> fst ` set cs, r')) \<and>
    positioned r' hdr (pre @ takeWhile (\<lambda>c. fst c \<noteq> tag) cs) (dropWhile (\<lambda>c. fst c \<noteq> tag) cs) \<and>
    kind r' = kind r \<and> buffer r' = buffer r \<and> ClumpletReader.more r' = ClumpletReader.more r"
  using assms
proof (induction cs arbitrary: r pre)
  case Nil
  then show ?case using at_clumplets_eof [OF positioned_at [OF Nil]] by (subst find_loop.simps) simp
next
  case (Cons c cs)
  obtain t d where c: "c = (t, d)" by (cases c)
  have at: "at_clumplets r ((t, d) # cs)" using positioned_at [OF Cons.prems] by (simp add: c)
  have eof: "\<not> isEof r" using at_clumplets_eof [OF at] by simp
  have tag: "getClumpTag r = Inr t" by (rule at_getClumpTag [OF at])
  show ?case
  proof (cases "tag = t")
    case True
    then show ?thesis using eof tag Cons.prems by (subst find_loop.simps) (simp add: c)
  next
    case False
    obtain r1 where r1: "moveNext r = Inr r1" "positioned r1 hdr (pre @ [(t, d)]) cs" "kind r1 = kind r" "buffer r1 = buffer r"
        "ClumpletReader.more r1 = ClumpletReader.more r"
      using positioned_moveNext Cons.prems unfolding c by blast
    have "find_loop tag r = find_loop tag r1" using eof tag False r1(1) by (subst find_loop.simps) simp
    then show ?thesis using Cons.IH [OF r1(2)] r1 False by (auto simp: c)
  qed
qed

section \<open>Insertion at the end\<close>

definition appending :: "ClumpletWriter \<Rightarrow> UCHAR \<Rightarrow> SingleClumplet list \<Rightarrow> bool" where
  "appending w tag cs \<longleftrightarrow>
     kind w \<noteq> EndOfList \<and> positioned w (header (kind w) tag) cs []"

lemma appending_buffer:
  assumes "appending w tag cs"
  obtains bs where "buffer w = header (kind w) tag @ bs" "encodes (kind w) 0 cs bs" "cur_offset w = length (buffer w)"
    "spbState w = end_state (kind w) 0 cs"
  using assms by (auto simp: appending_def positioned_def)

lemma appending_new:
  assumes "k \<noteq> EndOfList"
  shows "appending (ClumpletWriter_new k limit tag) tag []"
proof -
  have "rewind (blank_writer k limit None\<lparr>buffer := header k tag\<rparr>) =
      blank_writer k limit None\<lparr>buffer := header k tag, cur_offset := length (header k tag), spbState := 0\<rparr>"
    using rewind_header [of "blank_writer k limit None\<lparr>buffer := header k tag\<rparr>" tag "[]"] assms by (simp add: blank_writer_def)
  then show ?thesis
    using header_untagged [OF assms, of tag] header_short [of k tag] assms
    by (simp add: ClumpletWriter_new_def initNewBuffer_header appending_def positioned_def) (simp add: blank_writer_def)
qed

lemma insert_data_append:
  assumes app: "appending w tag0 cs" and t: "type_in (kind w) (spbState w) tag = Inr t" "length_size t (length d) = Some ls"
    and fits: "length (buffer w) + length d + ls + 1 \<le> sizeLimit w" and limit: "sizeLimit w < 2 ^ 32 - 5"
  shows "\<exists>w'. insert_data tag d ls w = Inr w' \<and> appending w' tag0 (cs @ [(tag, d)]) \<and> kind w' = kind w \<and>
    sizeLimit w' = sizeLimit w \<and> kindList w' = kindList w \<and> length (buffer w') = length (buffer w) + length d + ls + 1"
proof -
  let ?h = "header (kind w) tag0"
  obtain bs where bs: "buffer w = ?h @ bs" "encodes (kind w) 0 cs bs" "cur_offset w = length (buffer w)"
    "spbState w = end_state (kind w) 0 cs" using app by (rule appending_buffer)
  let ?e = "tag # length_bytes ls (length d) @ d"
  define w1 where "w1 = w\<lparr>buffer := buffer w @ ?e\<rparr>"
  have enc: "encodes (kind w) (spbState w) [(tag, d)] ?e" by (rule encodes_one [OF t])
  have pos: "positioned w1 ?h cs [(tag, d)]"
    unfolding positioned_def
  proof (intro conjI exI)
    show "buffer w1 = ?h @ bs @ ?e" by (simp add: w1_def bs)
    show "cur_offset w1 = length (?h @ bs)" by (simp add: w1_def bs)
    show "encodes (kind w1) 0 cs bs" using bs by (simp add: w1_def)
    show "spbState w1 = end_state (kind w1) 0 cs" using bs by (simp add: w1_def)
    show "encodes (kind w1) (spbState w1) [(tag, d)] ?e" using enc by (simp add: w1_def)
    show "length (buffer w1) < 2 ^ 32 - 5" using fits limit by (simp add: w1_def)
    show "kind w1 \<in> {UnTagged, SpbStart, WideUnTagged, SpbSendItems, SpbReceiveItems} \<or> ?h \<noteq> []"
      using app by (simp add: w1_def appending_def positioned_def)
  qed
  then obtain t' ls' where adj: "adjustSpbState w1 = Inr (w1\<lparr>spbState := next_state (kind w1) (spbState w1) tag (ls' + length d)\<rparr>)"
    and t': "type_in (kind w1) (spbState w1) tag = Inr t'" "length_size t' (length d) = Some ls'"
    using at_adjustSpbState [OF positioned_at] by blast
  have ls': "ls' = ls" using t t' by (simp add: w1_def)
  have size: "size_add (size_add (size_add (length (buffer w)) (length d)) ls) 1 = length (buffer w) + length d + ls + 1"
    using fits limit by (simp add: size_add_def)
  define w' where "w' = w1\<lparr>spbState := next_state (kind w1) (spbState w1) tag (ls + length d), cur_offset := cur_offset w + 1 + ls + length d\<rparr>"
  have "insert_data tag d ls w = Inr w'"
    using fits size adj bs(3) by (simp add: insert_data_def Let_def w1_def w'_def ls' length_bytes_def [symmetric])
  moreover have "appending w' tag0 (cs @ [(tag, d)])"
    unfolding appending_def positioned_def
  proof (intro conjI exI)
    show "kind w' \<noteq> EndOfList" using app by (simp add: w'_def w1_def appending_def)
    show "buffer w' = header (kind w') tag0 @ (bs @ ?e) @ []" by (simp add: w'_def w1_def bs)
    show "cur_offset w' = length (header (kind w') tag0 @ bs @ ?e)" using bs(3) by (simp add: w'_def w1_def bs(1))
    show "encodes (kind w') 0 (cs @ [(tag, d)]) (bs @ ?e)"
      using encodes_append [OF bs(2)] enc bs(4) by (simp add: w'_def w1_def)
    show "spbState w' = end_state (kind w') 0 (cs @ [(tag, d)])"
      using end_state_append [OF bs(2)] t bs(4) by (simp add: w'_def w1_def)
    show "encodes (kind w') (spbState w') [] []" by simp
    show "length (buffer w') < 2 ^ 32 - 5" using fits limit by (simp add: w'_def w1_def)
    show "kind w' \<in> {UnTagged, SpbStart, WideUnTagged, SpbSendItems, SpbReceiveItems} \<or> header (kind w') tag0 \<noteq> []"
      using app by (simp add: w'_def w1_def appending_def positioned_def)
  qed
  ultimately show ?thesis by (simp add: w'_def w1_def)
qed

lemma insert_plain_append:
  assumes app: "appending w tag0 cs" and t: "type_in (kind w) (spbState w) tag = Inr t" "length_size t (length d) = Some ls"
    and fits: "length (buffer w) + length d + ls + 1 \<le> sizeLimit w" and limit: "sizeLimit w < 2 ^ 32 - 5"
  shows "\<exists>w'. insert_plain tag d w = Inr w' \<and> appending w' tag0 (cs @ [(tag, d)]) \<and> kind w' = kind w \<and>
    sizeLimit w' = sizeLimit w \<and> kindList w' = kindList w \<and> length (buffer w') = length (buffer w) + length d + ls + 1"
proof -
  have "\<not> cur_offset w > length (buffer w)" using app by (auto elim: appending_buffer)
  then have "insert_plain tag d w = insert_data tag d ls w"
    using t by (simp add: insert_plain_def getClumpletType_in)
  then show ?thesis using insert_data_append [OF assms] by simp
qed

text \<open>Without a list of versions the check of the length is that of \<open>insert_plain\<close>.\<close>

lemma insert_without_list:
  assumes "kindList w = None"
  shows "insertBytesLengthCheck tag bytes w = Some (insert_plain tag bytes w)"
  using assms
  by (auto simp: insertBytesLengthCheck_def insert_plain_def check_length.simps [of tag] upgradeVersion_def
      split: sum.splits option.splits)

fun insert_all :: "SingleClumplet list \<Rightarrow> ClumpletWriter \<Rightarrow> (clumplet_error + ClumpletWriter) option" where
  "insert_all [] w = Some (Inr w)"
| "insert_all (c # cs) w =
     (case insertBytesLengthCheck (fst c) (snd c) w of
        None \<Rightarrow> None
      | Some (Inl e) \<Rightarrow> Some (Inl e)
      | Some (Inr w') \<Rightarrow> insert_all cs w')"

lemma insert_plain_appended:
  assumes app: "appending w tag0 cs" and res: "insert_plain tag d w = Inr w'"
    and limit: "length d + sizeLimit w + 5 < 2 ^ 32" and len: "length (buffer w) \<le> sizeLimit w"
  shows "appending w' tag0 (cs @ [(tag, d)]) \<and> kind w' = kind w \<and> sizeLimit w' = sizeLimit w \<and> kindList w' = kindList w \<and>
    length (buffer w') \<le> sizeLimit w"
proof -
  obtain t ls where t: "type_in (kind w) (spbState w) tag = Inr t" "length_size t (length d) = Some ls"
    and data: "insert_data tag d ls w = Inr w'"
    using res by (auto simp: insert_plain_def getClumpletType_in split: if_splits sum.splits option.splits)
  have ls: "ls \<le> 4" using t(2) by (cases t) (auto simp: length_size_def split: if_splits)
  have "size_add (size_add (size_add (length (buffer w)) (length d)) ls) 1 = length (buffer w) + length d + ls + 1"
    using limit len ls by (simp add: size_add_def)
  then have fits: "length (buffer w) + length d + ls + 1 \<le> sizeLimit w"
    using data by (auto simp: insert_data_def Let_def not_less split: if_splits)
  moreover have "sizeLimit w < 2 ^ 32 - 5" using limit by simp
  ultimately show ?thesis using insert_data_append [OF app t] data by auto
qed

lemma insert_all_appended:
  assumes "insert_all cs w = Some (Inr w')" and "appending w tag0 pre" and "kindList w = None"
    and "\<forall>c \<in> set cs. length (snd c) + sizeLimit w + 5 < 2 ^ 32" and "length (buffer w) \<le> sizeLimit w"
  shows "appending w' tag0 (pre @ cs) \<and> kind w' = kind w \<and> length (buffer w') \<le> sizeLimit w"
  using assms
proof (induction cs arbitrary: w pre)
  case (Cons c cs)
  obtain tag d where c: "c = (tag, d)" by (cases c)
  obtain w1 where w1: "insert_plain tag d w = Inr w1" and rest: "insert_all cs w1 = Some (Inr w')"
    using Cons.prems(1) insert_without_list [OF Cons.prems(3)] by (auto simp: c split: sum.splits)
  have step: "appending w1 tag0 (pre @ [(tag, d)]) \<and> kind w1 = kind w \<and> sizeLimit w1 = sizeLimit w \<and> kindList w1 = kindList w \<and>
    length (buffer w1) \<le> sizeLimit w"
    by (rule insert_plain_appended [OF Cons.prems(2) w1]) (use Cons.prems(4,5) in \<open>auto simp: c\<close>)
  have "appending w' tag0 ((pre @ [(tag, d)]) @ cs) \<and> kind w' = kind w1 \<and> length (buffer w') \<le> sizeLimit w1"
    by (rule Cons.IH [OF rest]) (use step Cons.prems in auto)
  then show ?case using step by (simp add: c)
qed simp

lemma reads_encoded:
  assumes "encodes k 0 cs bs" and "k \<noteq> EndOfList" and "length (header k tag @ bs) < 2 ^ 32 - 5"
  shows "reads (ClumpletReader_new k (Some (header k tag @ bs))) cs"
proof -
  define r where "r = \<lparr>kind = k, buffer = header k tag @ bs, cur_offset = 0, spbState = 0\<rparr>"
  have "positioned (rewind r) (header (kind r) tag) [] cs"
    by (rule positioned_rewind [where bs = bs]) (use assms in \<open>simp_all add: r_def\<close>)
  then show ?thesis
    using at_reads [OF positioned_at] by (simp add: ClumpletReader_new_def r_def)
qed

text \<open>C11. Clumplets written one after the other are read back: the buffer of the writer keeps to its
  limit, which is at least 2 and far enough below 2^32 for the data, and a reader of it gives the same tags and data in the same order, for every kind of
  parameter block, the service start block with its changing types included.\<close>
theorem clumplet_roundtrip:
  assumes "insert_all cs (ClumpletWriter_new k limit tag) = Some (Inr w)" and "k \<noteq> EndOfList" and "2 \<le> limit"
    and "\<forall>c \<in> set cs. length (snd c) + limit + 5 < 2 ^ 32"
  shows "reads (ClumpletReader_new k (Some (buffer w))) cs \<and> length (buffer w) \<le> limit"
proof -
  let ?w0 = "ClumpletWriter_new k limit tag"
  have w0: "kindList ?w0 = None \<and> sizeLimit ?w0 = limit \<and> kind ?w0 = k \<and> buffer ?w0 = header k tag"
    by (simp add: ClumpletWriter_new_def initNewBuffer_header rewind_def blank_writer_def)
  have "length (header k tag) \<le> limit" using header_short [of k tag] assms(3) by simp
  then have app: "appending w tag ([] @ cs) \<and> kind w = kind ?w0 \<and> length (buffer w) \<le> sizeLimit ?w0"
    by (intro insert_all_appended [OF assms(1) appending_new [OF assms(2)]]) (use w0 assms(4) in auto)
  then obtain bs where bs: "buffer w = header k tag @ bs" "encodes k 0 cs bs"
    using w0 by (auto elim: appending_buffer)
  have "length (buffer w) < 2 ^ 32 - 5"
    using app by (auto simp: appending_def positioned_def)
  then show ?thesis using reads_encoded [OF bs(2) assms(2), of tag] bs(1) app w0 by simp
qed

theorem clumplet_roundtrip_witness:
  "\<exists>w. insert_all [(1, [2]), (3, [4, 5])] (ClumpletWriter_new Tagged 100 1) = Some (Inr w) \<and>
     reads (ClumpletReader_new Tagged (Some (buffer w))) [(1, [2]), (3, [4, 5])] \<and> length (buffer w) \<le> 100"
proof -
  have "\<exists>w. insert_all [(1, [2]), (3, [4, 5])] (ClumpletWriter_new Tagged 100 1) = Some (Inr w)"
    by (simp add: ClumpletWriter_new_def initNewBuffer_def blank_writer_def rewind_def insert_without_list insert_plain_def
        getClumpletType_def length_size_def insert_data_def size_add_def adjustSpbState_def)
  then obtain w where w: "insert_all [(1, [2]), (3, [4, 5])] (ClumpletWriter_new Tagged 100 1) = Some (Inr w)" ..
  then show ?thesis using clumplet_roundtrip [OF w] by simp
qed

end
