(* ===== verification/FB_Clumplet_Edit.thy ===== *)
theory FB_Clumplet_Edit
  imports FB_Clumplet_Write
begin

text \<open>
  Search for a tag, deletion by tag, the numbers stored in clumplets, the upgrade of a parameter
  block to a wide format, and what happens on buffers that no writer has built.
\<close>

section \<open>Search for a tag\<close>

lemma find_tag_positioned:
  assumes "buffer r = header (kind r) tag0 @ bs" and "kind r \<noteq> EndOfList" and "encodes (kind r) 0 cs bs"
    and "length (buffer r) < 2 ^ 32 - 5"
  shows "\<exists>r'. find_tag tag r = Some (Inr (tag \<in> fst ` set cs, if tag \<in> fst ` set cs then r' else r'\<lparr>cur_offset := cur_offset r\<rparr>)) \<and>
    positioned r' (header (kind r) tag0) (takeWhile (\<lambda>c. fst c \<noteq> tag) cs) (dropWhile (\<lambda>c. fst c \<noteq> tag) cs) \<and>
    kind r' = kind r \<and> buffer r' = buffer r \<and> ClumpletReader.more r' = ClumpletReader.more r"
proof -
  have same: "kind (rewind r) = kind r" "buffer (rewind r) = buffer r" "ClumpletReader.more (rewind r) = ClumpletReader.more r"
    by (simp_all add: rewind_def)
  have "positioned (rewind r) (header (kind r) tag0) [] cs" by (rule positioned_rewind [OF assms])
  from find_loop_positioned [OF this, of tag] obtain r' where
    "find_loop tag (rewind r) = Some (Inr (tag \<in> fst ` set cs, r'))"
    "positioned r' (header (kind r) tag0) (takeWhile (\<lambda>c. fst c \<noteq> tag) cs) (dropWhile (\<lambda>c. fst c \<noteq> tag) cs)"
    "kind r' = kind r" "buffer r' = buffer r" "ClumpletReader.more r' = ClumpletReader.more r"
    using same by auto
  then show ?thesis by (intro exI [of _ r']) (simp add: find_tag_def restore_offset_def)
qed

text \<open>C33. On a well-formed buffer, from any position, the search for a tag always ends: it says whether
  a clumplet of this tag is there, and then the reader stands at the first such clumplet, with the
  rest of the block before it; otherwise the position is the one before the search.\<close>
theorem clumplet_find:
  assumes "buffer r = header (kind r) tag0 @ bs" and "kind r \<noteq> EndOfList" and "encodes (kind r) 0 cs bs"
    and "length (buffer r) < 2 ^ 32 - 5"
  shows "\<exists>r'. find_tag tag r = Some (Inr (tag \<in> fst ` set cs, r')) \<and> kind r' = kind r \<and> buffer r' = buffer r \<and>
    (if tag \<in> fst ` set cs then reads r' (dropWhile (\<lambda>c. fst c \<noteq> tag) cs) else cur_offset r' = cur_offset r)"
proof -
  obtain r' where r': "find_tag tag r = Some (Inr (tag \<in> fst ` set cs, if tag \<in> fst ` set cs then r' else r'\<lparr>cur_offset := cur_offset r\<rparr>))"
    "positioned r' (header (kind r) tag0) (takeWhile (\<lambda>c. fst c \<noteq> tag) cs) (dropWhile (\<lambda>c. fst c \<noteq> tag) cs)"
    "kind r' = kind r" "buffer r' = buffer r"
    using find_tag_positioned [OF assms] by blast
  show ?thesis
    using r' at_reads [OF positioned_at [OF r'(2)]] by (cases "tag \<in> fst ` set cs") auto
qed

theorem clumplet_find_witness:
  "\<exists>r'. find_tag 3 \<lparr>kind = Tagged, buffer = [1, 7, 1, 9, 3, 0], cur_offset = 4, spbState = 0\<rparr> = Some (Inr (True, r')) \<and>
     reads r' [(3, [])]"
proof -
  have "encodes Tagged 0 [(7, [9]), (3, [])] [7, 1, 9, 3, 0]"
    using vax_bytes(1) [of 1] vax_bytes(1) [of 0] by (simp add: type_in_def getClumpletType_def length_size_def)
  then show ?thesis
    using clumplet_find [of "\<lparr>kind = Tagged, buffer = [1, 7, 1, 9, 3, 0], cur_offset = 4, spbState = 0\<rparr>" 1
        "[7, 1, 9, 3, 0]" "[(7, [9]), (3, [])]" 3]
    by (auto simp: header_def)
qed

section \<open>Deletion\<close>

text \<open>Apart from service start blocks, the bytes of a clumplet do not depend on what is before it.\<close>

lemma type_in_stateless: "k \<noteq> SpbStart \<Longrightarrow> type_in k st tag = type_in k 0 tag"
  by (cases k) (simp_all add: type_in_def getClumpletType_def)

lemma encodes_stateless: "k \<noteq> SpbStart \<Longrightarrow> encodes k st cs bs = encodes k 0 cs bs"
proof (induction cs arbitrary: st bs)
  case (Cons c cs)
  obtain tag d where c: "c = (tag, d)" by (cases c)
  have st0: "next_state k s tag n = s" for s n using Cons.prems by (simp add: next_state_def)
  have tail: "encodes k st cs bs' = encodes k 0 cs bs'" for bs' by (rule Cons.IH [OF Cons.prems])
  show ?case
    unfolding c encodes.simps st0 type_in_stateless [OF Cons.prems, of st tag] tail ..
qed simp

lemma end_state_stateless: "k \<noteq> SpbStart \<Longrightarrow> end_state k st cs = st"
  by (induction cs arbitrary: st) (auto simp: next_state_def split: sum.splits)

lemma positioned_stateless:
  assumes "kind r \<noteq> SpbStart"
  shows "positioned r hdr pre cs \<longleftrightarrow>
    (\<exists>bs1 bs2. buffer r = hdr @ bs1 @ bs2 \<and> cur_offset r = length (hdr @ bs1) \<and> encodes (kind r) 0 pre bs1 \<and>
       encodes (kind r) 0 cs bs2) \<and> spbState r = 0 \<and>
    length (buffer r) < 2 ^ 32 - 5 \<and> (kind r \<in> {UnTagged, SpbStart, WideUnTagged, SpbSendItems, SpbReceiveItems} \<or> hdr \<noteq> [])"
proof -
  have "encodes (kind r) (spbState r) cs bs = encodes (kind r) 0 cs bs" for bs by (rule encodes_stateless [OF assms])
  then show ?thesis unfolding positioned_def end_state_stateless [OF assms] by blast
qed

lemma positioned_buffer:
  assumes "positioned r hdr pre cs" and "kind r \<noteq> SpbStart"
  shows "\<exists>bs. buffer r = hdr @ bs \<and> encodes (kind r) 0 (pre @ cs) bs \<and> length (buffer r) < 2 ^ 32 - 5"
proof -
  obtain bs1 bs2 where b: "buffer r = hdr @ bs1 @ bs2" "encodes (kind r) 0 pre bs1" "encodes (kind r) 0 cs bs2" "length (buffer r) < 2 ^ 32 - 5"
    using assms(1) unfolding positioned_stateless [OF assms(2)] by blast
  have "encodes (kind r) 0 (pre @ cs) (bs1 @ bs2)"
    by (rule encodes_append [OF b(2)]) (simp add: end_state_stateless [OF assms(2)] b(3))
  then show ?thesis using b by blast
qed

lemma deleteClumplet_positioned:
  assumes pos: "positioned w hdr pre ((tag, d) # cs)" and k: "kind w \<noteq> SpbStart"
  shows "\<exists>w'. deleteClumplet w = Inr w' \<and> positioned w' hdr pre cs \<and> kind w' = kind w \<and> ClumpletReader.more w' = ClumpletReader.more w"
proof -
  obtain bs1 bs2 where b: "buffer w = hdr @ bs1 @ bs2" "cur_offset w = length (hdr @ bs1)" "encodes (kind w) 0 pre bs1"
      "encodes (kind w) 0 ((tag, d) # cs) bs2"
    and rest: "spbState w = 0" "length (buffer w) < 2 ^ 32 - 5" "kind w \<in> {UnTagged, SpbStart, WideUnTagged, SpbSendItems, SpbReceiveItems} \<or> hdr \<noteq> []"
    using pos unfolding positioned_stateless [OF k] by blast
  obtain t ls bs3 where t: "type_in (kind w) 0 tag = Inr t" "length_size t (length d) = Some ls"
    and bs2: "bs2 = tag # length_bytes ls (length d) @ d @ bs3" and "encodes (kind w) (next_state (kind w) 0 tag (ls + length d)) cs bs3"
    using b(4) by auto
  then have cs: "encodes (kind w) 0 cs bs3" using encodes_stateless [OF k] by blast
  have size: "getClumpletSize w True True True = Inr (1 + ls + length d)"
    using getClumpletSize_at [OF positioned_at [OF pos]] t rest(1) by auto
  define w' where "w' = w\<lparr>buffer := hdr @ bs1 @ bs3\<rparr>"
  have "deleteClumplet w = Inr w'"
  proof (cases "length (buffer w) - cur_offset w < 2")
    case True
    then have "bs3 = []" by (simp add: b bs2)
    then show ?thesis using True by (simp add: deleteClumplet_def w'_def b(1,2) bs2)
  next
    case False
    then show ?thesis using size by (simp add: deleteClumplet_def w'_def b(1,2) bs2)
  qed
  moreover have "positioned w' hdr pre cs"
  proof -
    have k': "kind w' \<noteq> SpbStart" using k by (simp add: w'_def)
    have "buffer w' = hdr @ bs1 @ bs3" "cur_offset w' = length (hdr @ bs1)" "kind w' = kind w" "spbState w' = 0"
      using b rest by (simp_all add: w'_def)
    moreover have "length (buffer w') < 2 ^ 32 - 5" using rest(2) by (simp add: w'_def b(1) bs2)
    ultimately show ?thesis unfolding positioned_stateless [OF k'] using b(3) cs rest(3) by metis
  qed
  ultimately show ?thesis by (simp add: w'_def)
qed

lemma deleteWithTag_loop_encoded:
  assumes "buffer w = header (kind w) tag0 @ bs" and "kind w \<notin> {EndOfList, SpbStart}" and "encodes (kind w) 0 cs bs"
    and "length (buffer w) < 2 ^ 32 - 5"
  shows "\<exists>w' bs'. deleteWithTag_loop tag rc w = Some (Inr (rc \<or> tag \<in> fst ` set cs, w')) \<and> kind w' = kind w \<and>
    buffer w' = header (kind w) tag0 @ bs' \<and> encodes (kind w) 0 (filter (\<lambda>c. fst c \<noteq> tag) cs) bs' \<and>
    length (buffer w') < 2 ^ 32 - 5"
  using assms
proof (induction "length cs" arbitrary: cs w bs rc rule: less_induct)
  case less
  let ?pre = "takeWhile (\<lambda>c. fst c \<noteq> tag) cs" let ?post = "dropWhile (\<lambda>c. fst c \<noteq> tag) cs"
  have k: "kind w \<noteq> SpbStart" "kind w \<noteq> EndOfList" using less.prems(2) by auto
  obtain w1 where w1: "find_tag tag w = Some (Inr (tag \<in> fst ` set cs, if tag \<in> fst ` set cs then w1 else w1\<lparr>cur_offset := cur_offset w\<rparr>))"
    and pos: "positioned w1 (header (kind w) tag0) ?pre ?post" and same: "kind w1 = kind w" "buffer w1 = buffer w"
    using find_tag_positioned [OF less.prems(1) k(2) less.prems(3,4)] by blast
  show ?case
  proof (cases "tag \<in> fst ` set cs")
    case False
    then have "filter (\<lambda>c. fst c \<noteq> tag) cs = cs" by (auto simp: filter_id_conv)
    moreover have "deleteWithTag_loop tag rc w = Some (Inr (rc, w1\<lparr>cur_offset := cur_offset w\<rparr>))"
      using False w1 by (subst deleteWithTag_loop.simps) simp
    ultimately show ?thesis using False same less.prems by auto
  next
    case True
    then have "?post \<noteq> []" by (auto simp: dropWhile_eq_Nil_conv)
    then obtain c cs' where post: "?post = c # cs'" by (cases ?post) auto
    have "fst c = tag" using hd_dropWhile [OF \<open>?post \<noteq> []\<close>] post by simp
    then obtain d where c: "c = (tag, d)" by (cases c) auto
    obtain w2 where del: "deleteClumplet w1 = Inr w2" and pos2: "positioned w2 (header (kind w) tag0) ?pre cs'" and kind2: "kind w2 = kind w"
      using deleteClumplet_positioned pos k(1) same unfolding post c by metis
    have step: "deleteWithTag_loop tag rc w = deleteWithTag_loop tag True w2"
      using True w1 del by (subst deleteWithTag_loop.simps) simp
    obtain bs2 where bs2: "buffer w2 = header (kind w2) tag0 @ bs2" "encodes (kind w2) 0 (?pre @ cs') bs2" "length (buffer w2) < 2 ^ 32 - 5"
      using positioned_buffer [OF pos2] k(1) kind2 by auto
    have split: "?pre @ (tag, d) # cs' = cs" using takeWhile_dropWhile_id [of "\<lambda>c. fst c \<noteq> tag" cs] post c by simp
    have "length (?pre @ cs') < length cs" using arg_cong [OF split, of length] by simp
    moreover have "filter (\<lambda>c. fst c \<noteq> tag) (?pre @ cs') = filter (\<lambda>c. fst c \<noteq> tag) cs"
      using arg_cong [OF split, of "filter (\<lambda>c. fst c \<noteq> tag)"] by simp
    ultimately show ?thesis
      using less.hyps [of "?pre @ cs'" w2 bs2 True] bs2 kind2 less.prems(2) True by (simp add: step)
  qed
qed

text \<open>C24. Deletion by tag always ends on a well-formed writer of any kind but \<open>SpbStart\<close>, below 2^32 - 5 bytes, and
  removes exactly the clumplets of the tag, in whatever position they are; it says whether there was one. (In a
  service start block the types of the parameters depend on the action tag before them, which may be deleted.)\<close>
theorem clumplet_deleteWithTag:
  assumes "buffer w = header (kind w) tag0 @ bs" and "kind w \<notin> {EndOfList, SpbStart}" and "encodes (kind w) 0 cs bs"
    and "length (buffer w) < 2 ^ 32 - 5"
  shows "\<exists>w'. deleteWithTag tag w = Some (Inr (tag \<in> fst ` set cs, w')) \<and>
    reads (ClumpletReader_new (kind w) (Some (buffer w'))) (filter (\<lambda>c. fst c \<noteq> tag) cs)"
proof -
  obtain w' bs' where "deleteWithTag_loop tag False w = Some (Inr (False \<or> tag \<in> fst ` set cs, w'))"
    "buffer w' = header (kind w) tag0 @ bs'" "encodes (kind w) 0 (filter (\<lambda>c. fst c \<noteq> tag) cs) bs'" "length (buffer w') < 2 ^ 32 - 5"
    using deleteWithTag_loop_encoded [OF assms, of tag False] by blast
  then show ?thesis using reads_encoded [of "kind w" _ bs' tag0] assms(2) by (simp add: deleteWithTag_def)
qed

theorem clumplet_deleteWithTag_witness:
  "\<exists>w'. deleteWithTag 7 (ClumpletWriter_of Tagged 100 [1, 7, 1, 9, 3, 0, 7, 0] 1) = Some (Inr (True, w')) \<and>
     reads (ClumpletReader_new Tagged (Some (buffer w'))) [(3, [])]"
proof -
  have "encodes Tagged 0 [(7, [9]), (3, []), (7, [])] [7, 1, 9, 3, 0, 7, 0]"
    using vax_bytes(1) [of 1] vax_bytes(1) [of 0] by (simp add: type_in_def getClumpletType_def length_size_def)
  then show ?thesis
    using clumplet_deleteWithTag [of "ClumpletWriter_of Tagged 100 [1, 7, 1, 9, 3, 0, 7, 0] 1" 1 "[7, 1, 9, 3, 0, 7, 0]" "[(7, [9]), (3, []), (7, [])]" 7]
    by (simp add: header_def ClumpletWriter_of_def writer_create_def blank_writer_def rewind_def)
qed

section \<open>Numbers\<close>

lemma signed_drop_bit_twice:
  fixes v :: SINT64
  assumes "s + 8 < 64"
  shows "signed_drop_bit (s + 8) v = signed_drop_bit 8 (signed_drop_bit s v)"
  by (rule bit_word_eqI) (auto simp: bit_signed_drop_bit_iff ac_simps)

lemma low_byte_add:
  fixes u :: SINT64
  assumes "m < 56"
  shows "ucast (ucast u :: UCHAR) + push_bit 8 (signed_take_bit m (signed_drop_bit 8 u)) = signed_take_bit (m + 8) u"
proof -
  have "ucast (ucast u :: UCHAR) + push_bit 8 (signed_take_bit m (signed_drop_bit 8 u)) =
      or (ucast (ucast u :: UCHAR)) (push_bit 8 (signed_take_bit m (signed_drop_bit 8 u)))"
    by (rule disjunctive_add) (auto simp: bit_ucast_iff bit_push_bit_iff)
  also have "\<dots> = signed_take_bit (m + 8) u"
  proof (rule bit_word_eqI)
    fix i assume i: "i < LENGTH(64)"
    show "bit (or (ucast (ucast u :: UCHAR)) (push_bit 8 (signed_take_bit m (signed_drop_bit 8 u)))) i = bit (signed_take_bit (m + 8) u) i"
    proof (cases "i < 8")
      case True
      then show ?thesis by (simp add: bit_or_iff bit_ucast_iff bit_push_bit_iff bit_signed_take_bit_iff)
    next
      case False
      then obtain j where "i = 8 + j" using le_Suc_ex [of 8 i] by auto
      then show ?thesis using i assms
        by (auto simp: bit_or_iff bit_ucast_iff bit_push_bit_iff bit_signed_take_bit_iff bit_signed_drop_bit_iff min_def add.commute [of m 8])
    qed
  qed
  finally show ?thesis .
qed

lemma vax_loop_toVaxInteger:
  assumes "s + 8 * n < 57"
  shows "vax_loop (toVaxInteger (Suc n) s v) s acc = acc + push_bit s (signed_take_bit (8 * n + 7) (signed_drop_bit s v))"
  using assms
proof (induction n arbitrary: s acc)
  case 0
  have "scast (ucast (signed_drop_bit s v) :: UCHAR) = signed_take_bit 7 (signed_drop_bit s v)"
    by (rule bit_word_eqI) (auto simp: bit_signed_iff bit_signed_take_bit_iff bit_ucast_iff min_def)
  then show ?case by simp
next
  case (Suc n)
  let ?u = "signed_drop_bit s v"
  have "vax_loop (toVaxInteger (Suc (Suc n)) s v) s acc =
      vax_loop (toVaxInteger (Suc n) (s + 8) v) (s + 8) (acc + push_bit s (ucast (ucast ?u :: UCHAR)))"
    by simp
  also have "\<dots> = acc + push_bit s (ucast (ucast ?u :: UCHAR)) + push_bit (s + 8) (signed_take_bit (8 * n + 7) (signed_drop_bit (s + 8) v))"
    by (rule Suc.IH) (use Suc.prems in simp)
  also have "signed_drop_bit (s + 8) v = signed_drop_bit 8 ?u" by (rule signed_drop_bit_twice) (use Suc.prems in simp)
  also have "acc + push_bit s (ucast (ucast ?u :: UCHAR)) + push_bit (s + 8) (signed_take_bit (8 * n + 7) (signed_drop_bit 8 ?u)) =
      acc + push_bit s (ucast (ucast ?u :: UCHAR) + push_bit 8 (signed_take_bit (8 * n + 7) (signed_drop_bit 8 ?u)))"
    by (simp add: push_bit_add push_bit_push_bit add.assoc)
  also have "ucast (ucast ?u :: UCHAR) + push_bit 8 (signed_take_bit (8 * n + 7) (signed_drop_bit 8 ?u)) = signed_take_bit (8 * n + 7 + 8) ?u"
    by (rule low_byte_add) (use Suc.prems in simp)
  finally show ?case by (simp add: algebra_simps)
qed

lemma fromVaxInteger_toVaxInteger:
  assumes "0 < n" and "n \<le> 8"
  shows "fromVaxInteger (toVaxInteger n 0 v) = signed_take_bit (8 * n - 1) v"
proof -
  obtain m where n: "n = Suc m" using assms by (cases n) auto
  then have ne: "toVaxInteger n 0 v \<noteq> []" and len: "\<not> length (toVaxInteger n 0 v) > 8" using assms by simp_all
  have "vax_loop (toVaxInteger (Suc m) 0 v) 0 0 = 0 + push_bit 0 (signed_take_bit (8 * m + 7) (signed_drop_bit 0 v))"
    by (rule vax_loop_toVaxInteger) (use assms n in simp)
  moreover have "8 * n - 1 = 8 * m + 7" by (simp add: n)
  ultimately show ?thesis using ne len by (simp add: fromVaxInteger_def n add.commute [of 7])
qed

lemma vax_long: "ucast (fromVaxInteger (toVaxInteger 4 0 v)) = (ucast v :: 32 word)"
proof (subst fromVaxInteger_toVaxInteger; (simp; fail)?)
  show "ucast (signed_take_bit (8 * 4 - 1) v) = (ucast v :: 32 word)"
  proof (rule bit_word_eqI)
    fix i :: nat assume "i < LENGTH(32)"
    then have "min i 31 = i" and "i < 64" by simp_all
    then show "bit (ucast (signed_take_bit (8 * 4 - 1) v) :: 32 word) i = bit (ucast v :: 32 word) i"
      by (simp add: bit_ucast_iff bit_signed_take_bit_iff)
  qed
qed

lemma vax_int64: "fromVaxInteger (toVaxInteger 8 0 v) = v"
proof (subst fromVaxInteger_toVaxInteger; (simp; fail)?)
  show "signed_take_bit (8 * 8 - 1) v = v"
  proof (rule bit_word_eqI)
    fix i :: nat assume "i < LENGTH(64)"
    then have "min i 63 = i" and "i < 64" by simp_all
    then show "bit (signed_take_bit (8 * 8 - 1) v) i = bit v i" by (simp add: bit_signed_take_bit_iff)
  qed
qed

lemma ucast_scast_long: "ucast (scast (v :: SLONG) :: SINT64) = v"
  by (rule bit_word_eqI) (simp add: bit_ucast_iff bit_signed_iff)

lemma ucast_ucast_long: "ucast (ucast (v :: ULONG) :: SINT64) = v"
  by (rule bit_word_eqI) (simp add: bit_ucast_iff)

text \<open>The first clumplet of a new writer.\<close>

lemma inserted_first:
  assumes "insertBytesLengthCheck tag d (ClumpletWriter_new k limit tag0) = Some (Inr w)" and "k \<noteq> EndOfList"
    and "2 \<le> limit" and "length d + limit + 5 < 2 ^ 32"
  shows "at_clumplets (rewind w) [(tag, d)]"
proof -
  let ?w0 = "ClumpletWriter_new k limit tag0"
  have w0: "kindList ?w0 = None \<and> sizeLimit ?w0 = limit \<and> kind ?w0 = k \<and> buffer ?w0 = header k tag0"
    by (simp add: ClumpletWriter_new_def initNewBuffer_header rewind_def blank_writer_def)
  have plain: "insert_plain tag d ?w0 = Inr w" using assms(1) insert_without_list [of ?w0 tag d] w0 by simp
  have "appending w tag0 ([] @ [(tag, d)]) \<and> kind w = kind ?w0 \<and> sizeLimit w = sizeLimit ?w0 \<and> kindList w = kindList ?w0 \<and>
    length (buffer w) \<le> sizeLimit ?w0"
    by (rule insert_plain_appended [OF appending_new [OF assms(2)] plain]) (use w0 assms header_short [of k tag0] in auto)
  then have app: "appending w tag0 [(tag, d)]" and k: "kind w = k" and len: "length (buffer w) \<le> limit" using w0 by auto
  obtain bs where bs: "buffer w = header (kind w) tag0 @ bs" "encodes (kind w) 0 [(tag, d)] bs" using app by (rule appending_buffer)
  have "length (buffer w) < 2 ^ 32 - 5" using len assms(4) by simp
  then show ?thesis using positioned_at [OF positioned_rewind [OF bs(1) _ bs(2)]] k assms(2) by blast
qed

text \<open>Numbers inserted into a block come back as they were, with their signs: 32-bit integers, 64-bit
  integers, and time stamps with their unsigned time part.\<close>
theorem clumplet_numbers_roundtrip:
  assumes "k \<noteq> EndOfList" and "2 \<le> limit" and "limit < 2 ^ 32 - 13"
  shows "(insertInt tag v (ClumpletWriter_new k limit tag0) = Some (Inr w1) \<longrightarrow> getInt (rewind w1) = Inr v) \<and>
    (insertBigInt tag b (ClumpletWriter_new k limit tag0) = Some (Inr w2) \<longrightarrow> getBigInt (rewind w2) = Inr b) \<and>
    (insertTimeStamp tag ts (ClumpletWriter_new k limit tag0) = Some (Inr w3) \<longrightarrow> getTimeStamp (rewind w3) = Inr ts)"
proof (intro conjI impI)
  assume "insertInt tag v (ClumpletWriter_new k limit tag0) = Some (Inr w1)"
  then have "at_clumplets (rewind w1) [(tag, toVaxInteger 4 0 (scast v))]"
    unfolding insertInt_def by (rule inserted_first) (use assms in auto)
  from at_clumplet_data [OF this] show "getInt (rewind w1) = Inr v"
    by (simp add: getInt_def vax_long ucast_scast_long)
next
  assume "insertBigInt tag b (ClumpletWriter_new k limit tag0) = Some (Inr w2)"
  then have "at_clumplets (rewind w2) [(tag, toVaxInteger 8 0 b)]"
    unfolding insertBigInt_def by (rule inserted_first) (use assms in auto)
  from at_clumplet_data [OF this] show "getBigInt (rewind w2) = Inr b"
    by (simp add: getBigInt_def vax_int64)
next
  assume "insertTimeStamp tag ts (ClumpletWriter_new k limit tag0) = Some (Inr w3)"
  then have "at_clumplets (rewind w3) [(tag, toVaxInteger 4 0 (scast (fst ts)) @ toVaxInteger 4 0 (ucast (snd ts)))]"
    unfolding insertTimeStamp_def by (rule inserted_first) (use assms in auto)
  from at_clumplet_data [OF this] show "getTimeStamp (rewind w3) = Inr ts"
    by (cases ts) (simp add: getTimeStamp_def vax_long ucast_scast_long ucast_ucast_long)
qed

theorem clumplet_numbers_roundtrip_witness:
  "\<exists>w. insertInt 5 (- 2) (ClumpletWriter_new Tagged 100 1) = Some (Inr w) \<and> getInt (rewind w) = Inr (- 2)"
proof -
  have "\<exists>w. insertInt 5 (- 2) (ClumpletWriter_new Tagged 100 1) = Some (Inr w)"
    by (simp add: insertInt_def ClumpletWriter_new_def initNewBuffer_def blank_writer_def rewind_def insert_without_list insert_plain_def
        getClumpletType_def length_size_def insert_data_def size_add_def adjustSpbState_def)
  then obtain w where w: "insertInt 5 (- 2) (ClumpletWriter_new Tagged 100 1) = Some (Inr w)" ..
  then show ?thesis using clumplet_numbers_roundtrip [of Tagged 100 5 "- 2" 1 w] by auto
qed

section \<open>Lengths that no writer has written\<close>

definition wide_length :: "UCHAR list \<Rightarrow> nat" where
  "wide_length c = ((unat (c ! 4) * 256 + unat (c ! 3)) * 256 + unat (c ! 2)) * 256 + unat (c ! 1)"

lemma byte_le: "unat (b :: UCHAR) \<le> 255"
  using unat_UCHAR_less [of b] by linarith

lemma wide_length_lt: "wide_length c < 2 ^ 32"
  using byte_le [of "c ! 1"] byte_le [of "c ! 2"] byte_le [of "c ! 3"] byte_le [of "c ! 4"]
  by (simp add: wide_length_def)

lemma clumplet_sizes_small:
  assumes "clumplet_sizes t c = Inr (ls, n)" and "t \<noteq> Wide"
  shows "ls \<le> 2 \<and> n \<le> 65535"
  using assms byte_le [of "c ! 1"] byte_le [of "c ! 2"]
  by (cases t) (auto simp: clumplet_sizes_def split: if_splits)

lemma clumplet_sizes_wide:
  "clumplet_sizes Wide c = (if length c < 5 then Inl INVALID_STRUCTURE else Inr (4, wide_length c))"
  by (simp add: clumplet_sizes_def wide_length_def)

lemma no_read_behind: "clumplet_sizes t c \<noteq> Inl READ_BEHIND" "getClumpletType r tag \<noteq> Inl READ_BEHIND"
proof -
  show "clumplet_sizes t c \<noteq> Inl READ_BEHIND" by (cases t) (auto simp: clumplet_sizes_def)
  have "spb_start_type st tag \<noteq> Inl READ_BEHIND" for st by (simp add: spb_start_type_def)
  then show "getClumpletType r tag \<noteq> Inl READ_BEHIND" by (cases "kind r") (simp_all add: getClumpletType_def)
qed

text \<open>C29. The data of a clumplet lies within the buffer, unless it is a wide clumplet whose length is
  one of the five largest 32-bit numbers: its total size wraps to at most 4 and passes the check of
  \<open>getClumpletSize\<close>, and every accessor then reads behind the buffer.\<close>
theorem clumplet_data_read_behind:
  assumes "length (buffer r) < 2 ^ 32"
  shows "clumplet_data r = Inl READ_BEHIND \<longleftrightarrow>
    cur_offset r + 5 \<le> length (buffer r) \<and> getClumpletType r (buffer r ! cur_offset r) = Inr Wide \<and>
    2 ^ 32 - 5 \<le> wide_length (drop (cur_offset r) (buffer r))"
proof (cases "cur_offset r < length (buffer r)")
  case False
  then show ?thesis by (simp add: clumplet_data_def getClumpLength_def getClumpletSize_def)
next
  case lt: True
  let ?c = "drop (cur_offset r) (buffer r)" let ?t = "getClumpletType r (buffer r ! cur_offset r)"
  have c0: "?c ! 0 = buffer r ! cur_offset r" using lt by simp
  show ?thesis
  proof (cases "\<exists>t ls n. ?t = Inr t \<and> clumplet_sizes t ?c = Inr (ls, n)")
    case False
    then have "getClumpLength r = Inl e \<Longrightarrow> e \<noteq> READ_BEHIND" and "getClumpLength r \<noteq> Inr n" for e n
      using lt no_read_behind by (fastforce simp: getClumpLength_def getClumpletSize_def Let_def split: sum.splits)+
    then have "clumplet_data r \<noteq> Inl READ_BEHIND" by (cases "getClumpLength r") (auto simp: clumplet_data_def)
    moreover have "\<not> (cur_offset r + 5 \<le> length (buffer r) \<and> ?t = Inr Wide)"
    proof
      assume wide: "cur_offset r + 5 \<le> length (buffer r) \<and> ?t = Inr Wide"
      then have "\<not> length ?c < 5" unfolding length_drop by linarith
      then have "clumplet_sizes Wide ?c = Inr (4, wide_length ?c)" by (simp only: clumplet_sizes_wide if_False)
      with wide False show False by blast
    qed
    ultimately show ?thesis by blast
  next
    case True
    then obtain t ls n where t: "?t = Inr t" "clumplet_sizes t ?c = Inr (ls, n)" by auto
    have size: "getClumpletSize r wTag wLength wData =
        (if size_add (1 + ls) n > length ?c then Inl INVALID_STRUCTURE
         else Inr (size_add (size_add (if wTag then 1 else 0) (if wLength then ls else 0)) (if wData then n else 0)))"
      for wTag wLength wData
      unfolding getClumpletSize_def Let_def c0 t using lt t(2) by simp
    have ls: "ls \<le> 4" "n < 2 ^ 32"
      using t clumplet_sizes_small [of t ?c ls n] wide_length_lt [of ?c] by (cases "t = Wide"; simp add: clumplet_sizes_wide split: if_splits)+
    have data: "clumplet_data r =
        (if size_add (1 + ls) n > length ?c then Inl INVALID_STRUCTURE
         else if cur_offset r + (1 + ls) + n \<le> length (buffer r) then Inr (take n (drop (cur_offset r + (1 + ls)) (buffer r)))
         else Inl READ_BEHIND)"
      using ls unfolding clumplet_data_def getClumpLength_def getBytes_def size by (simp add: size_add_def)
    show ?thesis
    proof (cases "t = Wide \<and> 2 ^ 32 - 5 \<le> n")
      case True
      then have "ls = 4" "n = wide_length ?c" "5 \<le> length ?c" using t(2) by (auto simp: clumplet_sizes_wide split: if_splits)
      moreover have "size_add (1 + 4) n = n - (2 ^ 32 - 5)" using True ls(2) by (simp add: size_add_def mod_if)
      moreover have "cur_offset r + 5 + n > length (buffer r)" using True assms by simp
      ultimately show ?thesis using data t(1) True ls(2) by auto
    next
      case False
      then have "1 + ls + n < 2 ^ 32"
        using t(2) ls clumplet_sizes_small [OF t(2)] by (cases "t = Wide") (auto simp: clumplet_sizes_wide split: if_splits)
      then have "size_add (1 + ls) n = 1 + ls + n" by (simp add: size_add_def)
      then have "clumplet_data r \<noteq> Inl READ_BEHIND" using data lt by auto
      moreover have "\<not> (?t = Inr Wide \<and> 2 ^ 32 - 5 \<le> wide_length ?c)"
        using False t by (auto simp: clumplet_sizes_wide split: if_splits)
      ultimately show ?thesis by blast
    qed
  qed
qed

theorem clumplet_data_read_behind_witness:
  "clumplet_data \<lparr>kind = WideUnTagged, buffer = [7, 255, 255, 255, 255], cur_offset = 0, spbState = 0\<rparr> = Inl READ_BEHIND"
  by (subst clumplet_data_read_behind) (simp_all add: getClumpletType_def wide_length_def)

text \<open>A reader that does not move on: the search does not end.\<close>

lemma find_loop_stuck:
  assumes "\<not> isEof r" and "getClumpTag r = Inr t" and "t \<noteq> tag" and "moveNext r = Inr r"
  shows "find_loop tag r = None"
proof -
  have "tag' = tag \<Longrightarrow> r' = r \<Longrightarrow> False" if "find_loop tag' r' = Some y" for tag' r' y
    using that
  proof (induction rule: find_loop.raw_induct [rotated, consumes 1, case_names step])
    case (step f tag' r' y)
    then show ?case using assms by simp
  qed
  then show ?thesis by (cases "find_loop tag r") auto
qed

lemma info_loop_stuck:
  assumes "\<not> isEof r" and "getClumpTag r = Inr 7" and "moveNext r = Inr r"
  shows "info_loop r info = None"
proof -
  have "r' = r \<Longrightarrow> False" if "info_loop r' info' = Some y" for r' info' y
    using that
  proof (induction rule: info_loop.raw_induct [rotated, consumes 1, case_names step])
    case (step f r' info' y)
    then show ?case using assms
      by (simp add: set_info_def AUTH_NAME_def AUTH_PLUGIN_def AUTH_TYPE_def AUTH_SECURE_DB_def AUTH_ORIG_PLUG_def)
  qed
  then show ?thesis by (cases "info_loop r info") auto
qed

text \<open>C37. A wide clumplet of the length 4294967291 ends the progress of a reader: its total size wraps to
  0 and passes the check against the end of the buffer, so that \<open>moveNext\<close> stays where it is. A search
  for another tag in these five bytes never returns, and neither does \<open>getInfo\<close> on an authentication
  block that holds them.\<close>
theorem clumplet_wide_length_stuck:
  shows "find_tag 9 (ClumpletReader_new WideUnTagged (Some [7, 251, 255, 255, 255])) = None \<and>
    auth_getInfo (ClumpletReader_new WideUnTagged (Some [0, 5, 0, 0, 0, 7, 251, 255, 255, 255])) = None"
proof
  let ?r = "\<lparr>kind = WideUnTagged, buffer = [7, 251, 255, 255, 255], cur_offset = 0, spbState = 0\<rparr> :: ClumpletReader"
  have new: "rewind ?r = ?r"
    "ClumpletReader_new WideUnTagged (Some [7, 251, 255, 255, 255]) = ?r"
    by (simp_all add: ClumpletReader_new_def rewind_def)
  have eof: "\<not> isEof ?r" by (simp add: isEof_def getBufferLength_def)
  have move: "moveNext ?r = Inr ?r"
    using eof by (simp add: moveNext_def adjustSpbState_def getClumpletSize_def getClumpletType_def clumplet_sizes_def size_add_def)
  have clump: "getClumpTag ?r = Inr 7" by (simp add: getClumpTag_def)
  have "find_loop 9 ?r = None"
    by (rule find_loop_stuck [OF eof _ _ move, of 7]) (simp_all add: getClumpTag_def)
  then show "find_tag 9 (ClumpletReader_new WideUnTagged (Some [7, 251, 255, 255, 255])) = None"
    by (simp only: find_tag_def new option.map)
  have data: "clumplet_data (ClumpletReader_new WideUnTagged (Some [0, 5, 0, 0, 0, 7, 251, 255, 255, 255])) = Inr [7, 251, 255, 255, 255]"
    by (simp add: ClumpletReader_new_def rewind_def clumplet_data_def getClumpLength_def getBytes_def getClumpletSize_def
        getClumpletType_def clumplet_sizes_def size_add_def)
  have "\<not> isEof (ClumpletReader_new WideUnTagged (Some [0, 5, 0, 0, 0, 7, 251, 255, 255, 255]))"
    by (simp add: ClumpletReader_new_def rewind_def isEof_def getBufferLength_def)
  then show "auth_getInfo (ClumpletReader_new WideUnTagged (Some [0, 5, 0, 0, 0, 7, 251, 255, 255, 255])) = None"
    using info_loop_stuck [OF eof clump move] by (simp add: auth_getInfo_def data new)
qed

section \<open>Reset\<close>

text \<open>A writer of a tagged kind cannot be reset to an empty buffer: the buffer is cleared before
  its own tag is asked for, which then reports an empty buffer, although the call without data means
  to start a new block with the old tag.\<close>
theorem clumplet_reset_empty_fails:
  assumes "isTagged w"
  shows "writer_reset_buffer [] w = Inl INVALID_STRUCTURE"
  using assms by (cases "kind w") (simp_all add: isTagged_def writer_reset_buffer_def getBufferTag_def)

theorem clumplet_reset_empty_fails_witness:
  "writer_reset_buffer [] (ClumpletWriter_new Tagged 100 1) = Inl INVALID_STRUCTURE"
  by (rule clumplet_reset_empty_fails)
    (simp add: ClumpletWriter_new_def blank_writer_def initNewBuffer_def rewind_def isTagged_def)

end
