(* ===== verification/FB_Clumplet_Upgrade.thy ===== *)
theory FB_Clumplet_Upgrade
  imports FB_Clumplet_Edit
begin

text \<open>
  The upgrade of a database parameter block from version 1 to the wide version 2, which an insertion
  of more than 255 bytes starts.
\<close>

section \<open>Sizes\<close>

definition clumplet_length :: "Kind \<Rightarrow> SingleClumplet \<Rightarrow> nat" where
  "clumplet_length k c =
     (case type_in k 0 (fst c) of
        Inl _ \<Rightarrow> 0
      | Inr t \<Rightarrow> (case length_size t (length (snd c)) of None \<Rightarrow> 0 | Some ls \<Rightarrow> 1 + ls + length (snd c)))"

definition block_size :: "Kind \<Rightarrow> SingleClumplet list \<Rightarrow> nat" where
  "block_size k cs = sum_list (map (clumplet_length k) cs)"

lemma block_size_simps [simp]:
  "block_size k [] = 0" "block_size k (c # cs) = clumplet_length k c + block_size k cs"
  "block_size k (cs @ ds) = block_size k cs + block_size k ds"
  by (simp_all add: block_size_def)

lemma encodes_block_size:
  assumes "k \<noteq> SpbStart"
  shows "encodes k 0 cs bs \<Longrightarrow> length bs = block_size k cs \<and> (\<forall>c \<in> set cs. 0 < clumplet_length k c)"
proof (induction cs arbitrary: bs)
  case (Cons c cs)
  obtain tag d where c: "c = (tag, d)" by (cases c)
  obtain t ls bs' where t: "type_in k 0 tag = Inr t" "length_size t (length d) = Some ls"
    and bs: "bs = tag # length_bytes ls (length d) @ d @ bs'" and rest: "encodes k (next_state k 0 tag (ls + length d)) cs bs'"
    using Cons.prems by (auto simp: c)
  have "encodes k 0 cs bs'" using rest encodes_stateless [OF assms] by blast
  from Cons.IH [OF this] show ?case using t by (auto simp: c bs clumplet_length_def)
qed simp

lemma encodes_split:
  assumes "k \<noteq> SpbStart"
  shows "encodes k 0 (cs @ ds) bs \<Longrightarrow> \<exists>bs1 bs2. bs = bs1 @ bs2 \<and> encodes k 0 cs bs1 \<and> encodes k 0 ds bs2"
proof (induction cs arbitrary: bs)
  case (Cons c cs)
  obtain tag d where c: "c = (tag, d)" by (cases c)
  have st: "next_state k 0 tag n = 0" for n using assms by (simp add: next_state_def)
  obtain t ls bs' where t: "type_in k 0 tag = Inr t" "length_size t (length d) = Some ls"
    and bs: "bs = tag # length_bytes ls (length d) @ d @ bs'" and rest: "encodes k 0 (cs @ ds) bs'"
    using Cons.prems by (auto simp: c st)
  obtain bs1 bs2 where "bs' = bs1 @ bs2" "encodes k 0 cs bs1" "encodes k 0 ds bs2" using Cons.IH [OF rest] by blast
  then show ?case
    by (intro exI [of _ "tag # length_bytes ls (length d) @ d @ bs1"] exI [of _ bs2]) (use t bs in \<open>simp add: c st\<close>)
qed simp

lemma positioned_offset:
  assumes "positioned r hdr pre cs" and "kind r \<noteq> SpbStart"
  shows "cur_offset r = length hdr + block_size (kind r) pre \<and> (\<forall>c \<in> set (pre @ cs). 0 < clumplet_length (kind r) c)"
proof -
  obtain bs1 bs2 where "cur_offset r = length (hdr @ bs1)" "encodes (kind r) 0 pre bs1" "encodes (kind r) 0 cs bs2"
    using assms(1) unfolding positioned_stateless [OF assms(2)] by blast
  then show ?thesis using encodes_block_size [OF assms(2)] by fastforce
qed

lemma appending_size:
  assumes "appending w tag cs" and "kind w \<noteq> SpbStart"
  shows "length (buffer w) = length (header (kind w) tag) + block_size (kind w) cs \<and> cur_offset w = length (buffer w)"
  using assms(1) encodes_block_size [OF assms(2)] by (auto elim!: appending_buffer)

lemma wide_length_size: "n < 2 ^ 32 \<Longrightarrow> length_size Wide n = Some 4"
  by (simp add: length_size_def)

lemma type_in_wide: "type_in WideTagged st tag = Inr Wide"
  by (simp add: type_in_def getClumpletType_def)

section \<open>The copy\<close>

definition wide_copy :: "ClumpletWriter \<Rightarrow> SingleClumplet list \<Rightarrow> SingleClumplet list \<Rightarrow> bool" where
  "wide_copy p cs todo \<longleftrightarrow>
     appending p 2 cs \<and> kind p = WideTagged \<and> kindList p = None \<and>
     1 + block_size WideTagged (cs @ todo) \<le> sizeLimit p \<and> sizeLimit p < 2 ^ 32 - 5 \<and>
     (\<forall>c \<in> set todo. length (snd c) < 2 ^ 32)"

lemma wide_copy_insert:
  assumes "wide_copy p cs (c # todo)"
  shows "\<exists>p'. insert_plain (fst c) (snd c) p = Inr p' \<and> wide_copy p' (cs @ [c]) todo \<and> isEof p' \<and> sizeLimit p' = sizeLimit p"
proof -
  obtain tag d where c: "c = (tag, d)" by (cases c)
  have app: "appending p 2 cs" and k: "kind p = WideTagged" and kl: "kindList p = None"
    and fits: "1 + block_size WideTagged (cs @ c # todo) \<le> sizeLimit p" and lim: "sizeLimit p < 2 ^ 32 - 5"
    and len: "length d < 2 ^ 32"
    using assms by (auto simp: wide_copy_def c)
  have ls: "length_size Wide (length d) = Some 4" by (rule wide_length_size [OF len])
  have cl: "clumplet_length WideTagged c = 5 + length d" using ls by (simp add: clumplet_length_def type_in_wide c)
  have "length (buffer p) = 1 + block_size WideTagged cs" using appending_size [OF app] k by (simp add: header_def)
  then have "length (buffer p) + length d + 4 + 1 \<le> sizeLimit p" using fits cl by simp
  then obtain p' where p': "insert_plain tag d p = Inr p'" "appending p' 2 (cs @ [(tag, d)])" "kind p' = kind p"
      "sizeLimit p' = sizeLimit p" "kindList p' = kindList p"
    using insert_plain_append [OF app _ ls _ lim, of tag] k type_in_wide by auto
  moreover have "isEof p'" using p'(2) at_clumplets_eof positioned_at unfolding appending_def by blast
  moreover have "wide_copy p' (cs @ [c]) todo" using p' k kl fits lim assms by (simp add: wide_copy_def c)
  ultimately show ?thesis by (simp add: c)
qed

lemma copy_loop_step:
  assumes pos: "positioned w hdr don (c # todo)" and k: "kind w \<noteq> SpbStart" and copy: "wide_copy p don (c # todo)"
  shows "\<exists>w' p'. copy_loop cp np w p = copy_loop cp (if cp = cur_offset w then cur_offset p else np) w' p' \<and>
    positioned w' hdr (don @ [c]) todo \<and> wide_copy p' (don @ [c]) todo \<and> kind w' = kind w \<and> sizeLimit p' = sizeLimit p \<and>
    ClumpletReader.more w' = ClumpletReader.more w"
proof -
  obtain tag d where c: "c = (tag, d)" by (cases c)
  have at: "at_clumplets w ((tag, d) # todo)" using positioned_at [OF pos] by (simp add: c)
  have eof: "\<not> isEof w" using at_clumplets_eof [OF at] by simp
  have clump: "getClumplet w = Inr c" using at_clumplet_data(3) [OF at] by (simp add: c)
  obtain w' where w': "moveNext w = Inr w'" "positioned w' hdr (don @ [c]) todo" "kind w' = kind w" "ClumpletReader.more w' = ClumpletReader.more w"
    using positioned_moveNext [of w hdr don tag d todo] pos by (auto simp: c)
  obtain p' where p': "insert_plain (fst c) (snd c) p = Inr p'" "wide_copy p' (don @ [c]) todo" "isEof p'" "sizeLimit p' = sizeLimit p"
    using wide_copy_insert [OF copy] by blast
  have "moveNext p' = Inr p'" using p'(3) by (simp add: moveNext_def)
  then have "copy_loop cp np w p = copy_loop cp (if cp = cur_offset w then cur_offset p else np) w' p'"
    using eof clump w'(1) p'(1) by (subst copy_loop.simps) (simp add: Let_def)
  then show ?thesis using w' p' by blast
qed

lemma copy_loop_past:
  assumes "positioned w hdr don todo" and "kind w \<noteq> SpbStart" and "wide_copy p don todo" and "cp < cur_offset w \<or> todo = []"
  shows "\<exists>w' p'. copy_loop cp np w p = Some (Inr (np, w', p')) \<and> positioned w' hdr (don @ todo) [] \<and>
    wide_copy p' (don @ todo) [] \<and> kind w' = kind w \<and> sizeLimit p' = sizeLimit p \<and> ClumpletReader.more w' = ClumpletReader.more w"
  using assms
proof (induction todo arbitrary: w p don)
  case Nil
  have "isEof w" using at_clumplets_eof [OF positioned_at [OF Nil(1)]] by simp
  then show ?case using Nil by (subst copy_loop.simps) simp
next
  case (Cons c todo)
  obtain w1 p1 where s: "copy_loop cp np w p = copy_loop cp (if cp = cur_offset w then cur_offset p else np) w1 p1"
    "positioned w1 hdr (don @ [c]) todo" "wide_copy p1 (don @ [c]) todo" "kind w1 = kind w" "sizeLimit p1 = sizeLimit p"
    "ClumpletReader.more w1 = ClumpletReader.more w"
    using copy_loop_step [OF Cons.prems(1-3)] by blast
  have "cur_offset w < cur_offset w1"
    using positioned_offset [OF Cons.prems(1,2)] positioned_offset [OF s(2)] s(4) Cons.prems(2) by simp
  then have cp: "cp < cur_offset w1" "cp \<noteq> cur_offset w" using Cons.prems(4) by auto
  have "kind w1 \<noteq> SpbStart" using s(4) Cons.prems(2) by simp
  from Cons.IH [OF s(2) this s(3)] obtain w' p' where
    "copy_loop cp np w1 p1 = Some (Inr (np, w', p'))" "positioned w' hdr ((don @ [c]) @ todo) []" "wide_copy p' ((don @ [c]) @ todo) []"
    "kind w' = kind w1" "sizeLimit p' = sizeLimit p1" "ClumpletReader.more w' = ClumpletReader.more w1"
    using cp(1) by blast
  then show ?case using s cp(2) by simp
qed

lemma copy_loop_all:
  assumes "positioned w hdr don (xs @ ys)" and "kind w \<noteq> SpbStart" and "wide_copy p don (xs @ ys)"
    and "cp = length hdr + block_size (kind w) (don @ xs)"
  shows "\<exists>w' p'. copy_loop cp np w p = Some (Inr (if ys = [] then np else 1 + block_size WideTagged (don @ xs), w', p')) \<and>
    positioned w' hdr (don @ xs @ ys) [] \<and> wide_copy p' (don @ xs @ ys) [] \<and> kind w' = kind w \<and> sizeLimit p' = sizeLimit p \<and>
    ClumpletReader.more w' = ClumpletReader.more w"
  using assms
proof (induction xs arbitrary: w p don)
  case Nil
  note pos = Nil.prems(1) [unfolded append_Nil] and copy = Nil.prems(3) [unfolded append_Nil] and cp0 = Nil.prems(4)
  show ?case
  proof (cases ys)
    case Nil
    then show ?thesis using copy_loop_past [OF pos \<open>kind w \<noteq> SpbStart\<close> copy, of cp np] by simp
  next
    case (Cons c todo)
    have cp: "cp = cur_offset w" using positioned_offset [OF pos \<open>kind w \<noteq> SpbStart\<close>] cp0 by simp
    obtain w1 p1 where s: "copy_loop cp np w p = copy_loop cp (if cp = cur_offset w then cur_offset p else np) w1 p1"
      "positioned w1 hdr (don @ [c]) todo" "wide_copy p1 (don @ [c]) todo" "kind w1 = kind w" "sizeLimit p1 = sizeLimit p"
      "ClumpletReader.more w1 = ClumpletReader.more w"
      using copy_loop_step [OF pos [unfolded Cons] \<open>kind w \<noteq> SpbStart\<close> copy [unfolded Cons]] by blast
    have "cur_offset w < cur_offset w1"
      using positioned_offset [OF pos \<open>kind w \<noteq> SpbStart\<close>] positioned_offset [OF s(2)] s(4) \<open>kind w \<noteq> SpbStart\<close> Cons by simp
    moreover have "kind w1 \<noteq> SpbStart" using s(4) \<open>kind w \<noteq> SpbStart\<close> by simp
    ultimately obtain w' p' where
      "copy_loop cp (cur_offset p) w1 p1 = Some (Inr (cur_offset p, w', p'))" "positioned w' hdr ((don @ [c]) @ todo) []"
      "wide_copy p' ((don @ [c]) @ todo) []" "kind w' = kind w1" "sizeLimit p' = sizeLimit p1" "ClumpletReader.more w' = ClumpletReader.more w1"
      using copy_loop_past [OF s(2) _ s(3), of cp "cur_offset p"] cp by auto
    moreover have "cur_offset p = 1 + block_size WideTagged don"
    proof -
      have "appending p 2 don" "kind p = WideTagged" using copy by (simp_all add: wide_copy_def)
      then show ?thesis using appending_size [of p 2 don] by (simp add: header_def)
    qed
    ultimately show ?thesis using s cp Cons by simp
  qed
next
  case (Cons x xs)
  note pos = Cons.prems(1) [unfolded append_Cons] and copy = Cons.prems(3) [unfolded append_Cons] and k = Cons.prems(2)
  obtain w1 p1 where s: "copy_loop cp np w p = copy_loop cp (if cp = cur_offset w then cur_offset p else np) w1 p1"
    "positioned w1 hdr (don @ [x]) (xs @ ys)" "wide_copy p1 (don @ [x]) (xs @ ys)" "kind w1 = kind w" "sizeLimit p1 = sizeLimit p"
    "ClumpletReader.more w1 = ClumpletReader.more w"
    using copy_loop_step [OF pos k copy] by blast
  have "cp \<noteq> cur_offset w" using positioned_offset [OF pos k] Cons.prems(4) by simp
  moreover have "\<exists>w' p'. copy_loop cp np w1 p1 = Some (Inr (if ys = [] then np else 1 + block_size WideTagged ((don @ [x]) @ xs), w', p')) \<and>
    positioned w' hdr ((don @ [x]) @ xs @ ys) [] \<and> wide_copy p' ((don @ [x]) @ xs @ ys) [] \<and> kind w' = kind w1 \<and> sizeLimit p' = sizeLimit p1 \<and>
    ClumpletReader.more w' = ClumpletReader.more w1"
    by (rule Cons.IH [OF s(2) _ s(3)]) (use s(4) k Cons.prems(4) in simp_all)
  ultimately have run: "\<exists>w' p'. copy_loop cp np w p = Some (Inr (if ys = [] then np else 1 + block_size WideTagged ((don @ [x]) @ xs), w', p')) \<and>
    positioned w' hdr ((don @ [x]) @ xs @ ys) [] \<and> wide_copy p' ((don @ [x]) @ xs @ ys) [] \<and> kind w' = kind w \<and> sizeLimit p' = sizeLimit p \<and>
    ClumpletReader.more w' = ClumpletReader.more w"
    unfolding s(1,4-6) by (simp only: if_False)
  have app: "(don @ [x]) @ zs = don @ (x # zs)" for zs by simp
  show ?case using run unfolding app append_Cons .
qed

section \<open>The upgrade\<close>

lemma newest_dpb: "newest_version dpbList (hd dpbList) = (WideTagged, isc_dpb_version2)"
  by (simp add: dpbList_def)

lemma wide_copy_new:
  assumes "1 + block_size WideTagged todo \<le> limit" and "limit < 2 ^ 32 - 5" and "\<forall>c \<in> set todo. length (snd c) < 2 ^ 32"
  shows "wide_copy (ClumpletWriter_new WideTagged limit 2) [] todo"
  using assms appending_new [of WideTagged limit 2]
  by (simp add: wide_copy_def ClumpletWriter_new_def blank_writer_def initNewBuffer_def rewind_def)

text \<open>A version 1 writer between the clumplets \<open>pre\<close> and \<open>post\<close>: the copy has both, and stands
  between them unless \<open>post\<close> is empty; then it stands at the start.\<close>

lemma upgradeVersion_dpb:
  assumes pos: "positioned w [isc_dpb_version1] pre post" and k: "kind w = Tagged" and kl: "kindList w = Some dpbList"
    and ne: "pre @ post \<noteq> []"
    and fits: "1 + block_size WideTagged (pre @ post) \<le> sizeLimit w" and lim: "sizeLimit w < 2 ^ 32 - 5"
  shows "\<exists>w'. upgradeVersion w = Some (Inr (True, w')) \<and> kind w' = WideTagged \<and> sizeLimit w' = sizeLimit w \<and>
    positioned w' [isc_dpb_version2] (if post = [] then [] else pre) (if post = [] then pre else post) \<and>
    length (buffer w') = 1 + block_size WideTagged (pre @ post)"
proof -
  have k': "kind w \<noteq> SpbStart" using k by simp
  obtain bs where buf: "buffer w = [1] @ bs" and enc: "encodes Tagged 0 (pre @ post) bs" and len: "length (buffer w) < 2 ^ 32 - 5"
    using positioned_buffer [OF pos k'] k by auto
  have "bs \<noteq> []" using enc ne by (cases "pre @ post") (auto simp: neq_Nil_conv)
  then have tag: "getBufferLength w \<noteq> 0" "getBufferTag w = Inr 1" by (auto simp: getBufferLength_def getBufferTag_def buf k)
  define w0 where "w0 = rewind w"
  have w0: "kind w0 = Tagged" "ClumpletReader.more w0 = ClumpletReader.more w" "buffer w0 = buffer w"
    by (simp_all add: w0_def rewind_def k)
  have pos0: "positioned w0 [1] [] (pre @ post)"
    using positioned_rewind [of w 1 bs "pre @ post"] buf enc len k by (simp add: w0_def header_def)
  have small: "\<forall>c \<in> set (pre @ post). length (snd c) < 2 ^ 32"
  proof
    fix c assume "c \<in> set (pre @ post)"
    then have "0 < clumplet_length Tagged c" using encodes_block_size [OF _ enc] by simp
    then show "length (snd c) < 2 ^ 32"
      by (auto simp: clumplet_length_def type_in_def getClumpletType_def length_size_def split: if_splits)
  qed
  have copy: "wide_copy (ClumpletWriter_new WideTagged (sizeLimit w) 2) [] (pre @ post)" by (rule wide_copy_new [OF fits lim small])
  have cp: "cur_offset w = length [1 :: UCHAR] + block_size (kind w0) ([] @ pre)"
    using positioned_offset [OF pos k'] by (simp add: k w0)
  obtain w1 p where loop: "copy_loop (cur_offset w) 0 w0 (ClumpletWriter_new WideTagged (sizeLimit w) 2) =
      Some (Inr (if post = [] then 0 else 1 + block_size WideTagged ([] @ pre), w1, p))"
    and pos1: "positioned w1 [1] ([] @ pre @ post) []" and copy1: "wide_copy p ([] @ pre @ post) []" and w1: "kind w1 = kind w0"
      "ClumpletReader.more w1 = ClumpletReader.more w0"
    using copy_loop_all [OF pos0 _ copy cp, of 0] w0(1) by auto
  define w' where "w' = (let w2 = w1\<lparr>kind := WideTagged, buffer := buffer p\<rparr>
    in if post \<noteq> [] then w2\<lparr>cur_offset := 1 + block_size WideTagged pre\<rparr> else rewind w2)"
  have nle: "((2 :: UCHAR) \<le> 1) = False" by (simp add: word_le_nat_alt)
  have up: "upgradeVersion w = Some (Inr (True, w'))"
    using loop tag nle by (simp add: upgradeVersion_def kl newest_dpb w0_def [symmetric] w'_def Let_def)
  have p: "appending p 2 (pre @ post)" "kind p = WideTagged" using copy1 by (simp_all add: wide_copy_def)
  obtain bs2 where bs2: "buffer p = [2] @ bs2" "encodes WideTagged 0 (pre @ post) bs2"
    using p by (auto elim!: appending_buffer simp: header_def)
  have lenp: "length (buffer p) = 1 + block_size WideTagged (pre @ post)"
    using appending_size [OF p(1)] p(2) by (simp add: header_def)
  have lim': "length (buffer p) < 2 ^ 32 - 5" using lenp fits lim by simp
  have st: "spbState w1 = 0" using pos1 w1 w0 by (simp add: positioned_stateless)
  have more: "ClumpletReader.more w' = ClumpletReader.more w" by (simp add: w'_def Let_def rewind_def w1 w0)
  have w'k: "kind w' = WideTagged" "buffer w' = buffer p" "spbState w' = 0" by (simp_all add: w'_def Let_def rewind_def st)
  have "positioned w' [2] (if post = [] then [] else pre) (if post = [] then pre else post)"
  proof (cases "post = []")
    case True
    have "positioned (rewind (w1\<lparr>kind := WideTagged, buffer := buffer p\<rparr>)) (header WideTagged 2) [] pre"
      using positioned_rewind [of "w1\<lparr>kind := WideTagged, buffer := buffer p\<rparr>" 2 bs2 pre] bs2 lim' True by (simp add: header_def)
    then show ?thesis using True by (simp add: w'_def Let_def header_def)
  next
    case False
    obtain b1 b2 where b: "bs2 = b1 @ b2" "encodes WideTagged 0 pre b1" "encodes WideTagged 0 post b2"
      using encodes_split [OF _ bs2(2)] by auto
    have "length b1 = block_size WideTagged pre" using encodes_block_size [OF _ b(2)] by simp
    then have off: "cur_offset w' = length ([2] @ b1)" using False by (simp add: w'_def Let_def)
    have "positioned w' [2] pre post"
      unfolding positioned_stateless [of w', unfolded w'k(1), simplified] w'k
      using b off bs2 lim' by auto
    then show ?thesis using False by simp
  qed
  then show ?thesis using up w'k lenp more by (cases w; cases w') auto
qed

section \<open>Insertion in the middle\<close>

lemma insert_data_positioned:
  assumes pos: "positioned w hdr pre post" and k: "kind w \<noteq> SpbStart"
    and t: "type_in (kind w) 0 tag = Inr t" "length_size t (length d) = Some ls"
    and fits: "length (buffer w) + length d + ls + 1 \<le> sizeLimit w" and lim: "sizeLimit w < 2 ^ 32 - 5"
  shows "\<exists>w'. insert_data tag d ls w = Inr w' \<and> positioned w' hdr (pre @ [(tag, d)]) post \<and> kind w' = kind w"
proof -
  obtain bs1 bs2 where b: "buffer w = hdr @ bs1 @ bs2" "cur_offset w = length (hdr @ bs1)" "encodes (kind w) 0 pre bs1"
      "encodes (kind w) 0 post bs2"
    and rest: "spbState w = 0" "kind w \<in> {UnTagged, SpbStart, WideUnTagged, SpbSendItems, SpbReceiveItems} \<or> hdr \<noteq> []"
    using pos unfolding positioned_stateless [OF k] by blast
  let ?e = "tag # length_bytes ls (length d) @ d"
  define w' where "w' = w\<lparr>buffer := hdr @ bs1 @ ?e @ bs2, cur_offset := length (hdr @ bs1 @ ?e)\<rparr>"
  have size: "size_add (size_add (size_add (length (buffer w)) (length d)) ls) 1 = length (buffer w) + length d + ls + 1"
    using fits lim by (simp add: size_add_def)
  have "adjustSpbState (w\<lparr>buffer := hdr @ bs1 @ ?e @ bs2\<rparr>) = Inr (w\<lparr>buffer := hdr @ bs1 @ ?e @ bs2\<rparr>)"
    using k by (simp add: adjustSpbState_def)
  then have "insert_data tag d ls w = Inr w'"
    using size fits b(1,2) by (simp add: insert_data_def Let_def w'_def length_bytes_def [symmetric])
  moreover have "positioned w' hdr (pre @ [(tag, d)]) post"
  proof -
    have w': "kind w' = kind w" "spbState w' = 0" "buffer w' = hdr @ (bs1 @ ?e) @ bs2" "cur_offset w' = length (hdr @ bs1 @ ?e)"
      using rest by (simp_all add: w'_def)
    have "encodes (kind w) 0 (pre @ [(tag, d)]) (bs1 @ ?e)"
      by (rule encodes_append [OF b(3)]) (use t in \<open>simp add: end_state_stateless [OF k]\<close>)
    moreover have "length (buffer w') < 2 ^ 32 - 5" using fits lim by (simp add: w'_def b(1))
    ultimately show ?thesis
      unfolding positioned_stateless [of w', unfolded w'(1), OF k] w'(1,2) using w'(3,4) b(4) rest(2) by blast
  qed
  ultimately show ?thesis by (simp add: w'_def)
qed

lemma positioned_reads:
  assumes "positioned w (header (kind w) tag0) pre post" and "kind w \<notin> {SpbStart, EndOfList}"
  shows "reads (ClumpletReader_new (kind w) (Some (buffer w))) (pre @ post)"
  using positioned_buffer [OF assms(1)] assms(2) reads_encoded [of "kind w" "pre @ post" _ tag0] by auto

text \<open>C19. Data of more than 255 bytes inserted into a version 1 database parameter block: the writer
  upgrades itself to the wide version 2 and every clumplet is still there. Between two clumplets the
  new one goes where the writer stood; but at the end of the block the upgrade loses the position, and
  the new clumplet becomes the first one.\<close>
theorem dpb_upgrade_insertion:
  assumes "positioned w [isc_dpb_version1] pre post" and "kind w = Tagged" and "kindList w = Some dpbList" and "pre @ post \<noteq> []"
    and "255 < length d" and "6 + block_size WideTagged (pre @ post) + length d \<le> sizeLimit w" and "sizeLimit w < 2 ^ 32 - 5"
  shows "\<exists>w'. insertBytesLengthCheck tag d w = Some (Inr w') \<and> kind w' = WideTagged \<and>
    reads (ClumpletReader_new WideTagged (Some (buffer w')))
      (if post = [] then (tag, d) # pre else pre @ (tag, d) # post)"
proof -
  let ?pre = "if post = [] then [] else pre" and ?post = "if post = [] then pre else post"
  have "1 + block_size WideTagged (pre @ post) \<le> sizeLimit w" using assms(6) by simp
  from upgradeVersion_dpb [OF assms(1-4) this assms(7)] obtain w1 where
    up: "upgradeVersion w = Some (Inr (True, w1))" and w1: "kind w1 = WideTagged" "sizeLimit w1 = sizeLimit w"
    and pos: "positioned w1 [2] ?pre ?post" and len: "length (buffer w1) = 1 + block_size WideTagged (pre @ post)" by blast
  have ls: "length_size Wide (length d) = Some 4" using assms(6,7) by (intro wide_length_size) simp
  have type: "getClumpletType w tag = Inr TraditionalDpb" "getClumpletType w1 tag = Inr Wide" by (simp_all add: getClumpletType_def assms(2) w1)
  have "length_size TraditionalDpb (length d) = None" using assms(5) by (simp add: length_size_def)
  then have "check_length tag (length d) w = check_length tag (length d) w1" using type up by (subst check_length.simps) simp
  also have "\<dots> = Some (Inr (4, w1))" using type ls by (subst check_length.simps) simp
  finally have check: "check_length tag (length d) w = Some (Inr (4, w1))" .
  have "cur_offset w \<le> length (buffer w)" using positioned_at [OF assms(1)] by (simp add: at_clumplets_def)
  then have ins: "insertBytesLengthCheck tag d w = Some (insert_data tag d 4 w1)"
    using check by (simp add: insertBytesLengthCheck_def)
  have "\<exists>w'. insert_data tag d 4 w1 = Inr w' \<and> positioned w' [2] (?pre @ [(tag, d)]) ?post \<and> kind w' = kind w1"
    by (rule insert_data_positioned [OF pos _ _ ls]) (use w1 assms(6,7) len in \<open>auto simp: type_in_wide\<close>)
  then obtain w' where w': "insert_data tag d 4 w1 = Inr w'" "positioned w' [2] (?pre @ [(tag, d)]) ?post" "kind w' = WideTagged"
    using w1 by auto
  have "reads (ClumpletReader_new (kind w') (Some (buffer w'))) ((?pre @ [(tag, d)]) @ ?post)"
    by (rule positioned_reads [of _ 2]) (use w' in \<open>simp_all add: header_def\<close>)
  then show ?thesis using ins w' by (cases "post = []") auto
qed

theorem dpb_upgrade_insertion_witness:
  "\<exists>w w'. positioned w [isc_dpb_version1] [(7, [9])] [] \<and> insertBytesLengthCheck 8 (replicate 300 1) w = Some (Inr w') \<and>
     reads (ClumpletReader_new WideTagged (Some (buffer w'))) [(8, replicate 300 1), (7, [9])]"
proof -
  define w where "w = \<lparr>kind = Tagged, buffer = [1, 7, 1, 9], cur_offset = 4, spbState = 0, sizeLimit = 1000, kindList = Some dpbList\<rparr>"
  have "encodes Tagged 0 [(7, [9])] [7, 1, 9]"
    using vax_bytes(1) [of 1] by (simp add: type_in_def getClumpletType_def length_size_def)
  then have pos: "positioned w [isc_dpb_version1] [(7, [9])] []"
    unfolding positioned_stateless [of w, unfolded w_def, simplified] by (auto simp: w_def positioned_stateless intro!: exI [of _ "[7, 1, 9]"])
  have "\<exists>w'. insertBytesLengthCheck 8 (replicate 300 1) w = Some (Inr w') \<and> kind w' = WideTagged \<and>
    reads (ClumpletReader_new WideTagged (Some (buffer w')))
      (if [] = ([] :: SingleClumplet list) then (8, replicate 300 1) # [(7, [9])] else [(7, [9])] @ (8, replicate 300 1) # [])"
    by (rule dpb_upgrade_insertion [OF pos])
      (simp_all add: w_def clumplet_length_def type_in_wide length_size_def)
  then show ?thesis using pos by auto
qed

end
