(* ===== verification/FB_Btn.thy ===== *)
theory FB_Btn
  imports FB_Array FB_RecordNumber
begin

text \<open>
  The nodes of index pages (\<^verbatim>\<open>src/jrd/btn.h\<close>, \<^verbatim>\<open>src/jrd/btn.cpp\<close>): index nodes with a compressed prefix
  and numbers of variable length, and jump nodes. A page is the list of its bytes, a pointer into it an
  offset; an access outside of the page is \<open>None\<close>. The nested conditions that read or write the
  seven-bit groups of a number are the recursion over their number.
\<close>

section \<open>Nodes\<close>

abbreviation (input) BTN_NORMAL_FLAG :: UCHAR where "BTN_NORMAL_FLAG \<equiv> 0"
abbreviation (input) BTN_END_LEVEL_FLAG :: UCHAR where "BTN_END_LEVEL_FLAG \<equiv> 1"
abbreviation (input) BTN_END_BUCKET_FLAG :: UCHAR where "BTN_END_BUCKET_FLAG \<equiv> 2"
abbreviation (input) BTN_ZERO_PREFIX_ZERO_LENGTH_FLAG :: UCHAR where "BTN_ZERO_PREFIX_ZERO_LENGTH_FLAG \<equiv> 3"
abbreviation (input) BTN_ZERO_LENGTH_FLAG :: UCHAR where "BTN_ZERO_LENGTH_FLAG \<equiv> 4"
abbreviation (input) BTN_ONE_LENGTH_FLAG :: UCHAR where "BTN_ONE_LENGTH_FLAG \<equiv> 5"

text \<open>The data of a node is in the same page or in a buffer of the caller.\<close>

datatype data_pointer = InPage nat | Outside "UCHAR list"

record IndexNode =
  nodePointer :: nat
  node_prefix :: USHORT
  node_length :: USHORT
  node_pageNumber :: ULONG
  node_data :: data_pointer
  node_recordNumber :: RecordNumber
  node_isEndBucket :: bool
  node_isEndLevel :: bool

definition data_bytes :: "UCHAR list \<Rightarrow> data_pointer \<Rightarrow> nat \<Rightarrow> UCHAR list option" where
  "data_bytes page p n = (case p of InPage d \<Rightarrow> mem_read page d n | Outside bs \<Rightarrow> mem_read bs 0 n)"

definition setEndBucket :: "IndexNode \<Rightarrow> IndexNode" where
  "setEndBucket n = n\<lparr>node_isEndBucket := True, node_isEndLevel := False\<rparr>"

definition setEndLevel :: "IndexNode \<Rightarrow> IndexNode" where
  "setEndLevel n =
     n\<lparr>node_isEndBucket := False, node_isEndLevel := True, node_prefix := 0, node_length := 0, node_pageNumber := 0,
       node_recordNumber := rn_setValue (node_recordNumber n) 0\<rparr>"

definition setNode ::
  "USHORT \<Rightarrow> USHORT \<Rightarrow> RecordNumber \<Rightarrow> ULONG \<Rightarrow> bool \<Rightarrow> bool \<Rightarrow> IndexNode \<Rightarrow> IndexNode" where
  "setNode prefix' length' recordNumber pageNumber isEndBucket isEndLevel n =
     n\<lparr>node_isEndBucket := isEndBucket, node_isEndLevel := isEndLevel, node_prefix := prefix', node_length := length',
       node_recordNumber := rn_assign (node_recordNumber n) recordNumber, node_pageNumber := pageNumber\<rparr>"

definition keyEqual :: "UCHAR list \<Rightarrow> IndexNode \<Rightarrow> USHORT \<Rightarrow> UCHAR list \<Rightarrow> bool option" where
  "keyEqual page n len key =
     (if unat len \<noteq> unat (node_length n) + unat (node_prefix n) then Some False
      else if node_length n = 0 then Some True
      else do {
        bs \<leftarrow> data_bytes page (node_data n) (unat (node_length n));
        ks \<leftarrow> mem_read key (unat (node_prefix n)) (unat (node_length n));
        Some (bs = ks)
      })"

text \<open>\<open>p - prevString\<close> counts the turns of the loop, at most \<open>l\<close>.\<close>

fun prefix_loop :: "nat \<Rightarrow> UCHAR list \<Rightarrow> UCHAR list \<Rightarrow> nat" where
  "prefix_loop (Suc l) (p # ps) (s # ss) = (if p = s then (if l = 0 then 1 else 1 + prefix_loop l ps ss) else 0)"
| "prefix_loop l ps ss = 0"

definition computePrefix :: "UCHAR list \<Rightarrow> UCHAR list \<Rightarrow> USHORT" where
  "computePrefix prev str =
     (let l = min (length prev) (length str) in if l = 0 then 0 else of_nat (prefix_loop l prev str))"

section \<open>Numbers\<close>

text \<open>
  \<open>put_limited m k\<close> writes at most \<open>k\<close> groups of seven bits with the continuation bit, and then the
  bits of \<open>m\<close>; \<open>put_unlimited k\<close> writes at most \<open>k\<close> groups and drops a last group that is not the end
  of the number.
\<close>

fun put_limited :: "SINT64 \<Rightarrow> nat \<Rightarrow> SINT64 \<Rightarrow> UCHAR list" where
  "put_limited m 0 number = [ucast (number AND m)]"
| "put_limited m (Suc k) number =
     (let tmp = ucast (number AND 0x7F); rest = signed_drop_bit 7 number
      in if 0 < sint rest then (tmp OR 0x80) # put_limited m k rest else [tmp])"

fun put_unlimited :: "nat \<Rightarrow> SINT64 \<Rightarrow> UCHAR list" where
  "put_unlimited 0 number = []"
| "put_unlimited (Suc k) number =
     (let tmp = ucast (number AND 0x7F); rest = signed_drop_bit 7 number
      in if rest = 0 then [tmp] else if k = 0 then [] else (tmp OR 0x80) # put_unlimited k rest)"

definition get_byte :: "UCHAR list \<Rightarrow> nat \<Rightarrow> UCHAR option" where
  "get_byte page pos = (if pos < length page then Some (page ! pos) else None)"

fun get_number :: "UCHAR \<Rightarrow> nat \<Rightarrow> nat \<Rightarrow> UCHAR list \<Rightarrow> nat \<Rightarrow> SINT64 \<Rightarrow> (SINT64 \<times> nat) option" where
  "get_number m 0 shift page pos number =
     do { tmp \<leftarrow> get_byte page pos; Some (number OR push_bit shift (ucast (tmp AND m)), pos + 1) }"
| "get_number m (Suc k) shift page pos number =
     do {
       tmp \<leftarrow> get_byte page pos;
       let number' = number OR push_bit shift (ucast (tmp AND 0x7F));
       if tmp \<ge> 128 then get_number m k (shift + 7) page (pos + 1) number' else Some (number', pos + 1)
     }"

section \<open>Writing\<close>

definition internalFlags :: "IndexNode \<Rightarrow> UCHAR" where
  "internalFlags n =
     (if node_isEndLevel n then BTN_END_LEVEL_FLAG
      else if node_isEndBucket n then BTN_END_BUCKET_FLAG
      else if node_length n = 0 then
        (if node_prefix n = 0 then BTN_ZERO_PREFIX_ZERO_LENGTH_FLAG else BTN_ZERO_LENGTH_FLAG)
      else if node_length n = 1 then BTN_ONE_LENGTH_FLAG
      else BTN_NORMAL_FLAG)"

definition stored_number :: "IndexNode \<Rightarrow> SINT64" where
  "stored_number n = (let number = rn_value (node_recordNumber n) in if sint number < 0 then 0 else number)"

definition record_number_size :: "SINT64 \<Rightarrow> nat" where
  "record_number_size number =
     (if number AND 0xFFF0000000 \<noteq> 0 then 5
      else if number AND 0xFFFFE00000 \<noteq> 0 then 4
      else if number AND 0xFFFFFFC000 \<noteq> 0 then 3
      else if number AND 0xFFFFFFFF80 \<noteq> 0 then 2
      else 1)"

definition page_number_size :: "SINT64 \<Rightarrow> nat" where
  "page_number_size number =
     (if number AND 0xF0000000 \<noteq> 0 then 5
      else if number AND 0xFFE00000 \<noteq> 0 then 4
      else if number AND 0xFFFFC000 \<noteq> 0 then 3
      else if number AND 0xFFFFFF80 \<noteq> 0 then 2
      else 1)"

definition short_size :: "SINT64 \<Rightarrow> nat" where
  "short_size number =
     (if number AND 0xFFFFC000 \<noteq> 0 then 3
      else if number AND 0xFFFFFF80 \<noteq> 0 then 2
      else 1)"

definition getNodeSize :: "IndexNode \<Rightarrow> bool \<Rightarrow> USHORT" where
  "getNodeSize n leafNode =
     (if node_isEndLevel n then 1
      else of_nat (1 + record_number_size (signed_drop_bit 5 (stored_number n)) +
        (if leafNode then 0 else page_number_size (ucast (node_pageNumber n))) +
        (if internalFlags n \<noteq> BTN_ZERO_PREFIX_ZERO_LENGTH_FLAG then short_size (ucast (node_prefix n)) else 0) +
        (if internalFlags n \<notin> {BTN_ZERO_PREFIX_ZERO_LENGTH_FLAG, BTN_ZERO_LENGTH_FLAG, BTN_ONE_LENGTH_FLAG}
         then short_size (ucast (node_length n)) else 0)) + node_length n)"

text \<open>The bytes that \<^verbatim>\<open>writeNode\<close> stores one after the other before the data.\<close>

definition node_header :: "IndexNode \<Rightarrow> bool \<Rightarrow> UCHAR list" where
  "node_header n leafNode =
     (let number = stored_number n; flags = internalFlags n
      in (push_bit 5 flags OR ucast (number AND 0x1F)) #
         (if node_isEndLevel n then []
          else put_unlimited 5 (signed_drop_bit 5 number) @
            (if leafNode then [] else put_limited 0x0F 4 (ucast (node_pageNumber n))) @
            (if flags \<noteq> BTN_ZERO_PREFIX_ZERO_LENGTH_FLAG then put_limited 0x7F 1 (ucast (node_prefix n)) else []) @
            (if flags \<notin> {BTN_ZERO_PREFIX_ZERO_LENGTH_FLAG, BTN_ZERO_LENGTH_FLAG, BTN_ONE_LENGTH_FLAG}
             then put_limited 0x7F 1 (ucast (node_length n)) else [])))"

text \<open>\<^verbatim>\<open>memcpy\<close> is undefined for areas that overlap.\<close>

definition memcpy_from :: "UCHAR list \<Rightarrow> nat \<Rightarrow> data_pointer \<Rightarrow> nat \<Rightarrow> UCHAR list option" where
  "memcpy_from page pos p n =
     (if (\<exists>d. p = InPage d \<and> d < pos + n \<and> pos < d + n) then None
      else do { bs \<leftarrow> data_bytes page p n; mem_write page pos bs })"

definition writeNode ::
  "UCHAR list \<Rightarrow> nat \<Rightarrow> bool \<Rightarrow> bool \<Rightarrow> IndexNode \<Rightarrow> (UCHAR list \<times> IndexNode \<times> nat) option" where
  "writeNode page pos leafNode withData n =
     (let n' = n\<lparr>nodePointer := pos\<rparr>; len = unat (node_length n); header = node_header n leafNode
      in do {
        page \<leftarrow> (if withData then Some page
          else do {
            bs \<leftarrow> data_bytes page (node_data n) len;
            mem_write page (pos + unat (getNodeSize n leafNode - node_length n)) bs
          });
        page \<leftarrow> mem_write page pos header;
        if node_isEndLevel n then Some (page, n', pos + 1)
        else do {
          page \<leftarrow> (if withData then memcpy_from page (pos + length header) (node_data n) len else Some page);
          Some (page, n', pos + length header + len)
        }
      })"

section \<open>Reading\<close>

definition read_pageNumber :: "UCHAR list \<Rightarrow> nat \<Rightarrow> bool \<Rightarrow> IndexNode \<Rightarrow> (IndexNode \<times> nat) option" where
  "read_pageNumber page pos leafNode n =
     (if leafNode then Some (n, pos)
      else do { (number, pos) \<leftarrow> get_number 0x0F 4 0 page pos 0; Some (n\<lparr>node_pageNumber := ucast number\<rparr>, pos) })"

definition read_prefix :: "UCHAR list \<Rightarrow> nat \<Rightarrow> UCHAR \<Rightarrow> IndexNode \<Rightarrow> (IndexNode \<times> nat) option" where
  "read_prefix page pos flags n =
     (if flags = BTN_ZERO_PREFIX_ZERO_LENGTH_FLAG then Some (n\<lparr>node_prefix := 0\<rparr>, pos)
      else do { (number, pos) \<leftarrow> get_number 0x7F 1 0 page pos 0; Some (n\<lparr>node_prefix := ucast number\<rparr>, pos) })"

definition read_length :: "UCHAR list \<Rightarrow> nat \<Rightarrow> UCHAR \<Rightarrow> IndexNode \<Rightarrow> (IndexNode \<times> nat) option" where
  "read_length page pos flags n =
     (if flags = BTN_ZERO_LENGTH_FLAG \<or> flags = BTN_ZERO_PREFIX_ZERO_LENGTH_FLAG then Some (n\<lparr>node_length := 0\<rparr>, pos)
      else if flags = BTN_ONE_LENGTH_FLAG then Some (n\<lparr>node_length := 1\<rparr>, pos)
      else do { (number, pos) \<leftarrow> get_number 0x7F 1 0 page pos 0; Some (n\<lparr>node_length := ucast number\<rparr>, pos) })"

definition readNode :: "UCHAR list \<Rightarrow> nat \<Rightarrow> bool \<Rightarrow> IndexNode \<Rightarrow> (IndexNode \<times> nat) option" where
  "readNode page pos leafNode n =
     do {
       first \<leftarrow> get_byte page pos;
       let flags = drop_bit 5 (first AND 0xE0);
       let n = n\<lparr>nodePointer := pos, node_isEndLevel := (flags = BTN_END_LEVEL_FLAG), node_isEndBucket := (flags = BTN_END_BUCKET_FLAG)\<rparr>;
       if flags = BTN_END_LEVEL_FLAG then
         Some (n\<lparr>node_prefix := 0, node_length := 0, node_recordNumber := rn_setValue (node_recordNumber n) 0, node_pageNumber := 0\<rparr>, pos + 1)
       else do {
         (number, pos) \<leftarrow> get_number 0x7F 4 5 page (pos + 1) (ucast (first AND 0x1F));
         let n = n\<lparr>node_recordNumber := rn_setValue (node_recordNumber n) number\<rparr>;
         (n, pos) \<leftarrow> read_pageNumber page pos leafNode n;
         (n, pos) \<leftarrow> read_prefix page pos flags n;
         (n, pos) \<leftarrow> read_length page pos flags n;
         Some (n\<lparr>node_data := InPage pos\<rparr>, pos + unat (node_length n))
       }
     }"

section \<open>Duplicates\<close>

partial_function (option) duplicates_loop ::
  "UCHAR list \<Rightarrow> bool \<Rightarrow> RecordNumber \<Rightarrow> IndexNode \<Rightarrow> nat \<Rightarrow> SLONG \<Rightarrow> SLONG option" where
  "duplicates_loop page leafPage findRecordNumber n pos previousNumber =
     (if node_isEndBucket n then Some previousNumber
      else if rn_le findRecordNumber (node_recordNumber n) then Some previousNumber
      else
        (case readNode page pos leafPage n of
           None \<Rightarrow> None
         | Some np \<Rightarrow>
             if node_isEndLevel (fst np) \<or> node_length (fst np) \<noteq> 0 \<or>
               unat (node_prefix (fst np)) \<noteq> unat (node_length n) + unat (node_prefix n)
             then Some (node_pageNumber n)
             else duplicates_loop page leafPage findRecordNumber (fst np) (snd np) (node_pageNumber n)))"

declare duplicates_loop.simps [code]

definition IndexNode_new :: IndexNode where
  "IndexNode_new =
     \<lparr>nodePointer = 0, node_prefix = 0, node_length = 0, node_pageNumber = 0, node_data = InPage 0,
      node_recordNumber = RecordNumber_default, node_isEndBucket = False, node_isEndLevel = False\<rparr>"

definition findPageInDuplicates :: "UCHAR list \<Rightarrow> bool \<Rightarrow> nat \<Rightarrow> SLONG \<Rightarrow> RecordNumber \<Rightarrow> SLONG option" where
  "findPageInDuplicates page leafPage pos previousNumber findRecordNumber =
     (case readNode page pos leafPage IndexNode_new of
        None \<Rightarrow> None
      | Some (n, pos) \<Rightarrow> duplicates_loop page leafPage findRecordNumber n pos previousNumber)"

section \<open>Jump nodes\<close>

record IndexJumpNode =
  jump_nodePointer :: nat
  jump_prefix :: USHORT
  jump_length :: USHORT
  jump_offset :: USHORT
  jump_data :: data_pointer

definition jump_short_size :: "USHORT \<Rightarrow> nat" where
  "jump_short_size number = (if number AND 0xC000 \<noteq> 0 then 3 else if number AND 0xFF80 \<noteq> 0 then 2 else 1)"

definition getJumpNodeSize :: "IndexJumpNode \<Rightarrow> USHORT" where
  "getJumpNodeSize j =
     of_nat (jump_short_size (jump_prefix j) + jump_short_size (jump_length j) + 2) + jump_length j"

text \<open>\<open>get_short\<close> and \<open>put_short\<close> copy the bytes of a number, on a little-endian machine the low one first.\<close>

definition put_short :: "USHORT \<Rightarrow> UCHAR list" where
  "put_short v = [ucast v, ucast (drop_bit 8 v)]"

definition get_short :: "UCHAR list \<Rightarrow> USHORT" where
  "get_short bs = ucast (bs ! 0) OR push_bit 8 (ucast (bs ! 1))"

text \<open>A number of a jump node: the test of the continuation bit is that of the bytes.\<close>

definition put_jump_number :: "USHORT \<Rightarrow> UCHAR list" where
  "put_jump_number number =
     (let tmp = (ucast (number AND 0x7F) :: UCHAR); rest = drop_bit 7 number
      in if rest > 0 then [tmp OR 0x80, ucast (rest AND 0x7F)] else [tmp])"

definition readJumpNode :: "UCHAR list \<Rightarrow> nat \<Rightarrow> IndexJumpNode \<Rightarrow> (IndexJumpNode \<times> nat) option" where
  "readJumpNode page pos j =
     do {
       let j = j\<lparr>jump_nodePointer := pos\<rparr>;
       (number, pos) \<leftarrow> get_number 0x7F 1 0 page pos 0;
       let j = j\<lparr>jump_prefix := ucast number\<rparr>;
       (number, pos) \<leftarrow> get_number 0x7F 1 0 page pos 0;
       let j = j\<lparr>jump_length := ucast number\<rparr>;
       bs \<leftarrow> mem_read page pos 2;
       let pos = pos + 2;
       let j = j\<lparr>jump_offset := get_short bs, jump_data := InPage pos\<rparr>;
       Some (j, pos + unat (jump_length j))
     }"

definition writeJumpNode :: "UCHAR list \<Rightarrow> nat \<Rightarrow> IndexJumpNode \<Rightarrow> (UCHAR list \<times> IndexJumpNode \<times> nat) option" where
  "writeJumpNode page pos j =
     (let header = put_jump_number (jump_prefix j) @ put_jump_number (jump_length j) @ put_short (jump_offset j);
          len = unat (jump_length j)
      in do {
        page \<leftarrow> mem_write page pos header;
        bs \<leftarrow> data_bytes page (jump_data j) len;
        page \<leftarrow> mem_write page (pos + length header) bs;
        Some (page, j\<lparr>jump_nodePointer := pos\<rparr>, pos + length header + len)
      })"

end
