(* ===== verification/FB_Btn_Codec.thy ===== *)
theory FB_Btn_Codec
  imports FB_Btn
begin

text \<open>
  Index nodes that are written to a page are read back, and their size is the one that is computed
  in advance.
\<close>

section \<open>Numbers\<close>

lemma unat_less_bit:
  fixes v :: "'a::len word"
  assumes "unat v < 2 ^ n" and "n \<le> i"
  shows "\<not> bit v i"
proof -
  have "unat v < 2 ^ i" using assms by (meson less_le_trans one_le_numeral power_increasing)
  then have "\<not> bit (unat v) i" by (simp add: bit_iff_odd)
  then show ?thesis by (simp add: bit_unsigned_iff)
qed

lemma small_nonneg:
  fixes v :: SINT64
  assumes "unat v < 2 ^ 63"
  shows "sint v = int (unat v)" and "signed_drop_bit n v = drop_bit n v"
proof -
  have top: "\<not> bit v 63" using unat_less_bit [OF assms] by simp
  have "sint (of_nat (unat v) :: SINT64) = int (unat v)" by (rule sint_of_nat_inverse) (use assms in simp)
  then show "sint v = int (unat v)" by simp
  show "signed_drop_bit n v = drop_bit n v"
  proof (rule bit_word_eqI)
    fix i assume "i < LENGTH(64)"
    show "bit (signed_drop_bit n v) i = bit (drop_bit n v) i"
    proof (cases "n + i < 64")
      case True
      then show ?thesis by (cases "63 \<le> i") (use top in \<open>auto simp: bit_signed_drop_bit_iff bit_drop_bit_eq\<close>)
    next
      case False
      then have "\<not> bit v (n + i)" by (auto dest: bit_imp_le_length)
      then show ?thesis using False top by (simp add: bit_signed_drop_bit_iff bit_drop_bit_eq)
    qed
  qed
qed

lemma small_positive: "unat (v :: SINT64) < 2 ^ 63 \<Longrightarrow> 0 < sint v \<longleftrightarrow> v \<noteq> 0"
  by (simp only: small_nonneg(1) of_nat_0_less_iff unat_gt_0)

lemma and_7F: "(v :: 'a::len word) AND 0x7F = take_bit 7 v"
proof -
  have "(0x7F :: 'a word) = mask 7" by (simp add: mask_eq_exp_minus_1)
  then show ?thesis by (simp add: take_bit_eq_mask)
qed

lemma and_0F: "(v :: 'a::len word) AND 0x0F = take_bit 4 v"
proof -
  have "(0x0F :: 'a word) = mask 4" by (simp add: mask_eq_exp_minus_1)
  then show ?thesis by (simp add: take_bit_eq_mask)
qed

lemma take_or_drop: "take_bit n (v :: 'a::len word) OR push_bit n (drop_bit n v) = v"
proof (rule bit_word_eqI)
  fix i assume "i < LENGTH('a)"
  then show "bit (take_bit n v OR push_bit n (drop_bit n v)) i = bit v i"
    by (cases "i < n") (simp_all add: bit_or_iff bit_take_bit_iff bit_push_bit_iff bit_drop_bit_eq)
qed

lemma group_byte:
  fixes v :: SINT64
  shows "(ucast (v AND 0x7F) :: UCHAR) < 128" and "(ucast (ucast (v AND 0x7F) :: UCHAR) :: SINT64) = take_bit 7 v"
    and "128 \<le> (ucast (v AND 0x7F) :: UCHAR) OR 0x80" and "((ucast (v AND 0x7F) :: UCHAR) OR 0x80) AND 0x7F = ucast (v AND 0x7F)"
    and "(ucast (v AND 0x7F) :: UCHAR) AND 0x7F = ucast (v AND 0x7F)"
proof -
  let ?b = "ucast (take_bit 7 v) :: UCHAR"
  note and_7F [simp]
  have b: "bit ?b i \<longleftrightarrow> i < 7 \<and> bit v i" for i
    by (auto simp: bit_ucast_iff bit_take_bit_iff)
  have x: "bit (0x80 :: UCHAR) i \<longleftrightarrow> i = 7" for i
  proof -
    have "(0x80 :: UCHAR) = push_bit 7 1" by simp
    then show ?thesis by (simp only: bit_push_bit_iff bit_1_iff) auto
  qed
  have lt: "x < 128 \<longleftrightarrow> \<not> bit x 7" for x :: UCHAR
  proof -
    have "bit x 7 \<longleftrightarrow> bit (unat x) 7" by (simp add: bit_unsigned_iff)
    then have "bit x 7 \<longleftrightarrow> odd (unat x div 128)" by (simp add: bit_iff_odd [of "unat x"])
    moreover have "unat x div 128 = (if unat x < 128 then 0 else 1)"
      using unat_UCHAR_less [of x] by (auto intro: div_nat_eqI)
    ultimately show ?thesis by (simp add: word_less_nat_alt)
  qed
  have "?b < 128" by (simp add: lt b)
  then show "(ucast (v AND 0x7F) :: UCHAR) < 128" by simp
  have "(ucast ?b :: SINT64) = take_bit 7 v"
    by (rule bit_word_eqI) (auto simp: bit_ucast_iff [of ?b] b bit_take_bit_iff)
  then show "(ucast (ucast (v AND 0x7F) :: UCHAR) :: SINT64) = take_bit 7 v" by simp
  have "\<not> ?b OR 0x80 < 128" by (simp only: lt) (simp add: bit_or_iff x)
  then show "128 \<le> (ucast (v AND 0x7F) :: UCHAR) OR 0x80" by simp
  have "take_bit 7 (?b OR 0x80) = ?b" by (rule bit_word_eqI) (auto simp: bit_or_iff b x bit_take_bit_iff)
  then show "((ucast (v AND 0x7F) :: UCHAR) OR 0x80) AND 0x7F = ucast (v AND 0x7F)" by simp
  have "take_bit 7 ?b = ?b" by (rule bit_word_eqI) (auto simp: b bit_take_bit_iff)
  then show "(ucast (v AND 0x7F) :: UCHAR) AND 0x7F = ucast (v AND 0x7F)" by simp
qed

text \<open>A byte in its place.\<close>

lemma get_byte_at: "get_byte (pre @ b # post) (length pre) = Some b"
  by (simp add: get_byte_def)

lemma drop_bit_small: "unat (v :: 'a::len word) < 2 ^ (m + n) \<Longrightarrow> unat (drop_bit m v) < 2 ^ n"
proof -
  assume "unat v < 2 ^ (m + n)"
  then have "unat v < 2 ^ n * 2 ^ m" by (simp add: power_add mult.commute)
  then have "unat v div 2 ^ m < 2 ^ n" by (rule less_mult_imp_div_less)
  moreover have "unat (drop_bit m v) = unat v div 2 ^ m" unfolding unat_drop_bit_eq by (rule drop_bit_eq_div)
  ultimately show ?thesis by (simp only:)
qed

lemma pow_63: "x < 2 ^ a \<Longrightarrow> a \<le> 63 \<Longrightarrow> x < (2 :: nat) ^ 63"
  by (meson less_le_trans one_le_numeral power_increasing)

lemma take_bit_small:
  assumes "unat (v :: 'a::len word) < 2 ^ n"
  shows "take_bit n v = v"
proof -
  have "unat (take_bit n v) = unat v" using assms by (simp add: unsigned_take_bit_eq take_bit_nat_eq_self_iff)
  then show ?thesis by (simp only: word_unat_eq_iff)
qed

lemma mask_byte:
  fixes v :: SINT64
  assumes "b \<le> 7" and "unat v < 2 ^ b"
  shows "(ucast ((ucast (v AND mask b) :: UCHAR) AND mask b) :: SINT64) = v"
proof (rule bit_word_eqI)
  fix i assume "i < LENGTH(64)"
  show "bit (ucast ((ucast (v AND mask b) :: UCHAR) AND mask b) :: SINT64) i = bit v i"
    using assms unat_less_bit [OF assms(2), of i] \<open>i < LENGTH(64)\<close>
    by (cases "i < b") (simp_all add: bit_ucast_iff bit_and_iff bit_mask_iff)
qed

lemma push_group:
  "push_bit s (take_bit 7 v) OR push_bit (s + 7) (drop_bit 7 v) = push_bit s (v :: 'a::len word)"
proof -
  have "push_bit (s + 7) (drop_bit 7 v) = push_bit s (push_bit 7 (drop_bit 7 v))" by (simp add: push_bit_push_bit add.commute)
  then show ?thesis by (simp only: push_bit_or [symmetric] take_or_drop)
qed

text \<open>What is written is read.\<close>

lemma get_put_limited:
  assumes "unat v < 2 ^ (7 * k + b)" and "b \<le> 7" and "7 * k + b \<le> 62"
  shows "get_number (mask b) k s (pre @ put_limited (mask b) k v @ post) (length pre) acc =
    Some (acc OR push_bit s v, length pre + length (put_limited (mask b) k v))"
  using assms
proof (induction k arbitrary: v s pre acc)
  case 0
  have "(ucast ((ucast (v AND mask b) :: UCHAR) AND mask b) :: SINT64) = v" using 0 by (intro mask_byte) simp_all
  then show ?case by (simp add: get_byte_at)
next
  case (Suc k)
  let ?tmp = "ucast (v AND 0x7F) :: UCHAR" let ?rest = "drop_bit 7 v"
  have "unat v < 2 ^ 63"
    by (rule pow_63 [OF Suc.prems(1)]) (use Suc.prems(3) in simp)
  then have rest: "signed_drop_bit 7 v = ?rest" by (rule small_nonneg)
  have small: "unat ?rest < 2 ^ (7 * k + b)" using Suc.prems(1) by (intro drop_bit_small) (simp add: add.commute add.left_commute)
  have "unat ?rest < 2 ^ 63"
    by (rule pow_63 [OF small]) (use Suc.prems(3) in simp)
  then have pos: "0 < sint ?rest \<longleftrightarrow> ?rest \<noteq> 0" by (rule small_positive)
  show ?case
  proof (cases "?rest = 0")
    case True
    then have "take_bit 7 v = v" using take_or_drop [of 7 v] by simp
    moreover have "\<not> 128 \<le> ?tmp" using group_byte(1) [of v] by simp
    ultimately show ?thesis using True group_byte [of v] pos by (simp add: rest get_byte_at Let_def)
  next
    case False
    have put: "put_limited (mask b) (Suc k) v = (?tmp OR 0x80) # put_limited (mask b) k ?rest"
      using False pos by (simp add: rest Let_def)
    have "get_number (mask b) (Suc k) s (pre @ put_limited (mask b) (Suc k) v @ post) (length pre) acc =
        get_number (mask b) k (s + 7) ((pre @ [?tmp OR 0x80]) @ put_limited (mask b) k ?rest @ post) (length (pre @ [?tmp OR 0x80]))
          (acc OR push_bit s (take_bit 7 v))"
      unfolding put using group_byte [of v] by (simp add: get_byte_at Let_def)
    also have "\<dots> = Some ((acc OR push_bit s (take_bit 7 v)) OR push_bit (s + 7) ?rest,
        length (pre @ [?tmp OR 0x80]) + length (put_limited (mask b) k ?rest))"
      by (rule Suc.IH) (use small Suc.prems in simp_all)
    also have "(acc OR push_bit s (take_bit 7 v)) OR push_bit (s + 7) ?rest = acc OR push_bit s v"
      by (simp only: or.assoc push_group)
    also have "length (pre @ [?tmp OR 0x80]) + length (put_limited (mask b) k ?rest) =
        length pre + length (put_limited (mask b) (Suc k) v)"
      unfolding put by simp
    finally show ?thesis .
  qed
qed

lemma put_unlimited_limited:
  assumes "unat v < 2 ^ (7 * k + 7)" and "7 * k + 7 \<le> 62"
  shows "put_unlimited (Suc k) v = put_limited (mask 7) k v"
  using assms
proof (induction k arbitrary: v)
  case 0
  then have "drop_bit 7 v = 0" using drop_bit_small [of v 7 0] by (simp add: unat_eq_0)
  moreover have "signed_drop_bit 7 v = drop_bit 7 v" using 0 by (intro small_nonneg) simp
  moreover have "(mask 7 :: SINT64) = 0x7F" by (simp add: mask_eq_exp_minus_1)
  ultimately show ?case by simp
next
  case (Suc k)
  have "unat v < 2 ^ 63" by (rule pow_63 [OF Suc.prems(1)]) (use Suc.prems(2) in simp)
  then have rest: "signed_drop_bit 7 v = drop_bit 7 v" by (rule small_nonneg)
  have small: "unat (drop_bit 7 v) < 2 ^ (7 * k + 7)" using Suc.prems(1) by (intro drop_bit_small) (simp add: add.commute add.left_commute)
  have "unat (drop_bit 7 v) < 2 ^ 63" by (rule pow_63 [OF small]) (use Suc.prems(2) in simp)
  then have pos: "0 < sint (drop_bit 7 v) \<longleftrightarrow> drop_bit 7 v \<noteq> 0" by (rule small_positive)
  have "put_unlimited (Suc k) (drop_bit 7 v) = put_limited (mask 7) k (drop_bit 7 v)"
    by (rule Suc.IH) (use small Suc.prems in simp_all)
  then show ?case using pos by (simp only: put_unlimited.simps(2) [of "Suc k"] put_limited.simps(2) rest Let_def) simp
qed

section \<open>The parts of a node\<close>

lemma masks: "(0x7F :: UCHAR) = mask 7" "(0x0F :: UCHAR) = mask 4" "(0x7F :: SINT64) = mask 7" "(0x0F :: SINT64) = mask 4"
  by (simp_all add: mask_eq_exp_minus_1)

text \<open>A number whose first five bits are in the first byte.\<close>

lemma low_or_high: "(v AND 0x1F) OR push_bit 5 (drop_bit 5 v) = (v :: SINT64)"
proof -
  have "(0x1F :: SINT64) = mask 5" by (simp add: mask_eq_exp_minus_1)
  then have "v AND 0x1F = take_bit 5 v" by (simp add: take_bit_eq_mask)
  then show ?thesis by (simp only: take_or_drop)
qed

lemma first_byte:
  fixes fl :: UCHAR and v :: SINT64
  assumes "unat fl < 8"
  defines "first \<equiv> push_bit 5 fl OR ucast (v AND 0x1F)"
  shows "drop_bit 5 (first AND 0xE0) = fl" and "(ucast (first AND 0x1F) :: SINT64) = v AND 0x1F"
proof -
  have m: "(0x1F :: UCHAR) = mask 5" "(0x1F :: SINT64) = mask 5" by (simp_all add: mask_eq_exp_minus_1)
  have E: "(0xE0 :: UCHAR) = push_bit 5 (mask 3)" by (simp add: mask_eq_exp_minus_1)
  have fl: "bit fl i \<Longrightarrow> i < 3" for i
    using unat_less_bit [of fl 3 i] assms(1) by (cases "i < 3") auto
  have "first AND 0xE0 = push_bit 5 fl"
    unfolding E first_def m by (rule bit_word_eqI) (auto simp: bit_and_iff bit_or_iff bit_push_bit_iff bit_ucast_iff bit_mask_iff dest: fl)
  moreover have "drop_bit 5 (push_bit 5 fl) = fl"
    by (rule bit_word_eqI) (auto simp: bit_drop_bit_eq bit_push_bit_iff dest: fl)
  ultimately show "drop_bit 5 (first AND 0xE0) = fl" by simp
  show "(ucast (first AND 0x1F) :: SINT64) = v AND 0x1F"
    by (rule bit_word_eqI)
      (auto simp: first_def bit_ucast_iff bit_and_iff bit_or_iff bit_push_bit_iff m bit_mask_iff)
qed

lemma internalFlags_less: "unat (internalFlags n) < 8"
  by (simp add: internalFlags_def)

text \<open>A node that fits its format: the record number has 40 bits, prefix and length have 14.\<close>

definition node_fits :: "IndexNode \<Rightarrow> bool" where
  "node_fits n \<longleftrightarrow>
     0 \<le> sint (rn_value (node_recordNumber n)) \<and> unat (rn_value (node_recordNumber n)) < 2 ^ 40 \<and>
     unat (node_prefix n) < 2 ^ 14 \<and> unat (node_length n) < 2 ^ 14 \<and>
     \<not> (node_isEndLevel n \<and> node_isEndBucket n) \<and>
     (node_isEndLevel n \<longrightarrow> node_prefix n = 0 \<and> node_length n = 0 \<and> node_pageNumber n = 0 \<and> rn_value (node_recordNumber n) = 0)"

lemma unat_ucast_64:
  "unat (ucast (v :: USHORT) :: SINT64) = unat v" "unat (ucast (w :: ULONG) :: SINT64) = unat w"
  using less_trans [OF unat_USHORT_less [of v], of "2 ^ 64"] less_trans [OF unat_ULONG_less [of w], of "2 ^ 64"]
  by (simp_all add: unsigned_ucast_eq take_bit_nat_eq_self_iff)

lemma read_short:
  assumes "unat v < 2 ^ 14"
  shows "get_number 0x7F 1 0 (pre @ put_limited 0x7F 1 (ucast (v :: USHORT)) @ post) (length pre) 0 =
    Some (ucast v, length pre + length (put_limited 0x7F 1 (ucast v)))"
  using get_put_limited [of "ucast v" 1 7 0 pre post 0] assms by (simp only: masks unat_ucast_64) simp

lemma read_page_number:
  "get_number 0x0F 4 0 (pre @ put_limited 0x0F 4 (ucast (v :: ULONG)) @ post) (length pre) 0 =
    Some (ucast v, length pre + length (put_limited 0x0F 4 (ucast v)))"
  using get_put_limited [of "ucast v" 4 4 0 pre post 0] by (simp only: masks unat_ucast_64) simp

lemma read_record_number:
  assumes "unat v < 2 ^ 40"
  shows "get_number 0x7F 4 5 (pre @ put_unlimited 5 (signed_drop_bit 5 v) @ post) (length pre) (v AND 0x1F) =
    Some (v, length pre + length (put_unlimited 5 (signed_drop_bit 5 v)))"
proof -
  have sd: "signed_drop_bit 5 v = drop_bit 5 v" by (rule small_nonneg(2)) (use assms in simp)
  have small: "unat (drop_bit 5 v) < 2 ^ (7 * 4 + 7)" by (rule drop_bit_small) (use assms in simp)
  have put: "put_unlimited 5 (drop_bit 5 v) = put_limited (mask 7) 4 (drop_bit 5 v)"
    using put_unlimited_limited [OF small] by (simp only: numeral_eq_Suc pred_numeral_simps) simp
  show ?thesis
    unfolding sd put masks(1) by (subst (2) low_or_high [of v, symmetric], rule get_put_limited [OF small]) simp_all
qed

section \<open>Reading what was written\<close>

lemma internalFlags_iff:
  "node_isEndLevel n \<Longrightarrow> internalFlags n = 1"
  "node_fits n \<Longrightarrow> internalFlags n = 1 \<longleftrightarrow> node_isEndLevel n"
  "node_fits n \<Longrightarrow> internalFlags n = 2 \<longleftrightarrow> node_isEndBucket n"
  "\<not> node_isEndLevel n \<Longrightarrow> internalFlags n = 3 \<Longrightarrow> node_prefix n = 0 \<and> node_length n = 0"
  "internalFlags n = 4 \<Longrightarrow> node_length n = 0"
  "internalFlags n = 5 \<Longrightarrow> node_length n = 1"
  by (auto simp: internalFlags_def node_fits_def split: if_splits)

text \<open>The node that is read into \<open>n\<close> where \<open>m\<close> was written.\<close>

definition node_read :: "IndexNode \<Rightarrow> bool \<Rightarrow> nat \<Rightarrow> IndexNode \<Rightarrow> IndexNode" where
  "node_read m leafNode pos n =
     n\<lparr>nodePointer := pos, node_prefix := node_prefix m, node_length := node_length m,
       node_pageNumber := (if leafNode \<and> \<not> node_isEndLevel m then node_pageNumber n else node_pageNumber m),
       node_data := (if node_isEndLevel m then node_data n else InPage (pos + length (node_header m leafNode))),
       node_recordNumber := rn_setValue (node_recordNumber n) (rn_value (node_recordNumber m)),
       node_isEndBucket := node_isEndBucket m, node_isEndLevel := node_isEndLevel m\<rparr>"

definition header_prefix :: "IndexNode \<Rightarrow> UCHAR list" where
  "header_prefix n = (if internalFlags n \<noteq> 3 then put_limited 0x7F 1 (ucast (node_prefix n)) else [])"

definition header_length :: "IndexNode \<Rightarrow> UCHAR list" where
  "header_length n = (if internalFlags n \<notin> {3, 4, 5} then put_limited 0x7F 1 (ucast (node_length n)) else [])"

definition header_page :: "IndexNode \<Rightarrow> bool \<Rightarrow> UCHAR list" where
  "header_page n leafNode = (if leafNode then [] else put_limited 0x0F 4 (ucast (node_pageNumber n)))"

lemma node_header_parts:
  "node_header n leafNode = (push_bit 5 (internalFlags n) OR ucast (stored_number n AND 0x1F)) #
     (if node_isEndLevel n then [] else put_unlimited 5 (signed_drop_bit 5 (stored_number n)) @ header_page n leafNode @
       header_prefix n @ header_length n)"
  by (simp add: node_header_def Let_def header_prefix_def header_length_def header_page_def)

lemma stored_number_fits: "node_fits n \<Longrightarrow> stored_number n = rn_value (node_recordNumber n)"
  by (simp add: stored_number_def node_fits_def)

lemma ucast_ucast_back:
  "ucast (ucast (v :: USHORT) :: SINT64) = v" "ucast (ucast (w :: ULONG) :: SINT64) = w"
  by (rule bit_word_eqI; simp add: bit_ucast_iff)+

lemma read_header_page:
  "read_pageNumber (pre @ header_page m leafNode @ post) (length pre) leafNode n =
   Some (n\<lparr>node_pageNumber := (if leafNode then node_pageNumber n else node_pageNumber m)\<rparr>, length (pre @ header_page m leafNode))"
  using read_page_number [of pre "node_pageNumber m" post]
  by (simp add: read_pageNumber_def header_page_def ucast_ucast_back)

lemma read_header_prefix:
  assumes "node_fits m" and "\<not> node_isEndLevel m"
  shows "read_prefix (pre @ header_prefix m @ post) (length pre) (internalFlags m) n =
   Some (n\<lparr>node_prefix := node_prefix m\<rparr>, length (pre @ header_prefix m))"
  using read_short [of "node_prefix m" pre post] assms internalFlags_iff(4) [OF assms(2)]
  by (simp add: read_prefix_def header_prefix_def ucast_ucast_back node_fits_def)

lemma read_header_length:
  assumes "node_fits m" and "\<not> node_isEndLevel m"
  shows "read_length (pre @ header_length m @ post) (length pre) (internalFlags m) n =
   Some (n\<lparr>node_length := node_length m\<rparr>, length (pre @ header_length m))"
  using read_short [of "node_length m" pre post] assms internalFlags_iff(4) [OF assms(2)] internalFlags_iff(5,6) [of m]
  by (auto simp: read_length_def header_length_def ucast_ucast_back node_fits_def)

lemma readNode_header:
  assumes fits: "node_fits m"
  shows "readNode (pre @ node_header m leafNode @ post) (length pre) leafNode n =
    Some (node_read m leafNode (length pre) n, length pre + length (node_header m leafNode) + unat (node_length m))"
proof (cases "node_isEndLevel m")
  case True
  then have "stored_number m = 0" and fl: "internalFlags m = 1"
    using fits stored_number_fits [OF fits] by (simp_all add: node_fits_def internalFlags_def)
  then have "node_header m leafNode = [0x20]" using True by (simp add: node_header_parts)
  then show ?thesis using True fits
    by (simp add: readNode_def get_byte_at node_read_def node_fits_def)
next
  case False
  let ?v = "stored_number m" let ?fl = "internalFlags m"
  let ?first = "push_bit 5 ?fl OR ucast (?v AND 0x1F)" let ?rec = "put_unlimited 5 (signed_drop_bit 5 ?v)"
  let ?pg = "header_page m leafNode" let ?px = "header_prefix m" let ?ln = "header_length m"
  let ?page = "pre @ node_header m leafNode @ post"
  have v: "?v = rn_value (node_recordNumber m)" "unat ?v < 2 ^ 40"
    using fits stored_number_fits [OF fits] by (simp_all add: node_fits_def)
  have hd: "node_header m leafNode = ?first # ?rec @ ?pg @ ?px @ ?ln" using False by (simp add: node_header_parts)
  have fl: "drop_bit 5 (?first AND 0xE0) = ?fl" "(ucast (?first AND 0x1F) :: SINT64) = ?v AND 0x1F"
    by (rule first_byte [OF internalFlags_less])+
  have end_flags: "?fl \<noteq> 1" "?fl = 2 \<longleftrightarrow> node_isEndBucket m" using internalFlags_iff(2,3) [OF fits] False by auto
  have p1: "get_byte ?page (length pre) = Some ?first" by (simp add: hd get_byte_at)
  have p2: "get_number 0x7F 4 5 ?page (length pre + 1) (?v AND 0x1F) = Some (?v, length (pre @ ?first # ?rec))"
    using read_record_number [OF v(2), of "pre @ [?first]" "?pg @ ?px @ ?ln @ post"] by (simp add: hd)
  have page: "?page = (pre @ ?first # ?rec) @ ?pg @ ?px @ ?ln @ post" "?page = (pre @ ?first # ?rec @ ?pg) @ ?px @ ?ln @ post"
    "?page = (pre @ ?first # ?rec @ ?pg @ ?px) @ ?ln @ post" by (simp_all add: hd)
  have p3: "read_pageNumber ?page (length (pre @ ?first # ?rec)) leafNode n' =
      Some (n'\<lparr>node_pageNumber := (if leafNode then node_pageNumber n' else node_pageNumber m)\<rparr>, length (pre @ ?first # ?rec @ ?pg))" for n'
    unfolding page(1) read_header_page by simp
  have p4: "read_prefix ?page (length (pre @ ?first # ?rec @ ?pg)) ?fl n' =
      Some (n'\<lparr>node_prefix := node_prefix m\<rparr>, length (pre @ ?first # ?rec @ ?pg @ ?px))" for n'
    unfolding page(2) read_header_prefix [OF fits False] by simp
  have p5: "read_length ?page (length (pre @ ?first # ?rec @ ?pg @ ?px)) ?fl n' =
      Some (n'\<lparr>node_length := node_length m\<rparr>, length (pre @ ?first # ?rec @ ?pg @ ?px @ ?ln))" for n'
    unfolding page(3) read_header_length [OF fits False] by simp
  have len: "length (pre @ ?first # ?rec @ ?pg @ ?px @ ?ln) = length pre + length (node_header m leafNode)" by (simp add: hd)
  have "readNode ?page (length pre) leafNode n =
      (let n1 = n\<lparr>nodePointer := length pre, node_isEndLevel := False, node_isEndBucket := node_isEndBucket m,
         node_recordNumber := rn_setValue (node_recordNumber n) ?v\<rparr>;
         n2 = n1\<lparr>node_pageNumber := (if leafNode then node_pageNumber n1 else node_pageNumber m), node_prefix := node_prefix m,
         node_length := node_length m\<rparr>
       in Some (n2\<lparr>node_data := InPage (length pre + length (node_header m leafNode))\<rparr>,
            length pre + length (node_header m leafNode) + unat (node_length m)))"
    unfolding readNode_def p1 bind.bind_lunit Let_def fl p2
    by (simp only: end_flags if_False if_True bind.bind_lunit prod.case p3 p4 p5 len) simp
  then show ?thesis using False by (simp add: node_read_def v Let_def)
qed

section \<open>Sizes\<close>

lemma unat_drop: "unat (drop_bit m v :: 'a::len word) = unat v div 2 ^ m"
  unfolding unat_drop_bit_eq by (rule drop_bit_eq_div)

lemma drop_bit_zero: "drop_bit a (v :: 'a::len word) = 0 \<longleftrightarrow> unat v < 2 ^ a"
proof -
  have "drop_bit a v = 0 \<longleftrightarrow> unat (drop_bit a v) = 0" by (simp only: unat_eq_0)
  also have "\<dots> \<longleftrightarrow> unat v div 2 ^ a = 0" unfolding unat_drop ..
  also have "\<dots> \<longleftrightarrow> unat v < 2 ^ a" by (simp add: div_eq_0_iff)
  finally show ?thesis .
qed

lemma and_high:
  fixes v :: "'a::len word"
  assumes "unat v < 2 ^ (a + c)"
  shows "v AND push_bit a (mask c) = 0 \<longleftrightarrow> unat v < 2 ^ a"
proof -
  have "v AND push_bit a (mask c) = push_bit a (drop_bit a v)"
  proof (rule bit_word_eqI)
    fix i assume "i < LENGTH('a)"
    show "bit (v AND push_bit a (mask c)) i = bit (push_bit a (drop_bit a v)) i"
      using unat_less_bit [OF assms, of i] \<open>i < LENGTH('a)\<close>
      by (cases "a \<le> i"; cases "a + c \<le> i") (auto simp: bit_and_iff bit_push_bit_iff bit_mask_iff bit_drop_bit_eq)
  qed
  moreover have "push_bit a (drop_bit a v) = 0 \<longleftrightarrow> drop_bit a v = 0"
  proof
    assume z: "push_bit a (drop_bit a v) = 0"
    have "drop_bit a v = drop_bit a (push_bit a (drop_bit a v))"
      by (rule bit_word_eqI) (auto simp: bit_drop_bit_eq bit_push_bit_iff dest: bit_imp_le_length)
    then show "drop_bit a v = 0" using z by simp
  qed simp
  ultimately show ?thesis by (simp only: drop_bit_zero)
qed

lemma length_put_limited_0 [simp]: "length (put_limited m 0 v) = 1"
  by simp

lemma length_put_limited_Suc:
  assumes "unat v < 2 ^ 63"
  shows "length (put_limited m (Suc k) v) = (if 128 \<le> unat v then Suc (length (put_limited m k (drop_bit 7 v))) else 1)"
proof -
  have sd: "signed_drop_bit 7 v = drop_bit 7 v" by (rule small_nonneg(2) [OF assms])
  have dr: "unat (drop_bit 7 v) < 2 ^ 63"
    using assms unfolding unat_drop by (rule le_less_trans [OF div_le_dividend])
  have "0 < sint (drop_bit 7 v) \<longleftrightarrow> drop_bit 7 v \<noteq> 0" by (rule small_positive [OF dr])
  also have "\<dots> \<longleftrightarrow> 128 \<le> unat v" unfolding drop_bit_zero by (simp add: not_less)
  finally have cond: "0 < sint (drop_bit 7 v) \<longleftrightarrow> 128 \<le> unat v" .
  have put: "put_limited m (Suc k) v =
      (if 0 < sint (drop_bit 7 v) then (ucast (v AND 0x7F) OR 0x80) # put_limited m k (drop_bit 7 v) else [ucast (v AND 0x7F)])"
    by (simp only: put_limited.simps(2) Let_def sd)
  show ?thesis unfolding put cond by simp
qed

lemma length_put_limited_1:
  "unat v < 2 ^ 63 \<Longrightarrow> length (put_limited m 1 v) = (if 128 \<le> unat v then 2 else 1)"
  unfolding One_nat_def by (simp only: length_put_limited_Suc length_put_limited_0) simp

lemma unat_drop_7: "unat (drop_bit 7 v :: 'a::len word) = unat v div 128"
  unfolding unat_drop by simp

lemma length_put_limited_4:
  assumes "unat v < 2 ^ 63"
  shows "length (put_limited m 4 v) =
    (if 2 ^ 28 \<le> unat v then 5 else if 2 ^ 21 \<le> unat v then 4 else if 2 ^ 14 \<le> unat v then 3 else if 2 ^ 7 \<le> unat v then 2 else 1)"
proof -
  have four: "(4 :: nat) = Suc (Suc (Suc (Suc 0)))" by simp
  have le: "128 \<le> n div k \<longleftrightarrow> 128 * k \<le> n" if "0 < k" for n k :: nat
    using that by (simp add: less_eq_div_iff_mult_less_eq)
  have small: "unat v div k < 2 ^ 63" for k by (rule le_less_trans [OF div_le_dividend assms])
  have dd: "unat v div 128 div 128 = unat v div 16384" "unat v div 16384 div 128 = unat v div 2097152"
    by (simp_all add: div_mult2_eq [symmetric])
  have "length (put_limited m 4 v) =
    (if 128 \<le> unat v then if 128 \<le> unat v div 128 then if 128 \<le> unat v div 16384 then if 128 \<le> unat v div 2097152
       then 5 else 4 else 3 else 2 else 1)"
    unfolding four using assms small
    by (simp only: length_put_limited_Suc unat_drop_7 dd length_put_limited_0) simp
  then show ?thesis by (simp add: le)
qed

lemma size_masks:
  "(0xFFF0000000 :: SINT64) = push_bit 28 (mask 12)" "(0xFFFFE00000 :: SINT64) = push_bit 21 (mask 19)"
  "(0xFFFFFFC000 :: SINT64) = push_bit 14 (mask 26)" "(0xFFFFFFFF80 :: SINT64) = push_bit 7 (mask 33)"
  "(0xF0000000 :: SINT64) = push_bit 28 (mask 4)" "(0xFFE00000 :: SINT64) = push_bit 21 (mask 11)"
  "(0xFFFFC000 :: SINT64) = push_bit 14 (mask 18)" "(0xFFFFFF80 :: SINT64) = push_bit 7 (mask 25)"
  by (simp_all add: mask_eq_exp_minus_1)

lemma record_number_size_put:
  assumes "unat v < 2 ^ 35"
  shows "record_number_size v = length (put_unlimited 5 v)"
proof -
  have "unat v < 2 ^ (7 * 4 + 7)" using assms by simp
  from put_unlimited_limited [OF this] have "put_unlimited 5 v = put_limited (mask 7) 4 v"
    by (simp only: numeral_eq_Suc pred_numeral_simps) simp
  moreover have "unat v < 2 ^ 63" using assms by (rule pow_63) simp
  moreover have "unat v < 2 ^ (28 + 12)" "unat v < 2 ^ (21 + 19)" "unat v < 2 ^ (14 + 26)" "unat v < 2 ^ (7 + 33)"
    using assms by simp_all
  ultimately show ?thesis
    by (simp only: record_number_size_def size_masks and_high length_put_limited_4 not_less)
qed

lemma page_number_size_put: "page_number_size (ucast (v :: ULONG)) = length (put_limited m 4 (ucast v))"
proof -
  have "unat (ucast v :: SINT64) < 2 ^ 32" unfolding unat_ucast_64 by simp
  moreover then have "unat (ucast v :: SINT64) < 2 ^ 63" by (rule pow_63) simp
  moreover have "unat (ucast v :: SINT64) < 2 ^ (28 + 4)" "unat (ucast v :: SINT64) < 2 ^ (21 + 11)"
    "unat (ucast v :: SINT64) < 2 ^ (14 + 18)" "unat (ucast v :: SINT64) < 2 ^ (7 + 25)" unfolding unat_ucast_64 by simp_all
  ultimately show ?thesis
    by (simp only: page_number_size_def size_masks and_high length_put_limited_4 not_less)
qed

lemma short_size_put:
  assumes "unat (v :: USHORT) < 2 ^ 14"
  shows "short_size (ucast v) = length (put_limited m 1 (ucast v))"
proof -
  have small: "unat (ucast v :: SINT64) < 2 ^ 14" using assms unfolding unat_ucast_64 .
  then have "unat (ucast v :: SINT64) < 2 ^ 63" by (rule pow_63) simp
  moreover have "unat (ucast v :: SINT64) < 2 ^ (14 + 18)" "unat (ucast v :: SINT64) < 2 ^ (7 + 25)" using small by simp_all
  ultimately show ?thesis
    using small by (simp only: short_size_def size_masks and_high length_put_limited_1 not_less) simp
qed

lemma put_limited_le: "length (put_limited m k v) \<le> k + 1"
  by (induction k arbitrary: v) (simp_all add: Let_def)

lemma put_unlimited_le: "length (put_unlimited k v) \<le> k"
  by (induction k arbitrary: v) (simp_all add: Let_def)

lemma node_header_le: "length (node_header n leafNode) \<le> 15"
  using put_limited_le [of "0x0F" 4 "ucast (node_pageNumber n)"] put_unlimited_le [of 5 "signed_drop_bit 5 (stored_number n)"]
    put_limited_le [of "0x7F" 1 "ucast (node_prefix n)"] put_limited_le [of "0x7F" 1 "ucast (node_length n)"]
  by (simp add: node_header_parts header_page_def header_prefix_def header_length_def)

lemma getNodeSize_header:
  assumes "node_fits n"
  shows "unat (getNodeSize n leafNode) = length (node_header n leafNode) + unat (node_length n)"
proof (cases "node_isEndLevel n")
  case True
  then show ?thesis using assms by (simp add: getNodeSize_def node_header_parts node_fits_def)
next
  case False
  have v: "stored_number n = rn_value (node_recordNumber n)" by (rule stored_number_fits [OF assms])
  have "unat (rn_value (node_recordNumber n)) < 2 ^ 40" using assms by (simp add: node_fits_def)
  then have "unat (stored_number n) < 2 ^ (5 + 35)" by (simp add: v)
  then have "signed_drop_bit 5 (stored_number n) = drop_bit 5 (stored_number n)"
    and "unat (drop_bit 5 (stored_number n)) < 2 ^ 35"
    by (simp_all only: small_nonneg(2) [OF pow_63] drop_bit_small)
  then have rec: "record_number_size (signed_drop_bit 5 (stored_number n)) = length (put_unlimited 5 (signed_drop_bit 5 (stored_number n)))"
    by (simp only: record_number_size_put)
  have short: "short_size (ucast (node_prefix n)) = length (put_limited 0x7F 1 (ucast (node_prefix n)))"
    "short_size (ucast (node_length n)) = length (put_limited 0x7F 1 (ucast (node_length n)))"
  proof -
    have "unat (node_prefix n) < 2 ^ 14" "unat (node_length n) < 2 ^ 14" using assms by (simp_all add: node_fits_def)
    then show "short_size (ucast (node_prefix n)) = length (put_limited 0x7F 1 (ucast (node_prefix n)))"
      "short_size (ucast (node_length n)) = length (put_limited 0x7F 1 (ucast (node_length n)))"
      by (simp_all only: short_size_put)
  qed
  have "getNodeSize n leafNode = of_nat (length (node_header n leafNode)) + node_length n"
    using False by (simp only: getNodeSize_def node_header_parts header_page_def header_prefix_def header_length_def if_False
        rec short page_number_size_put [of _ "0x0F"] list.size length_append if_distrib [of length] add_0 insert_iff empty_iff) simp
  moreover have "length (node_header n leafNode) + unat (node_length n) < 2 ^ 16"
    using node_header_le [of n leafNode] assms by (simp add: node_fits_def)
  ultimately show ?thesis by (simp add: unat_word_ariths unat_of_nat)
qed

section \<open>Writing to a page\<close>

lemma mem_write_twice:
  assumes "pos + length h + length d \<le> length page"
  shows "mem_write page (pos + length h) d = Some (take (pos + length h) page @ d @ drop (pos + length h + length d) page)"
    and "mem_write (take (pos + length h) page @ d @ drop (pos + length h + length d) page) pos h =
      Some (take pos page @ h @ d @ drop (pos + length h + length d) page)"
    and "mem_write page pos h = Some (take pos page @ h @ drop (pos + length h) page)"
    and "mem_write (take pos page @ h @ drop (pos + length h) page) (pos + length h) d =
      Some (take pos page @ h @ d @ drop (pos + length h + length d) page)"
  using assms by (simp_all add: mem_write_def add.commute add.left_commute)

lemma data_bytes_length: "data_bytes page p n = Some d \<Longrightarrow> length d = n"
  by (auto simp: data_bytes_def mem_read_def split: data_pointer.splits if_splits)

text \<open>The source of the data is not in the part of the page that is written.\<close>

definition apart :: "data_pointer \<Rightarrow> nat \<Rightarrow> nat \<Rightarrow> nat \<Rightarrow> bool" where
  "apart p n pos k = (case p of InPage d \<Rightarrow> d + n \<le> pos \<or> pos + k \<le> d | Outside bs \<Rightarrow> True)"

lemma take_drop_append: "k + n \<le> length xs \<Longrightarrow> take n (drop k (xs @ ys)) = take n (drop k xs)"
  by simp

lemma take_drop_take: "k + n \<le> m \<Longrightarrow> take n (drop k (take m xs)) = take n (drop k xs)"
  by (simp add: drop_take min_def)

lemma data_bytes_apart:
  assumes "data_bytes page p n = Some d" and "apart p n pos (length h)" and "pos + length h \<le> length page"
  shows "data_bytes (take pos page @ h @ drop (pos + length h) page) p n = Some d"
proof (cases p)
  case (InPage k)
  then have d: "k + n \<le> length page" "d = take n (drop k page)"
    using assms(1) by (auto simp: data_bytes_def mem_read_def split: if_splits)
  have "take n (drop k (take pos page @ h @ drop (pos + length h) page)) = take n (drop k page)"
  proof (cases "k + n \<le> pos")
    case True
    then show ?thesis using assms(3) by (simp only: take_drop_append take_drop_take length_take min.absorb2 add_leD1)
  next
    case False
    then have "pos + length h \<le> k" using assms(2) InPage by (simp add: apart_def)
    then show ?thesis using assms(3) by simp
  qed
  then show ?thesis using InPage d assms(3) by (simp add: data_bytes_def mem_read_def)
qed (use assms(1) in \<open>simp add: data_bytes_def\<close>)

lemma writeNode_page:
  assumes fits: "node_fits n" and data: "data_bytes page (node_data n) (unat (node_length n)) = Some d"
    and room: "pos + length (node_header n leafNode) + unat (node_length n) \<le> length page"
    and apart: "withData \<longrightarrow> apart (node_data n) (unat (node_length n)) pos (length (node_header n leafNode) + unat (node_length n))"
  shows "writeNode page pos leafNode withData n =
    Some (take pos page @ node_header n leafNode @ d @ drop (pos + length (node_header n leafNode) + length d) page,
      n\<lparr>nodePointer := pos\<rparr>, pos + unat (getNodeSize n leafNode))"
proof -
  let ?h = "node_header n leafNode" let ?len = "unat (node_length n)"
  have size: "unat (getNodeSize n leafNode) = length ?h + ?len" by (rule getNodeSize_header [OF fits])
  have d: "length d = ?len" using data by (rule data_bytes_length)
  have "node_length n \<le> getNodeSize n leafNode" by (simp add: word_le_nat_alt size)
  then have off: "unat (getNodeSize n leafNode - node_length n) = length ?h" by (simp add: unat_sub size)
  have room': "pos + length ?h + length d \<le> length page" using room d by simp
  note mem = mem_write_twice [OF room']
  have end_level: "node_isEndLevel n \<Longrightarrow> length ?h = 1 \<and> ?len = 0 \<and> d = []"
    using fits d by (simp add: node_header_parts node_fits_def)
  show ?thesis
  proof (cases withData)
    case False
    have "writeNode page pos leafNode withData n =
      (if node_isEndLevel n then Some (take pos page @ ?h @ d @ drop (pos + length ?h + length d) page, n\<lparr>nodePointer := pos\<rparr>, pos + 1)
       else Some (take pos page @ ?h @ d @ drop (pos + length ?h + length d) page, n\<lparr>nodePointer := pos\<rparr>, pos + length ?h + ?len))"
      using False unfolding writeNode_def Let_def by (simp only: if_False data bind.bind_lunit off mem)
    then show ?thesis using end_level by (auto simp: size)
  next
    case True
    have ap: "apart (node_data n) ?len pos (length ?h)" "\<nexists>k. node_data n = InPage k \<and> k < pos + length ?h + ?len \<and> pos + length ?h < k + ?len"
      using apart True by (auto simp: apart_def split: data_pointer.splits)
    have "data_bytes (take pos page @ ?h @ drop (pos + length ?h) page) (node_data n) ?len = Some d"
      by (rule data_bytes_apart [OF data ap(1)]) (use room in simp)
    then have "memcpy_from (take pos page @ ?h @ drop (pos + length ?h) page) (pos + length ?h) (node_data n) ?len =
        Some (take pos page @ ?h @ d @ drop (pos + length ?h + length d) page)"
      unfolding memcpy_from_def using ap(2) by (simp only: if_False bind.bind_lunit mem)
    then have "writeNode page pos leafNode withData n =
      (if node_isEndLevel n then Some (take pos page @ ?h @ drop (pos + length ?h) page, n\<lparr>nodePointer := pos\<rparr>, pos + 1)
       else Some (take pos page @ ?h @ d @ drop (pos + length ?h + length d) page, n\<lparr>nodePointer := pos\<rparr>, pos + length ?h + ?len))"
      using True unfolding writeNode_def Let_def by (simp only: if_True bind.bind_lunit mem)
    then show ?thesis using end_level by (auto simp: size)
  qed
qed

text \<open>A node for examples: the data with the record number 700.\<close>

definition sample_node :: "UCHAR list \<Rightarrow> IndexNode" where
  "sample_node d = (setNode 0 (of_nat (length d)) (RecordNumber_of 700) 0 False False IndexNode_new)\<lparr>node_data := Outside d\<rparr>"

text \<open>C5. A node that fits its format is read back from the page that it was written to, with its data
  behind its header; \<open>writeNode\<close> stores exactly \<open>getNodeSize\<close> bytes and leaves the rest of the page. If
  the data are moved first, they may lie anywhere in the page, under the node as well.\<close>
theorem btn_write_read:
  assumes "node_fits n" and "data_bytes page (node_data n) (unat (node_length n)) = Some d"
    and "pos + unat (getNodeSize n leafNode) \<le> length page"
    and "withData \<longrightarrow> apart (node_data n) (unat (node_length n)) pos (unat (getNodeSize n leafNode))"
  shows "\<exists>page'. writeNode page pos leafNode withData n = Some (page', n\<lparr>nodePointer := pos\<rparr>, pos + unat (getNodeSize n leafNode)) \<and>
    length page' = length page \<and> take pos page' = take pos page \<and>
    drop (pos + unat (getNodeSize n leafNode)) page' = drop (pos + unat (getNodeSize n leafNode)) page \<and>
    readNode page' pos leafNode m = Some (node_read n leafNode pos m, pos + unat (getNodeSize n leafNode)) \<and>
    (\<not> node_isEndLevel n \<longrightarrow> data_bytes page' (node_data (node_read n leafNode pos m)) (unat (node_length n)) = Some d)"
proof -
  let ?h = "node_header n leafNode" let ?len = "unat (node_length n)"
  have size: "unat (getNodeSize n leafNode) = length ?h + ?len" by (rule getNodeSize_header [OF assms(1)])
  have d: "length d = ?len" using assms(2) by (rule data_bytes_length)
  define page' where "page' = take pos page @ ?h @ d @ drop (pos + length ?h + length d) page"
  have room: "pos + length ?h + ?len \<le> length page" using assms(3) size by simp
  have wr: "writeNode page pos leafNode withData n = Some (page', n\<lparr>nodePointer := pos\<rparr>, pos + unat (getNodeSize n leafNode))"
    unfolding page'_def by (rule writeNode_page [OF assms(1,2) room]) (use assms(4) size in simp)
  have *: "readNode (take pos page @ ?h @ d @ drop (pos + length ?h + length d) page) (length (take pos page)) leafNode m =
      Some (node_read n leafNode (length (take pos page)) m, length (take pos page) + length ?h + ?len)"
    by (rule readNode_header [OF assms(1)])
  have rd: "readNode page' pos leafNode m = Some (node_read n leafNode pos m, pos + unat (getNodeSize n leafNode))"
  proof -
    have "length (take pos page) = pos" using room by simp
    with *[folded page'_def] show ?thesis by (simp only: size add.assoc)
  qed
  have "data_bytes page' (InPage (pos + length ?h)) ?len = Some d"
    using room d by (simp add: data_bytes_def mem_read_def page'_def)
  then have "\<not> node_isEndLevel n \<longrightarrow> data_bytes page' (node_data (node_read n leafNode pos m)) ?len = Some d" by (simp add: node_read_def)
  moreover have "length page' = length page" "take pos page' = take pos page"
    "drop (pos + unat (getNodeSize n leafNode)) page' = drop (pos + unat (getNodeSize n leafNode)) page"
    using room d size by (simp_all add: page'_def add.assoc)
  ultimately show ?thesis using wr rd by blast
qed

theorem btn_write_read_witness:
  "\<exists>page' n. writeNode (replicate 40 0) 3 True True (sample_node [7, 8]) = Some (page', n, 3 + unat (getNodeSize (sample_node [7, 8]) True)) \<and>
     readNode page' 3 True IndexNode_new = Some (node_read (sample_node [7, 8]) True 3 IndexNode_new, 3 + unat (getNodeSize (sample_node [7, 8]) True))"
proof -
  let ?n = "sample_node [7, 8]"
  have fits: "node_fits ?n" and len: "unat (node_length ?n) = 2"
    by (simp_all add: node_fits_def sample_node_def setNode_def rn_assign_def RecordNumber_of_def IndexNode_new_def)
  have "3 + unat (getNodeSize ?n True) \<le> length (replicate 40 (0 :: UCHAR))"
    using node_header_le [of ?n True] by (simp add: getNodeSize_header [OF fits] len)
  then show ?thesis
    using btn_write_read [OF fits, of "replicate 40 0" "[7, 8]" 3 True True IndexNode_new] len
    by (auto simp: sample_node_def data_bytes_def apart_def)
qed

end
