(* ===== verification/FB_Btn_Page.thy ===== *)
theory FB_Btn_Page
  imports FB_Btn_Codec
begin

text \<open>
  Pages of index nodes: the keys that prefix compression gives back, the search among duplicates,
  and jump nodes.
\<close>

section \<open>Common prefixes\<close>

lemma prefix_loop_common:
  assumes "l = min (length ps) (length ss)"
  shows "prefix_loop l ps ss \<le> l \<and> take (prefix_loop l ps ss) ps = take (prefix_loop l ps ss) ss \<and>
    (prefix_loop l ps ss < l \<longrightarrow> ps ! prefix_loop l ps ss \<noteq> ss ! prefix_loop l ps ss)"
  using assms
proof (induction l ps ss rule: prefix_loop.induct)
  case (1 l p ps s ss)
  show ?case
  proof (cases "p = s \<and> l \<noteq> 0")
    case True
    then show ?thesis using 1 by simp
  next
    case False
    then show ?thesis using 1(2) by (cases l) auto
  qed
qed auto

lemma computePrefix_common:
  assumes "length prev < 2 ^ 16" and "length str < 2 ^ 16"
  defines "k \<equiv> unat (computePrefix prev str)"
  shows "k \<le> length prev \<and> k \<le> length str \<and> take k prev = take k str \<and>
    (k < length prev \<longrightarrow> k < length str \<longrightarrow> prev ! k \<noteq> str ! k)"
proof -
  let ?l = "min (length prev) (length str)"
  have common: "prefix_loop ?l prev str \<le> ?l \<and> take (prefix_loop ?l prev str) prev = take (prefix_loop ?l prev str) str \<and>
    (prefix_loop ?l prev str < ?l \<longrightarrow> prev ! prefix_loop ?l prev str \<noteq> str ! prefix_loop ?l prev str)"
    by (rule prefix_loop_common) simp
  have "k = prefix_loop ?l prev str"
  proof (cases "?l = 0")
    case True
    then show ?thesis using common by (simp add: k_def computePrefix_def)
  next
    case False
    have "prefix_loop ?l prev str < 2 ^ 16" using common assms(1) by linarith
    then show ?thesis using False by (simp add: k_def computePrefix_def Let_def unat_of_nat)
  qed
  then show ?thesis using common by auto
qed

section \<open>Stored nodes\<close>

fun stored :: "UCHAR list \<Rightarrow> bool \<Rightarrow> nat \<Rightarrow> (IndexNode \<times> UCHAR list) list \<Rightarrow> bool" where
  "stored page leafNode pos [] = True"
| "stored page leafNode pos ((n, d) # ns) =
     (node_fits n \<and> unat (node_length n) = length d \<and>
      take (length (node_header n leafNode) + length d) (drop pos page) = node_header n leafNode @ d \<and>
      stored page leafNode (pos + length (node_header n leafNode) + length d) ns)"

lemma stored_readNode:
  assumes "stored page leafNode pos ((n, d) # ns)"
  shows "readNode page pos leafNode m =
      Some (node_read n leafNode pos m, pos + length (node_header n leafNode) + length d) \<and>
    (\<not> node_isEndLevel n \<longrightarrow> data_bytes page (InPage (pos + length (node_header n leafNode))) (length d) = Some d)"
proof -
  let ?h = "node_header n leafNode"
  have fits: "node_fits n" "unat (node_length n) = length d" and bytes: "take (length ?h + length d) (drop pos page) = ?h @ d"
    using assms by simp_all
  have "0 < length ?h" by (simp add: node_header_parts)
  have "length (drop pos page) \<ge> length ?h + length d" using arg_cong [OF bytes, of length] by simp
  then have room: "pos + length ?h + length d \<le> length page" using \<open>0 < length ?h\<close> unfolding length_drop by linarith
  have "drop pos page = (?h @ d) @ drop (length ?h + length d) (drop pos page)"
    using append_take_drop_id [of "length ?h + length d" "drop pos page"] bytes by simp
  then have page: "page = take pos page @ ?h @ d @ drop (pos + length ?h + length d) page"
    using append_take_drop_id [of pos page] by (simp add: add.commute add.left_commute)
  have len: "length (take pos page) = pos" using room by simp
  have "readNode (take pos page @ ?h @ d @ drop (pos + length ?h + length d) page) (length (take pos page)) leafNode m =
      Some (node_read n leafNode (length (take pos page)) m, length (take pos page) + length ?h + unat (node_length n))"
    by (rule readNode_header [OF fits(1)])
  then have "readNode page pos leafNode m = Some (node_read n leafNode pos m, pos + length ?h + length d)"
    unfolding page [symmetric] len fits(2) .
  moreover have "take (length d) (drop (pos + length ?h) page) = d"
  proof -
    have "drop (length ?h) (take (length ?h + length d) (drop pos page)) = d" unfolding bytes by simp
    then show ?thesis by (simp add: drop_take add.commute)
  qed
  then have "data_bytes page (InPage (pos + length ?h)) (length d) = Some d"
    using room by (simp add: data_bytes_def mem_read_def)
  ultimately show ?thesis by simp
qed

section \<open>Duplicates\<close>

text \<open>Nodes that \<open>findPageInDuplicates\<close> passes on its way.\<close>

definition passed :: "RecordNumber \<Rightarrow> IndexNode \<Rightarrow> bool" where
  "passed findRecordNumber n \<longleftrightarrow> \<not> node_isEndBucket n \<and> \<not> rn_le findRecordNumber (node_recordNumber n)"

definition last_page :: "SLONG \<Rightarrow> IndexNode list \<Rightarrow> SLONG" where
  "last_page previousNumber ns = (if ns = [] then previousNumber else node_pageNumber (last ns))"

definition duplicate_of :: "IndexNode \<Rightarrow> IndexNode \<Rightarrow> bool" where
  "duplicate_of n d \<longleftrightarrow>
     \<not> node_isEndLevel d \<and> node_length d = 0 \<and> unat (node_prefix d) = unat (node_length n) + unat (node_prefix n)"

lemma node_read_simps [simp]:
  "node_prefix (node_read n leafNode pos m) = node_prefix n" "node_length (node_read n leafNode pos m) = node_length n"
  "node_pageNumber (node_read n False pos m) = node_pageNumber n"
  "node_isEndBucket (node_read n leafNode pos m) = node_isEndBucket n" "node_isEndLevel (node_read n leafNode pos m) = node_isEndLevel n"
  "rn_le r (node_recordNumber (node_read n leafNode pos m)) = rn_le r (node_recordNumber n)"
  by (simp_all add: node_read_def rn_le_def rn_setValue_def)

lemma duplicates_loop_stored:
  assumes "stored page False pos (ds @ [t])" and "\<forall>d \<in> set ds. duplicate_of n (fst d)"
    and "node_isEndBucket (fst t) \<or> \<not> duplicate_of n (fst t)"
  shows "duplicates_loop page False r (node_read n False p m) pos previousNumber =
    Some (last_page previousNumber (takeWhile (passed r) (n # map fst ds)))"
  using assms
proof (induction ds arbitrary: n p m pos previousNumber)
  case Nil
  obtain tn td where t: "t = (tn, td)" by (cases t)
  let ?m = "node_read n False p m"
  have rd: "readNode page pos False ?m = Some (node_read tn False pos ?m, pos + length (node_header tn False) + length td)"
    using stored_readNode [of page False pos tn td "[]" ?m] Nil.prems(1) by (simp add: t)
  show ?case
  proof (cases "passed r n")
    case False
    then show ?thesis by (subst duplicates_loop.simps) (auto simp: passed_def last_page_def)
  next
    case True
    show ?thesis
    proof (cases "duplicate_of n tn")
      case True
      then have tb: "node_isEndBucket tn" using Nil.prems(3) by (simp add: t)
      have "duplicates_loop page False r ?m pos previousNumber =
          duplicates_loop page False r (node_read tn False pos ?m) (pos + length (node_header tn False) + length td) (node_pageNumber n)"
        using True \<open>passed r n\<close> rd by (subst duplicates_loop.simps) (simp add: passed_def duplicate_of_def)
      also have "\<dots> = Some (node_pageNumber n)" using tb by (subst duplicates_loop.simps) simp
      finally show ?thesis using \<open>passed r n\<close> by (simp add: last_page_def)
    next
      case False
      then have "duplicates_loop page False r ?m pos previousNumber = Some (node_pageNumber n)"
        using \<open>passed r n\<close> rd by (subst duplicates_loop.simps) (auto simp: passed_def duplicate_of_def)
      then show ?thesis using \<open>passed r n\<close> by (simp add: last_page_def)
    qed
  qed
next
  case (Cons d ds)
  obtain dn dd where d: "d = (dn, dd)" by (cases d)
  let ?m = "node_read n False p m" let ?pos = "pos + length (node_header dn False) + length dd"
  have rd: "readNode page pos False ?m = Some (node_read dn False pos ?m, ?pos)"
    using stored_readNode [of page False pos dn dd "ds @ [t]" ?m] Cons.prems(1) by (simp add: d)
  have dup: "duplicate_of n dn" using Cons.prems(2) by (simp add: d)
  then have same: "duplicate_of dn x = duplicate_of n x" for x by (simp add: duplicate_of_def)
  show ?case
  proof (cases "passed r n")
    case False
    then show ?thesis by (subst duplicates_loop.simps) (auto simp: passed_def last_page_def)
  next
    case True
    have "duplicates_loop page False r ?m pos previousNumber =
        duplicates_loop page False r (node_read dn False pos ?m) ?pos (node_pageNumber n)"
      using dup True rd by (subst duplicates_loop.simps) (simp add: passed_def duplicate_of_def)
    also have "\<dots> = Some (last_page (node_pageNumber n) (takeWhile (passed r) (dn # map fst ds)))"
      by (rule Cons.IH) (use Cons.prems same in \<open>auto simp: d\<close>)
    finally show ?thesis using True by (auto simp: last_page_def d)
  qed
qed

text \<open>C27. Among the nodes of a key on a page above the leaves, \<open>findPageInDuplicates\<close> gives the page of
  the last one whose record number is less than the wanted one, or the given page if there is none.\<close>
theorem btn_find_in_duplicates:
  assumes "stored page False pos (n # ds @ [t])" and "\<forall>d \<in> set ds. duplicate_of (fst n) (fst d)"
    and "node_isEndBucket (fst t) \<or> \<not> duplicate_of (fst n) (fst t)"
  shows "findPageInDuplicates page False pos previousNumber r =
    Some (last_page previousNumber (takeWhile (passed r) (map fst (n # ds))))"
proof -
  obtain nn nd where n: "n = (nn, nd)" by (cases n)
  have "readNode page pos False IndexNode_new = Some (node_read nn False pos IndexNode_new, pos + length (node_header nn False) + length nd)"
    using stored_readNode [of page False pos nn nd "ds @ [t]" IndexNode_new] assms(1) by (simp add: n)
  then have "findPageInDuplicates page False pos previousNumber r =
      duplicates_loop page False r (node_read nn False pos IndexNode_new) (pos + length (node_header nn False) + length nd) previousNumber"
    by (simp add: findPageInDuplicates_def)
  also have "\<dots> = Some (last_page previousNumber (takeWhile (passed r) (nn # map fst ds)))"
    by (rule duplicates_loop_stored) (use assms in \<open>simp_all add: n\<close>)
  finally show ?thesis by (simp add: n)
qed

theorem btn_find_in_duplicates_witness:
  "\<exists>page. findPageInDuplicates page False 0 9 (RecordNumber_of 20) = Some 3 \<and> findPageInDuplicates page False 0 9 (RecordNumber_of 4) = Some 9"
proof -
  let ?n = "setNode 0 1 (RecordNumber_of 10) 2 False False IndexNode_new"
  let ?d = "setNode 1 0 (RecordNumber_of 15) 3 False False IndexNode_new"
  let ?t = "setEndLevel IndexNode_new"
  let ?page = "node_header ?n False @ [7] @ node_header ?d False @ node_header ?t False"
  have fits: "node_fits ?n" "node_fits ?d" "node_fits ?t"
    by (simp_all add: node_fits_def setNode_def setEndLevel_def rn_assign_def RecordNumber_of_def rn_setValue_def IndexNode_new_def)
  have st: "stored ?page False 0 ((?n, [7 :: UCHAR]) # [(?d, [] :: UCHAR list)] @ [(?t, [] :: UCHAR list)])"
    using fits by (simp add: setNode_def setEndLevel_def)
  have dup: "\<forall>d \<in> set [(?d, [] :: UCHAR list)]. duplicate_of (fst (?n, [7 :: UCHAR])) (fst d)" "\<not> duplicate_of (fst (?n, [7 :: UCHAR])) (fst (?t, [] :: UCHAR list))"
    by (simp_all add: duplicate_of_def setNode_def setEndLevel_def)
  have "findPageInDuplicates ?page False 0 9 (RecordNumber_of r) =
      Some (last_page 9 (takeWhile (passed (RecordNumber_of r)) (map fst ((?n, [7 :: UCHAR]) # [(?d, [] :: UCHAR list)]))))" for r
    using btn_find_in_duplicates [OF st dup(1)] dup(2) by blast
  then show ?thesis
    by (intro exI [of _ ?page])
      (simp add: passed_def last_page_def setNode_def rn_le_def rn_assign_def RecordNumber_of_def word_sle_eq)
qed

section \<open>Keys\<close>

text \<open>The node of a key after the key \<open>prev\<close>, as the loading of an index makes it.\<close>

definition key_node :: "UCHAR list \<Rightarrow> UCHAR list \<Rightarrow> SINT64 \<Rightarrow> ULONG \<Rightarrow> IndexNode" where
  "key_node prev key number pageNumber =
     (setNode (computePrefix prev key) (of_nat (length key) - computePrefix prev key) (RecordNumber_of number) pageNumber
        False False IndexNode_new)\<lparr>node_data := Outside (drop (unat (computePrefix prev key)) key)\<rparr>"

fun write_keys ::
  "UCHAR list \<Rightarrow> nat \<Rightarrow> bool \<Rightarrow> UCHAR list \<Rightarrow> (UCHAR list \<times> SINT64 \<times> ULONG) list \<Rightarrow> (UCHAR list \<times> nat) option" where
  "write_keys page pos leafNode prev [] = Some (page, pos)"
| "write_keys page pos leafNode prev ((key, number, pageNumber) # ks) =
     (case writeNode page pos leafNode True (key_node prev key number pageNumber) of
        None \<Rightarrow> None
      | Some (page, n, pos) \<Rightarrow> write_keys page pos leafNode key ks)"

text \<open>The keys of a page: each one is the prefix of the one before it with the data of its node.\<close>

fun read_keys ::
  "UCHAR list \<Rightarrow> nat \<Rightarrow> bool \<Rightarrow> UCHAR list \<Rightarrow> nat \<Rightarrow> IndexNode \<Rightarrow> ((UCHAR list \<times> SINT64) list \<times> nat) option" where
  "read_keys page pos leafNode prev 0 n = Some ([], pos)"
| "read_keys page pos leafNode prev (Suc c) n =
     (case readNode page pos leafNode n of
        None \<Rightarrow> None
      | Some (n, pos) \<Rightarrow>
          (case data_bytes page (node_data n) (unat (node_length n)) of
             None \<Rightarrow> None
           | Some d \<Rightarrow>
               let key = take (unat (node_prefix n)) prev @ d
               in map_option (\<lambda>(ks, pos). ((key, rn_value (node_recordNumber n)) # ks, pos)) (read_keys page pos leafNode key c n)))"

fun keys_size :: "bool \<Rightarrow> UCHAR list \<Rightarrow> (UCHAR list \<times> SINT64 \<times> ULONG) list \<Rightarrow> nat" where
  "keys_size leafNode prev [] = 0"
| "keys_size leafNode prev ((key, number, pageNumber) # ks) =
     unat (getNodeSize (key_node prev key number pageNumber) leafNode) + keys_size leafNode key ks"

fun key_nodes :: "UCHAR list \<Rightarrow> (UCHAR list \<times> SINT64 \<times> ULONG) list \<Rightarrow> (IndexNode \<times> UCHAR list) list" where
  "key_nodes prev [] = []"
| "key_nodes prev ((key, number, pageNumber) # ks) =
     (key_node prev key number pageNumber, drop (unat (computePrefix prev key)) key) # key_nodes key ks"

lemma key_node_fits:
  assumes "length prev < 2 ^ 14" and "length key < 2 ^ 14" and "0 \<le> sint number" and "unat number < 2 ^ 40"
  shows "node_fits (key_node prev key number pageNumber)"
    and "unat (node_length (key_node prev key number pageNumber)) = length (drop (unat (computePrefix prev key)) key)"
    and "take (unat (computePrefix prev key)) prev @ drop (unat (computePrefix prev key)) key = key"
proof -
  let ?k = "computePrefix prev key"
  have k: "unat ?k \<le> length prev" "unat ?k \<le> length key" "take (unat ?k) prev = take (unat ?k) key"
    using computePrefix_common [of prev key] assms(1,2) by simp_all
  have len: "unat (of_nat (length key) :: USHORT) = length key" using assms(2) by (simp add: unat_of_nat)
  then have "?k \<le> of_nat (length key)" using k(2) by (simp add: word_le_nat_alt)
  then have l: "unat (of_nat (length key) - ?k) = length key - unat ?k" by (simp only: unat_sub len)
  then show "unat (node_length (key_node prev key number pageNumber)) = length (drop (unat ?k) key)"
    by (simp add: key_node_def setNode_def)
  show "take (unat ?k) prev @ drop (unat ?k) key = key" using k(3) by simp
  have "unat ?k < 2 ^ 14" "length key - unat ?k < 2 ^ 14" using k(2) assms(2) by simp_all
  then show "node_fits (key_node prev key number pageNumber)"
    using assms(3,4) l by (simp add: node_fits_def key_node_def setNode_def rn_assign_def RecordNumber_of_def IndexNode_new_def)
qed

text \<open>Bytes before a position decide what is stored before it.\<close>

lemma write_keys_stored:
  assumes "\<forall>(key, number, pg) \<in> set ks. length key < 2 ^ 14 \<and> 0 \<le> sint number \<and> unat number < 2 ^ 40" and "length prev < 2 ^ 14"
    and "pos + keys_size leafNode prev ks \<le> length page"
  shows "\<exists>page'. write_keys page pos leafNode prev ks = Some (page', pos + keys_size leafNode prev ks) \<and>
    length page' = length page \<and> take pos page' = take pos page \<and> stored page' leafNode pos (key_nodes prev ks)"
  using assms
proof (induction ks arbitrary: page pos prev)
  case (Cons k ks)
  obtain key number pg where k: "k = (key, number, pg)" by (cases k)
  let ?n = "key_node prev key number pg" let ?d = "drop (unat (computePrefix prev key)) key" let ?h = "node_header ?n leafNode"
  have key: "length key < 2 ^ 14" "0 \<le> sint number" "unat number < 2 ^ 40" using Cons.prems(1) by (auto simp: k)
  note n = key_node_fits(1,2) [OF Cons.prems(2) key, of pg] key_node_fits(3) [OF Cons.prems(2) key]
  have size: "unat (getNodeSize ?n leafNode) = length ?h + length ?d" by (simp only: getNodeSize_header [OF n(1)] n(2))
  define page1 where "page1 = take pos page @ ?h @ ?d @ drop (pos + length ?h + length ?d) page"
  have room: "pos + length ?h + length ?d \<le> length page" using Cons.prems(3) size by (simp add: k)
  have "data_bytes page (node_data ?n) (unat (node_length ?n)) = Some ?d"
    unfolding n(2) by (simp add: key_node_def data_bytes_def)
  then have wr: "writeNode page pos leafNode True ?n = Some (page1, ?n\<lparr>nodePointer := pos\<rparr>, pos + unat (getNodeSize ?n leafNode))"
    unfolding page1_def by (intro writeNode_page [OF n(1)]) (use room n(2) in \<open>simp_all add: apart_def key_node_def\<close>)
  let ?pos = "pos + length ?h + length ?d"
  have len1: "length page1 = length page" using room by (simp add: page1_def)
  have "\<exists>page'. write_keys page1 ?pos leafNode key ks = Some (page', ?pos + keys_size leafNode key ks) \<and>
    length page' = length page1 \<and> take ?pos page' = take ?pos page1 \<and> stored page' leafNode ?pos (key_nodes key ks)"
    by (rule Cons.IH) (use Cons.prems size in \<open>auto simp: k len1\<close>)
  then obtain page' where page': "write_keys page1 ?pos leafNode key ks = Some (page', ?pos + keys_size leafNode key ks)"
    "length page' = length page1" "take ?pos page' = take ?pos page1" "stored page' leafNode ?pos (key_nodes key ks)" by blast
  have "take pos (take ?pos page') = take pos (take ?pos page1)" by (simp only: page'(3))
  then have same: "take pos page' = take pos page1" by (simp only: take_take min_absorb1)
  also have "take pos page1 = take pos page" using room by (simp add: page1_def)
  finally have before: "take pos page' = take pos page" .
  have "take (length ?h + length ?d) (drop pos page') = drop pos (take ?pos page')" by (simp add: take_drop add.commute add.left_commute)
  also have "\<dots> = ?h @ ?d" unfolding page'(3) using room by (simp add: page1_def)
  finally have bytes: "take (length ?h + length ?d) (drop pos page') = ?h @ ?d" .
  have "stored page' leafNode pos (key_nodes prev (k # ks))"
    using n(1,2) bytes page'(4) by (simp add: k)
  moreover have "write_keys page pos leafNode prev (k # ks) = Some (page', pos + keys_size leafNode prev (k # ks))"
    using wr page'(1) size by (simp add: k add.assoc)
  ultimately show ?case using before page'(2) len1 by simp
qed simp

lemma stored_read_keys:
  assumes "stored page leafNode pos (key_nodes prev ks)" and "length prev < 2 ^ 14"
    and "\<forall>(key, number, pg) \<in> set ks. length key < 2 ^ 14 \<and> 0 \<le> sint number \<and> unat number < 2 ^ 40"
  shows "read_keys page pos leafNode prev (length ks) n =
    Some (map (\<lambda>(key, number, pg). (key, number)) ks, pos + keys_size leafNode prev ks)"
  using assms
proof (induction ks arbitrary: pos prev n)
  case (Cons k ks)
  obtain key number pg where k: "k = (key, number, pg)" by (cases k)
  let ?n = "key_node prev key number pg" let ?d = "drop (unat (computePrefix prev key)) key" let ?h = "node_header ?n leafNode"
  have key: "length key < 2 ^ 14" "0 \<le> sint number" "unat number < 2 ^ 40" using Cons.prems(3) by (auto simp: k)
  note n = key_node_fits(1,2) [OF Cons.prems(2) key, of pg] key_node_fits(3) [OF Cons.prems(2) key]
  have size: "unat (getNodeSize ?n leafNode) = length ?h + length ?d" by (simp only: getNodeSize_header [OF n(1)] n(2))
  have st: "stored page leafNode pos ((?n, ?d) # key_nodes key ks)" using Cons.prems(1) by (simp add: k)
  have lvl: "\<not> node_isEndLevel ?n" "node_prefix ?n = computePrefix prev key" "rn_value (node_recordNumber ?n) = number"
    by (simp_all add: key_node_def setNode_def rn_assign_def RecordNumber_of_def)
  let ?m = "node_read ?n leafNode pos n"
  have rd: "readNode page pos leafNode n = Some (?m, pos + length ?h + length ?d)"
    and "data_bytes page (InPage (pos + length ?h)) (length ?d) = Some ?d"
    using stored_readNode [OF st, of n] lvl(1) by simp_all
  then have dt: "data_bytes page (node_data ?m) (unat (node_length ?m)) = Some ?d"
    using lvl(1) n(2) by (simp add: node_read_def)
  have "read_keys page (pos + length ?h + length ?d) leafNode key (length ks) ?m =
    Some (map (\<lambda>(key, number, pg). (key, number)) ks, pos + length ?h + length ?d + keys_size leafNode key ks)"
    by (rule Cons.IH) (use st key(1) Cons.prems(3) in auto)
  then show ?case
    using rd dt n(3) lvl by (simp add: k size Let_def node_read_def rn_setValue_def add.assoc)
qed simp

text \<open>C9. The keys of an index page: written with their common prefixes left out, one after the other,
  and read back by adding each node's data to the prefix of the key before it, they are the same keys
  with the same record numbers, and they take the space that \<open>getNodeSize\<close> says.\<close>
theorem btn_keys_roundtrip:
  assumes "\<forall>(key, number, pg) \<in> set ks. length key < 2 ^ 14 \<and> 0 \<le> sint number \<and> unat number < 2 ^ 40"
    and "pos + keys_size leafNode [] ks \<le> length page"
  shows "\<exists>page'. write_keys page pos leafNode [] ks = Some (page', pos + keys_size leafNode [] ks) \<and>
    take pos page' = take pos page \<and>
    read_keys page' pos leafNode [] (length ks) n = Some (map (\<lambda>(key, number, pg). (key, number)) ks, pos + keys_size leafNode [] ks)"
proof -
  obtain page' where page': "write_keys page pos leafNode [] ks = Some (page', pos + keys_size leafNode [] ks)"
    "take pos page' = take pos page" "stored page' leafNode pos (key_nodes [] ks)"
    using write_keys_stored [OF assms(1) _ assms(2)] by auto
  have "read_keys page' pos leafNode [] (length ks) n = Some (map (\<lambda>(key, number, pg). (key, number)) ks, pos + keys_size leafNode [] ks)"
    by (rule stored_read_keys [OF page'(3) _ assms(1)]) simp
  then show ?thesis using page' by blast
qed

theorem btn_keys_roundtrip_witness:
  "\<exists>page' size. write_keys (replicate 64 0) 4 True [] [([1, 2], 5, 0), ([1, 3], 700, 0)] = Some (page', size) \<and>
     read_keys page' 4 True [] 2 IndexNode_new = Some ([([1, 2], 5), ([1, 3], 700)], size)"
proof -
  let ?ks = "[([1, 2], 5, 0), ([1, 3], 700, 0)] :: (UCHAR list \<times> SINT64 \<times> ULONG) list"
  have fits: "node_fits (key_node [] [1, 2] 5 0)" "node_fits (key_node [1, 2] [1, 3] 700 0)"
    by (rule key_node_fits; simp)+
  have "unat (node_length (key_node [] [1, 2] 5 0)) = length (drop (unat (computePrefix [] [1, 2])) [1, 2 :: UCHAR])"
    "unat (node_length (key_node [1, 2] [1, 3] 700 0)) = length (drop (unat (computePrefix [1, 2] [1, 3])) [1, 3 :: UCHAR])"
    by (rule key_node_fits; simp)+
  then have "unat (node_length (key_node [] [1, 2] 5 0)) \<le> 2" "unat (node_length (key_node [1, 2] [1, 3] 700 0)) \<le> 2" by simp_all
  moreover have "keys_size True [] ?ks = length (node_header (key_node [] [1, 2] 5 0) True) + unat (node_length (key_node [] [1, 2] 5 0)) +
      (length (node_header (key_node [1, 2] [1, 3] 700 0) True) + unat (node_length (key_node [1, 2] [1, 3] 700 0)))"
    by (simp only: keys_size.simps getNodeSize_header [OF fits(1)] getNodeSize_header [OF fits(2)] add_0_right)
  ultimately have "4 + keys_size True [] ?ks \<le> length (replicate 64 (0 :: UCHAR))"
    using node_header_le [of "key_node [] [1, 2] 5 0" True] node_header_le [of "key_node [1, 2] [1, 3] 700 0" True] unfolding length_replicate by linarith
  moreover have "\<forall>(key, number, pg) \<in> set ?ks. length key < 2 ^ 14 \<and> 0 \<le> sint number \<and> unat number < 2 ^ 40" by simp
  ultimately obtain page' where
    "write_keys (replicate 64 0) 4 True [] ?ks = Some (page', 4 + keys_size True [] ?ks)"
    "read_keys page' 4 True [] (length ?ks) IndexNode_new = Some (map (\<lambda>(key, number, pg). (key, number)) ?ks, 4 + keys_size True [] ?ks)"
    using btn_keys_roundtrip [of ?ks 4 True "replicate 64 0" IndexNode_new] by blast
  moreover have "length ?ks = 2" "map (\<lambda>(key, number, pg). (key, number)) ?ks = [([1, 2], 5), ([1, 3], 700)]" by simp_all
  ultimately show ?thesis by (intro exI [of _ page'] exI [of _ "4 + keys_size True [] ?ks"]) (simp only: simp_thms)
qed

text \<open>The comparison of a key with the node of a key looks at the data only.\<close>

lemma keyEqual_data:
  assumes "data_bytes page (node_data n) (unat (node_length n)) = Some d" and "length key < 2 ^ 16"
  shows "keyEqual page n (of_nat (length key)) key =
    Some (length key = unat (node_prefix n) + length d \<and> drop (unat (node_prefix n)) key = d)"
proof -
  have d: "unat (node_length n) = length d" using data_bytes_length [OF assms(1)] by simp
  have len: "unat (of_nat (length key) :: USHORT) = length key" using assms(2) by (simp add: unat_of_nat)
  have zero: "node_length n = 0 \<longleftrightarrow> d = []" using d by (metis length_0_conv unat_eq_0)
  show ?thesis using assms(1) by (auto simp: keyEqual_def len d zero mem_read_def)
qed

section \<open>Jump nodes\<close>

lemma drop_positive: "0 < drop_bit a (v :: 'a::len word) \<longleftrightarrow> \<not> unat v < 2 ^ a"
  using drop_bit_zero [of a v] by (metis word_gt_0)

lemma put_jump_number_limited:
  assumes "unat v < 2 ^ 14"
  shows "put_jump_number v = put_limited 0x7F 1 (ucast v)"
proof -
  have small: "unat (ucast v :: SINT64) < 2 ^ 63" unfolding unat_ucast_64 by (rule pow_63 [OF assms]) simp
  have sd: "signed_drop_bit 7 (ucast v :: SINT64) = drop_bit 7 (ucast v)" by (rule small_nonneg(2) [OF small])
  have dr: "unat (drop_bit 7 (ucast v) :: SINT64) < 2 ^ 63"
    using small unfolding unat_drop by (rule le_less_trans [OF div_le_dividend])
  have bits: "(ucast (v AND 0x7F) :: UCHAR) = ucast ((ucast v :: SINT64) AND 0x7F)"
    by (rule bit_word_eqI) (auto simp: and_7F bit_ucast_iff bit_take_bit_iff)
  have rest: "(ucast (drop_bit 7 v AND 0x7F) :: UCHAR) = ucast (drop_bit 7 (ucast v :: SINT64) AND 0x7F)"
    by (rule bit_word_eqI) (auto simp: and_7F bit_ucast_iff bit_take_bit_iff bit_drop_bit_eq)
  have pos: "0 < drop_bit 7 v \<longleftrightarrow> 0 < sint (drop_bit 7 (ucast v) :: SINT64)"
  proof -
    have "0 < drop_bit 7 v \<longleftrightarrow> \<not> unat v < 2 ^ 7" by (rule drop_positive)
    also have "\<dots> \<longleftrightarrow> drop_bit 7 (ucast v :: SINT64) \<noteq> 0" by (simp only: drop_bit_zero unat_ucast_64)
    also have "\<dots> \<longleftrightarrow> 0 < sint (drop_bit 7 (ucast v) :: SINT64)" by (simp only: small_positive [OF dr])
    finally show ?thesis .
  qed
  show ?thesis
    unfolding put_jump_number_def Let_def bits rest pos One_nat_def put_limited.simps sd by simp
qed

lemma and_mask_ushort:
  "(0xC000 :: USHORT) = push_bit 14 (mask 2)" "(0xFF80 :: USHORT) = push_bit 7 (mask 9)"
  by (simp_all add: mask_eq_exp_minus_1)

lemma jump_short_size_put:
  assumes "unat v < 2 ^ 14"
  shows "jump_short_size v = length (put_jump_number v)"
proof -
  have "unat v < 2 ^ (14 + 2)" "unat v < 2 ^ (7 + 9)" using assms by simp_all
  then have "jump_short_size v = (if unat v < 2 ^ 7 then 1 else 2)"
    using assms by (simp only: jump_short_size_def and_mask_ushort and_high) simp
  moreover have "0 < drop_bit 7 v \<longleftrightarrow> \<not> unat v < 2 ^ 7" by (rule drop_positive)
  ultimately show ?thesis by (simp only: put_jump_number_def Let_def) simp
qed

lemma read_jump_number:
  assumes "unat v < 2 ^ 14"
  shows "get_number 0x7F 1 0 (pre @ put_jump_number v @ post) (length pre) 0 = Some (ucast v, length pre + length (put_jump_number v))"
  unfolding put_jump_number_limited [OF assms] by (rule read_short [OF assms])

lemma get_put_short: "get_short (put_short v) = v"
  by (rule bit_word_eqI) (auto simp: get_short_def put_short_def bit_or_iff bit_ucast_iff bit_push_bit_iff bit_drop_bit_eq)

definition jump_read :: "IndexJumpNode \<Rightarrow> nat \<Rightarrow> nat \<Rightarrow> IndexJumpNode" where
  "jump_read j pos data = j\<lparr>jump_nodePointer := pos, jump_data := InPage data\<rparr>"

text \<open>C35. A jump node with a prefix and a length of at most 14 bits is read back with its offset and its
  data, and takes the bytes that \<open>getJumpNodeSize\<close> says.\<close>
theorem btn_jump_roundtrip:
  assumes "unat (jump_prefix j) < 2 ^ 14" and "unat (jump_length j) < 2 ^ 14"
    and "data_bytes page (jump_data j) (unat (jump_length j)) = Some d"
    and "apart (jump_data j) (unat (jump_length j)) pos (unat (getJumpNodeSize j))"
    and "pos + unat (getJumpNodeSize j) \<le> length page"
  shows "\<exists>page' data. writeJumpNode page pos j = Some (page', j\<lparr>jump_nodePointer := pos\<rparr>, pos + unat (getJumpNodeSize j)) \<and>
    readJumpNode page' pos i = Some (jump_read j pos data, pos + unat (getJumpNodeSize j)) \<and>
    data_bytes page' (InPage data) (unat (jump_length j)) = Some d \<and>
    take pos page' = take pos page \<and> drop (pos + unat (getJumpNodeSize j)) page' = drop (pos + unat (getJumpNodeSize j)) page"
proof -
  let ?p = "put_jump_number (jump_prefix j)" let ?l = "put_jump_number (jump_length j)" let ?o = "put_short (jump_offset j)"
  let ?len = "unat (jump_length j)" let ?h = "?p @ ?l @ ?o"
  have o: "length ?o = 2" by (simp add: put_short_def)
  have d: "length d = ?len" using assms(3) by (rule data_bytes_length)
  have short: "length ?p \<le> 2" "length ?l \<le> 2" by (simp_all add: put_jump_number_def Let_def)
  have "getJumpNodeSize j = of_nat (length ?h) + jump_length j"
    using jump_short_size_put [OF assms(1)] jump_short_size_put [OF assms(2)] o by (simp add: getJumpNodeSize_def)
  moreover have "length ?h + ?len < 2 ^ 16" using short o assms(2) by simp
  ultimately have size: "unat (getJumpNodeSize j) = length ?h + ?len" by (simp add: unat_word_ariths unat_of_nat)
  have room: "pos + length ?h + length d \<le> length page" using assms(5) size d by simp
  define page' where "page' = take pos page @ ?h @ d @ drop (pos + length ?h + length d) page"
  have "apart (jump_data j) ?len pos (length ?h)" using assms(4) by (auto simp: size apart_def split: data_pointer.splits)
  then have "data_bytes (take pos page @ ?h @ drop (pos + length ?h) page) (jump_data j) ?len = Some d"
    by (rule data_bytes_apart [OF assms(3)]) (use room in simp)
  then have wr: "writeJumpNode page pos j = Some (page', j\<lparr>jump_nodePointer := pos\<rparr>, pos + unat (getJumpNodeSize j))"
    unfolding writeJumpNode_def Let_def page'_def by (simp only: mem_write_twice [OF room] bind.bind_lunit size add.assoc)
  have len: "length (take pos page) = pos" using room by simp
  let ?post = "d @ drop (pos + length ?h + length d) page"
  have pages: "page' = take pos page @ ?p @ ?l @ ?o @ ?post" "page' = (take pos page @ ?p) @ ?l @ ?o @ ?post"
    by (simp_all add: page'_def)
  have r1: "get_number 0x7F 1 0 page' pos 0 = Some (ucast (jump_prefix j), pos + length ?p)"
    using read_jump_number [OF assms(1), of "take pos page" "?l @ ?o @ ?post"] unfolding pages(1) [symmetric] len .
  have r2: "get_number 0x7F 1 0 page' (pos + length ?p) 0 = Some (ucast (jump_length j), pos + length ?p + length ?l)"
  proof -
    have "get_number 0x7F 1 0 ((take pos page @ ?p) @ ?l @ ?o @ ?post) (length (take pos page @ ?p)) 0 =
        Some (ucast (jump_length j), length (take pos page @ ?p) + length ?l)"
      by (rule read_jump_number [OF assms(2)])
    moreover have "length (take pos page @ ?p) = pos + length ?p" by (simp only: length_append len)
    ultimately show ?thesis by (simp only: pages(2))
  qed
  have r3: "mem_read page' (pos + length ?p + length ?l) 2 = Some ?o"
    using room o len by (simp add: mem_read_def page'_def)
  have "readJumpNode page' pos i = Some (jump_read j pos (pos + length ?h), pos + length ?h + ?len)"
    unfolding readJumpNode_def Let_def r1 bind.bind_lunit prod.case r2 r3 ucast_ucast_back get_put_short
    using o by (simp add: jump_read_def add.assoc)
  moreover have "data_bytes page' (InPage (pos + length ?h)) ?len = Some d"
    using room d by (simp add: data_bytes_def mem_read_def page'_def)
  moreover have "take pos page' = take pos page" "drop (pos + unat (getJumpNodeSize j)) page' = drop (pos + unat (getJumpNodeSize j)) page"
    using room d size by (simp_all add: page'_def add.assoc)
  ultimately show ?thesis using wr by (auto simp: size add.assoc)
qed

theorem btn_jump_roundtrip_witness:
  "\<exists>page' data. writeJumpNode (replicate 40 0) 3 \<lparr>jump_nodePointer = 0, jump_prefix = 200, jump_length = 2, jump_offset = 999, jump_data = Outside [7, 8]\<rparr> =
       Some (page', \<lparr>jump_nodePointer = 3, jump_prefix = 200, jump_length = 2, jump_offset = 999, jump_data = Outside [7, 8]\<rparr>, 10) \<and>
     data_bytes page' (InPage data) 2 = Some [7, 8]"
proof -
  let ?j = "\<lparr>jump_nodePointer = 0, jump_prefix = 200, jump_length = 2, jump_offset = 999, jump_data = Outside [7, 8]\<rparr>"
  have size: "unat (getJumpNodeSize ?j) = 7" by (simp add: getJumpNodeSize_def jump_short_size_def)
  show ?thesis
    using btn_jump_roundtrip [of ?j "replicate 40 0" "[7, 8]" 3 ?j] by (auto simp: size data_bytes_def apart_def)
qed

end
