(* ===== verification/FB_Timestamp.thy ===== *)
theory FB_Timestamp
  imports FB_Prelude "HOL-Library.Monad_Syntax"
begin

text \<open>
  Dates, times and time stamps: \<^verbatim>\<open>src/common/classes/NoThrowTimeStamp.h\<close> and \<^verbatim>\<open>.cpp\<close>. A date is a number of
  days (day 0 is 17 November 1858), a time a number of ten-thousandths of a second. Signed
  arithmetic is that of 32 bits: every sum and product goes through \<open>s32\<close> (or \<open>s64\<close> where the code casts to
  64 bits), which is \<open>None\<close> when the result does not fit, where the code has undefined behaviour.
  Unsigned results are reduced by \<open>u32\<close>. Quotients and remainders are those of C, \<open>sdiv\<close> and \<open>smod\<close>.
\<close>

section \<open>Arithmetic\<close>

definition s32 :: "int \<Rightarrow> int option" where
  "s32 v = (if - (2 ^ 31) \<le> v \<and> v < 2 ^ 31 then Some v else None)"

definition s64 :: "int \<Rightarrow> int option" where
  "s64 v = (if - (2 ^ 63) \<le> v \<and> v < 2 ^ 63 then Some v else None)"

definition u32 :: "int \<Rightarrow> int" where
  "u32 v = v mod 2 ^ 32"

text \<open>The conversion of a 64-bit number to \<^verbatim>\<open>int\<close>, of which the compiler keeps the low 32 bits.\<close>

definition to_int :: "int \<Rightarrow> int" where
  "to_int v = signed_take_bit 31 v"

type_synonym ISC_DATE = int
type_synonym ISC_TIME = int

section \<open>The structures\<close>

record ISC_TIMESTAMP =
  timestamp_date :: ISC_DATE
  timestamp_time :: ISC_TIME

text \<open>\<^verbatim>\<open>struct tm\<close> of the C library.\<close>

record tm =
  tm_sec :: int
  tm_min :: int
  tm_hour :: int
  tm_mday :: int
  tm_mon :: int
  tm_year :: int
  tm_wday :: int
  tm_yday :: int

definition tm_zero :: tm where
  "tm_zero = \<lparr>tm_sec = 0, tm_min = 0, tm_hour = 0, tm_mday = 0, tm_mon = 0, tm_year = 0,
     tm_wday = 0, tm_yday = 0\<rparr>"

definition ISC_TIME_SECONDS_PRECISION :: int where
  "ISC_TIME_SECONDS_PRECISION = 10000"

definition ISC_TIME_SECONDS_PRECISION_SCALE :: int where
  "ISC_TIME_SECONDS_PRECISION_SCALE = - 4"

definition MIN_DATE :: ISC_DATE where
  "MIN_DATE = - 678575"

definition MAX_DATE :: ISC_DATE where
  "MAX_DATE = 2973483"

definition BAD_DATE :: ISC_DATE where
  "BAD_DATE = 2147483647"

definition BAD_TIME :: ISC_TIME where
  "BAD_TIME = 4294967295"

definition POW_10_TABLE :: "int list" where
  "POW_10_TABLE = [1, 10, 100, 1000, 10000, 100000, 1000000, 10000000, 100000000, 1000000000]"

section \<open>Validity\<close>

definition isEmpty :: "ISC_TIMESTAMP \<Rightarrow> bool" where
  "isEmpty ts \<longleftrightarrow> timestamp_date ts = BAD_DATE \<and> timestamp_time ts = BAD_TIME"

definition invalidate :: ISC_TIMESTAMP where
  "invalidate = \<lparr>timestamp_date = BAD_DATE, timestamp_time = BAD_TIME\<rparr>"

definition isValidDate :: "ISC_DATE \<Rightarrow> bool" where
  "isValidDate ndate \<longleftrightarrow> ndate \<ge> MIN_DATE \<and> ndate \<le> MAX_DATE"

definition isValidTime :: "ISC_TIME \<Rightarrow> bool" where
  "isValidTime ntime \<longleftrightarrow> ntime < 24 * 3600 * ISC_TIME_SECONDS_PRECISION"

definition isValidTimeStamp :: "ISC_TIMESTAMP \<Rightarrow> bool" where
  "isValidTimeStamp ts \<longleftrightarrow> isValidDate (timestamp_date ts) \<and> isValidTime (timestamp_time ts)"

definition isLeapYear :: "int \<Rightarrow> bool" where
  "isLeapYear year \<longleftrightarrow> (year smod 4 = 0 \<and> year smod 100 \<noteq> 0) \<or> year smod 400 = 0"

section \<open>Dates\<close>

definition yday :: "tm \<Rightarrow> int option" where
  "yday tms = do {
     let day = tm_mday tms;
     let month = tm_mon tms;
     year \<leftarrow> s32 (tm_year tms + 1900);
     day \<leftarrow> s32 (day - 1);
     p \<leftarrow> s32 (214 * month);
     p \<leftarrow> s32 (p + 3);
     day \<leftarrow> s32 (day + p sdiv 7);
     if month < 2 then Some day
     else if year smod 4 = 0 \<and> year smod 100 \<noteq> 0 \<or> year smod 400 = 0 then s32 (day - 1)
     else s32 (day - 2)
   }"

definition decode_date :: "ISC_DATE \<Rightarrow> tm option" where
  "decode_date nday = do {
     let tms = tm_zero;
     wday \<leftarrow> s32 (nday + 3);
     let tms = tms\<lparr>tm_wday := wday smod 7\<rparr>;
     let tms = (if tm_wday tms < 0 then tms\<lparr>tm_wday := tm_wday tms + 7\<rparr> else tms);
     nday \<leftarrow> s32 (nday + (2400001 - 1721119));
     p \<leftarrow> s32 (4 * nday);
     p \<leftarrow> s32 (p - 1);
     let century = p sdiv 146097;
     q \<leftarrow> s32 (146097 * century);
     nday \<leftarrow> s32 (p - q);
     let day = nday sdiv 4;
     p \<leftarrow> s32 (4 * day);
     p \<leftarrow> s32 (p + 3);
     let nday = p sdiv 1461;
     q \<leftarrow> s32 (1461 * nday);
     day \<leftarrow> s32 (p - q);
     p \<leftarrow> s32 (day + 4);
     let day = p sdiv 4;
     p \<leftarrow> s32 (5 * day);
     p \<leftarrow> s32 (p - 3);
     let month = p sdiv 153;
     q \<leftarrow> s32 (153 * month);
     day \<leftarrow> s32 (p - q);
     p \<leftarrow> s32 (day + 5);
     let day = p sdiv 5;
     p \<leftarrow> s32 (100 * century);
     year \<leftarrow> s32 (p + nday);
     (month, year) \<leftarrow>
       (if month < 10 then do { month \<leftarrow> s32 (month + 3); Some (month, year) }
        else do { month \<leftarrow> s32 (month - 9); year \<leftarrow> s32 (year + 1); Some (month, year) });
     mon \<leftarrow> s32 (month - 1);
     year \<leftarrow> s32 (year - 1900);
     let tms = tms\<lparr>tm_mday := day, tm_mon := mon, tm_year := year\<rparr>;
     yd \<leftarrow> yday tms;
     Some (tms\<lparr>tm_yday := yd\<rparr>)
   }"

text \<open>The first product of \<^verbatim>\<open>encode_date\<close> has 64 bits, and so have the sums, which are cut to a date.\<close>

definition encode_date :: "tm \<Rightarrow> ISC_DATE option" where
  "encode_date tms = do {
     let day = tm_mday tms;
     month \<leftarrow> s32 (tm_mon tms + 1);
     year \<leftarrow> s32 (tm_year tms + 1900);
     (month, year) \<leftarrow>
       (if month > 2 then do { month \<leftarrow> s32 (month - 3); Some (month, year) }
        else do { month \<leftarrow> s32 (month + 9); year \<leftarrow> s32 (year - 1); Some (month, year) });
     let c = year sdiv 100;
     p \<leftarrow> s32 (100 * c);
     ya \<leftarrow> s32 (year - p);
     cd \<leftarrow> s64 (146097 * c);
     yd \<leftarrow> s32 (1461 * ya);
     md \<leftarrow> s32 (153 * month);
     md \<leftarrow> s32 (md + 2);
     Some (to_int (cd sdiv 4 + yd sdiv 4 + md sdiv 5 + day + 1721119 - 2400001))
   }"

section \<open>Times\<close>

text \<open>The result is hours, minutes, seconds and fractions; a caller that passes no pointer for the
  fractions does not get them.\<close>

definition decode_time :: "ISC_TIME \<Rightarrow> int \<times> int \<times> int \<times> int" where
  "decode_time ntime =
    (let hours = ntime div (3600 * ISC_TIME_SECONDS_PRECISION);
         ntime = ntime mod (3600 * ISC_TIME_SECONDS_PRECISION);
         minutes = ntime div (60 * ISC_TIME_SECONDS_PRECISION);
         ntime = ntime mod (60 * ISC_TIME_SECONDS_PRECISION);
         seconds = ntime div ISC_TIME_SECONDS_PRECISION
     in (hours, minutes, seconds, ntime mod ISC_TIME_SECONDS_PRECISION))"

text \<open>The assertion on the fractions is \<open>None\<close>, too.\<close>

definition encode_time :: "int \<Rightarrow> int \<Rightarrow> int \<Rightarrow> int \<Rightarrow> ISC_TIME option" where
  "encode_time hours minutes seconds fractions =
    (if 0 \<le> fractions \<and> fractions < ISC_TIME_SECONDS_PRECISION
     then do {
       p \<leftarrow> s32 (hours * 60);
       p \<leftarrow> s32 (p + minutes);
       p \<leftarrow> s32 (p * 60);
       p \<leftarrow> s32 (p + seconds);
       p \<leftarrow> s32 (p * ISC_TIME_SECONDS_PRECISION);
       p \<leftarrow> s32 (p + fractions);
       Some (u32 p)
     }
     else None)"

section \<open>Time stamps\<close>

definition decode_timestamp :: "ISC_TIMESTAMP \<Rightarrow> (tm \<times> int) option" where
  "decode_timestamp ts = do {
     tms \<leftarrow> decode_date (timestamp_date ts);
     let (hour, min, sec, fractions) = decode_time (timestamp_time ts);
     Some (tms\<lparr>tm_hour := hour, tm_min := min, tm_sec := sec\<rparr>, fractions)
   }"

definition encode_timestamp :: "tm \<Rightarrow> int \<Rightarrow> ISC_TIMESTAMP option" where
  "encode_timestamp tms fractions = do {
     date \<leftarrow> encode_date tms;
     time \<leftarrow> encode_time (tm_hour tms) (tm_min tms) (tm_sec tms) fractions;
     Some \<lparr>timestamp_date = date, timestamp_time = time\<rparr>
   }"

text \<open>The scale must be below the size of the table, which the code asserts.\<close>

definition round_time :: "ISC_TIME \<Rightarrow> int \<Rightarrow> ISC_TIME option" where
  "round_time ntime precision =
    (let scale = - ISC_TIME_SECONDS_PRECISION_SCALE - precision
     in if scale \<le> 0 then Some ntime
        else if scale < int (length POW_10_TABLE)
        then let period = POW_10_TABLE ! nat scale in Some (ntime - ntime mod period)
        else None)"

text \<open>The members \<^verbatim>\<open>encode\<close> and \<^verbatim>\<open>decode\<close> of the class assign and read its value.\<close>

definition timestamp_encode :: "tm \<Rightarrow> int \<Rightarrow> ISC_TIMESTAMP option" where
  "timestamp_encode tms fractions = encode_timestamp tms fractions"

definition timestamp_decode :: "ISC_TIMESTAMP \<Rightarrow> (tm \<times> int) option" where
  "timestamp_decode ts = decode_timestamp ts"

end
