(* ===== verification/FB_Calendar.thy ===== *)
theory FB_Calendar
  imports FB_Timestamp
begin

text \<open>
  The day numbers of \<open>FB_Timestamp\<close> against a calendar that is given by its rules only: the length of the
  months, the leap years, and the day that follows a day. \<open>calendar k\<close> is the day \<open>k\<close> days after
  1 January of year 1. Then the round trips of dates, times and time stamps.
\<close>

section \<open>The reference calendar\<close>

type_synonym cal_date = "int \<times> int \<times> int"

definition leap :: "int \<Rightarrow> bool" where
  "leap y \<longleftrightarrow> 4 dvd y \<and> (\<not> 100 dvd y \<or> 400 dvd y)"

definition month_length :: "int \<Rightarrow> int \<Rightarrow> int" where
  "month_length y m = (if m = 2 then if leap y then 29 else 28
     else if m \<in> {4, 6, 9, 11} then 30 else 31)"

fun next_day :: "cal_date \<Rightarrow> cal_date" where
  "next_day (y, m, d) =
     (if d < month_length y m then (y, m, d + 1)
      else if m < 12 then (y, m + 1, 1)
      else (y + 1, 1, 1))"

fun cal_ok :: "cal_date \<Rightarrow> bool" where
  "cal_ok (y, m, d) \<longleftrightarrow> 1 \<le> m \<and> m \<le> 12 \<and> 1 \<le> d \<and> d \<le> month_length y m"

fun day_of_year :: "cal_date \<Rightarrow> int" where
  "day_of_year (y, m, d) = sum_list (map (month_length y) [1..m - 1]) + (d - 1)"

definition calendar :: "nat \<Rightarrow> cal_date" where
  "calendar k = (next_day ^^ k) (1, 1, 1)"

definition tm_date :: "tm \<Rightarrow> cal_date" where
  "tm_date t = (tm_year t + 1900, tm_mon t + 1, tm_mday t)"

section \<open>Counting from March\<close>

text \<open>The code counts the months and years from March, so that the leap day is the last of its year.\<close>

definition days_before :: "int \<Rightarrow> int" where
  "days_before y = 365 * y + y div 4 - y div 100 + y div 400"

definition march_year :: "int \<Rightarrow> int \<Rightarrow> int" where
  "march_year y m = (if m > 2 then y else y - 1)"

definition march_month :: "int \<Rightarrow> int" where
  "march_month m = (if m > 2 then m - 3 else m + 9)"

fun march_day :: "cal_date \<Rightarrow> int" where
  "march_day (y, m, d) = (153 * march_month m + 2) div 5 + d"

fun day_number :: "cal_date \<Rightarrow> int" where
  "day_number (y, m, d) = days_before (march_year y m) + march_day (y, m, d)"

lemma month_cases:
  assumes "1 \<le> m" "m \<le> (12 :: int)"
  obtains "m = 1" | "m = 2" | "m = 3" | "m = 4" | "m = 5" | "m = 6" | "m = 7" | "m = 8" | "m = 9"
    | "m = 10" | "m = 11" | "m = 12"
proof -
  have "m = 1 \<or> m = 2 \<or> m = 3 \<or> m = 4 \<or> m = 5 \<or> m = 6 \<or> m = 7 \<or> m = 8 \<or> m = 9
    \<or> m = 10 \<or> m = 11 \<or> m = 12" using assms by presburger
  then show ?thesis using that by blast
qed

lemma div_step:
  assumes "(0 :: int) < k"
  shows "(y + 1) div k = y div k + (if k dvd y + 1 then 1 else 0)"
proof (cases "y mod k = k - 1")
  case True
  then have "y + 1 = k * (y div k + 1)" by (metis add.commute diff_add_cancel distrib_left div_mult_mod_eq
      group_cancel.add2 mult.commute mult.right_neutral)
  then show ?thesis using assms by (metis dvd_triv_left nonzero_mult_div_cancel_left less_irrefl)
next
  case False
  have "0 \<le> y mod k" "y mod k < k" using assms by simp_all
  with False have r: "0 \<le> y mod k + 1" "y mod k + 1 < k" by linarith+
  have e: "y + 1 = (y mod k + 1) + k * (y div k)" by simp
  have "(y + 1) div k = y div k" using r by (subst e, subst div_mult_self2) auto
  moreover have "(y + 1) mod k = y mod k + 1" using r by (subst e, subst mod_mult_self2) simp
  then have "(y + 1) mod k \<noteq> 0" using \<open>0 \<le> y mod k\<close> by linarith
  then have "\<not> k dvd y + 1" by (simp add: dvd_eq_mod_eq_0)
  ultimately show ?thesis by simp
qed

lemma days_before_step: "days_before (y + 1) = days_before y + (if leap (y + 1) then 366 else 365)"
proof -
  have sum: "365 * (y + 1) + (a + (if p then 1 else 0)) - (b + (if q then 1 else 0)) + (c + (if r then 1 else 0))
      = 365 * y + a - b + c + (if p \<and> (\<not> q \<or> r) then 366 else 365)"
    if "r \<longrightarrow> q" "q \<longrightarrow> p" for a b c :: int and p q r
    using that by (cases p; cases q; cases r) simp_all
  have "400 dvd y + 1 \<longrightarrow> 100 dvd y + 1" "100 dvd y + 1 \<longrightarrow> 4 dvd y + 1"
    using dvd_trans [of 100 400 "y + 1"] dvd_trans [of 4 100 "y + 1"] by simp_all
  from sum [OF this] show ?thesis
    unfolding days_before_def leap_def div_step [of 4 y, OF zero_less_numeral]
      div_step [of 100 y, OF zero_less_numeral] div_step [of 400 y, OF zero_less_numeral] .
qed

lemma day_number_next: "cal_ok c \<Longrightarrow> day_number (next_day c) = day_number c + 1"
proof (induction c rule: next_day.induct)
  case (1 y m d)
  then have m: "1 \<le> m" "m \<le> 12" by simp_all
  show ?case using 1 days_before_step [of "y - 1"]
    by (cases rule: month_cases [OF m])
      (auto simp: march_year_def march_month_def month_length_def split: if_splits)
qed

lemma cal_ok_next: "cal_ok c \<Longrightarrow> cal_ok (next_day c)"
  by (cases c) (auto simp: month_length_def split: if_splits)

lemma calendar_Suc: "calendar (Suc k) = next_day (calendar k)"
  by (simp add: calendar_def)

lemma calendar_0: "calendar 0 = (1, 1, 1)"
  by (simp add: calendar_def)

lemma cal_ok_calendar: "cal_ok (calendar k)"
  by (induction k) (simp_all add: calendar_0 calendar_Suc cal_ok_next month_length_def
      del: next_day.simps)

lemma day_number_calendar: "day_number (calendar k) = int k + 307"
proof (induction k)
  case 0
  show ?case by (simp add: calendar_0 march_year_def march_month_def days_before_def)
next
  case (Suc k)
  then show ?case by (simp add: calendar_Suc day_number_next [OF cal_ok_calendar] del: day_number.simps)
qed

lemma calendar_year_pos: "1 \<le> fst (calendar k)"
proof (induction k)
  case 0
  show ?case by (simp add: calendar_0)
next
  case (Suc k)
  then show ?case by (cases "calendar k") (simp add: calendar_Suc)
qed

section \<open>The arithmetic of the code\<close>

lemma s32_in [simp]: "- 2147483648 \<le> v \<Longrightarrow> v < 2147483648 \<Longrightarrow> s32 v = Some v"
  by (simp add: s32_def)

lemma s64_in: "- 9223372036854775808 \<le> v \<Longrightarrow> v < 9223372036854775808 \<Longrightarrow> s64 v = Some v"
  by (simp add: s64_def)

lemma to_int_in: "- 2147483648 \<le> v \<Longrightarrow> v < 2147483648 \<Longrightarrow> to_int v = v"
  by (simp add: to_int_def signed_take_bit_int_eq_self)

lemma sdiv_nonneg: "(0 :: int) \<le> a \<Longrightarrow> 0 < b \<Longrightarrow> a sdiv b = a div b"
  by (simp add: signed_divide_int_def sgn_if)

lemma sdiv_eqI: "(0 :: int) \<le> a \<Longrightarrow> 0 < b \<Longrightarrow> a div b = c \<Longrightarrow> a sdiv b = c"
  by (simp add: sdiv_nonneg)

lemma smod_nonneg: "(0 :: int) \<le> a \<Longrightarrow> 0 < b \<Longrightarrow> a smod b = a mod b"
  by (simp add: smod_mod_positive)

lemma isLeapYear_leap: "0 \<le> y \<Longrightarrow> isLeapYear y = leap y"
  unfolding isLeapYear_def leap_def
  using dvd_trans [of 4 400 y] by (simp only: smod_nonneg zero_less_numeral flip: dvd_eq_mod_eq_0) auto

lemma div_unique: "0 \<le> r \<Longrightarrow> r < k \<Longrightarrow> n = k * q + r \<Longrightarrow> n div k = (q :: int)"
  by simp

lemma days_before_split:
  "days_before y = 36524 * (y div 100) + y div 100 div 4 + 365 * (y mod 100) + y mod 100 div 4"
proof -
  have "y div 4 = 25 * (y div 100) + y mod 100 div 4"
  proof -
    have "y = y mod 100 + 4 * (25 * (y div 100))" using div_mult_mod_eq [of y 100] by linarith
    then have "y div 4 = (y mod 100 + 4 * (25 * (y div 100))) div 4" by (rule arg_cong)
    then show ?thesis by (simp only: div_mult_self2)
  qed
  moreover have "y div 100 div 4 = y div 400" by (simp add: zdiv_zmult2_eq [symmetric])
  moreover have "365 * y = 36500 * (y div 100) + 365 * (y mod 100)"
    using div_mult_mod_eq [of y 100] by linarith
  ultimately show ?thesis unfolding days_before_def by linarith
qed

lemma leap_century:
  assumes "leap (y + 1)"
  shows "y mod 100 mod 4 = 3" and "y mod 100 = 99 \<Longrightarrow> y div 100 mod 4 = 3"
proof -
  have "4 dvd y + 1" using assms by (simp add: leap_def)
  then have "y mod 4 = 3" by presburger
  moreover have "y mod 100 mod 4 = y mod 4" by (rule mod_mod_cancel) simp
  ultimately show "y mod 100 mod 4 = 3" by simp
  assume "y mod 100 = 99"
  then have "100 dvd y + 1" by presburger
  then obtain k where "y + 1 = 400 * k" using assms unfolding leap_def by (auto elim: dvdE)
  then have "y div 100 = 4 * k - 1" by (intro div_unique [of 99]) simp_all
  moreover have "(4 * k - 1) mod 4 = 3" by presburger
  ultimately show "y div 100 mod 4 = 3" by simp
qed

text \<open>The divisions of \<^verbatim>\<open>decode_date\<close> find the century \<open>k\<close>, the year \<open>a\<close> in it and the day \<open>e\<close> of the
  year. \<open>q\<close> and \<open>b\<close> count the leap days; \<open>p\<close> and \<open>s\<close> are the places in a cycle of four.\<close>

lemma division_steps:
  fixes k q p a b s e :: int
  assumes k: "k = 4 * q + p" "0 \<le> p" "p \<le> 3" and a: "a = 4 * b + s" "0 \<le> s" "s \<le> 3" "0 \<le> a" "a \<le> 99"
    and e: "1 \<le> e" "e \<le> 366" "e = 366 \<longrightarrow> s = 3" "e = 366 \<longrightarrow> a = 99 \<longrightarrow> p = 3"
  shows "4 * (36524 * k + q + 365 * a + b + e) - 1 - 146097 * k = 4 * (365 * a + b + e) - 1 - p"
    and "0 \<le> 4 * (365 * a + b + e) - 1 - p" and "4 * (365 * a + b + e) - 1 - p \<le> 146096"
    and "(4 * (36524 * k + q + 365 * a + b + e) - 1) div 146097 = k"
    and "(4 * (365 * a + b + e) - 1 - p) div 4 = 365 * a + b + e - 1"
    and "(4 * (365 * a + b + e - 1) + 3) div 1461 = a"
    and "4 * (365 * a + b + e - 1) + 3 - 1461 * a = 4 * e - 1 - s"
    and "(4 * e - 1 - s + 4) div 4 = e"
proof -
  define t where t: "t = 365 * a + b + e"
  have b: "0 \<le> b" "b \<le> 24" using a by linarith+
  have "4 * (36524 * k + q + 365 * a + b + e) = 146096 * k + 4 * q + 4 * t" by (simp add: t)
  then show 1: "4 * (36524 * k + q + 365 * a + b + e) - 1 - 146097 * k = 4 * (365 * a + b + e) - 1 - p"
    unfolding t [symmetric] using k(1) by linarith
  show 2: "0 \<le> 4 * (365 * a + b + e) - 1 - p"
    unfolding t [symmetric] using t a(4) b e(1) k(3) by linarith
  show 3: "4 * (365 * a + b + e) - 1 - p \<le> 146096"
    unfolding t [symmetric] using t a(5) b(2) k(2) e(2,4) by (cases "a = 99"; cases "e = 366"; linarith)
  show "(4 * (36524 * k + q + 365 * a + b + e) - 1) div 146097 = k"
    using 1 2 3 by (intro div_unique [of "4 * (365 * a + b + e) - 1 - p"]) linarith+
  show "(4 * (365 * a + b + e) - 1 - p) div 4 = 365 * a + b + e - 1"
    unfolding t [symmetric] using k(2,3) by (intro div_unique [of "3 - p"]) simp_all
  show s: "4 * (365 * a + b + e - 1) + 3 - 1461 * a = 4 * e - 1 - s"
    using a(1) by simp
  have "4 * e - 1 - s < 1461" using e(2,3) a(2) by (cases "e = 366"; linarith)
  then show "(4 * (365 * a + b + e - 1) + 3) div 1461 = a"
    using s e(1) a(3) by (intro div_unique [of "4 * e - 1 - s"]) linarith+
  show "(4 * e - 1 - s + 4) div 4 = e"
    using a(2,3) by (intro div_unique [of "3 - s"]) simp_all
qed

lemma leap_day_cycle:
  fixes y e :: int
  assumes "1 \<le> e" "e \<le> (if leap (y + 1) then 366 else 365)"
  shows "e \<le> 366" and "e = 366 \<longrightarrow> y mod 100 mod 4 = 3"
    and "e = 366 \<longrightarrow> y mod 100 = 99 \<longrightarrow> y div 100 mod 4 = 3"
  using assms leap_century [of y] by (auto split: if_splits)

text \<open>The division by 153 finds the month and the day in it.\<close>

lemma month_division:
  assumes c: "cal_ok (y, m, d)"
  defines "e \<equiv> march_day (y, m, d)"
  shows "1 \<le> e" and "e \<le> (if leap (march_year y m + 1) then 366 else 365)"
    and "(5 * e - 3) div 153 = march_month m"
    and "(5 * e - 3 - 153 * march_month m + 5) div 5 = d"
proof -
  have m: "1 \<le> m" "m \<le> 12" using c by simp_all
  have d: "1 \<le> d" "d \<le> 31" "m = 2 \<longrightarrow> d \<le> (if leap y then 29 else 28)" "m \<in> {4, 6, 9, 11} \<longrightarrow> d \<le> 30"
    using c by (simp_all add: month_length_def split: if_splits)
  show "1 \<le> e"
    by (cases rule: month_cases [OF m]) (use d in \<open>simp_all add: e_def march_month_def\<close>)
  show "e \<le> (if leap (march_year y m + 1) then 366 else 365)"
    by (cases rule: month_cases [OF m])
      (use d in \<open>auto simp: e_def march_month_def march_year_def split: if_splits\<close>)
  show "(5 * e - 3) div 153 = march_month m"
    by (cases rule: month_cases [OF m])
      (use d in \<open>auto simp: e_def march_month_def intro!: div_unique split: if_splits\<close>)
  show "(5 * e - 3 - 153 * march_month m + 5) div 5 = d"
    by (cases rule: month_cases [OF m])
      (use d in \<open>auto simp: e_def march_month_def intro!: div_unique split: if_splits\<close>)
qed

section \<open>Decoding\<close>

lemma smod7_wrap: "(if v smod 7 < 0 then v smod 7 + 7 else v smod 7) = (v :: int) mod 7"
proof -
  have "v smod 7 = (if 0 \<le> v then v mod 7 else - ((- v) mod 7))"
    by (simp add: signed_modulo_int_def signed_divide_int_def sgn_if minus_div_mult_eq_mod [symmetric])
  then show ?thesis by (simp split: if_splits) presburger
qed

lemma yday_day_of_year:
  assumes c: "cal_ok (tm_date t)" and y: "0 \<le> tm_year t + 1900" "tm_year t + 1900 < 2147483648"
  shows "yday t = Some (day_of_year (tm_date t))"
proof -
  obtain mon where mon: "tm_mon t = mon - 1" "1 \<le> mon" "mon \<le> 12" "tm_date t = (tm_year t + 1900, mon, tm_mday t)"
    using c by (auto simp: tm_date_def intro: that [of "tm_mon t + 1"])
  have d: "1 \<le> tm_mday t" "tm_mday t \<le> 31"
    using c unfolding mon(4) by (simp_all add: month_length_def split: if_splits)
  have leap: "((tm_year t + 1900) smod 4 = 0 \<and> (tm_year t + 1900) smod 100 \<noteq> 0
      \<or> (tm_year t + 1900) smod 400 = 0) = leap (tm_year t + 1900)"
    using isLeapYear_leap [OF y(1)] by (simp add: isLeapYear_def)
  show ?thesis
    unfolding yday_def mon(4)
    by (cases rule: month_cases [OF mon(2,3)])
      (use y d leap in \<open>auto simp: mon(1) Let_def sdiv_nonneg month_length_def upto.simps\<close>)
qed

definition tm_of :: "cal_date \<Rightarrow> tm" where
  "tm_of c = tm_zero\<lparr>tm_mday := snd (snd c), tm_mon := fst (snd c) - 1, tm_year := fst c - 1900,
     tm_wday := (day_number c + 2) mod 7, tm_yday := day_of_year c\<rparr>"

lemma tm_date_tm_of [simp]: "tm_date (tm_of c) = c"
  by (simp add: tm_date_def tm_of_def)

lemma tm_wday_tm_of: "tm_wday (tm_of c) = (day_number c + 2) mod 7"
  by (simp add: tm_of_def)

lemma tm_yday_tm_of: "tm_yday (tm_of c) = day_of_year c"
  by (simp add: tm_of_def)

lemma march_day_bounds: "cal_ok (y, m, d) \<Longrightarrow> 1 \<le> march_day (y, m, d) \<and> march_day (y, m, d) \<le> 366"
  using month_division(1,2) [of y m d] by (auto simp del: march_day.simps split: if_splits)

lemma decode_date_number:
  assumes c: "cal_ok (y, m, d)" and y: "0 \<le> march_year y m"
    and n: "day_number (y, m, d) \<le> 536870911"
  shows "decode_date (day_number (y, m, d) - 678882) = Some (tm_of (y, m, d))"
proof -
  define Y where "Y = march_year y m"
  define k where "k = Y div 100"
  define a where "a = Y mod 100"
  define e where "e = march_day (y, m, d)"
  define N where "N = day_number (y, m, d)"
  define dd where "dd = 365 * a + a div 4 + e - 1"
  define r where "r = 4 * (365 * a + a div 4 + e) - 1 - k mod 4"
  define s where "s = 4 * e - 1 - a mod 4"
  have e: "1 \<le> e" "e \<le> 366" using march_day_bounds [OF c] by (simp_all add: e_def)
  have ka: "0 \<le> k" "0 \<le> a" "a \<le> 99" "Y = 100 * k + a" using y by (simp_all add: k_def a_def Y_def pos_imp_zdiv_nonneg_iff)
  have a4: "0 \<le> a div 4" "a div 4 \<le> a" "0 \<le> a mod 4" "a mod 4 \<le> 3" using ka(2) by simp_all
  have k4: "0 \<le> k div 4" "0 \<le> k mod 4" "k mod 4 \<le> 3" using ka(1) by simp_all
  have N: "N = 36524 * k + k div 4 + 365 * a + a div 4 + e"
    by (simp add: N_def days_before_split Y_def [symmetric] k_def a_def e_def)
  note e2 = month_division(2) [OF c, folded e_def Y_def]
  note cyc = leap_day_cycle [OF e(1) e2, folded a_def k_def]
  have "k = 4 * (k div 4) + k mod 4" "a = 4 * (a div 4) + a mod 4" by simp_all
  note steps = division_steps [OF this(1) k4(2,3) this(2) a4(3,4) ka(2,3) e cyc(2,3),
      folded N r_def s_def dd_def]
  have N1: "1 \<le> N" using N e a4 k4 ka by linarith
  have N2: "N \<le> 536870911" using n by (simp add: N_def)
  have r: "0 \<le> r" "r \<le> 146096" using steps(2,3) .
  have dd: "0 \<le> dd" "dd \<le> 36600" using a4 ka e by (simp_all add: dd_def)
  have s: "0 \<le> s" "s \<le> 1464" using a4 e by (simp_all add: s_def)
  have k: "146097 * k \<le> 4 * N" using steps(1) r by linarith
  have k': "k \<le> 100000" using k N2 by linarith
  define M where "M = march_month m"
  have m: "1 \<le> m" "m \<le> 12" and d: "1 \<le> d" "d \<le> 31" using c by (simp_all add: month_length_def split: if_splits)
  have M: "0 \<le> M" "M \<le> 11" using m by (auto simp: M_def march_month_def)
  note md = month_division(3,4) [OF c, folded e_def M_def]
  have md': "0 \<le> 5 * e - 3 - 153 * M"
    using div_mult_mod_eq [of "5 * e - 3" 153] pos_mod_sign [of 153 "5 * e - 3"] unfolding md(1) by linarith
  have "0 \<le> 4 * N - 1" "0 \<le> 4 * dd + 3" "0 \<le> s + 4" "0 \<le> 5 * e - 3" "0 \<le> 5 * e - 3 - 153 * M + 5"
    using N1 dd s e md' by linarith+
  note q = this(1) [THEN sdiv_eqI, OF _ steps(4)] r(1) [THEN sdiv_eqI, OF _ steps(5)]
    this(2) [THEN sdiv_eqI, OF _ steps(6)] this(3) [THEN sdiv_eqI, OF _ steps(8)]
    this(4) [THEN sdiv_eqI, OF _ md(1)] this(5) [THEN sdiv_eqI, OF _ md(2)]
  have year: "(if M < 10 then (M + 3, 100 * k + a) else (M - 9, 100 * k + a + 1)) = (m, y)"
    using m ka(4) by (auto simp: M_def march_month_def Y_def march_year_def)
  have y: "0 \<le> y" "y < 2147483648" using y k' ka(3,4) Y_def by (simp_all add: march_year_def split: if_splits)
  have yd: "yday (tm_zero\<lparr>tm_wday := w, tm_mday := d, tm_mon := m - 1, tm_year := y - 1900\<rparr>)
      = Some (day_of_year (y, m, d))" (is "yday ?t = _") for w
  proof -
    have t: "tm_date ?t = (y, m, d)" "tm_year ?t + 1900 = y" by (simp_all add: tm_date_def)
    show ?thesis using yday_day_of_year [of ?t] unfolding t using c y by blast
  qed
  have "(N - 678879) mod 7 = (N + 2 + 7 * (- 96983)) mod 7" by (rule arg_cong) simp
  then have wd: "(N - 678879) mod 7 = (N + 2) mod 7" by (simp only: mod_mult_self2)
  have b: "1461 * a \<le> 1461 * 99" "153 * M \<le> 153 * 11" using ka(3) M by linarith+
  have q5: "(2 + (5 * e - 153 * M)) sdiv 5 = d"
    using q(6) by (simp add: algebra_simps)
  have w: "(if (N - 678879) smod 7 < 0 then (N - 678879) smod 7 + 7 else (N - 678879) smod 7) = (N + 2) mod 7"
    using smod7_wrap [of "N - 678879"] wd by simp
  define D where "D = day_of_year (y, m, d)"
  have year1: "y = 100 * k + a" "m = M + 3" if "M < 10" using year that by simp_all
  have year2: "y = 100 * k + a + 1" "m = M - 9" if "\<not> M < 10" using year that by simp_all
  have yd1: "yday (tm_zero\<lparr>tm_wday := v, tm_mday := d, tm_mon := 2 + M, tm_year := 100 * k + a - 1900\<rparr>) = Some D"
    and yd2: "tm_of (y, m, d) = tm_zero\<lparr>tm_wday := (N + 2) mod 7, tm_mday := d, tm_mon := 2 + M,
      tm_year := 100 * k + a - 1900, tm_yday := D\<rparr>"
    if "M < 10" for v
    using year1 [OF that] yd [of v] by (simp_all add: tm_of_def D_def N_def del: day_number.simps day_of_year.simps)
  have yd3: "yday (tm_zero\<lparr>tm_wday := v, tm_mday := d, tm_mon := M - 10, tm_year := 100 * k + a - 1899\<rparr>) = Some D"
    and yd4: "tm_of (y, m, d) = tm_zero\<lparr>tm_wday := (N + 2) mod 7, tm_mday := d, tm_mon := M - 10,
      tm_year := 100 * k + a - 1899, tm_yday := D\<rparr>"
    if "\<not> M < 10" for v
    using year2 [OF that] yd [of v] by (simp_all add: tm_of_def D_def N_def del: day_number.simps day_of_year.simps)
  have fit: "s32 (N - 678879) = Some (N - 678879)" "s32 N = Some N" "s32 (4 * N) = Some (4 * N)"
    "s32 (4 * N - 1) = Some (4 * N - 1)" "s32 (146097 * k) = Some (146097 * k)" "s32 r = Some r"
    "s32 (4 * dd) = Some (4 * dd)" "s32 (4 * dd + 3) = Some (4 * dd + 3)" "s32 (1461 * a) = Some (1461 * a)"
    "s32 s = Some s" "s32 (s + 4) = Some (s + 4)" "s32 (5 * e) = Some (5 * e)" "s32 (5 * e - 3) = Some (5 * e - 3)"
    "s32 (153 * M) = Some (153 * M)" "s32 (5 * e - 3 - 153 * M) = Some (5 * e - 3 - 153 * M)"
    "s32 (5 * e - 3 - 153 * M + 5) = Some (5 * e - 3 - 153 * M + 5)"
    "s32 (100 * k) = Some (100 * k)" "s32 (100 * k + a) = Some (100 * k + a)"
    "s32 (100 * k + a + 1) = Some (100 * k + a + 1)" "s32 (100 * k + a - 1900) = Some (100 * k + a - 1900)"
    "s32 (100 * k + a - 1899) = Some (100 * k + a - 1899)"
    "s32 (M + 3) = Some (M + 3)" "s32 (M - 9) = Some (M - 9)" "s32 (2 + M) = Some (2 + M)" "s32 (M - 10) = Some (M - 10)"
    using N1 N2 ka(1,2,3) M b e dd s r k k' md' d by (intro s32_in; linarith)+
  have first: "N - 678882 + 3 = N - 678879" "N - 678882 + (2400001 - 1721119) = N" by simp_all
  show ?thesis
    unfolding decode_date_def N_def [symmetric] Let_def first fit bind.bind_lunit
      q [OF zero_less_numeral] steps(1,7)
    using yd1 yd2 yd3 yd4 w
    by (cases "M < 10"; cases "(N - 678879) smod 7 < 0") (simp_all add: fit)
qed

section \<open>Encoding\<close>

lemma quarter: "(4 * k + 1) * c div 4 = k * c + (c :: int) div 4"
proof -
  have "(4 * k + 1) * c = c + k * c * 4" by (simp add: algebra_simps)
  then show ?thesis by (simp only: div_mult_self1)
qed

lemma march_month_bounds: "1 \<le> m \<Longrightarrow> m \<le> 12 \<Longrightarrow> 0 \<le> march_month m \<and> march_month m \<le> 11"
  by (simp add: march_month_def)

lemma encode_date_fields:
  assumes t: "tm_date t = (y, m, d)" and m: "1 \<le> m" "m \<le> 12" and d: "1 \<le> d" "d \<le> 31"
    and y: "0 \<le> march_year y m" "march_year y m \<le> 2000000"
  shows "encode_date t = Some (day_number (y, m, d) - 678882)"
proof -
  define Y where "Y = march_year y m"
  define M where "M = march_month m"
  define k where "k = Y div 100"
  define a where "a = Y mod 100"
  have M: "0 \<le> M" "M \<le> 11" using march_month_bounds [OF m] by (simp_all add: M_def)
  have ka: "0 \<le> k" "0 \<le> a" "a \<le> 99" "Y = 100 * k + a"
    using y by (simp_all add: k_def a_def Y_def pos_imp_zdiv_nonneg_iff)
  then have k: "k \<le> 20000" using y(2) zdiv_mono1 [of Y 2000000 100] unfolding Y_def k_def by simp
  have shift: "(if m > 2 then s32 (m - 3) \<bind> (\<lambda>m. Some (m, y))
      else s32 (m + 9) \<bind> (\<lambda>m. s32 (y - 1) \<bind> (\<lambda>y. Some (m, y)))) = Some (M, Y)"
    using m y by (cases "m > 2") (simp_all add: M_def Y_def march_month_def march_year_def)
  have "146097 * k div 4 = 36524 * k + k div 4" "1461 * a div 4 = 365 * a + a div 4"
    using quarter [of 36524 k] quarter [of 365 a] by simp_all
  from sdiv_eqI [OF _ zero_less_numeral this(1)] sdiv_eqI [OF _ zero_less_numeral this(2)]
  have q: "Y sdiv 100 = k" "(146097 * k) sdiv 4 = 36524 * k + k div 4" "(1461 * a) sdiv 4 = 365 * a + a div 4"
    "(153 * M + 2) sdiv 5 = (153 * M + 2) div 5"
    using sdiv_nonneg [OF y(1) zero_less_numeral] sdiv_nonneg [of "153 * M + 2" 5] ka(1,2) M
    by (simp_all add: k_def [symmetric] Y_def [symmetric])
  have fit: "s32 m = Some m" "s32 y = Some y" "s32 (100 * k) = Some (100 * k)" "s32 (Y - 100 * k) = Some a"
    "s64 (146097 * k) = Some (146097 * k)" "s32 (1461 * a) = Some (1461 * a)"
    "s32 (153 * M) = Some (153 * M)" "s32 (153 * M + 2) = Some (153 * M + 2)"
    using m y M ka k by (simp_all add: march_year_def s64_in split: if_splits)
  have f: "tm_mon t + 1 = m" "tm_year t + 1900 = y" "tm_mday t = d"
    using t by (simp_all add: tm_date_def)
  have n: "36524 * k + k div 4 + (365 * a + a div 4) + (153 * M + 2) div 5 + d + 1721119 - 2400001
      = day_number (y, m, d) - 678882"
    by (simp add: days_before_split Y_def [symmetric] k_def a_def M_def)
  have "0 \<le> k div 4" "k div 4 \<le> k" "0 \<le> a div 4" "a div 4 \<le> a" "0 \<le> (153 * M + 2) div 5" "(153 * M + 2) div 5 \<le> 153 * M + 2"
    using ka(1,2) M by linarith+
  then have range: "- 2147483648 \<le> day_number (y, m, d) - 678882" "day_number (y, m, d) - 678882 < 2147483648"
    unfolding n [symmetric] using ka k M d by linarith+
  show ?thesis
    unfolding encode_date_def f Let_def fit(1,2) bind.bind_lunit shift prod.case q(1) fit
    unfolding q n to_int_in [OF range] ..
qed

lemma encode_date_number:
  assumes "tm_date t = (y, m, d)" "cal_ok (y, m, d)" "0 \<le> march_year y m" "march_year y m \<le> 2000000"
  shows "encode_date t = Some (day_number (y, m, d) - 678882)"
  by (rule encode_date_fields) (use assms in \<open>simp_all add: month_length_def split: if_splits\<close>)

section \<open>Dates and time stamps\<close>

lemma days_before_mono: "x \<le> y \<Longrightarrow> days_before x \<le> days_before y"
proof (induction y rule: int_ge_induct)
  case base
  show ?case ..
next
  case (step y)
  then show ?case using days_before_step [of y] by (simp split: if_splits)
qed

lemma days_before_ge: "0 \<le> y \<Longrightarrow> 365 * y \<le> days_before y"
proof (induction y rule: int_ge_induct)
  case base
  show ?case by (simp add: days_before_def)
next
  case (step y)
  then show ?case using days_before_step [of y] by (simp add: distrib_left split: if_splits)
qed

lemma march_year_bound:
  assumes c: "cal_ok (y, m, d)" and y: "0 \<le> march_year y m" and n: "day_number (y, m, d) \<le> 536870911"
  shows "march_year y m \<le> 2000000"
proof -
  have "365 * march_year y m \<le> 536870911"
    using days_before_ge [OF y] march_day_bounds [OF c] n by simp
  then show ?thesis by simp
qed

text \<open>A date of the calendar, decoded and encoded.\<close>

lemma date_codec:
  assumes c: "cal_ok (y, m, d)" and y: "0 \<le> march_year y m" and n: "day_number (y, m, d) \<le> 536870911"
  shows "decode_date (day_number (y, m, d) - 678882) = Some (tm_of (y, m, d))"
    and "tm_date t = (y, m, d) \<Longrightarrow> encode_date t = Some (day_number (y, m, d) - 678882)"
  using decode_date_number [OF c y n] encode_date_number [OF _ c y march_year_bound [OF c y n]]
  by blast+

lemma decode_date_calendar:
  assumes "int k \<le> 536870604"
  shows "\<exists>t. decode_date (MIN_DATE + int k) = Some t \<and> tm_date t = calendar k \<and>
    tm_wday t = (int k + 1) mod 7 \<and> tm_yday t = day_of_year (calendar k) \<and>
    encode_date t = Some (MIN_DATE + int k)"
proof -
  obtain y m d where c: "calendar k = (y, m, d)" by (cases "calendar k")
  have ok: "cal_ok (y, m, d)" and n: "day_number (y, m, d) = int k + 307" and y: "1 \<le> y"
    using cal_ok_calendar [of k] day_number_calendar [of k] calendar_year_pos [of k] unfolding c by simp_all
  have my: "0 \<le> march_year y m" using y by (simp add: march_year_def)
  have "day_number (y, m, d) \<le> 536870911" using assms unfolding n by simp
  note codec = date_codec [OF ok my this]
  have e: "int k + 307 - 678882 = MIN_DATE + int k" by (simp add: MIN_DATE_def)
  have "(int k + 307 + 2) mod 7 = (int k + 1 + 7 * 44) mod 7" by (rule arg_cong) simp
  then have "tm_wday (tm_of (y, m, d)) = (int k + 1) mod 7" "tm_yday (tm_of (y, m, d)) = day_of_year (y, m, d)"
    using tm_wday_tm_of [of "(y, m, d)"] tm_yday_tm_of unfolding n by (simp_all only: mod_mult_self2)
  moreover have "decode_date (MIN_DATE + int k) = Some (tm_of (y, m, d))"
    "encode_date (tm_of (y, m, d)) = Some (MIN_DATE + int k)"
    using codec(1) codec(2) [OF tm_date_tm_of] unfolding n e .
  ultimately show ?thesis unfolding c using tm_date_tm_of by blast
qed

text \<open>C6. Dates are those of the Gregorian calendar: the day \<open>k\<close> days after 1 January of year 1 is decoded to the
  date that \<open>k\<close> steps to the following day lead to, with its day of the week (1 January of year 1 is a Monday) and
  its day of the year, and encoded again. No intermediate result overflows up to the year 1469898, far beyond
  the last valid date.\<close>
theorem date_calendar:
  assumes "int k \<le> 536870604"
  shows "\<exists>t. decode_date (MIN_DATE + int k) = Some t \<and> tm_date t = calendar k \<and>
    tm_wday t = (int k + 1) mod 7 \<and> tm_yday t = day_of_year (calendar k) \<and>
    encode_date t = Some (MIN_DATE + int k)"
  using assms by (rule decode_date_calendar)

theorem date_calendar_witness:
  "\<exists>t. decode_date (MIN_DATE + int 59) = Some t \<and> tm_date t = calendar 59 \<and>
    tm_wday t = (int 59 + 1) mod 7 \<and> tm_yday t = day_of_year (calendar 59) \<and>
    encode_date t = Some (MIN_DATE + int 59)"
  by (rule date_calendar) simp

section \<open>Times\<close>

lemma decode_time_bounds:
  assumes "0 \<le> n" "n < 864000000" "decode_time n = (h, m, s, f)"
  shows "0 \<le> h" "h < 24" "0 \<le> m" "m < 60" "0 \<le> s" "s < 60" "0 \<le> f" "f < 10000"
    and "n = ((h * 60 + m) * 60 + s) * 10000 + f"
proof -
  define p where "p = n mod 36000000"
  define q where "q = p mod 600000"
  have v: "h = n div 36000000" "m = p div 600000" "s = q div 10000" "f = q mod 10000"
    using assms(3) by (simp_all add: decode_time_def Let_def ISC_TIME_SECONDS_PRECISION_def p_def q_def)
  have n: "n = h * 36000000 + p" "p = m * 600000 + q" "q = s * 10000 + f"
    by (simp_all add: v p_def q_def)
  have b: "0 \<le> p" "p < 36000000" "0 \<le> q" "q < 600000" by (simp_all add: p_def q_def)
  show f: "0 \<le> f" "f < 10000" by (simp_all add: v)
  show "0 \<le> h" "h < 24" using n(1) b assms(1,2) by linarith+
  show "0 \<le> m" "m < 60" using n(2) b by linarith+
  show "0 \<le> s" "s < 60" using n(3) b f by linarith+
  show "n = ((h * 60 + m) * 60 + s) * 10000 + f" using n by (simp add: algebra_simps)
qed

lemma encode_time_fields:
  assumes "0 \<le> h" "h < 24" "0 \<le> m" "m < 60" "0 \<le> s" "s < 60" "0 \<le> f" "f < 10000"
  shows "encode_time h m s f = Some (((h * 60 + m) * 60 + s) * 10000 + f)"
  using assms by (simp add: encode_time_def ISC_TIME_SECONDS_PRECISION_def u32_def mod_pos_pos_trivial)

lemma place: "0 \<le> r \<Longrightarrow> r < k \<Longrightarrow> (r + q * k) div k = (q :: int)" "0 \<le> r \<Longrightarrow> r < k \<Longrightarrow> (r + q * k) mod k = (r :: int)"
  by simp_all

lemma decode_time_parts:
  assumes "n = p + h * 36000000" "0 \<le> p" "p < 36000000" "p = q + m * 600000" "0 \<le> q" "q < 600000"
    "q = f + s * 10000" "0 \<le> f" "f < 10000"
  shows "decode_time n = (h, m, s, f)"
proof -
  have k: "(3600 :: int) * 10000 = 36000000" "(60 :: int) * 10000 = 600000" by simp_all
  show ?thesis
    unfolding decode_time_def Let_def ISC_TIME_SECONDS_PRECISION_def k
    unfolding assms(1) place [OF assms(2,3)] unfolding assms(4) place [OF assms(5,6)]
    unfolding assms(7) place [OF assms(8,9)] ..
qed

lemma decode_time_fields:
  assumes "0 \<le> h" "h < 24" "0 \<le> m" "m < 60" "0 \<le> s" "s < 60" "0 \<le> f" "f < 10000"
  shows "decode_time (((h * 60 + m) * 60 + s) * 10000 + f) = (h, m, s, f)"
  by (rule decode_time_parts [where p = "f + s * 10000 + m * 600000" and q = "f + s * 10000"])
    (use assms in \<open>simp_all add: distrib_right\<close>)

section \<open>Round trips of time stamps\<close>

lemma valid_date_number:
  assumes "isValidDate n"
  obtains k where "n = MIN_DATE + int k" "int k \<le> 3652058"
  using that [of "nat (n - MIN_DATE)"] assms by (auto simp: isValidDate_def MIN_DATE_def MAX_DATE_def)

lemma march_day_before_january:
  assumes "cal_ok (y, m, d)" "2 < m"
  shows "march_day (y, m, d) \<le> 306"
proof -
  have m: "1 \<le> m" "m \<le> 12" using assms by simp_all
  show ?thesis
    by (cases rule: month_cases [OF m]) (use assms in \<open>simp_all add: march_month_def month_length_def\<close>)
qed

lemma january_march_day:
  assumes "cal_ok (y, m, d)" "m \<le> 2"
  shows "307 \<le> march_day (y, m, d)"
proof -
  have m: "1 \<le> m" "m \<le> 12" using assms by simp_all
  show ?thesis
    by (cases rule: month_cases [OF m]) (use assms in \<open>simp_all add: march_month_def month_length_def\<close>)
qed

lemma valid_date_of_year:
  assumes c: "cal_ok (y, m, d)" and y: "1 \<le> y" "y \<le> 9999"
  shows "isValidDate (day_number (y, m, d) - 678882)"
proof -
  have d: "days_before 0 = 0" "days_before 1 = 365" "days_before 9998 = 3651694" "days_before 9999 = 3652059"
    by (simp_all add: days_before_def)
  have "307 \<le> day_number (y, m, d) \<and> day_number (y, m, d) \<le> 3652365"
  proof (cases "2 < m")
    case True
    then show ?thesis
      using days_before_mono [OF y(1)] days_before_mono [OF y(2)] march_day_bounds [OF c]
        march_day_before_january [OF c True] d by (simp add: march_year_def del: march_day.simps)
  next
    case False
    then have m: "m \<le> 2" by simp
    have "0 \<le> y - 1" "y - 1 \<le> 9998" using y by simp_all
    then show ?thesis
      using days_before_mono [of 0 "y - 1"] days_before_mono [of "y - 1" 9998] march_day_bounds [OF c]
        january_march_day [OF c m] d m by (simp add: march_year_def del: march_day.simps)
  qed
  then show ?thesis by (simp add: isValidDate_def MIN_DATE_def MAX_DATE_def del: day_number.simps)
qed

text \<open>A time stamp whose fields are a date of the years 1 to 9999 and a time of the day.\<close>

definition tm_valid :: "tm \<Rightarrow> int \<Rightarrow> bool" where
  "tm_valid t fractions \<longleftrightarrow> cal_ok (tm_date t) \<and> 1 \<le> tm_year t + 1900 \<and> tm_year t + 1900 \<le> 9999 \<and>
    0 \<le> tm_hour t \<and> tm_hour t < 24 \<and> 0 \<le> tm_min t \<and> tm_min t < 60 \<and> 0 \<le> tm_sec t \<and> tm_sec t < 60 \<and>
    0 \<le> fractions \<and> fractions < ISC_TIME_SECONDS_PRECISION"

definition ISC_TIME_value :: "tm \<Rightarrow> int \<Rightarrow> int" where
  "ISC_TIME_value t fractions = ((tm_hour t * 60 + tm_min t) * 60 + tm_sec t) * 10000 + fractions"

text \<open>A field-wise description of the time stamp and of the fields it is decoded to.\<close>

lemma timestamp_encode_fields:
  assumes "tm_valid t f"
  shows "timestamp_encode t f = Some \<lparr>timestamp_date = day_number (tm_date t) - 678882,
    timestamp_time = ISC_TIME_value t f\<rparr>"
proof -
  obtain y m d where c: "tm_date t = (y, m, d)" by (cases "tm_date t")
  then have y: "tm_year t + 1900 = y" by (simp add: tm_date_def)
  have ok: "cal_ok (y, m, d)" and b: "1 \<le> y" "y \<le> 9999"
    using assms unfolding tm_valid_def c y by blast+
  have "0 \<le> march_year y m" "march_year y m \<le> 2000000" using b by (simp_all add: march_year_def)
  from encode_date_number [OF c ok this] show ?thesis
    using assms encode_time_fields unfolding timestamp_encode_def encode_timestamp_def ISC_TIME_value_def c tm_valid_def
      ISC_TIME_SECONDS_PRECISION_def by simp
qed

lemma timestamp_decode_fields:
  assumes "tm_valid t f"
  shows "timestamp_decode \<lparr>timestamp_date = day_number (tm_date t) - 678882, timestamp_time = ISC_TIME_value t f\<rparr>
    = Some (t\<lparr>tm_wday := (day_number (tm_date t) + 2) mod 7, tm_yday := day_of_year (tm_date t)\<rparr>, f)"
proof -
  obtain y m d where c: "tm_date t = (y, m, d)" by (cases "tm_date t")
  then have y: "tm_year t = y - 1900" "tm_mon t = m - 1" "tm_mday t = d" by (auto simp: tm_date_def)
  have ok: "cal_ok (y, m, d)" and b: "1 \<le> y" "y \<le> 9999"
    using assms unfolding tm_valid_def c y by simp_all
  have my: "0 \<le> march_year y m" using b by (simp add: march_year_def)
  have "day_number (y, m, d) \<le> 536870911"
    using valid_date_of_year [OF ok b] by (simp add: isValidDate_def MAX_DATE_def del: day_number.simps)
  note dd = decode_date_number [OF ok my this]
  have dt: "decode_time (ISC_TIME_value t f) = (tm_hour t, tm_min t, tm_sec t, f)"
    unfolding ISC_TIME_value_def using assms decode_time_fields
    unfolding tm_valid_def ISC_TIME_SECONDS_PRECISION_def by blast
  show ?thesis
    unfolding timestamp_decode_def decode_timestamp_def ISC_TIMESTAMP.simps c dd dt bind.bind_lunit Let_def prod.case
    by (cases t) (use y in \<open>simp add: tm_of_def tm_zero_def del: day_number.simps day_of_year.simps\<close>)
qed

text \<open>A date of the years 1 to 9999 with a time of the day is encoded to a valid time stamp, and decoding
  gives every field back, with the day of the week and of the year set.\<close>
theorem timestamp_fields_roundtrip:
  assumes "tm_valid t fractions"
  shows "\<exists>ts. timestamp_encode t fractions = Some ts \<and> isValidTimeStamp ts \<and>
    timestamp_decode ts = Some (t\<lparr>tm_wday := (day_number (tm_date t) + 2) mod 7, tm_yday := day_of_year (tm_date t)\<rparr>, fractions)"
proof -
  obtain y m d where c: "tm_date t = (y, m, d)" by (cases "tm_date t")
  then have "isValidDate (day_number (tm_date t) - 678882)"
    using assms valid_date_of_year [of y m d] by (simp add: tm_valid_def tm_date_def del: day_number.simps)
  moreover have "isValidTime (ISC_TIME_value t fractions)"
    using assms by (simp add: isValidTime_def tm_valid_def ISC_TIME_value_def ISC_TIME_SECONDS_PRECISION_def)
  ultimately show ?thesis
    using timestamp_encode_fields [OF assms] timestamp_decode_fields [OF assms]
    by (simp add: isValidTimeStamp_def del: day_number.simps)
qed

definition leap_second_before :: tm where
  "leap_second_before = tm_zero\<lparr>tm_year := 116, tm_mon := 1, tm_mday := 29, tm_hour := 23, tm_min := 59, tm_sec := 59\<rparr>"

theorem timestamp_fields_roundtrip_witness:
  "\<exists>ts. timestamp_encode leap_second_before 9999 = Some ts \<and> isValidTimeStamp ts \<and>
    timestamp_decode ts = Some (leap_second_before\<lparr>tm_wday := (day_number (tm_date leap_second_before) + 2) mod 7,
      tm_yday := day_of_year (tm_date leap_second_before)\<rparr>, 9999)"
  by (rule timestamp_fields_roundtrip)
    (simp add: tm_valid_def leap_second_before_def tm_zero_def tm_date_def month_length_def leap_def
      ISC_TIME_SECONDS_PRECISION_def)

lemma day_number_bound_year:
  assumes "cal_ok (y, m, d)" "day_number (y, m, d) \<le> 3652365"
  shows "y \<le> 9999"
proof (rule ccontr)
  assume y: "\<not> y \<le> 9999"
  have d: "days_before 9999 = 3652059" by (simp add: days_before_def)
  show False
  proof (cases "2 < m")
    case True
    then have "10000 \<le> march_year y m" using y by (simp add: march_year_def)
    moreover have "days_before 10000 = 3652425" by (simp add: days_before_def)
    ultimately show False
      using days_before_mono [of 10000 "march_year y m"] march_day_bounds [OF assms(1)] assms(2) by simp
  next
    case False
    then have m: "m \<le> 2" and "9999 \<le> march_year y m" using y by (simp_all add: march_year_def)
    then show False
      using days_before_mono [of 9999 "march_year y m"] january_march_day [OF assms(1) m] assms(2) d by simp
  qed
qed

lemma valid_timestamp_fields:
  assumes "isValidTimeStamp ts" "0 \<le> timestamp_time ts"
  obtains t f where "timestamp_decode ts = Some (t, f)" "tm_valid t f"
    "timestamp_date ts = day_number (tm_date t) - 678882" "timestamp_time ts = ISC_TIME_value t f"
    "tm_wday t = (day_number (tm_date t) + 2) mod 7" "tm_yday t = day_of_year (tm_date t)"
proof -
  have date: "isValidDate (timestamp_date ts)" using assms(1) by (simp add: isValidTimeStamp_def)
  then obtain k where k: "timestamp_date ts = MIN_DATE + int k" "int k \<le> 3652058" by (rule valid_date_number)
  obtain y m d where c: "calendar k = (y, m, d)" by (cases "calendar k")
  have ok: "cal_ok (y, m, d)" and n: "day_number (y, m, d) = int k + 307" and y: "1 \<le> y"
    using cal_ok_calendar [of k] day_number_calendar [of k] calendar_year_pos [of k] unfolding c by simp_all
  have dn: "timestamp_date ts = day_number (y, m, d) - 678882" using k(1) unfolding n by (simp add: MIN_DATE_def)
  have le: "day_number (y, m, d) \<le> 3652365" using k(2) unfolding n by simp
  have y2: "y \<le> 9999" by (rule day_number_bound_year [OF ok le])
  have my: "0 \<le> march_year y m" using y by (simp add: march_year_def)
  obtain h mi s f where dt: "decode_time (timestamp_time ts) = (h, mi, s, f)" by (cases "decode_time (timestamp_time ts)")
  have "timestamp_time ts < 864000000"
    using assms(1) by (simp add: isValidTimeStamp_def isValidTime_def ISC_TIME_SECONDS_PRECISION_def)
  note tb = decode_time_bounds [OF assms(2) this dt]
  define t where "t = (tm_of (y, m, d))\<lparr>tm_hour := h, tm_min := mi, tm_sec := s\<rparr>"
  have td: "tm_date t = (y, m, d)" using tm_date_tm_of [of "(y, m, d)"] by (simp add: t_def tm_date_def)
  have "decode_date (timestamp_date ts) = Some (tm_of (y, m, d))"
    unfolding dn using decode_date_number [OF ok my] le by simp
  then have "timestamp_decode ts = Some (t, f)"
    by (simp add: timestamp_decode_def decode_timestamp_def dt t_def)
  moreover have "tm_year t + 1900 = y" using td by (simp add: tm_date_def)
  then have "tm_valid t f"
    using tb ok y y2 td by (simp add: tm_valid_def ISC_TIME_SECONDS_PRECISION_def t_def del: cal_ok.simps)
  moreover have "timestamp_time ts = ISC_TIME_value t f" using tb(9) by (simp add: ISC_TIME_value_def t_def)
  moreover have "tm_wday t = (day_number (tm_date t) + 2) mod 7" "tm_yday t = day_of_year (tm_date t)"
    unfolding td by (simp_all add: t_def tm_wday_tm_of tm_yday_tm_of del: day_number.simps day_of_year.simps)
  ultimately show ?thesis using that dn td by metis
qed

text \<open>C26. A valid time stamp is decoded to a date of the years 1 to 9999 and a time of the day, and encoding
  these gives the time stamp back.\<close>
theorem timestamp_value_roundtrip:
  assumes "isValidTimeStamp ts" "0 \<le> timestamp_time ts"
  shows "\<exists>t fractions. timestamp_decode ts = Some (t, fractions) \<and> tm_valid t fractions \<and>
    timestamp_encode t fractions = Some ts"
proof -
  obtain t f where t: "timestamp_decode ts = Some (t, f)" "tm_valid t f"
    "timestamp_date ts = day_number (tm_date t) - 678882" "timestamp_time ts = ISC_TIME_value t f"
    by (rule valid_timestamp_fields [OF assms])
  then have "timestamp_encode t f = Some ts"
    using timestamp_encode_fields [OF t(2)] by (cases ts) simp
  with t show ?thesis by blast
qed

theorem timestamp_value_roundtrip_witness:
  "\<exists>t fractions. timestamp_decode \<lparr>timestamp_date = MAX_DATE, timestamp_time = 863999999\<rparr> = Some (t, fractions) \<and>
    tm_valid t fractions \<and>
    timestamp_encode t fractions = Some \<lparr>timestamp_date = MAX_DATE, timestamp_time = 863999999\<rparr>"
  by (rule timestamp_value_roundtrip)
    (simp_all add: isValidTimeStamp_def isValidDate_def isValidTime_def MIN_DATE_def MAX_DATE_def
      ISC_TIME_SECONDS_PRECISION_def)

end
