(* ===== verification/FB_Date_Functions.thy ===== *)
theory FB_Date_Functions
  imports FB_Timestamp
begin

text \<open>
  The functions of SQL on dates and times: EXTRACT (\<^verbatim>\<open>ExtractNode::execute\<close> in \<^verbatim>\<open>src/dsql/ExprNodes.cpp\<close>), DATEADD,
  DATEDIFF, FIRST_DAY and LAST_DAY (\<^verbatim>\<open>src/jrd/SysFunction.cpp\<close>). An argument is what \<^verbatim>\<open>EVL_expr\<close> returns for it, \<open>None\<close>
  for NULL. The part is the number that \<^verbatim>\<open>MOV_get_long\<close> reads, the quantity of DATEADD is a function of the
  scale that \<^verbatim>\<open>MOV_get_int64\<close> is called with. An arithmetic overflow, undefined in the code, is an error of its own.
\<close>

section \<open>Parts of dates\<close>

definition blr_extract_year :: int where "blr_extract_year = 0"
definition blr_extract_month :: int where "blr_extract_month = 1"
definition blr_extract_day :: int where "blr_extract_day = 2"
definition blr_extract_hour :: int where "blr_extract_hour = 3"
definition blr_extract_minute :: int where "blr_extract_minute = 4"
definition blr_extract_second :: int where "blr_extract_second = 5"
definition blr_extract_weekday :: int where "blr_extract_weekday = 6"
definition blr_extract_yearday :: int where "blr_extract_yearday = 7"
definition blr_extract_millisecond :: int where "blr_extract_millisecond = 8"
definition blr_extract_week :: int where "blr_extract_week = 9"

lemmas blr_extract_defs = blr_extract_year_def blr_extract_month_def blr_extract_day_def blr_extract_hour_def
  blr_extract_minute_def blr_extract_second_def blr_extract_weekday_def blr_extract_yearday_def
  blr_extract_millisecond_def blr_extract_week_def

definition extractParts :: "string list" where
  "extractParts = [''YEAR'', ''MONTH'', ''DAY'', ''HOUR'', ''MINUTE'', ''SECOND'', ''WEEKDAY'', ''YEARDAY'',
     ''MILLISECOND'', ''WEEK'']"

definition getPartName :: "int \<Rightarrow> string" where
  "getPartName n = (if n < 0 \<or> n \<ge> int (length extractParts) then ''Unknown'' else extractParts ! nat n)"

section \<open>Values and errors\<close>

datatype date_value =
    sql_time ISC_TIME
  | sql_date ISC_DATE
  | sql_timestamp ISC_TIMESTAMP
  | other_dtype

datatype date_error =
    isc_invalid_extractpart_time
  | isc_invalid_extractpart_date
  | isc_invalidarg_extract
  | isc_sysf_invalid_addpart_time
  | isc_sysf_invalid_add_datetime
  | isc_sysf_invalid_addpart_dtime string
  | isc_datetime_range_exceeded
  | isc_sysf_invalid_diff_dtime
  | isc_sysf_invalid_timediff
  | isc_sysf_invalid_tstamptimediff
  | isc_sysf_invalid_datetimediff
  | isc_sysf_invalid_diffpart string
  | isc_sysf_invalid_date_timestamp
  | isc_sysf_invalid_first_last_part
  | arithmetic_overflow

definition checked :: "'a option \<Rightarrow> date_error + 'a" where
  "checked r = (case r of None \<Rightarrow> Inl arithmetic_overflow | Some x \<Rightarrow> Inr x)"

fun is_time :: "date_value \<Rightarrow> bool" where
  "is_time (sql_time _) = True" | "is_time _ = False"

fun is_date :: "date_value \<Rightarrow> bool" where
  "is_date (sql_date _) = True" | "is_date _ = False"

fun is_timestamp :: "date_value \<Rightarrow> bool" where
  "is_timestamp (sql_timestamp _) = True" | "is_timestamp _ = False"

section \<open>EXTRACT\<close>

definition iso_week :: "tm \<Rightarrow> int" where
  "iso_week tms =
    (let y = tm_year tms + 1900;
         dayOfYearNumber = tm_yday tms + 1;
         yy = (y - 1) smod 100;
         c = (y - 1) - yy;
         g = yy + yy sdiv 4;
         jan1Weekday = 1 + ((((c sdiv 100) smod 4) * 5 + g) smod 7);
         h = dayOfYearNumber + (jan1Weekday - 1);
         weekday = 1 + ((h - 1) smod 7);
         (yearNumber, weekNumber) =
           (if dayOfYearNumber \<le> 8 - jan1Weekday \<and> jan1Weekday > 4
            then (y - 1, if jan1Weekday = 5 \<or> (jan1Weekday = 6 \<and> isLeapYear (y - 1)) then 53 else 52)
            else let i = (if isLeapYear y then 366 else 365)
                 in if i - dayOfYearNumber < 4 - weekday then (y + 1, 1) else (y, 0))
     in if yearNumber = y
        then let j = dayOfYearNumber + (7 - weekday) + (jan1Weekday - 1);
                 weekNumber = j sdiv 7
             in if jan1Weekday > 4 then weekNumber - 1 else weekNumber
        else weekNumber)"

text \<open>The fields are read for the types and parts that fit each other.\<close>

definition extract_fields :: "int \<Rightarrow> date_value \<Rightarrow> date_error + tm \<times> int" where
  "extract_fields blrSubOp v = (case v of
     sql_time t \<Rightarrow>
       (if blrSubOp \<in> {blr_extract_hour, blr_extract_minute, blr_extract_second, blr_extract_millisecond}
        then let (hour, min, sec, fractions) = decode_time t
             in Inr (tm_zero\<lparr>tm_hour := hour, tm_min := min, tm_sec := sec\<rparr>, fractions)
        else Inl isc_invalid_extractpart_time)
   | sql_date d \<Rightarrow>
       (if blrSubOp \<in> {blr_extract_hour, blr_extract_minute, blr_extract_second, blr_extract_millisecond}
        then Inl isc_invalid_extractpart_date
        else case checked (decode_date d) of Inl e \<Rightarrow> Inl e | Inr tms \<Rightarrow> Inr (tms, 0))
   | sql_timestamp ts \<Rightarrow> checked (decode_timestamp ts)
   | other_dtype \<Rightarrow> Inl isc_invalidarg_extract)"

text \<open>The result is a number with its scale: an unsigned short number, or an unsigned long one for
  seconds and milliseconds.\<close>

definition u16 :: "int \<Rightarrow> int" where
  "u16 v = v mod 2 ^ 16"

definition extract_execute :: "int \<Rightarrow> date_value option \<Rightarrow> date_error + (int \<times> int) option" where
  "extract_execute blrSubOp arg = (case arg of None \<Rightarrow> Inr None | Some v \<Rightarrow>
     (case extract_fields blrSubOp v of Inl e \<Rightarrow> Inl e | Inr (tms, fractions) \<Rightarrow>
       (let short = (\<lambda>part. Inr (Some (u16 part, 0))) in
        if blrSubOp = blr_extract_year then short (tm_year tms + 1900)
        else if blrSubOp = blr_extract_month then short (tm_mon tms + 1)
        else if blrSubOp = blr_extract_day then short (tm_mday tms)
        else if blrSubOp = blr_extract_hour then short (tm_hour tms)
        else if blrSubOp = blr_extract_minute then short (tm_min tms)
        else if blrSubOp = blr_extract_second
        then Inr (Some (u32 (tm_sec tms * ISC_TIME_SECONDS_PRECISION + fractions), ISC_TIME_SECONDS_PRECISION_SCALE))
        else if blrSubOp = blr_extract_millisecond
        then Inr (Some (u32 fractions, ISC_TIME_SECONDS_PRECISION_SCALE + 3))
        else if blrSubOp = blr_extract_week then short (iso_week tms)
        else if blrSubOp = blr_extract_yearday then short (tm_yday tms)
        else if blrSubOp = blr_extract_weekday then short (tm_wday tms)
        else short 0)))"

section \<open>DATEADD\<close>

definition oneDay :: int where
  "oneDay = 86400"

definition milliScale :: int where
  "milliScale = ISC_TIME_SECONDS_PRECISION_SCALE + 3"

definition milliPow :: int where
  "milliPow = POW_10_TABLE ! nat (- milliScale)"

definition add10msec :: "ISC_TIMESTAMP \<Rightarrow> int \<Rightarrow> int \<Rightarrow> ISC_TIMESTAMP option" where
  "add10msec v msec multiplier = do {
     full \<leftarrow> s64 (msec * multiplier);
     let days = to_int (full sdiv (oneDay * ISC_TIME_SECONDS_PRECISION));
     let secs = to_int (full smod (oneDay * ISC_TIME_SECONDS_PRECISION));
     date \<leftarrow> s32 (timestamp_date v + days);
     if secs < 0 \<and> u32 (- secs) > timestamp_time v
     then do {
       date \<leftarrow> s32 (date - 1);
       Some \<lparr>timestamp_date = date,
         timestamp_time = u32 (timestamp_time v + (oneDay * ISC_TIME_SECONDS_PRECISION + secs))\<rparr>
     }
     else let time = u32 (timestamp_time v + secs) in
       if time \<ge> oneDay * ISC_TIME_SECONDS_PRECISION
       then do {
         date \<leftarrow> s32 (date + 1);
         Some \<lparr>timestamp_date = date, timestamp_time = u32 (time - oneDay * ISC_TIME_SECONDS_PRECISION)\<rparr>
       }
       else Some \<lparr>timestamp_date = date, timestamp_time = time\<rparr>
   }"

text \<open>The case \<^verbatim>\<open>blr_extract_year\<close>. The calls of \<^verbatim>\<open>decode\<close> and \<^verbatim>\<open>encode\<close> pass no fractions.\<close>

definition dateadd_year :: "ISC_TIMESTAMP \<Rightarrow> int \<Rightarrow> ISC_TIMESTAMP option" where
  "dateadd_year ts quantity = do {
     (tms, _) \<leftarrow> timestamp_decode ts;
     year \<leftarrow> s64 (tm_year tms + quantity);
     let tms = tms\<lparr>tm_year := to_int year\<rparr>;
     ts \<leftarrow> timestamp_encode tms 0;
     let day = tm_mday tms;
     (tms, _) \<leftarrow> timestamp_decode ts;
     if tm_mday tms \<noteq> day
     then do { date \<leftarrow> s32 (timestamp_date ts - 1); Some (ts\<lparr>timestamp_date := date\<rparr>) }
     else Some ts
   }"

text \<open>The case \<^verbatim>\<open>blr_extract_month\<close>, with the table of the lengths of the months.\<close>

definition element :: "int list \<Rightarrow> int \<Rightarrow> int option" where
  "element md i = (if 0 \<le> i \<and> i < int (length md) then Some (md ! nat i) else None)"

definition dateadd_month :: "ISC_TIMESTAMP \<Rightarrow> int \<Rightarrow> ISC_TIMESTAMP option" where
  "dateadd_month ts quantity = do {
     (tms, _) \<leftarrow> timestamp_decode ts;
     let md = [31, 28, 31, 30, 31, 30, 31, 31, 30, 31, 30, 31];
     let y = to_int (quantity sdiv 12);
     let m = to_int (quantity smod 12);
     len \<leftarrow> element md (tm_mon tms);
     ld \<leftarrow> s32 (len - tm_mday tms);
     let lm = tm_mon tms;
     year \<leftarrow> s32 (tm_year tms + y);
     let tms = tms\<lparr>tm_year := year\<rparr>;
     mon \<leftarrow> s32 (tm_mon tms + m);
     let tms = tms\<lparr>tm_mon := mon\<rparr>;
     tms \<leftarrow>
       (if tm_mon tms > 11
        then do { year \<leftarrow> s32 (tm_year tms + 1); Some (tms\<lparr>tm_year := year, tm_mon := tm_mon tms - 12\<rparr>) }
        else if tm_mon tms < 0
        then do { year \<leftarrow> s32 (tm_year tms - 1); Some (tms\<lparr>tm_year := year, tm_mon := tm_mon tms + 12\<rparr>) }
        else Some tms);
     ly \<leftarrow> s32 (tm_year tms + 1900);
     let md = (if (ly smod 4 = 0 \<and> ly smod 100 \<noteq> 0) \<or> ly smod 400 = 0 then md[1 := 28 + 1] else md);
     mdlm \<leftarrow> element md lm;
     mdmon \<leftarrow> element md (tm_mon tms);
     let tms = (if y \<ge> 0 \<and> m \<ge> 0 \<and> tm_mday tms > mdlm then tms\<lparr>tm_mday := mdmon - ld\<rparr> else tms);
     let tms = (if tm_mday tms > mdmon then tms\<lparr>tm_mday := mdmon\<rparr>
                else if tm_mday tms < 1 then tms\<lparr>tm_mday := 1\<rparr> else tms);
     timestamp_encode tms 0
   }"

text \<open>The sum of a date and a 64-bit number, stored in a date.\<close>

definition add_days :: "ISC_TIMESTAMP \<Rightarrow> int \<Rightarrow> ISC_TIMESTAMP option" where
  "add_days ts n = do {
     date \<leftarrow> s64 (timestamp_date ts + n);
     Some (ts\<lparr>timestamp_date := to_int date\<rparr>)
   }"

definition dateadd_part :: "int \<Rightarrow> date_value \<Rightarrow> ISC_TIMESTAMP \<Rightarrow> int \<Rightarrow> date_error + ISC_TIMESTAMP" where
  "dateadd_part part v ts quantity =
    (if part = blr_extract_year then checked (dateadd_year ts quantity)
     else if part = blr_extract_month then checked (dateadd_month ts quantity)
     else if part = blr_extract_day then checked (add_days ts quantity)
     else if part = blr_extract_week then checked (do { n \<leftarrow> s64 (quantity * 7); add_days ts n })
     else if part = blr_extract_hour
     then checked (if is_date v then add_days ts (quantity sdiv 24)
       else add10msec ts quantity (3600 * ISC_TIME_SECONDS_PRECISION))
     else if part = blr_extract_minute
     then checked (if is_date v then add_days ts (quantity sdiv 1440)
       else add10msec ts quantity (60 * ISC_TIME_SECONDS_PRECISION))
     else if part = blr_extract_second
     then checked (if is_date v then add_days ts (quantity sdiv oneDay)
       else add10msec ts quantity ISC_TIME_SECONDS_PRECISION)
     else if part = blr_extract_millisecond
     then checked (if is_date v then add_days ts (quantity sdiv milliPow sdiv (oneDay * 1000))
       else add10msec ts quantity (ISC_TIME_SECONDS_PRECISION sdiv 1000 sdiv milliPow))
     else Inl (isc_sysf_invalid_addpart_dtime (getPartName part)))"

definition dateadd_source :: "int \<Rightarrow> date_value \<Rightarrow> date_error + ISC_TIMESTAMP" where
  "dateadd_source part v = (case v of
     sql_time t \<Rightarrow>
       (if part \<noteq> blr_extract_hour \<and> part \<noteq> blr_extract_minute \<and> part \<noteq> blr_extract_second \<and>
           part \<noteq> blr_extract_millisecond
        then Inl isc_sysf_invalid_addpart_time
        else Inr \<lparr>timestamp_date = (MAX_DATE - MIN_DATE) sdiv 2 + MIN_DATE, timestamp_time = t\<rparr>)
   | sql_date d \<Rightarrow> Inr \<lparr>timestamp_date = d, timestamp_time = 0\<rparr>
   | sql_timestamp ts \<Rightarrow> Inr ts
   | other_dtype \<Rightarrow> Inl isc_sysf_invalid_add_datetime)"

text \<open>The result has the type of the argument (\<^verbatim>\<open>EVL_make_value\<close>).\<close>

fun make_value :: "date_value \<Rightarrow> ISC_TIMESTAMP \<Rightarrow> date_value" where
  "make_value (sql_time _) ts = sql_time (timestamp_time ts)"
| "make_value (sql_date _) ts = sql_date (timestamp_date ts)"
| "make_value (sql_timestamp _) ts = sql_timestamp ts"
| "make_value other_dtype ts = other_dtype"

definition evlDateAdd :: "(int \<Rightarrow> int) option \<Rightarrow> int option \<Rightarrow> date_value option \<Rightarrow> date_error + date_value option" where
  "evlDateAdd quantityDsc partDsc valueDsc =
    (case (quantityDsc, partDsc, valueDsc) of
       (Some get_int64, Some part, Some v) \<Rightarrow>
         (case dateadd_source part v of Inl e \<Rightarrow> Inl e | Inr ts \<Rightarrow>
          (case dateadd_part part v ts (get_int64 (if part = blr_extract_millisecond then milliScale else 0)) of
             Inl e \<Rightarrow> Inl e
           | Inr ts \<Rightarrow>
               if \<not> isValidTimeStamp ts then Inl isc_datetime_range_exceeded
               else Inr (Some (make_value v ts))))
     | _ \<Rightarrow> Inr None)"

section \<open>DATEDIFF\<close>

definition datediff_source :: "date_value \<Rightarrow> date_error + ISC_TIMESTAMP" where
  "datediff_source v = (case v of
     sql_time t \<Rightarrow> Inr \<lparr>timestamp_date = 0, timestamp_time = t\<rparr>
   | sql_date d \<Rightarrow> Inr \<lparr>timestamp_date = d, timestamp_time = 0\<rparr>
   | sql_timestamp ts \<Rightarrow> Inr ts
   | other_dtype \<Rightarrow> Inl isc_sysf_invalid_diff_dtime)"

text \<open>The first switch sets the fields below the part to zero and encodes the time stamps again; its
  cases fall through.\<close>

definition datediff_cut :: "int \<Rightarrow> tm \<Rightarrow> ISC_TIMESTAMP \<Rightarrow> ISC_TIMESTAMP option" where
  "datediff_cut part tms ts =
    (let tms = (if part = blr_extract_hour then tms\<lparr>tm_min := 0\<rparr> else tms);
         tms = (if part = blr_extract_hour \<or> part = blr_extract_minute then tms\<lparr>tm_sec := 0\<rparr> else tms)
     in if part = blr_extract_hour \<or> part = blr_extract_minute \<or> part = blr_extract_second
        then timestamp_encode tms 0 else Some ts)"

text \<open>The second switch refuses values that do not go with the part.\<close>

definition datediff_check :: "int \<Rightarrow> date_value \<Rightarrow> date_value \<Rightarrow> date_error option" where
  "datediff_check part value1 value2 =
    (if part \<in> {blr_extract_year, blr_extract_month, blr_extract_day, blr_extract_week}
     then if is_time value1 \<or> is_time value2 then Some isc_sysf_invalid_timediff else None
     else if part \<in> {blr_extract_hour, blr_extract_minute, blr_extract_second, blr_extract_millisecond}
     then if (is_timestamp value1 \<and> is_time value2) \<or> (is_time value1 \<and> is_timestamp value2)
       then Some isc_sysf_invalid_tstamptimediff
       else if (is_date value1 \<and> is_time value2) \<or> (is_time value1 \<and> is_date value2)
       then Some isc_sysf_invalid_datetimediff
       else None
     else Some (isc_sysf_invalid_diffpart (getPartName part)))"

text \<open>The third switch computes the difference. A difference of dates has 32 bits; its products have 64
  bits, which are enough for it.\<close>

definition datediff_result :: "int \<Rightarrow> tm \<Rightarrow> tm \<Rightarrow> ISC_TIMESTAMP \<Rightarrow> ISC_TIMESTAMP \<Rightarrow> date_error + int" where
  "datediff_result part times1 times2 ts1 ts2 =
    (let seconds = timestamp_time ts2 - timestamp_time ts1 in
     if part = blr_extract_year then checked (s32 (tm_year times2 - tm_year times1))
     else if part = blr_extract_month
     then checked (do {
       years \<leftarrow> s32 (tm_year times2 - tm_year times1);
       result \<leftarrow> s32 (12 * years);
       Some (result + (tm_mon times2 - tm_mon times1))
     })
     else if part = blr_extract_day then checked (s32 (timestamp_date ts2 - timestamp_date ts1))
     else if part = blr_extract_week
     then checked (do { days \<leftarrow> s32 (timestamp_date ts2 - timestamp_date ts1); Some (days sdiv 7) })
     else if part = blr_extract_hour
     then checked (do {
       days \<leftarrow> s32 (timestamp_date ts2 - timestamp_date ts1);
       Some (24 * days + seconds sdiv ISC_TIME_SECONDS_PRECISION sdiv 3600)
     })
     else if part = blr_extract_minute
     then checked (do {
       days \<leftarrow> s32 (timestamp_date ts2 - timestamp_date ts1);
       Some (24 * 60 * days + seconds sdiv ISC_TIME_SECONDS_PRECISION sdiv 60)
     })
     else if part = blr_extract_second
     then checked (do {
       days \<leftarrow> s32 (timestamp_date ts2 - timestamp_date ts1);
       Some (oneDay * days + seconds sdiv ISC_TIME_SECONDS_PRECISION)
     })
     else if part = blr_extract_millisecond
     then checked (do {
       days \<leftarrow> s32 (timestamp_date ts2 - timestamp_date ts1);
       Some (oneDay * days * 1000 + seconds sdiv (ISC_TIME_SECONDS_PRECISION sdiv 1000))
     })
     else Inl (isc_sysf_invalid_diffpart (getPartName part)))"

definition evlDateDiff :: "int option \<Rightarrow> date_value option \<Rightarrow> date_value option \<Rightarrow> date_error + int option" where
  "evlDateDiff partDsc value1Dsc value2Dsc =
    (case (partDsc, value1Dsc, value2Dsc) of
       (Some part, Some value1, Some value2) \<Rightarrow>
         (case datediff_source value1 of Inl e \<Rightarrow> Inl e | Inr ts1 \<Rightarrow>
          (case datediff_source value2 of Inl e \<Rightarrow> Inl e | Inr ts2 \<Rightarrow>
           (case checked (do {
              (times1, _) \<leftarrow> timestamp_decode ts1;
              (times2, _) \<leftarrow> timestamp_decode ts2;
              ts1 \<leftarrow> datediff_cut part times1 ts1;
              ts2 \<leftarrow> datediff_cut part times2 ts2;
              Some (times1, times2, ts1, ts2)
            }) of
              Inl e \<Rightarrow> Inl e
            | Inr (times1, times2, ts1, ts2) \<Rightarrow>
                (case datediff_check part value1 value2 of
                   Some e \<Rightarrow> Inl e
                 | None \<Rightarrow> map_sum id Some (datediff_result part times1 times2 ts1 ts2)))))
     | _ \<Rightarrow> Inr None)"

section \<open>FIRST_DAY and LAST_DAY\<close>

text \<open>The switches of \<^verbatim>\<open>evlFirstLastDay\<close>: the fields that become the first of their range, and the
  number of days that is added after encoding.\<close>

definition first_fields :: "int \<Rightarrow> tm \<Rightarrow> tm" where
  "first_fields part tms =
    (let tms = (if part = blr_extract_year then tms\<lparr>tm_mon := 0\<rparr> else tms)
     in if part = blr_extract_year \<or> part = blr_extract_month then tms\<lparr>tm_mday := 1\<rparr> else tms)"

definition last_fields :: "int \<Rightarrow> tm \<Rightarrow> (tm \<times> int) option" where
  "last_fields part tms =
    (if part = blr_extract_year then do { year \<leftarrow> s32 (tm_year tms + 1); Some (tms\<lparr>tm_year := year\<rparr>, - 1) }
     else if part = blr_extract_month
     then do {
       mon \<leftarrow> s32 (tm_mon tms + 1);
       let tms = tms\<lparr>tm_mon := mon\<rparr>;
       if mon = 12
       then do { year \<leftarrow> s32 (tm_year tms + 1); Some (tms\<lparr>tm_mon := 0, tm_year := year\<rparr>, - 1) }
       else Some (tms, - 1)
     }
     else if part = blr_extract_week then do { adjust \<leftarrow> s32 (6 - tm_wday tms); Some (tms, adjust) }
     else Some (tms, 0))"

definition firstlast_source :: "date_value \<Rightarrow> date_error + ISC_TIMESTAMP" where
  "firstlast_source v = (case v of
     sql_date d \<Rightarrow> Inr \<lparr>timestamp_date = d, timestamp_time = 0\<rparr>
   | sql_timestamp ts \<Rightarrow> Inr ts
   | _ \<Rightarrow> Inl isc_sysf_invalid_date_timestamp)"

text \<open>The fields of the first or last day are encoded and adjusted.\<close>

definition firstlast_date :: "bool \<Rightarrow> int \<Rightarrow> tm \<Rightarrow> int \<Rightarrow> ISC_TIMESTAMP option" where
  "firstlast_date last_day part tms fractions = do {
     let tms = first_fields part tms;
     (tms, adjust) \<leftarrow>
       (if last_day then last_fields part tms
        else if part = blr_extract_week then Some (tms, - tm_wday tms)
        else Some (tms, 0));
     ts \<leftarrow> timestamp_encode tms fractions;
     date \<leftarrow> s32 (timestamp_date ts + adjust);
     Some (ts\<lparr>timestamp_date := date\<rparr>)
   }"

definition evlFirstLastDay :: "bool \<Rightarrow> int option \<Rightarrow> date_value option \<Rightarrow> date_error + date_value option" where
  "evlFirstLastDay last_day partDsc valueDsc =
    (case (partDsc, valueDsc) of
       (Some part, Some v) \<Rightarrow>
         (case firstlast_source v of Inl e \<Rightarrow> Inl e | Inr ts \<Rightarrow>
          (case checked (timestamp_decode ts) of Inl e \<Rightarrow> Inl e | Inr (tms, fractions) \<Rightarrow>
           (if part \<noteq> blr_extract_year \<and> part \<noteq> blr_extract_month \<and> part \<noteq> blr_extract_week
            then Inl isc_sysf_invalid_first_last_part
            else (case checked (firstlast_date last_day part tms fractions) of Inl e \<Rightarrow> Inl e | Inr ts \<Rightarrow>
                if \<not> isValidTimeStamp ts then Inl isc_datetime_range_exceeded
                else Inr (Some (make_value v ts))))))
     | _ \<Rightarrow> Inr None)"

end
