(* ===== verification/FB_Date_Laws.thy ===== *)
theory FB_Date_Laws
  imports FB_Calendar FB_Date_Functions
begin

text \<open>
  What the functions of \<open>FB_Date_Functions\<close> compute, in terms of the reference calendar of \<open>FB_Calendar\<close> and
  of the number of ten-thousandths of a second since day 0.
\<close>

section \<open>Days of a year\<close>

definition year_length :: "int \<Rightarrow> int" where
  "year_length y = (if leap y then 366 else 365)"

lemma days_before_year: "days_before y = days_before (y - 1) + year_length y"
  using days_before_step [of "y - 1"] by (simp add: year_length_def)

lemma day_number_of_year:
  assumes "cal_ok (y, m, d)"
  shows "day_number (y, m, d) = days_before (y - 1) + day_of_year (y, m, d) + 307"
    and "0 \<le> day_of_year (y, m, d)" and "day_of_year (y, m, d) < year_length y"
proof -
  have m: "1 \<le> m" "m \<le> 12" and d: "1 \<le> d" "d \<le> month_length y m" using assms by simp_all
  show "day_number (y, m, d) = days_before (y - 1) + day_of_year (y, m, d) + 307"
    using days_before_year [of y] unfolding year_length_def
    by (cases rule: month_cases [OF m])
      (auto simp: march_year_def march_month_def month_length_def upto.simps)
  show "0 \<le> day_of_year (y, m, d)" "day_of_year (y, m, d) < year_length y"
    using d by (cases rule: month_cases [OF m]; auto simp: year_length_def month_length_def upto.simps)+
qed

lemma calendar_of_year:
  assumes "int k = days_before (y - 1) + r" "0 \<le> r" "r < year_length y"
  shows "fst (calendar k) = y" and "day_of_year (calendar k) = r"
proof -
  obtain y' m d where c: "calendar k = (y', m, d)" by (cases "calendar k")
  have ok: "cal_ok (y', m, d)" using cal_ok_calendar [of k] unfolding c .
  note y' = day_number_of_year [OF ok]
  have k: "int k = days_before (y' - 1) + day_of_year (y', m, d)"
    using day_number_calendar [of k] y'(1) unfolding c by linarith
  have "\<not> y < y'"
  proof
    assume "y < y'"
    then have "days_before y \<le> days_before (y' - 1)" by (intro days_before_mono) simp
    then show False using k y'(2) assms days_before_year [of y] by linarith
  qed
  moreover have "\<not> y' < y"
  proof
    assume "y' < y"
    then have "days_before y' \<le> days_before (y - 1)" by (intro days_before_mono) simp
    then show False using k y'(3) assms days_before_year [of y'] by linarith
  qed
  ultimately have "y = y'" by linarith
  then show "fst (calendar k) = y" "day_of_year (calendar k) = r"
    using k assms(1) unfolding c by simp_all
qed

lemma calendar_year_decomp:
  obtains y where "1 \<le> y" "y = fst (calendar k)" "int k = days_before (y - 1) + day_of_year (calendar k)"
    "0 \<le> day_of_year (calendar k)" "day_of_year (calendar k) < year_length y"
proof -
  obtain y m d where c: "calendar k = (y, m, d)" by (cases "calendar k")
  have ok: "cal_ok (y, m, d)" using cal_ok_calendar [of k] unfolding c .
  note y = day_number_of_year [OF ok]
  have "int k = days_before (y - 1) + day_of_year (y, m, d)"
    using day_number_calendar [of k] y(1) unfolding c by linarith
  then show ?thesis using that [of y] y(2,3) calendar_year_pos [of k] unfolding c by simp
qed

lemma day_of_year_bounds: "0 \<le> day_of_year (calendar k)" "day_of_year (calendar k) < 366"
  using calendar_year_decomp [of k] by (fastforce simp: year_length_def split: if_splits)+

section \<open>Weeks of ISO 8601\<close>

text \<open>A week begins on Monday and belongs to the year of its Thursday. \<open>k div 7\<close> counts the weeks from the
  first day of the calendar, a Monday.\<close>

definition iso_week_of :: "nat \<Rightarrow> int" where
  "iso_week_of k = day_of_year (calendar (7 * (k div 7) + 3)) div 7 + 1"

lemma week_of_thursday:
  fixes j w r q n :: int
  assumes j: "1 \<le> j" "j \<le> 7" and w: "1 \<le> w" "w \<le> 7" "r + j - w = 7 * q" and r: "0 \<le> r" "r < n"
  shows "(r + 1 \<le> 8 - j \<and> j > 4) = (r + 4 - w < 0)"
    and "(n - (r + 1) < 4 - w) = (n \<le> r + 4 - w)"
    and "(r + 4 - w) div 7 + 1 = (r + 1 + (7 - w) + (j - 1)) div 7 - (if j > 4 then 1 else 0)"
    and "r + 4 - w < 0 \<Longrightarrow> j = 5 \<and> r + 4 - w = - 1 \<or> j = 6 \<and> r + 4 - w = - 2 \<or> j = 7 \<and> r + 4 - w = - 3"
proof -
  have w': "w = r + j - 7 * q" using w(3) by linarith
  show "(n - (r + 1) < 4 - w) = (n \<le> r + 4 - w)" by linarith
  have "q = 0" if "r + 1 \<le> 8 - j" using that w w' j r by linarith
  moreover have "q \<le> 0" if "r + 4 - w < 0" using that w' j by linarith
  moreover have "0 \<le> q" using w w' j r by linarith
  ultimately show "(r + 1 \<le> 8 - j \<and> j > 4) = (r + 4 - w < 0)"
    using w' w by (cases "q = 0") linarith+
  show "r + 4 - w < 0 \<Longrightarrow> j = 5 \<and> r + 4 - w = - 1 \<or> j = 6 \<and> r + 4 - w = - 2 \<or> j = 7 \<and> r + 4 - w = - 3"
    using \<open>r + 4 - w < 0 \<Longrightarrow> q \<le> 0\<close> \<open>0 \<le> q\<close> w' j by linarith
  have "(r + 1 + (7 - w) + (j - 1)) div 7 = q + 1" using w' by (intro div_unique [of 0]) simp_all
  moreover have "(r + 4 - w) div 7 = q - (if j > 4 then 1 else 0)"
    using w' j by (intro div_unique [of "if j > 4 then 11 - j else 4 - j"]) simp_all
  ultimately show "(r + 4 - w) div 7 + 1 = (r + 1 + (7 - w) + (j - 1)) div 7 - (if j > 4 then 1 else 0)"
    by simp
qed

lemma jan1_weekday:
  assumes "1 \<le> y"
  defines "yy \<equiv> (y - 1) smod 100"
  shows "1 + (((((y - 1) - yy) sdiv 100) smod 4) * 5 + (yy + yy sdiv 4)) smod 7 = 1 + days_before (y - 1) mod 7"
proof -
  define c where "c = (y - 1) div 100"
  have yy: "yy = (y - 1) mod 100" using assms(1) by (simp add: yy_def smod_nonneg)
  have c0: "0 \<le> c" using assms(1) by (simp add: c_def pos_imp_zdiv_nonneg_iff)
  have "(y - 1) - yy = 100 * c" unfolding yy c_def using minus_mod_eq_mult_div [of "y - 1" 100] .
  then have c: "((y - 1) - yy) sdiv 100 = c" using c0 by (simp add: sdiv_nonneg)
  have y0: "0 \<le> yy" unfolding yy by simp
  have "36524 * k + q + 365 * yy + b = p * 5 + (yy + b) + 7 * (5217 * k + 3 * q + 52 * yy)"
    if "q * 4 + p = k" for k q p b :: int
    using that by (simp add: algebra_simps)
  from this [OF div_mult_mod_eq] have "days_before (y - 1) mod 7 = (c mod 4 * 5 + (yy + yy div 4)) mod 7"
    unfolding days_before_split c_def [symmetric] yy [symmetric] by (simp only: mod_mult_self2)
  moreover have "0 \<le> c mod 4 * 5 + (yy + yy div 4)" using y0 by (simp add: pos_imp_zdiv_nonneg_iff)
  ultimately show ?thesis
    unfolding c using c0 y0 by (simp add: smod_nonneg sdiv_nonneg)
qed

lemma iso_week_calendar:
  assumes "tm_year t + 1900 = fst (calendar k)" "tm_yday t = day_of_year (calendar k)"
  shows "iso_week t = iso_week_of k"
proof -
  obtain y where y: "1 \<le> y" "y = fst (calendar k)" and k: "int k = days_before (y - 1) + day_of_year (calendar k)"
    and r: "0 \<le> day_of_year (calendar k)" "day_of_year (calendar k) < year_length y"
    by (rule calendar_year_decomp)
  define r where "r = day_of_year (calendar k)"
  define J where "J = days_before (y - 1)"
  define j where "j = 1 + J mod 7"
  define w where "w = 1 + (r + j - 1) mod 7"
  define q where "q = (r + j - 1) div 7"
  define T where "T = 7 * (k div 7) + 3"
  have r': "0 \<le> r" "r < year_length y" using r by (simp_all add: r_def)
  have j: "1 \<le> j" "j \<le> 7" "0 \<le> j" by (simp_all add: j_def)
  have w: "1 \<le> w" "w \<le> 7" by (simp_all add: w_def)
  have wq: "r + j - w = 7 * q" using minus_mod_eq_mult_div [of "r + j - 1" 7] by (simp add: w_def q_def)
  note thu = week_of_thursday [OF j(1,2) w wq r']
  have rj: "r + j - 1 = r + J mod 7" by (simp add: j_def)
  have kw: "int k mod 7 = w - 1"
    unfolding k w_def rj J_def [symmetric] r_def [symmetric] by (simp add: mod_add_left_eq mod_add_right_eq add.commute)
  have "int T = int k - int k mod 7 + 3"
    using minus_mod_eq_mult_div [of "int k" 7] by (simp add: T_def zdiv_int)
  then have T: "int T = J + (r + 4 - w)" using k kw by (simp add: J_def r_def)
  have iso: "iso_week_of k = day_of_year (calendar T) div 7 + 1" by (simp add: iso_week_of_def T_def)
  have code: "iso_week t =
    (if r + 1 \<le> 8 - j \<and> j > 4 then (if j = 5 \<or> (j = 6 \<and> leap (y - 1)) then 53 else 52)
     else if year_length y - (r + 1) < 4 - w then 1
     else (r + 1 + (7 - w) + (j - 1)) div 7 - (if j > 4 then 1 else 0))"
  proof -
    have c: "tm_year t + 1900 = y" "tm_yday t + 1 = r + 1" using assms y(2) by (simp_all add: r_def)
    have w': "1 + (r + 1 + (j - 1) - 1) smod 7 = w" using r'(1) j by (simp add: w_def smod_nonneg)
    have n: "(r + 1 + (7 - w) + (j - 1)) sdiv 7 = (r + 1 + (7 - w) + (j - 1)) div 7"
      using r'(1) j w by (simp add: sdiv_nonneg)
    show ?thesis
      unfolding iso_week_def Let_def c jan1_weekday [OF y(1)] J_def [symmetric] j_def [symmetric] w' n
      using isLeapYear_leap [of y] isLeapYear_leap [of "y - 1"] y(1) by (simp add: year_length_def)
  qed
  consider "r + 4 - w < 0" | "0 \<le> r + 4 - w" "r + 4 - w < year_length y" | "year_length y \<le> r + 4 - w" by linarith
  then show ?thesis
  proof cases
    case 1
    then have wk: "r + 1 \<le> 8 - j \<and> j > 4" using thu(1) by blast
    have "J + (r + 4 - w) = days_before (y - 1 - 1) + (year_length (y - 1) + (r + 4 - w))"
      using days_before_year [of "y - 1"] by (simp add: J_def)
    moreover have "0 \<le> year_length (y - 1) + (r + 4 - w)" using r'(1) w by (simp add: year_length_def)
    ultimately have "day_of_year (calendar T) = year_length (y - 1) + (r + 4 - w)"
      using calendar_of_year(2) [of T "y - 1" "year_length (y - 1) + (r + 4 - w)"] T 1 by simp
    then show ?thesis unfolding code iso using wk thu(4) [OF 1] by (auto simp: year_length_def)
  next
    case 2
    then have "day_of_year (calendar T) = r + 4 - w" using calendar_of_year(2) [of T y] T by (simp add: J_def)
    moreover have "\<not> (r + 1 \<le> 8 - j \<and> j > 4)" "\<not> year_length y - (r + 1) < 4 - w" using 2 thu(1,2) by linarith+
    ultimately show ?thesis unfolding code iso using thu(3) by presburger
  next
    case 3
    have "J + (r + 4 - w) = days_before (y + 1 - 1) + (r + 4 - w - year_length y)"
      using days_before_year [of y] by (simp add: J_def)
    moreover have b: "0 \<le> r + 4 - w - year_length y" "r + 4 - w - year_length y \<le> 2" using 3 r'(2) w by simp_all
    ultimately have "day_of_year (calendar T) = r + 4 - w - year_length y"
      using calendar_of_year(2) [of T "y + 1" "r + 4 - w - year_length y"] T by (simp add: year_length_def)
    then show ?thesis unfolding code iso using 3 thu(1,2) b r'(1) by (simp add: year_length_def split: if_splits)
  qed
qed

text \<open>C12. EXTRACT(WEEK FROM ...) is the week of ISO 8601: the number of the Thursday of the same week in its year.\<close>
theorem extract_week_iso:
  assumes "int k \<le> 536870604"
  shows "extract_execute blr_extract_week (Some (sql_date (MIN_DATE + int k))) = Inr (Some (iso_week_of k, 0))"
proof -
  obtain t where t: "decode_date (MIN_DATE + int k) = Some t" "tm_date t = calendar k" "tm_yday t = day_of_year (calendar k)"
    using decode_date_calendar [OF assms] by blast
  have "tm_year t + 1900 = fst (calendar k)" unfolding t(2) [symmetric] by (simp add: tm_date_def)
  then have "iso_week t = iso_week_of k" using t(3) by (rule iso_week_calendar)
  moreover have "u16 (iso_week_of k) = iso_week_of k"
    using day_of_year_bounds [of "7 * (k div 7) + 3"] by (simp add: u16_def iso_week_of_def)
  ultimately show ?thesis
    by (simp add: extract_execute_def extract_fields_def checked_def t(1) blr_extract_defs)
qed

theorem extract_week_iso_witness:
  "extract_execute blr_extract_week (Some (sql_date (MIN_DATE + int 731946))) = Inr (Some (iso_week_of 731946, 0))"
  by (rule extract_week_iso) simp

end
