(* ===== verification/FB_Date_Arith.thy ===== *)
theory FB_Date_Arith
  imports FB_Date_Laws
begin

text \<open>
  DATEADD, DATEDIFF, FIRST_DAY and LAST_DAY. Hours, minutes, seconds, days and weeks are steps on the line of
  ticks (ten-thousandths of a second); months and years are steps in the calendar.
\<close>

section \<open>Ticks\<close>

definition ticks :: "ISC_TIMESTAMP \<Rightarrow> int" where
  "ticks ts = timestamp_date ts * 864000000 + timestamp_time ts"

definition at_ticks :: "int \<Rightarrow> ISC_TIMESTAMP" where
  "at_ticks n = \<lparr>timestamp_date = n div 864000000, timestamp_time = n mod 864000000\<rparr>"

lemma at_ticks_eq:
  assumes "0 \<le> timestamp_time ts" "timestamp_time ts < 864000000" "ticks ts = n"
  shows "at_ticks n = ts"
proof -
  have "n = timestamp_time ts + timestamp_date ts * 864000000" using assms(3) by (simp add: ticks_def)
  then show ?thesis unfolding at_ticks_def using place [OF assms(1,2)] by (cases ts) simp
qed

lemma at_ticks_time: "0 \<le> timestamp_time (at_ticks n)" "timestamp_time (at_ticks n) < 864000000"
  by (simp_all add: at_ticks_def)

lemma isValidTimeStamp_at_ticks:
  "isValidTimeStamp (at_ticks n) = (MIN_DATE * 864000000 \<le> n \<and> n < (MAX_DATE + 1) * 864000000)"
proof -
  have lower: "m \<le> n div d \<longleftrightarrow> m * d \<le> n" if "0 < d" for m d :: int
  proof
    assume "m \<le> n div d"
    then have "m * d \<le> n div d * d" using that by (simp add: mult_right_mono)
    then show "m * d \<le> n" using div_mult_mod_eq [of n d] pos_mod_sign [OF that, of n] by linarith
  next
    assume "m * d \<le> n"
    then have "m * d div d \<le> n div d" using that by (rule zdiv_mono1)
    then show "m \<le> n div d" using that by simp
  qed
  have "isValidTimeStamp (at_ticks n) \<longleftrightarrow> MIN_DATE \<le> n div 864000000 \<and> \<not> MAX_DATE + 1 \<le> n div 864000000"
    using at_ticks_time(2) [of n]
    by (auto simp add: isValidTimeStamp_def isValidDate_def isValidTime_def ISC_TIME_SECONDS_PRECISION_def at_ticks_def)
  then show ?thesis
    unfolding lower [OF zero_less_numeral] by auto
qed

text \<open>The quotient and the remainder of C have the sign of the dividend.\<close>

lemma sdiv_smod:
  assumes "(0 :: int) < d"
  shows "n = n sdiv d * d + n smod d" "- d < n smod d" "n smod d < d" "n < 0 \<Longrightarrow> n smod d \<le> 0" "0 \<le> n \<Longrightarrow> 0 \<le> n smod d"
proof -
  have *: "n smod d = (if 0 \<le> n then n mod d else - ((- n) mod d))"
    using assms by (simp add: signed_modulo_int_def signed_divide_int_def sgn_if minus_div_mult_eq_mod [symmetric])
  show "n = n sdiv d * d + n smod d" by (rule sdiv_mult_smod_eq [symmetric])
  have m: "0 \<le> v mod d" "v mod d < d" for v using assms by simp_all
  show "- d < n smod d" "n smod d < d" "n < 0 \<Longrightarrow> n smod d \<le> 0" "0 \<le> n \<Longrightarrow> 0 \<le> n smod d"
    unfolding * using m [of n] m [of "- n"] assms by (cases "0 \<le> n"; simp; linarith)+
qed

lemma u32_in: "0 \<le> v \<Longrightarrow> v < 4294967296 \<Longrightarrow> u32 v = v"
  by (simp add: u32_def)

lemma add10msec_ticks:
  assumes time: "0 \<le> timestamp_time ts" "timestamp_time ts < 864000000"
    and date: "isValidDate (timestamp_date ts)"
    and full: "- 1800000000000000000 \<le> q * unit" "q * unit \<le> 1800000000000000000"
  shows "add10msec ts q unit = Some (at_ticks (ticks ts + q * unit))"
proof -
  define day where "day = (864000000 :: int)"
  define full where "full = q * unit"
  define days where "days = full sdiv day"
  define secs where "secs = full smod day"
  define d where "d = timestamp_date ts"
  define t where "t = timestamp_time ts"
  have k: "oneDay * ISC_TIME_SECONDS_PRECISION = day"
    by (simp add: oneDay_def ISC_TIME_SECONDS_PRECISION_def day_def)
  have "0 < day" by (simp add: day_def)
  note s = sdiv_smod [OF this, of full, folded days_def secs_def]
  have f: "- 1800000000000000000 \<le> full" "full \<le> 1800000000000000000" using assms(4,5) by (simp_all add: full_def)
  have t: "0 \<le> t" "t < day" using time by (simp_all add: t_def day_def)
  have d: "- 678575 \<le> d" "d \<le> 2973483" using date by (simp_all add: d_def isValidDate_def MIN_DATE_def MAX_DATE_def)
  have secs: "- 864000000 < secs" "secs < 864000000" using s(2,3) by (simp_all add: day_def)
  have days: "- 2083333335 \<le> days" "days \<le> 2083333335" using s(1) secs f unfolding day_def by linarith+
  have fit: "s64 full = Some full" "to_int days = days" "to_int secs = secs" "s32 (d + days) = Some (d + days)"
    "s32 (d + days - 1) = Some (d + days - 1)" "s32 (d + days + 1) = Some (d + days + 1)"
    using f days secs d by (simp_all add: s64_in to_int_in)
  have n: "ticks ts + full = (d + days) * day + (t + secs)"
    using s(1) by (simp add: ticks_def day_def d_def t_def algebra_simps)
  have res: "at_ticks (ticks ts + full) = \<lparr>timestamp_date = e, timestamp_time = u\<rparr>"
    if "(d + days) * day + (t + secs) = e * day + u" "0 \<le> u" "u < day" for e u
    using at_ticks_eq [of "\<lparr>timestamp_date = e, timestamp_time = u\<rparr>" "ticks ts + full"] that
    unfolding n by (simp add: ticks_def day_def)
  have code: "add10msec ts q unit =
    (if secs < 0 \<and> - secs > t then Some \<lparr>timestamp_date = d + days - 1, timestamp_time = t + (day + secs)\<rparr>
     else if t + secs \<ge> day then Some \<lparr>timestamp_date = d + days + 1, timestamp_time = t + secs - day\<rparr>
     else Some \<lparr>timestamp_date = d + days, timestamp_time = t + secs\<rparr>)"
  proof -
    have u: "secs < 0 \<Longrightarrow> u32 (- secs) = - secs" "u32 (t + (day + secs)) = t + (day + secs)"
      "\<not> (secs < 0 \<and> - secs > t) \<Longrightarrow> u32 (t + secs) = t + secs"
      "day \<le> t + secs \<Longrightarrow> u32 (t + secs - day) = t + secs - day"
      using secs t by (auto simp: day_def intro!: u32_in)
    show ?thesis
      unfolding add10msec_def k full_def [symmetric] fit(1) bind.bind_lunit Let_def days_def [symmetric]
        secs_def [symmetric] fit(2,3) d_def [symmetric] t_def [symmetric] fit(4)
      using u by (auto simp: fit(5,6))
  qed
  show ?thesis
    unfolding code full_def [symmetric]
    using s(2,3) t res [of "d + days - 1" "t + (day + secs)"] res [of "d + days + 1" "t + secs - day"]
      res [of "d + days" "t + secs"] by (auto simp: algebra_simps)
qed

text \<open>The parts that have a fixed number of ticks. Milliseconds are read with a scale of \<open>-1\<close>, so their unit is
  a tenth of a millisecond.\<close>

definition tick_units :: "(int \<times> int) list" where
  "tick_units = [(blr_extract_week, 6048000000), (blr_extract_day, 864000000), (blr_extract_hour, 36000000),
     (blr_extract_minute, 600000), (blr_extract_second, 10000), (blr_extract_millisecond, 1)]"

lemma add_days_ticks:
  assumes time: "0 \<le> timestamp_time ts" "timestamp_time ts < 864000000"
    and date: "isValidDate (timestamp_date ts)" and n: "- 2083333334 \<le> n" "n \<le> 2083333334"
  shows "add_days ts n = Some (at_ticks (ticks ts + n * 864000000))"
proof -
  have "- 2147483648 \<le> timestamp_date ts + n" "timestamp_date ts + n < 2147483648"
    using date n by (simp_all add: isValidDate_def MIN_DATE_def MAX_DATE_def)
  then have "add_days ts n = Some (ts\<lparr>timestamp_date := timestamp_date ts + n\<rparr>)"
    by (simp add: add_days_def s64_in to_int_in)
  moreover have "at_ticks (ticks ts + n * 864000000) = ts\<lparr>timestamp_date := timestamp_date ts + n\<rparr>"
    by (rule at_ticks_eq) (use time in \<open>simp_all add: ticks_def\<close>)
  ultimately show ?thesis by simp
qed

lemma dateadd_part_ticks:
  assumes ts: "0 \<le> timestamp_time ts" "timestamp_time ts < 864000000" "isValidDate (timestamp_date ts)"
    and unit: "(part, unit) \<in> set tick_units"
    and full: "- 1800000000000000000 \<le> q * unit" "q * unit \<le> 1800000000000000000"
    and v: "\<not> is_date v"
  shows "dateadd_part part v ts q = Inr (at_ticks (ticks ts + q * unit))"
proof -
  have ms: "ISC_TIME_SECONDS_PRECISION sdiv 1000 sdiv milliPow = 1"
    by (simp add: ISC_TIME_SECONDS_PRECISION_def milliPow_def POW_10_TABLE_def milliScale_def
      ISC_TIME_SECONDS_PRECISION_SCALE_def)
  consider (week) "part = blr_extract_week" "unit = 6048000000" | (day) "part = blr_extract_day" "unit = 864000000"
    | (rest) "part \<in> {blr_extract_hour, blr_extract_minute, blr_extract_second, blr_extract_millisecond}"
    using unit by (auto simp: tick_units_def)
  then show ?thesis
  proof cases
    case week
    then have "s64 (q * 7) = Some (q * 7)" "q * 7 * 864000000 = q * unit" using full by (simp_all add: s64_in)
    moreover have "- 2083333334 \<le> q * 7" "q * 7 \<le> 2083333334" using full week(2) by simp_all
    ultimately show ?thesis
      using add_days_ticks [OF ts, of "q * 7"] by (simp add: dateadd_part_def week blr_extract_defs checked_def mult.commute)
  next
    case day
    then have "- 2083333334 \<le> q" "q \<le> 2083333334" using full by simp_all
    then show ?thesis
      using add_days_ticks [OF ts, of q] day by (simp add: dateadd_part_def blr_extract_defs checked_def)
  next
    case rest
    then show ?thesis
      using add10msec_ticks [OF ts full] unit v ms
      by (auto simp: dateadd_part_def blr_extract_defs checked_def tick_units_def ISC_TIME_SECONDS_PRECISION_def)
  qed
qed

text \<open>C20. DATEADD of weeks, days, hours, minutes, seconds or milliseconds to a valid time stamp, of at most
  1800000000000000000 ticks (57000 years) in absolute value, moves it by as many ticks, forwards or backwards, and
  fails with the range error exactly when the result is not a valid time stamp.\<close>
theorem dateadd_ticks:
  assumes "isValidTimeStamp ts" "0 \<le> timestamp_time ts" "(part, unit) \<in> set tick_units"
    and "q = get_int64 (if part = blr_extract_millisecond then milliScale else 0)"
    and "- 1800000000000000000 \<le> q * unit" "q * unit \<le> 1800000000000000000"
  shows "evlDateAdd (Some get_int64) (Some part) (Some (sql_timestamp ts)) =
    (let n = ticks ts + q * unit
     in if MIN_DATE * 864000000 \<le> n \<and> n < (MAX_DATE + 1) * 864000000
        then Inr (Some (sql_timestamp (at_ticks n))) else Inl isc_datetime_range_exceeded)"
proof -
  have ts: "timestamp_time ts < 864000000" "isValidDate (timestamp_date ts)"
    using assms(1) by (simp_all add: isValidTimeStamp_def isValidTime_def ISC_TIME_SECONDS_PRECISION_def)
  have "dateadd_part part (sql_timestamp ts) ts q = Inr (at_ticks (ticks ts + q * unit))"
    by (rule dateadd_part_ticks [OF assms(2) ts assms(3,5,6)]) simp
  then show ?thesis
    unfolding evlDateAdd_def by (simp add: dateadd_source_def assms(4) [symmetric] isValidTimeStamp_at_ticks Let_def)
qed

theorem dateadd_ticks_witness:
  "evlDateAdd (Some (\<lambda>_. - 25)) (Some blr_extract_hour) (Some (sql_timestamp \<lparr>timestamp_date = 0, timestamp_time = 5\<rparr>)) =
    (let n = ticks \<lparr>timestamp_date = 0, timestamp_time = 5\<rparr> + - 25 * 36000000
     in if MIN_DATE * 864000000 \<le> n \<and> n < (MAX_DATE + 1) * 864000000
        then Inr (Some (sql_timestamp (at_ticks n))) else Inl isc_datetime_range_exceeded)"
  by (rule dateadd_ticks)
    (simp_all add: tick_units_def isValidTimeStamp_def isValidDate_def isValidTime_def MIN_DATE_def MAX_DATE_def
      ISC_TIME_SECONDS_PRECISION_def)

lemma to_int_wrap: "- 2147483648 \<le> v \<Longrightarrow> v < 2147483648 \<Longrightarrow> to_int (v + 4294967296) = v"
proof -
  assume "- 2147483648 \<le> v" "v < 2147483648"
  then have "(v + 2147483648) mod 4294967296 = v + 2147483648" by simp
  moreover have "(6442450944 + v) mod 4294967296 = (v + 2147483648) mod 4294967296"
    using mod_add_self2 [of "v + 2147483648" 4294967296] by (simp add: add.commute)
  ultimately show ?thesis
    by (simp add: to_int_def signed_take_bit_eq_take_bit_shift take_bit_eq_mod add.commute add.left_commute)
qed

text \<open>Beyond this the sum of the date and the number of days wraps at 32 bits: 4294967296 days later is the same time,
  without an error.\<close>

lemma dateadd_days_wrap:
  assumes "isValidTimeStamp ts"
  shows "evlDateAdd (Some (\<lambda>_. 4294967296)) (Some blr_extract_day) (Some (sql_timestamp ts)) = Inr (Some (sql_timestamp ts))"
proof -
  have "isValidDate (timestamp_date ts)" using assms by (simp add: isValidTimeStamp_def)
  then have "- 678575 \<le> timestamp_date ts" "timestamp_date ts \<le> 2973483"
    by (simp_all add: isValidDate_def MIN_DATE_def MAX_DATE_def)
  then have "s64 (timestamp_date ts + 4294967296) = Some (timestamp_date ts + 4294967296)"
    "to_int (timestamp_date ts + 4294967296) = timestamp_date ts"
    by (simp_all add: s64_in to_int_wrap)
  then have "add_days ts 4294967296 = Some ts" by (simp add: add_days_def)
  then show ?thesis
    using assms by (simp add: evlDateAdd_def dateadd_source_def dateadd_part_def blr_extract_defs checked_def)
qed

end
