(* ===== verification/FB_Date_Months.thy ===== *)
theory FB_Date_Months
  imports FB_Date_Arith
begin

text \<open>
  Steps in the calendar: DATEADD of months and years, the first and last day of a month, year or week, and the
  differences that DATEDIFF counts.
\<close>

section \<open>Time stamps of a valid date\<close>

definition stamp :: "cal_date \<Rightarrow> ISC_TIME \<Rightarrow> ISC_TIMESTAMP" where
  "stamp c time = \<lparr>timestamp_date = day_number c - 678882, timestamp_time = time\<rparr>"

lemma stamp_date [simp]: "timestamp_date (stamp c time) = day_number c - 678882"
  and stamp_time [simp]: "timestamp_time (stamp c time) = time"
  by (simp_all add: stamp_def del: day_number.simps)

lemma tm_valid_cut:
  assumes "tm_valid t f"
  shows "tm_valid t 0" and "ISC_TIME_value t 0 = ISC_TIME_value t f - ISC_TIME_value t f mod 10000"
proof -
  have f: "0 \<le> f" "f < 10000" using assms by (simp_all add: tm_valid_def ISC_TIME_SECONDS_PRECISION_def)
  show "tm_valid t 0" using assms by (simp add: tm_valid_def ISC_TIME_SECONDS_PRECISION_def)
  have "ISC_TIME_value t f = f + ((tm_hour t * 60 + tm_min t) * 60 + tm_sec t) * 10000"
    by (simp add: ISC_TIME_value_def)
  then show "ISC_TIME_value t 0 = ISC_TIME_value t f - ISC_TIME_value t f mod 10000"
    using place(2) [OF f] by (simp only: ISC_TIME_value_def)
qed

lemma encode_stamp: "tm_valid t f \<Longrightarrow> timestamp_encode t f = Some (stamp (tm_date t) (ISC_TIME_value t f))"
  unfolding stamp_def by (rule timestamp_encode_fields)

lemma valid_stamp:
  assumes "cal_ok (y, m, d)" "1 \<le> y" "y \<le> 9999" "time < 864000000"
  shows "isValidTimeStamp (stamp (y, m, d) time)"
  using assms(4) valid_date_of_year [OF assms(1-3)]
  by (simp add: isValidTimeStamp_def isValidTime_def ISC_TIME_SECONDS_PRECISION_def del: day_number.simps cal_ok.simps)

section \<open>Months\<close>

definition add_months :: "cal_date \<Rightarrow> int \<Rightarrow> int \<times> int" where
  "add_months c q = (let n = 12 * fst c + (fst (snd c) - 1) + q in (n div 12, n mod 12 + 1))"

lemma month_steps:
  fixes m q y :: int
  assumes m: "0 \<le> m" "m \<le> 11"
  defines "a \<equiv> q sdiv 12" and "b \<equiv> q smod 12"
  shows "m + b > 11 \<Longrightarrow> (12 * y + m + q) div 12 = y + a + 1 \<and> (12 * y + m + q) mod 12 = m + b - 12"
    and "m + b < 0 \<Longrightarrow> (12 * y + m + q) div 12 = y + a - 1 \<and> (12 * y + m + q) mod 12 = m + b + 12"
    and "0 \<le> m + b \<Longrightarrow> m + b \<le> 11 \<Longrightarrow> (12 * y + m + q) div 12 = y + a \<and> (12 * y + m + q) mod 12 = m + b"
proof -
  have "0 < (12 :: int)" by simp
  note s = sdiv_smod [OF this, of q, folded a_def b_def]
  have *: "12 * y + m + q = (m + b - 12 * c) + (y + a + c) * 12" for c using s(1) by (simp add: algebra_simps)
  show "m + b > 11 \<Longrightarrow> (12 * y + m + q) div 12 = y + a + 1 \<and> (12 * y + m + q) mod 12 = m + b - 12"
    using place [of "m + b - 12 * 1" 12 "y + a + 1"] s(3) m unfolding * [of 1] by simp
  show "m + b < 0 \<Longrightarrow> (12 * y + m + q) div 12 = y + a - 1 \<and> (12 * y + m + q) mod 12 = m + b + 12"
    using place [of "m + b - 12 * (- 1)" 12 "y + a + - 1"] s(2) m unfolding * [of "- 1"] by simp
  show "0 \<le> m + b \<Longrightarrow> m + b \<le> 11 \<Longrightarrow> (12 * y + m + q) div 12 = y + a \<and> (12 * y + m + q) mod 12 = m + b"
    using place [of "m + b - 12 * 0" 12 "y + a + 0"] unfolding * [of 0] by simp
qed

lemma forward_steps: "(0 \<le> q sdiv 12 \<and> 0 \<le> q smod 12) = (0 \<le> (q :: int))"
  using sdiv_smod [of 12 q] by linarith

text \<open>The table of the lengths of months after it was corrected for the year.\<close>

definition month_table :: "int \<Rightarrow> int list" where
  "month_table y = (if leap y then [31, 29, 31, 30, 31, 30, 31, 31, 30, 31, 30, 31]
     else [31, 28, 31, 30, 31, 30, 31, 31, 30, 31, 30, 31])"

lemma element_month_table:
  assumes "0 \<le> m" "m \<le> 11"
  shows "element (month_table y) m = Some (month_length y (m + 1))"
proof -
  have m: "1 \<le> m + 1" "m + 1 \<le> 12" using assms by simp_all
  have "m = m + 1 - 1" by simp
  then show ?thesis
    by (cases rule: month_cases [OF m]) (simp_all add: element_def month_table_def month_length_def)
qed

lemma month_table_plain: "[31, 28, 31, 30, 31, 30, 31, 31, 30, 31, 30, 31] = month_table 1"
  by (simp add: month_table_def leap_def)

lemma month_table_leap:
  assumes "0 \<le> y"
  shows "(if (y smod 4 = 0 \<and> y smod 100 \<noteq> 0) \<or> y smod 400 = 0 then (month_table 1)[1 := 28 + 1] else month_table 1)
    = month_table y"
  using isLeapYear_leap [OF assms] by (auto simp: isLeapYear_def month_table_def leap_def [of 1])

text \<open>The day of the result: the code keeps a day 29 of February at the end of the month when it steps forward
  to a year that has no such day, and otherwise cuts the day to the length of the month.\<close>

definition month_day :: "cal_date \<Rightarrow> int \<Rightarrow> int \<Rightarrow> int \<Rightarrow> int" where
  "month_day c q y m =
    (if 0 \<le> q \<and> fst (snd c) = 2 \<and> snd (snd c) = 29 \<and> \<not> leap y then month_length y m
     else min (snd (snd c)) (month_length y m))"

lemma month_length_bounds: "28 \<le> month_length y m" "month_length y m \<le> 31"
  by (simp_all add: month_length_def)

lemma month_length_other: "m \<noteq> 2 \<Longrightarrow> month_length x m = month_length y m"
  by (simp add: month_length_def)

text \<open>The choice of the day by the comparisons of the code.\<close>

lemma month_day_code:
  fixes y m d y' m' len' q :: int
  assumes c: "cal_ok (y, m, d)" and y': "month_length y' m' = len'"
  defines "ld \<equiv> month_length 1 m - d"
  defines "e \<equiv> (if 0 \<le> q \<and> month_length y' m < d then len' - ld else d)"
  shows "(if len' < e then len' else if e < 1 then 1 else e) = month_day (y, m, d) q y' m'"
proof -
  have d: "1 \<le> d" "d \<le> month_length y m" using c by simp_all
  have len: "28 \<le> len'" "len' \<le> 31" using month_length_bounds [of y' m'] y' by simp_all
  show ?thesis
  proof (cases "month_length y' m < d")
    case True
    then have m: "m = 2" using month_length_other [of m y y'] d by fastforce
    then have d29: "d = 29" "\<not> leap y'" using True d by (simp_all add: month_length_def split: if_splits)
    have "ld = - 1" using m d29 by (simp add: ld_def month_length_def leap_def)
    then show ?thesis using True m d29 len y' by (auto simp: e_def month_day_def)
  next
    case False
    then have "\<not> (m = 2 \<and> d = 29 \<and> \<not> leap y')" by (auto simp: month_length_def split: if_splits)
    then show ?thesis using False d len y' by (auto simp: e_def month_day_def min_def)
  qed
qed

lemma dateadd_month_calendar:
  assumes t: "tm_valid t f" and dec: "timestamp_decode ts = Some (t, f)"
    and q: "- 120000 \<le> q" "q \<le> 120000"
    and res: "add_months (tm_date t) q = (y', m')" "1 \<le> y'" "y' \<le> 9999"
  shows "dateadd_month ts q =
    Some (stamp (y', m', month_day (tm_date t) q y' m') (ISC_TIME_value t f - ISC_TIME_value t f mod 10000))"
proof -
  obtain y m d where c: "tm_date t = (y, m, d)" by (cases "tm_date t")
  then have f: "tm_year t = y - 1900" "tm_mon t = m - 1" "tm_mday t = d" by (auto simp: tm_date_def)
  have ok: "cal_ok (y, m, d)" and y: "1 \<le> y" "y \<le> 9999" using t by (simp_all add: tm_valid_def c f)
  have m: "0 \<le> m - 1" "m - 1 \<le> 11" and d: "1 \<le> d" "d \<le> 31"
    using ok by (simp_all add: month_length_def split: if_splits)
  define a where "a = q sdiv 12"
  define b where "b = q smod 12"
  define ld where "ld = month_length 1 m - d"
  note steps = month_steps [OF m, of q y, folded a_def b_def]
  have "0 < (12 :: int)" by simp
  note s = sdiv_smod [OF this, of q, folded a_def b_def]
  have ab: "to_int a = a" "to_int b = b" "- 10001 \<le> a" "a \<le> 10001" "- 12 < b" "b < 12"
    using s q by (simp_all add: to_int_in)
  have n: "(12 * y + (m - 1) + q) div 12 = y'" "(12 * y + (m - 1) + q) mod 12 = m' - 1"
    using res(1) unfolding c by (auto simp: add_months_def Let_def)
  have m': "0 \<le> m' - 1" "m' - 1 \<le> 11" using n(2) pos_mod_bound [of 12 "12 * y + (m - 1) + q"] pos_mod_sign [of 12 "12 * y + (m - 1) + q"] by simp_all
  have shift: "(if m - 1 + b > 11 then s32 (y - 1900 + a + 1) \<bind> (\<lambda>year. Some (u\<lparr>tm_year := year, tm_mon := m - 1 + b - 12\<rparr>))
      else if m - 1 + b < 0 then s32 (y - 1900 + a - 1) \<bind> (\<lambda>year. Some (u\<lparr>tm_year := year, tm_mon := m - 1 + b + 12\<rparr>))
      else Some u) = Some (u\<lparr>tm_year := y' - 1900, tm_mon := m' - 1\<rparr>)"
    if "tm_year u = y - 1900 + a" "tm_mon u = m - 1 + b" for u
    using that steps(1-3) n ab y by (cases u) (simp split: if_splits)
  have el: "element (month_table 1) (m - 1) = Some (month_length 1 m)"
    "element (month_table y') (m - 1) = Some (month_length y' m)"
    "element (month_table y') (m' - 1) = Some (month_length y' m')"
    using element_month_table [OF m] element_month_table [OF m'] by simp_all
  have fit: "s32 ld = Some ld" "s32 (y - 1900 + a) = Some (y - 1900 + a)" "s32 (m - 1 + b) = Some (m - 1 + b)"
    "s32 (y' - 1900 + 1900) = Some y'"
    using month_length_bounds [of 1 m] d y ab m res(2,3) by (simp_all add: ld_def)
  define u where "u = t\<lparr>tm_year := y - 1900 + a, tm_mon := m - 1 + b\<rparr>"
  define v where "v = u\<lparr>tm_year := y' - 1900, tm_mon := m' - 1\<rparr>"
  have u: "tm_year u = y - 1900 + a" "tm_mon u = m - 1 + b" by (simp_all add: u_def)
  have v: "tm_year v = y' - 1900" "tm_mon v = m' - 1" "tm_mday v = d" by (simp_all add: v_def u_def f)
  have r: "tm_mon (t\<lparr>tm_year := y - 1900 + a\<rparr>) = m - 1" by (simp add: f)
  define D where "D = month_day (y, m, d) q y' m'"
  have enc: "timestamp_encode (v\<lparr>tm_mday := D\<rparr>) 0 =
      Some (stamp (y', m', D) (ISC_TIME_value t f - ISC_TIME_value t f mod 10000))"
  proof -
    have D: "1 \<le> D" "D \<le> month_length y' m'"
      using d(1) month_length_bounds [of y' m'] by (simp_all add: D_def month_day_def)
    have date: "tm_date (v\<lparr>tm_mday := D\<rparr>) = (y', m', D)" by (simp add: tm_date_def v)
    have "tm_valid (v\<lparr>tm_mday := D\<rparr>) 0"
      using tm_valid_cut(1) [OF t] date D m' res(2,3)
      by (simp add: tm_valid_def v) (simp add: v_def u_def)
    moreover have "ISC_TIME_value (v\<lparr>tm_mday := D\<rparr>) 0 = ISC_TIME_value t 0"
      by (simp add: ISC_TIME_value_def v_def u_def)
    ultimately show ?thesis using encode_stamp [of "v\<lparr>tm_mday := D\<rparr>" 0] tm_valid_cut(2) [OF t] date by simp
  qed
  have day: "(if len < tm_mday w then w\<lparr>tm_mday := len\<rparr> else if tm_mday w < 1 then w\<lparr>tm_mday := 1\<rparr> else w)
      = v\<lparr>tm_mday := D\<rparr>"
    if "len = month_length y' m'"
      "w = (if 0 \<le> a \<and> 0 \<le> b \<and> month_length y' m < d then v\<lparr>tm_mday := len - ld\<rparr> else v)" for len w
  proof -
    have fwd: "(0 \<le> a \<and> 0 \<le> b \<and> X) = (0 \<le> q \<and> X)" for X using forward_steps [of q] by (auto simp: a_def b_def)
    have "v\<lparr>tm_mday := d\<rparr> = v" using v(3) by (cases v) simp
    then show ?thesis
      using month_day_code [OF ok that(1) [symmetric], of q, folded ld_def D_def] that(2) unfolding fwd
      by (auto simp: v(3) split: if_splits)
  qed
  show ?thesis
    unfolding dateadd_month_def dec bind.bind_lunit prod.case Let_def month_table_plain f el(1) ld_def [symmetric]
      fit(1) a_def [symmetric] b_def [symmetric] ab(1,2) fit(2) r fit(3)
    unfolding u_def [symmetric] u shift [OF u, folded v_def] bind.bind_lunit v fit(4)
      month_table_leap [OF order_trans [OF zero_le_one res(2)]] el(2,3)
    unfolding day [OF refl refl] c D_def [symmetric] by (rule enc)
qed

text \<open>C16. DATEADD of months to a valid date or time stamp: the month is counted on, the day is kept or cut to the
  length of the new month - except that 29 February becomes the last day of the new month when the step goes
  forward into a year without that day. The time of the day is kept without its fractions of a second.\<close>
theorem dateadd_months:
  assumes src: "dateadd_source blr_extract_month v = Inr ts" and ts: "isValidTimeStamp ts" "0 \<le> timestamp_time ts"
    and dec: "timestamp_decode ts = Some (t, f)"
    and q: "get_int64 0 = q" "- 120000 \<le> q" "q \<le> 120000"
    and res: "add_months (tm_date t) q = (y', m')" "1 \<le> y'" "y' \<le> 9999"
  shows "evlDateAdd (Some get_int64) (Some blr_extract_month) (Some v) =
    Inr (Some (make_value v (stamp (y', m', month_day (tm_date t) q y' m')
      (timestamp_time ts - timestamp_time ts mod 10000))))"
proof -
  obtain t' f' where "timestamp_decode ts = Some (t', f')" "tm_valid t' f'" "timestamp_time ts = ISC_TIME_value t' f'"
    by (rule valid_timestamp_fields [OF ts])
  then have t: "tm_valid t f" "timestamp_time ts = ISC_TIME_value t f" using dec by simp_all
  obtain y m d where c: "tm_date t = (y, m, d)" by (cases "tm_date t")
  have m': "1 \<le> m'" "m' \<le> 12" using res(1) by (auto simp: add_months_def Let_def)
  let ?s = "stamp (y', m', month_day (tm_date t) q y' m') (timestamp_time ts - timestamp_time ts mod 10000)"
  have "cal_ok (y', m', month_day (tm_date t) q y' m')"
    using t(1) m' month_length_bounds [of y' m'] by (simp add: c tm_valid_def month_day_def)
  moreover have "timestamp_time ts - timestamp_time ts mod 10000 < 864000000"
  proof -
    have "0 \<le> timestamp_time ts mod 10000" by simp
    moreover have "timestamp_time ts < 864000000"
      using ts(1) by (simp add: isValidTimeStamp_def isValidTime_def ISC_TIME_SECONDS_PRECISION_def)
    ultimately show ?thesis by linarith
  qed
  ultimately have "isValidTimeStamp ?s" using res(2,3) by (intro valid_stamp)
  then show ?thesis
    using dateadd_month_calendar [OF t(1) dec q(2,3) res] src q(1) t(2)
    by (simp add: evlDateAdd_def dateadd_part_def blr_extract_defs checked_def)
qed

theorem dateadd_months_witness:
  "evlDateAdd (Some (\<lambda>_. 13)) (Some blr_extract_month) (Some (sql_timestamp \<lparr>timestamp_date = 53064, timestamp_time = 5\<rparr>)) =
    Inr (Some (make_value (sql_timestamp \<lparr>timestamp_date = 53064, timestamp_time = 5\<rparr>)
      (stamp (2005, 3, month_day (2004, 2, 29) 13 2005 3) (5 - 5 mod 10000))))"
proof -
  have d: "timestamp_decode \<lparr>timestamp_date = 53064, timestamp_time = 5\<rparr> = Some
      (tm_zero\<lparr>tm_mday := 29, tm_mon := 1, tm_year := 104, tm_wday := 0, tm_yday := 59\<rparr>, 5)"
    by code_simp
  have "tm_date (tm_zero\<lparr>tm_mday := 29, tm_mon := 1, tm_year := 104, tm_wday := 0, tm_yday := 59\<rparr>) = (2004, 2, 29)"
    by (simp add: tm_date_def)
  then show ?thesis
    using dateadd_months [OF _ _ _ d, of "sql_timestamp \<lparr>timestamp_date = 53064, timestamp_time = 5\<rparr>" "\<lambda>_. 13" 13 2005 3]
    by (simp add: dateadd_source_def isValidTimeStamp_def isValidDate_def isValidTime_def MIN_DATE_def MAX_DATE_def
      ISC_TIME_SECONDS_PRECISION_def add_months_def)
qed

section \<open>Years\<close>

lemma march_number_of_leap_day:
  "\<not> leap y \<Longrightarrow> day_number (y, 2, 29) = day_number (y, 3, 1)"
  "\<not> leap y \<Longrightarrow> day_number (y, 2, 28) = day_number (y, 3, 1) - 1"
  using days_before_step [of "y - 1"] by (simp_all add: march_year_def march_month_def)

lemma dateadd_year_calendar:
  assumes t: "tm_valid t f" and dec: "timestamp_decode ts = Some (t, f)"
    and c: "tm_date t = (y, m, d)" and res: "1 \<le> y + q" "y + q \<le> 9999"
  shows "dateadd_year ts q = Some (stamp (y + q, m, min d (month_length (y + q) m))
    (ISC_TIME_value t f - ISC_TIME_value t f mod 10000))"
proof -
  have ok: "cal_ok (y, m, d)" and y: "1 \<le> y" "y \<le> 9999" and f: "tm_year t = y - 1900" "tm_mon t = m - 1" "tm_mday t = d"
    using t c by (auto simp: tm_valid_def tm_date_def)
  have m: "1 \<le> m" "m \<le> 12" and d: "1 \<le> d" "d \<le> month_length y m" using ok by simp_all
  define u where "u = t\<lparr>tm_year := y + q - 1900\<rparr>"
  define cut where "cut = ISC_TIME_value t f - ISC_TIME_value t f mod 10000"
  have year: "s64 (y - 1900 + q) = Some (y + q - 1900)" "to_int (y + q - 1900) = y + q - 1900"
    using res by (simp_all add: s64_in to_int_in algebra_simps)
  have date: "tm_date u = (y + q, m, d)" "tm_mday u = d" using c by (simp_all add: u_def tm_date_def)
  have time: "ISC_TIME_value u 0 = cut" using tm_valid_cut(2) [OF t] by (simp add: u_def ISC_TIME_value_def cut_def)
  have code: "dateadd_year ts q = timestamp_encode u 0 \<bind> (\<lambda>ts. timestamp_decode ts \<bind> (\<lambda>(tms, _).
      if tm_mday tms \<noteq> d then s32 (timestamp_date ts - 1) \<bind> (\<lambda>date. Some (ts\<lparr>timestamp_date := date\<rparr>)) else Some ts))"
    unfolding dateadd_year_def dec bind.bind_lunit prod.case f year Let_def u_def [symmetric] date(2) ..
  show ?thesis
  proof (cases "d \<le> month_length (y + q) m")
    case True
    then have v: "tm_valid u 0"
      using tm_valid_cut(1) [OF t] date(1) res m d by (simp add: tm_valid_def) (simp add: u_def)
    then show ?thesis
      unfolding code using encode_stamp [OF v] timestamp_decode_fields [OF v] date time True
      by (simp add: stamp_def cut_def min_absorb1 del: day_number.simps)
  next
    case False
    then have l: "m = 2" "d = 29" "\<not> leap (y + q)"
      using d month_length_other [of m y "y + q"] by (auto simp: month_length_def split: if_splits)
    define w where "w = u\<lparr>tm_mon := 2, tm_mday := 1\<rparr>"
    have wd: "tm_date w = (y + q, 3, 1)" using date(1) by (simp add: w_def tm_date_def)
    have v: "tm_valid w 0"
      using tm_valid_cut(1) [OF t] wd res by (simp add: tm_valid_def month_length_def) (simp add: w_def u_def)
    have wt: "ISC_TIME_value w 0 = cut" using time by (simp add: w_def ISC_TIME_value_def)
    have "0 \<le> march_year (y + q) m" "march_year (y + q) m \<le> 2000000" using res by (simp_all add: march_year_def)
    then have "encode_date u = Some (day_number (y + q, 3, 1) - 678882)"
      using encode_date_fields [OF date(1)] l march_number_of_leap_day(1) by simp
    moreover have "encode_time (tm_hour u) (tm_min u) (tm_sec u) 0 = Some cut"
      using encode_stamp [OF v] wt by (auto simp: timestamp_encode_def encode_timestamp_def stamp_def w_def u_def split: bind_splits)
    ultimately have "timestamp_encode u 0 = Some (stamp (y + q, 3, 1) cut)"
      by (simp add: timestamp_encode_def encode_timestamp_def stamp_def)
    moreover have "s32 (day_number (y + q, 3, 1) - 678882 - 1) = Some (day_number (y + q, 3, 1) - 678882 - 1)"
      using valid_date_of_year [of "y + q" 3 1] res by (simp add: isValidDate_def MIN_DATE_def MAX_DATE_def month_length_def del: day_number.simps)
    ultimately show ?thesis
      unfolding code using timestamp_decode_fields [OF v] wd wt l march_number_of_leap_day(2) [OF l(3)]
      by (simp add: stamp_def cut_def w_def month_length_def del: day_number.simps)
  qed
qed

text \<open>DATEADD of years to a valid date or time stamp: the year is counted on, and the day is cut to the length
  of the month. The time of the day is kept without its fractions of a second.\<close>
theorem dateadd_years:
  assumes src: "dateadd_source blr_extract_year v = Inr ts" and ts: "isValidTimeStamp ts" "0 \<le> timestamp_time ts"
    and dec: "timestamp_decode ts = Some (t, f)" and c: "tm_date t = (y, m, d)"
    and q: "get_int64 0 = q" "1 \<le> y + q" "y + q \<le> 9999"
  shows "evlDateAdd (Some get_int64) (Some blr_extract_year) (Some v) =
    Inr (Some (make_value v (stamp (y + q, m, min d (month_length (y + q) m))
      (timestamp_time ts - timestamp_time ts mod 10000))))"
proof -
  obtain t' f' where "timestamp_decode ts = Some (t', f')" "tm_valid t' f'" "timestamp_time ts = ISC_TIME_value t' f'"
    by (rule valid_timestamp_fields [OF ts])
  then have t: "tm_valid t f" "timestamp_time ts = ISC_TIME_value t f" using dec by simp_all
  have ok: "cal_ok (y + q, m, min d (month_length (y + q) m))"
    using t(1) month_length_bounds [of "y + q" m] by (simp add: c tm_valid_def min_def)
  have "0 \<le> timestamp_time ts mod 10000" by simp
  moreover have "timestamp_time ts < 864000000"
    using ts(1) by (simp add: isValidTimeStamp_def isValidTime_def ISC_TIME_SECONDS_PRECISION_def)
  ultimately have "timestamp_time ts - timestamp_time ts mod 10000 < 864000000" by linarith
  note valid = valid_stamp [OF ok q(2,3) this]
  show ?thesis
    using dateadd_year_calendar [OF t(1) dec c q(2,3)] src q(1) t(2) valid
    by (simp add: evlDateAdd_def dateadd_part_def blr_extract_defs checked_def)
qed

theorem dateadd_years_witness:
  "evlDateAdd (Some (\<lambda>_. - 1)) (Some blr_extract_year) (Some (sql_date 53064)) =
    Inr (Some (make_value (sql_date 53064) (stamp (2004 + - 1, 2, min 29 (month_length (2004 + - 1) 2))
      (timestamp_time \<lparr>timestamp_date = 53064, timestamp_time = 0\<rparr> -
       timestamp_time \<lparr>timestamp_date = 53064, timestamp_time = 0\<rparr> mod 10000))))"
proof -
  have d: "timestamp_decode \<lparr>timestamp_date = 53064, timestamp_time = 0\<rparr> = Some
      (tm_zero\<lparr>tm_mday := 29, tm_mon := 1, tm_year := 104, tm_wday := 0, tm_yday := 59\<rparr>, 0)"
    by code_simp
  show ?thesis
    by (rule dateadd_years [OF _ _ _ d])
      (simp_all add: dateadd_source_def blr_extract_defs isValidTimeStamp_def isValidDate_def isValidTime_def
        MIN_DATE_def MAX_DATE_def ISC_TIME_SECONDS_PRECISION_def tm_date_def)
qed

section \<open>First and last days\<close>

lemma encode_stamp_fields:
  assumes "tm_date u = (y, m, d)" "1 \<le> m" "m \<le> 12" "1 \<le> d" "d \<le> 31" "1 \<le> y" "y \<le> 10000"
    and "tm_valid t f" "tm_hour u = tm_hour t" "tm_min u = tm_min t" "tm_sec u = tm_sec t"
  shows "timestamp_encode u f = Some (stamp (y, m, d) (ISC_TIME_value t f))"
proof -
  have "0 \<le> march_year y m" "march_year y m \<le> 2000000" using assms(6,7) by (simp_all add: march_year_def)
  note date = encode_date_fields [OF assms(1-5) this]
  have "encode_time (tm_hour t) (tm_min t) (tm_sec t) f = Some (ISC_TIME_value t f)"
    using assms(8) encode_time_fields unfolding tm_valid_def ISC_TIME_value_def ISC_TIME_SECONDS_PRECISION_def by blast
  then show ?thesis
    using date assms(9-11) by (simp add: timestamp_encode_def encode_timestamp_def stamp_def del: day_number.simps)
qed

text \<open>The number of the first and of the last day of the range that a date lies in. Weeks begin on Sunday.\<close>

definition range_first :: "int \<Rightarrow> cal_date \<Rightarrow> int" where
  "range_first part c =
    (if part = blr_extract_year then day_number (fst c, 1, 1)
     else if part = blr_extract_month then day_number (fst c, fst (snd c), 1)
     else day_number c - (day_number c + 2) mod 7)"

definition range_last :: "int \<Rightarrow> cal_date \<Rightarrow> int" where
  "range_last part c =
    (if part = blr_extract_year then day_number (fst c, 12, 31)
     else if part = blr_extract_month then day_number (fst c, fst (snd c), month_length (fst c) (fst (snd c)))
     else day_number c - (day_number c + 2) mod 7 + 6)"

lemma firstlast_date_range:
  assumes t: "tm_valid t f" and w: "tm_wday t = (day_number (tm_date t) + 2) mod 7"
    and part: "part \<in> {blr_extract_year, blr_extract_month, blr_extract_week}"
  shows "firstlast_date last_day part t f = Some \<lparr>timestamp_date =
      (if last_day then range_last part (tm_date t) else range_first part (tm_date t)) - 678882,
    timestamp_time = ISC_TIME_value t f\<rparr>"
proof -
  obtain y m d where c: "tm_date t = (y, m, d)" by (cases "tm_date t")
  have ok: "cal_ok (y, m, d)" and y: "1 \<le> y" "y \<le> 9999" and f: "tm_year t = y - 1900" "tm_mon t = m - 1" "tm_mday t = d"
    using t c by (auto simp: tm_valid_def tm_date_def)
  have m: "1 \<le> m" "m \<le> 12" and d: "1 \<le> d" "d \<le> 31" using ok by (simp_all add: month_length_def split: if_splits)
  have len: "1 \<le> month_length y m" using month_length_bounds(1) [of y m] by simp
  have bound: "isValidDate (day_number (Y, M, 1) - 678882) \<Longrightarrow> s32 (day_number (Y, M, 1) - 678882 - 1) = Some (day_number (Y, M, 1) - 678882 - 1)"
    for Y M by (simp add: isValidDate_def MIN_DATE_def MAX_DATE_def del: day_number.simps)
  have step: "firstlast_date last_day part t f = Some \<lparr>timestamp_date = n, timestamp_time = ISC_TIME_value t f\<rparr>"
    if "(if last_day then last_fields part (first_fields part t)
         else if part = blr_extract_week then Some (first_fields part t, - tm_wday (first_fields part t))
         else Some (first_fields part t, 0)) = Some (u, adjust)"
      and "tm_date u = (Y, M, D)" "1 \<le> M" "M \<le> 12" "1 \<le> D" "D \<le> 31" "1 \<le> Y" "Y \<le> 10000"
      and "tm_hour u = tm_hour t" "tm_min u = tm_min t" "tm_sec u = tm_sec t"
      and "n = day_number (Y, M, D) - 678882 + adjust" "- 10000 \<le> adjust" "adjust \<le> 10000"
    for u adjust Y M D n
  proof -
    have "march_year Y M \<le> 10000" "0 \<le> march_year Y M" using that(7,8) by (simp_all add: march_year_def)
    moreover have "0 \<le> (153 * march_month M + 2) div 5" "(153 * march_month M + 2) div 5 \<le> 1000"
      using march_month_bounds [OF that(3,4)] zdiv_mono1 [of "153 * march_month M + 2" 1685 5]
      by (simp_all add: pos_imp_zdiv_nonneg_iff)
    ultimately have "0 \<le> day_number (Y, M, D)" "day_number (Y, M, D) \<le> 4000000"
      using days_before_mono [of 0 "march_year Y M"] days_before_mono [of "march_year Y M" 10000] that(5,6)
      by (simp_all add: days_before_def)
    then have "s32 (day_number (Y, M, D) - 678882 + adjust) = Some n"
      using that(12-14) by simp
    then show ?thesis
      unfolding firstlast_date_def Let_def that(1) bind.bind_lunit prod.case
        encode_stamp_fields [OF that(2-8) t that(9-11)] stamp_date
      by (simp add: stamp_def)
  qed
  have last_number: "day_number (y, 12, 31) = day_number (y + 1, 1, 1) - 1"
    "m < 12 \<Longrightarrow> day_number (y, m, month_length y m) = day_number (y, m + 1, 1) - 1"
    "\<not> m < 12 \<Longrightarrow> day_number (y, m, month_length y m) = day_number (y + 1, 1, 1) - 1"
    using day_number_next [of "(y, 12, 31)"] day_number_next [of "(y, m, month_length y m)"] m len
    by (simp_all add: month_length_def [of y 12] del: day_number.simps)
  consider (year) "part = blr_extract_year" | (month) "part = blr_extract_month" | (week) "part = blr_extract_week"
    using part by blast
  then show ?thesis
  proof cases
    case year
    show ?thesis
    proof (cases last_day)
      case True
      show ?thesis
        by (rule step [of "t\<lparr>tm_mon := 0, tm_mday := 1, tm_year := tm_year t + 1\<rparr>" "- 1" "y + 1" 1 1])
          (use year True y f last_number(1) in
            \<open>simp_all add: first_fields_def last_fields_def blr_extract_defs tm_date_def range_last_def c Let_def del: day_number.simps\<close>)
    next
      case False
      show ?thesis
        by (rule step [of "t\<lparr>tm_mon := 0, tm_mday := 1\<rparr>" 0 y 1 1])
          (use year False y f in
            \<open>simp_all add: first_fields_def blr_extract_defs tm_date_def range_first_def c del: day_number.simps\<close>)
    qed
  next
    case month
    consider (mid) "last_day" "m < 12" | (dec) "last_day" "\<not> m < 12" | (start) "\<not> last_day" by blast
    then show ?thesis
    proof cases
      case mid
      show ?thesis
        by (rule step [of "t\<lparr>tm_mday := 1, tm_mon := m\<rparr>" "- 1" y "m + 1" 1])
          (use month mid y f m last_number(2) in
            \<open>simp_all add: first_fields_def last_fields_def blr_extract_defs tm_date_def range_last_def c Let_def del: day_number.simps\<close>)
    next
      case dec
      then show ?thesis
        by (intro step [of "t\<lparr>tm_mday := 1, tm_mon := 0, tm_year := tm_year t + 1\<rparr>" "- 1" "y + 1" 1 1])
          (use month dec y f m last_number(3) in
            \<open>simp_all add: first_fields_def last_fields_def blr_extract_defs tm_date_def range_last_def c Let_def del: day_number.simps\<close>)
    next
      case start
      show ?thesis
        by (rule step [of "t\<lparr>tm_mday := 1\<rparr>" 0 y m 1])
          (use month start y f m in
            \<open>simp_all add: first_fields_def blr_extract_defs tm_date_def range_first_def c del: day_number.simps\<close>)
    qed
  next
    case week
    have wd: "0 \<le> tm_wday t" "tm_wday t \<le> 6" using w by (simp_all del: day_number.simps)
    show ?thesis
      by (rule step [of t "if last_day then 6 - tm_wday t else - tm_wday t" y m d])
        (use week wd y m d c in
          \<open>simp_all add: first_fields_def last_fields_def blr_extract_defs range_first_def range_last_def
            w [unfolded c, symmetric] del: day_number.simps\<close>)
  qed
qed

text \<open>C31. FIRST_DAY and LAST_DAY of a valid date or time stamp give the first and last day of its year, month or
  week and keep the time of the day; only a week that the range of dates cuts off is an error.\<close>
theorem first_last_day:
  assumes src: "firstlast_source v = Inr ts" and ts: "isValidTimeStamp ts" "0 \<le> timestamp_time ts"
    and dec: "timestamp_decode ts = Some (t, f)"
    and part: "part \<in> {blr_extract_year, blr_extract_month, blr_extract_week}"
    and n: "n = (if last_day then range_last part (tm_date t) else range_first part (tm_date t)) - 678882"
  shows "evlFirstLastDay last_day (Some part) (Some v) =
    (if isValidDate n then Inr (Some (make_value v (ts\<lparr>timestamp_date := n\<rparr>))) else Inl isc_datetime_range_exceeded)"
proof -
  obtain t' f' where "timestamp_decode ts = Some (t', f')" "tm_valid t' f'" "timestamp_time ts = ISC_TIME_value t' f'"
    "tm_wday t' = (day_number (tm_date t') + 2) mod 7"
    by (rule valid_timestamp_fields [OF ts])
  then have t: "tm_valid t f" "timestamp_time ts = ISC_TIME_value t f" "tm_wday t = (day_number (tm_date t) + 2) mod 7"
    using dec by simp_all
  have time: "isValidTime (timestamp_time ts)" using ts(1) by (simp add: isValidTimeStamp_def)
  have date: "firstlast_date last_day part t f = Some (ts\<lparr>timestamp_date := n\<rparr>)"
    using firstlast_date_range [OF t(1,3) part, of last_day] t(2) by (simp add: n)
  have "\<not> (part \<noteq> blr_extract_year \<and> part \<noteq> blr_extract_month \<and> part \<noteq> blr_extract_week)" using part by blast
  then show ?thesis
    unfolding evlFirstLastDay_def
    by (simp only: option.case prod.case src sum.case checked_def dec date if_False) (simp add: isValidTimeStamp_def time)
qed

theorem first_last_day_witness:
  "evlFirstLastDay True (Some blr_extract_month) (Some (sql_timestamp \<lparr>timestamp_date = 53064, timestamp_time = 5\<rparr>)) =
    (if isValidDate 53064 then Inr (Some (make_value (sql_timestamp \<lparr>timestamp_date = 53064, timestamp_time = 5\<rparr>)
      (\<lparr>timestamp_date = 53064, timestamp_time = 5\<rparr>\<lparr>timestamp_date := 53064\<rparr>))) else Inl isc_datetime_range_exceeded)"
proof -
  have d: "timestamp_decode \<lparr>timestamp_date = 53064, timestamp_time = 5\<rparr> = Some
      (tm_zero\<lparr>tm_mday := 29, tm_mon := 1, tm_year := 104, tm_wday := 0, tm_yday := 59\<rparr>, 5)"
    by code_simp
  show ?thesis
    by (rule first_last_day [OF _ _ _ d])
      (simp_all add: firstlast_source_def blr_extract_defs isValidTimeStamp_def isValidDate_def isValidTime_def
        MIN_DATE_def MAX_DATE_def ISC_TIME_SECONDS_PRECISION_def tm_date_def range_last_def month_length_def
        leap_def march_year_def march_month_def days_before_def)
qed

section \<open>DATEDIFF\<close>

text \<open>The units of which DATEDIFF counts the boundaries between two time stamps.\<close>

definition diff_units :: "(int \<times> int) list" where
  "diff_units = [(blr_extract_day, 864000000), (blr_extract_hour, 36000000), (blr_extract_minute, 600000),
     (blr_extract_second, 10000)]"

lemma cut_value:
  assumes t: "tm_valid t f" and unit: "(part, unit) \<in> set diff_units" "part \<noteq> blr_extract_day"
    and ts: "timestamp_date ts = day_number (tm_date t) - 678882" "timestamp_time ts = ISC_TIME_value t f"
  shows "\<exists>ts'. datediff_cut part t ts = Some ts' \<and> timestamp_date ts' = timestamp_date ts \<and>
    timestamp_time ts' = timestamp_time ts div unit * unit"
proof -
  define h where "h = tm_hour t"
  define m where "m = tm_min t"
  define s where "s = tm_sec t"
  have b: "0 \<le> h" "h < 24" "0 \<le> m" "m < 60" "0 \<le> s" "s < 60" "0 \<le> f" "f < 10000"
    using t by (simp_all add: tm_valid_def h_def m_def s_def ISC_TIME_SECONDS_PRECISION_def)
  define mm where "mm = (if part = blr_extract_hour then 0 else m)"
  define ss where "ss = (if part = blr_extract_hour \<or> part = blr_extract_minute then 0 else s)"
  define u where "u = t\<lparr>tm_min := mm, tm_sec := ss\<rparr>"
  have v: "tm_valid u 0"
    using tm_valid_cut(1) [OF t] b by (simp add: tm_valid_def u_def tm_date_def mm_def ss_def)
  have "part = blr_extract_hour \<or> part = blr_extract_minute \<or> part = blr_extract_second"
    using unit by (auto simp: diff_units_def)
  then have code: "datediff_cut part t ts = timestamp_encode u 0"
    by (cases t) (auto simp: datediff_cut_def u_def mm_def ss_def m_def s_def Let_def)
  have date: "tm_date u = tm_date t" by (simp add: u_def tm_date_def)
  have n: "timestamp_time ts = ((h * 60 + m) * 60 + s) * 10000 + f" using ts(2) by (simp add: ISC_TIME_value_def h_def m_def s_def)
  have "ISC_TIME_value u 0 = ((h * 60 + mm) * 60 + ss) * 10000" by (simp add: ISC_TIME_value_def u_def h_def)
  moreover have "((h * 60 + mm) * 60 + ss) * 10000 = timestamp_time ts div unit * unit"
  proof -
    consider (hour) "part = blr_extract_hour" "unit = 36000000" | (minute) "part = blr_extract_minute" "unit = 600000"
      | (second) "part = blr_extract_second" "unit = 10000"
      using unit by (auto simp: diff_units_def)
    then show ?thesis
    proof cases
      case hour
      have "timestamp_time ts = (m * 600000 + s * 10000 + f) + h * 36000000" unfolding n by simp
      moreover have "0 \<le> m * 600000 + s * 10000 + f" "m * 600000 + s * 10000 + f < 36000000" using b by simp_all
      ultimately have "timestamp_time ts div 36000000 = h" by (simp only: place)
      then show ?thesis by (simp add: hour mm_def ss_def)
    next
      case minute
      have "timestamp_time ts = (s * 10000 + f) + (h * 60 + m) * 600000" unfolding n by simp
      moreover have "0 \<le> s * 10000 + f" "s * 10000 + f < 600000" using b by simp_all
      ultimately have "timestamp_time ts div 600000 = h * 60 + m" by (simp only: place)
      then show ?thesis by (simp add: minute mm_def ss_def blr_extract_defs)
    next
      case second
      have "timestamp_time ts = f + ((h * 60 + m) * 60 + s) * 10000" unfolding n by simp
      then have "timestamp_time ts div 10000 = (h * 60 + m) * 60 + s" using b(7,8) by (simp only: place)
      then show ?thesis by (simp add: second mm_def ss_def blr_extract_defs)
    qed
  qed
  ultimately show ?thesis
    unfolding code encode_stamp [OF v] date by (simp add: ts(1) del: day_number.simps)
qed

lemma sdiv_exact: "(0 :: int) < d \<Longrightarrow> k * d sdiv d = k"
  by (simp add: signed_divide_int_def abs_mult sgn_mult mult_sgn_abs)

lemma ticks_div:
  assumes "(864000000 :: int) = n * unit" "0 < unit"
  shows "ticks ts div unit = timestamp_date ts * n + timestamp_time ts div unit"
proof -
  have "ticks ts = timestamp_time ts + timestamp_date ts * n * unit" unfolding ticks_def assms(1) by simp
  then show ?thesis using assms(2) by simp
qed

text \<open>C30. DATEDIFF of two valid time stamps in days, hours, minutes or seconds counts the boundaries of the unit that
  lie between them.\<close>
theorem datediff_boundaries:
  assumes unit: "(part, unit) \<in> set diff_units"
    and ts1: "isValidTimeStamp ts1" "0 \<le> timestamp_time ts1" and ts2: "isValidTimeStamp ts2" "0 \<le> timestamp_time ts2"
  shows "evlDateDiff (Some part) (Some (sql_timestamp ts1)) (Some (sql_timestamp ts2)) =
    Inr (Some (ticks ts2 div unit - ticks ts1 div unit))"
proof -
  obtain t1 f1 where t1: "timestamp_decode ts1 = Some (t1, f1)" "tm_valid t1 f1"
    "timestamp_date ts1 = day_number (tm_date t1) - 678882" "timestamp_time ts1 = ISC_TIME_value t1 f1"
    by (rule valid_timestamp_fields [OF ts1])
  obtain t2 f2 where t2: "timestamp_decode ts2 = Some (t2, f2)" "tm_valid t2 f2"
    "timestamp_date ts2 = day_number (tm_date t2) - 678882" "timestamp_time ts2 = ISC_TIME_value t2 f2"
    by (rule valid_timestamp_fields [OF ts2])
  have dates: "isValidDate (timestamp_date ts1)" "isValidDate (timestamp_date ts2)"
    using ts1(1) ts2(1) by (simp_all add: isValidTimeStamp_def)
  have fit: "s32 (timestamp_date ts2 - timestamp_date ts1) = Some (timestamp_date ts2 - timestamp_date ts1)"
    using dates by (simp add: isValidDate_def MIN_DATE_def MAX_DATE_def)
  show ?thesis
  proof (cases "part = blr_extract_day")
    case True
    then have u: "unit = 864000000" using unit by (auto simp: diff_units_def blr_extract_defs)
    have "timestamp_time ts1 < 864000000" "timestamp_time ts2 < 864000000"
      using ts1(1) ts2(1) by (simp_all add: isValidTimeStamp_def isValidTime_def ISC_TIME_SECONDS_PRECISION_def)
    then have "ticks ts1 div unit = timestamp_date ts1" "ticks ts2 div unit = timestamp_date ts2"
      using ticks_div [of 1 unit] ts1(2) ts2(2) by (simp_all add: u)
    then show ?thesis
      using True fit t1(1) t2(1)
      by (simp add: evlDateDiff_def datediff_source_def checked_def datediff_cut_def datediff_check_def
        datediff_result_def blr_extract_defs)
  next
    case False
    obtain c1 where c1: "datediff_cut part t1 ts1 = Some c1" "timestamp_date c1 = timestamp_date ts1"
      "timestamp_time c1 = timestamp_time ts1 div unit * unit"
      using cut_value [OF t1(2) unit False t1(3,4)] by blast
    obtain c2 where c2: "datediff_cut part t2 ts2 = Some c2" "timestamp_date c2 = timestamp_date ts2"
      "timestamp_time c2 = timestamp_time ts2 div unit * unit"
      using cut_value [OF t2(2) unit False t2(3,4)] by blast
    define k where "k = timestamp_time ts2 div unit - timestamp_time ts1 div unit"
    have secs: "timestamp_time c2 - timestamp_time c1 = k * unit" by (simp add: c1(3) c2(3) k_def left_diff_distrib)
    have part: "part \<in> {blr_extract_hour, blr_extract_minute, blr_extract_second}"
      using unit False by (auto simp: diff_units_def)
    have "datediff_check part (sql_timestamp ts1) (sql_timestamp ts2) = None"
      using part by (auto simp: datediff_check_def blr_extract_defs)
    then have code: "evlDateDiff (Some part) (Some (sql_timestamp ts1)) (Some (sql_timestamp ts2)) =
        map_sum id Some (datediff_result part t1 t2 c1 c2)"
      by (simp add: evlDateDiff_def datediff_source_def checked_def t1(1) t2(1) c1(1) c2(1))
    consider (hour) "part = blr_extract_hour" "unit = 36000000" | (minute) "part = blr_extract_minute" "unit = 600000"
      | (second) "part = blr_extract_second" "unit = 10000"
      using unit False by (auto simp: diff_units_def)
    then show ?thesis
    proof cases
      case hour
      have "k * 36000000 sdiv 10000 = k * 3600" using sdiv_exact [of 10000 "k * 3600"] by (simp only: mult.assoc) simp
      then show ?thesis
        unfolding code using secs fit c1(2) c2(2) ticks_div [of 24 36000000] sdiv_exact [of 3600 k]
        by (simp add: hour datediff_result_def blr_extract_defs checked_def ISC_TIME_SECONDS_PRECISION_def k_def)
    next
      case minute
      have "k * 600000 sdiv 10000 = k * 60" using sdiv_exact [of 10000 "k * 60"] by (simp only: mult.assoc) simp
      then show ?thesis
        unfolding code using secs fit c1(2) c2(2) ticks_div [of 1440 600000] sdiv_exact [of 60 k]
        by (simp add: minute datediff_result_def blr_extract_defs checked_def ISC_TIME_SECONDS_PRECISION_def k_def)
    next
      case second
      then show ?thesis
        unfolding code using secs fit c1(2) c2(2) ticks_div [of 86400 10000] sdiv_exact [of 10000 k]
        by (simp add: datediff_result_def blr_extract_defs checked_def ISC_TIME_SECONDS_PRECISION_def oneDay_def k_def)
    qed
  qed
qed

theorem datediff_boundaries_witness:
  "evlDateDiff (Some blr_extract_hour) (Some (sql_timestamp \<lparr>timestamp_date = - 7, timestamp_time = 35999999\<rparr>))
      (Some (sql_timestamp \<lparr>timestamp_date = 0, timestamp_time = 36000000\<rparr>)) =
    Inr (Some (ticks \<lparr>timestamp_date = 0, timestamp_time = 36000000\<rparr> div 36000000 -
      ticks \<lparr>timestamp_date = - 7, timestamp_time = 35999999\<rparr> div 36000000))"
  by (rule datediff_boundaries)
    (simp_all add: diff_units_def isValidTimeStamp_def isValidDate_def isValidTime_def MIN_DATE_def MAX_DATE_def
      ISC_TIME_SECONDS_PRECISION_def)

end
