(* ===== verification/FB_Index_Key.thy ===== *)
theory FB_Index_Key
  imports FB_Date_Functions
begin

text \<open>
  The keys of indices: \<^verbatim>\<open>compress\<close>, \<^verbatim>\<open>make_int64_key\<close>, \<^verbatim>\<open>BTR_key\<close>, \<^verbatim>\<open>BTR_make_key\<close>, \<^verbatim>\<open>BTR_make_null_key\<close>, \<^verbatim>\<open>BTR_complement_key\<close>
  and \<^verbatim>\<open>BTR_key_length\<close> of \<^verbatim>\<open>src/jrd/btr.cpp\<close>. A value is turned into bytes whose order is the order of the values; the
  keys of several segments are stuffed with the numbers of the segments, one before every four bytes. The machine
  is little-endian with IEEE numbers; a \<^verbatim>\<open>double\<close> is its 64 bits.
\<close>

section \<open>Descriptors\<close>

abbreviation (input) idx_numeric :: int where "idx_numeric \<equiv> 0"
abbreviation (input) idx_string :: int where "idx_string \<equiv> 1"
abbreviation (input) idx_byte_array :: int where "idx_byte_array \<equiv> 3"
abbreviation (input) idx_metadata :: int where "idx_metadata \<equiv> 4"
abbreviation (input) idx_sql_date :: int where "idx_sql_date \<equiv> 5"
abbreviation (input) idx_sql_time :: int where "idx_sql_time \<equiv> 6"
abbreviation (input) idx_timestamp :: int where "idx_timestamp \<equiv> 7"
abbreviation (input) idx_numeric2 :: int where "idx_numeric2 \<equiv> 8"
abbreviation (input) idx_boolean :: int where "idx_boolean \<equiv> 9"
abbreviation (input) idx_decimal :: int where "idx_decimal \<equiv> 10"
abbreviation (input) idx_first_intl_string :: int where "idx_first_intl_string \<equiv> 64"

abbreviation (input) STUFF_COUNT :: nat where "STUFF_COUNT \<equiv> 4"
abbreviation (input) MAX_KEY :: nat where "MAX_KEY \<equiv> 8192"
abbreviation (input) INT64_KEY_LENGTH :: nat where "INT64_KEY_LENGTH \<equiv> 10"

datatype key_type = INTL_KEY_SORT | INTL_KEY_PARTIAL | INTL_KEY_UNIQUE

datatype idx_e = idx_e_ok | idx_e_keytoobig | idx_e_conversion | idx_e_interrupt

record idx_repeat =
  idx_field :: nat
  idx_itype :: int

record index_desc =
  idx_unique :: bool
  idx_descending :: bool
  idx_expressn :: bool
  idx_count :: nat
  idx_rpt :: "idx_repeat list"

record temporary_key =
  key_data :: "UCHAR list"
  key_empty :: bool
  key_nulls :: USHORT

text \<open>The conversions of a described value that the keys are made from: the functions of \<^verbatim>\<open>mov.cpp\<close>, of the
  collations and of the decimal numbers, \<open>None\<close> when they throw an exception. \<open>double_quotient\<close> is the
  floating-point division in \<^verbatim>\<open>make_int64_key\<close>.\<close>

record 'd conversions =
  get_string :: "'d \<Rightarrow> UCHAR list option"
  get_intl_key :: "int \<Rightarrow> key_type \<Rightarrow> 'd \<Rightarrow> UCHAR list option"
  get_decimal_key :: "'d \<Rightarrow> UCHAR list option"
  get_double :: "'d \<Rightarrow> FB_UINT64 option"
  get_int64 :: "'d \<Rightarrow> int option"
  get_scale :: "'d \<Rightarrow> int"
  get_timestamp :: "'d \<Rightarrow> ISC_TIMESTAMP option"
  get_sql_date :: "'d \<Rightarrow> ISC_DATE option"
  get_sql_time :: "'d \<Rightarrow> ISC_TIME option"
  get_boolean :: "'d \<Rightarrow> bool option"
  date_to_double :: "'d \<Rightarrow> FB_UINT64 option"
  is_dtype_timestamp :: "'d \<Rightarrow> bool"
  adjust_text :: "'d \<Rightarrow> 'd"
  double_quotient :: "int \<Rightarrow> int \<Rightarrow> FB_UINT64"

section \<open>Keys of 64-bit numbers\<close>

definition int64_scale_control :: "(int \<times> int \<times> int) list" where
  "int64_scale_control =
    [(922337203685470000, 1, 0), (92233720368547000, 10, 1), (9223372036854700, 100, 2),
     (922337203685470, 1000, 3), (92233720368548, 10000, 4), (9223372036855, 100000, 5),
     (922337203686, 1000000, 6), (92233720369, 10000000, 7), (9223372035, 100000000, 8),
     (922337204, 1000000000, 9), (92233721, 10000000000, 10), (9223373, 100000000000, 11),
     (922338, 1000000000000, 12), (92234, 10000000000000, 13), (9224, 100000000000000, 14),
     (923, 1000000000000000, 15), (93, 10000000000000000, 16), (10, 100000000000000000, 17),
     (1, 1000000000000000000, 18), (0, 0, 0)]"

fun scale_row :: "int \<Rightarrow> (int \<times> int \<times> int) list \<Rightarrow> int \<times> int" where
  "scale_row uq [] = (0, 0)"
| "scale_row uq ((limit, factor, scale_change) # rows) =
    (if uq < limit then scale_row uq rows else (factor, scale_change))"

text \<open>The absolute value is unsigned; the product with the factor is a signed number of 64 bits.\<close>

definition scaled_int64 :: "int \<Rightarrow> int \<Rightarrow> (int \<times> int) option" where
  "scaled_int64 q scale =
    (let uq = (if q \<ge> 0 then q else - q); (factor, scale_change) = scale_row uq int64_scale_control in
     do { q \<leftarrow> s64 (q * factor); Some (q, scale - scale_change) })"

text \<open>The two parts of the key, \<^verbatim>\<open>d_part\<close> and \<^verbatim>\<open>s_part\<close>.\<close>

definition make_int64_key :: "'d conversions \<Rightarrow> int \<Rightarrow> int \<Rightarrow> (FB_UINT64 \<times> USHORT) option" where
  "make_int64_key conv q scale = do {
     (q, scale) \<leftarrow> scaled_int64 q scale;
     Some (double_quotient conv (q sdiv 10000) scale, word_of_int (q smod 10000))
   }"

section \<open>Bytes\<close>

definition be_bytes :: "nat \<Rightarrow> 'a::len word \<Rightarrow> UCHAR list" where
  "be_bytes n w = map (\<lambda>i. ucast (drop_bit (8 * i) w)) (rev [0..<n])"

definition double_is_zero :: "FB_UINT64 \<Rightarrow> bool" where
  "double_is_zero d \<longleftrightarrow> take_bit 63 d = 0"

definition double_is_nan :: "FB_UINT64 \<Rightarrow> bool" where
  "double_is_nan d \<longleftrightarrow> take_bit 63 d > 0x7FF0000000000000"

definition double_is_negative :: "FB_UINT64 \<Rightarrow> bool" where
  "double_is_negative d \<longleftrightarrow> bit d 63 \<and> \<not> double_is_zero d \<and> \<not> double_is_nan d"

text \<open>The number of bytes that stays when the pad bytes at the end are cut off, but one: the loops at
  the end of the two branches of \<^verbatim>\<open>compress\<close>. Both return the position of the last byte.\<close>

fun chop_pad :: "UCHAR \<Rightarrow> UCHAR list \<Rightarrow> nat \<Rightarrow> nat" where
  "chop_pad pad data 0 = 0"
| "chop_pad pad data (Suc p) = (if data ! p \<noteq> pad then p else chop_pad pad data p)"

fun chop_zeros :: "UCHAR list \<Rightarrow> nat \<Rightarrow> nat" where
  "chop_zeros data 0 = 0"
| "chop_zeros data (Suc p) = (if data ! Suc p = 0 then chop_zeros data p else Suc p)"

section \<open>\<open>compress\<close>\<close>

abbreviation (input) desc_end_value_prefix :: UCHAR where "desc_end_value_prefix \<equiv> 0x01"
abbreviation (input) desc_end_value_check :: UCHAR where "desc_end_value_check \<equiv> 0x00"

definition is_string_type :: "int \<Rightarrow> bool" where
  "is_string_type itype \<longleftrightarrow> itype = idx_string \<or> itype = idx_byte_array \<or> itype = idx_metadata \<or>
     itype = idx_decimal \<or> itype \<ge> idx_first_intl_string"

definition compress_null :: "bool \<Rightarrow> temporary_key \<Rightarrow> temporary_key" where
  "compress_null descending key =
     key\<lparr>key_empty := False, key_data := (if descending then [0] else [])\<rparr>"

definition string_bytes :: "'d conversions \<Rightarrow> int \<Rightarrow> key_type \<Rightarrow> 'd \<Rightarrow> UCHAR list option" where
  "string_bytes conv itype key_type desc =
    (if itype = idx_decimal then get_decimal_key conv desc
     else if itype \<ge> idx_first_intl_string \<or> itype = idx_metadata then get_intl_key conv itype key_type desc
     else get_string conv desc)"

definition compress_string :: "int \<Rightarrow> UCHAR list \<Rightarrow> bool \<Rightarrow> temporary_key \<Rightarrow> temporary_key" where
  "compress_string itype ptr descending key =
    (let pad = (if itype = idx_string then 0x20 else 0);
         (key, p) =
           (if length ptr > 0
            then let key = key\<lparr>key_empty := False\<rparr>;
                     ptr = take (MAX_KEY + 1) ptr;
                     escape = descending \<and> (ptr ! 0 = desc_end_value_prefix \<or> ptr ! 0 = desc_end_value_check)
                 in (key, if escape then desc_end_value_prefix # take MAX_KEY ptr else ptr)
            else (key, (if descending \<and> (pad = desc_end_value_prefix \<or> pad = desc_end_value_check)
                        then [desc_end_value_prefix] else []) @ [pad]))
     in key\<lparr>key_data := take (chop_pad pad p (length p) + 1) p\<rparr>)"

text \<open>The number that is compressed: its bits in the union \<^verbatim>\<open>temp\<close> (whose bytes beyond the value keep what
  the stack held, \<open>rest\<close>), how many of its bytes are copied, the second part of a 64-bit key, and whether it
  is negative.\<close>

definition in_union :: "nat \<Rightarrow> FB_UINT64 \<Rightarrow> FB_UINT64 \<Rightarrow> FB_UINT64" where
  "in_union n v rest = or (take_bit (8 * n) v) (push_bit (8 * n) (drop_bit (8 * n) rest))"

definition compress_value ::
  "'d conversions \<Rightarrow> FB_UINT64 \<Rightarrow> int \<Rightarrow> 'd \<Rightarrow> (FB_UINT64 \<times> nat \<times> USHORT option \<times> bool) option" where
  "compress_value conv rest itype desc =
    (let double = (\<lambda>d. Some (d, 8, None, double_is_negative d)) in
     if itype = idx_numeric then do { d \<leftarrow> get_double conv desc; double d }
     else if itype = idx_numeric2
     then do {
       q \<leftarrow> get_int64 conv desc;
       (d, s) \<leftarrow> make_int64_key conv q (get_scale conv desc);
       Some (d, 8, Some s, double_is_negative d)
     }
     else if itype = idx_timestamp
     then do {
       ts \<leftarrow> get_timestamp conv desc;
       Some (word_of_int (timestamp_date ts * (oneDay * ISC_TIME_SECONDS_PRECISION) + timestamp_time ts), 8, None, False)
     }
     else if itype = idx_sql_date
     then do { d \<leftarrow> get_sql_date conv desc; Some (in_union 4 (word_of_int d) rest, 4, None, False) }
     else if itype = idx_sql_time
     then do { t \<leftarrow> get_sql_time conv desc; Some (in_union 4 (word_of_int t) rest, 4, None, False) }
     else if is_dtype_timestamp conv desc
     then do { d \<leftarrow> date_to_double conv desc; double d }
     else if itype = idx_boolean
     then do { b \<leftarrow> get_boolean conv desc; Some (in_union 1 (if b then 1 else 0) rest, 1, None, False) }
     else do { d \<leftarrow> get_double conv desc; double d })"

definition compress_number ::
  "FB_UINT64 \<Rightarrow> nat \<Rightarrow> USHORT option \<Rightarrow> bool \<Rightarrow> bool \<Rightarrow> temporary_key \<Rightarrow> temporary_key" where
  "compress_number temp temp_copy_length s_part temp_is_negative descending key =
    (let temp = (if double_is_zero temp then 0 else temp);
         data = be_bytes temp_copy_length temp @ (case s_part of None \<Rightarrow> [] | Some s \<Rightarrow> be_bytes 2 s);
         data = (if temp_is_negative then map not (take 8 data) @ drop 8 data
                 else data[0 := xor (data ! 0) 0x80]);
         data = (if s_part \<noteq> None then data[8 := xor (data ! 8) 0x80] else data);
         data = take (chop_zeros data ((if s_part \<noteq> None then INT64_KEY_LENGTH else temp_copy_length) - 1) + 1) data;
         data = (if descending \<and> (data ! 0 = desc_end_value_prefix \<or> data ! 0 = desc_end_value_check)
                 then desc_end_value_prefix # data else data)
     in key\<lparr>key_data := data\<rparr>)"

definition compress ::
  "'d conversions \<Rightarrow> FB_UINT64 \<Rightarrow> 'd option \<Rightarrow> temporary_key \<Rightarrow> int \<Rightarrow> bool \<Rightarrow> key_type \<Rightarrow> temporary_key option" where
  "compress conv rest desc key itype descending key_type = (case desc of
     None \<Rightarrow> Some (compress_null descending key)
   | Some d \<Rightarrow>
       if is_string_type itype
       then do { ptr \<leftarrow> string_bytes conv itype key_type d; Some (compress_string itype ptr descending key) }
       else do {
         (temp, len, s_part, negative) \<leftarrow> compress_value conv rest itype d;
         Some (compress_number temp len s_part negative descending (key\<lparr>key_empty := False\<rparr>))
       })"

section \<open>Keys of one and of several segments\<close>

definition BTR_complement_key :: "temporary_key \<Rightarrow> temporary_key" where
  "BTR_complement_key key = key\<lparr>key_data := map not (key_data key)\<rparr>"

text \<open>A byte is stored, and then the length is checked.\<close>

definition put_byte :: "nat \<Rightarrow> UCHAR \<Rightarrow> UCHAR list \<Rightarrow> UCHAR list option" where
  "put_byte maxKeyLength b p = (let p = p @ [b] in if length p \<ge> maxKeyLength then None else Some p)"

fun put_zeros :: "nat \<Rightarrow> nat \<Rightarrow> UCHAR list \<Rightarrow> UCHAR list option" where
  "put_zeros maxKeyLength 0 p = Some p"
| "put_zeros maxKeyLength (Suc stuff_count) p = do {
     p \<leftarrow> put_byte maxKeyLength 0 p;
     put_zeros maxKeyLength stuff_count p
   }"

fun put_segment :: "nat \<Rightarrow> UCHAR \<Rightarrow> UCHAR list \<Rightarrow> nat \<Rightarrow> UCHAR list \<Rightarrow> (UCHAR list \<times> nat) option" where
  "put_segment maxKeyLength marker [] stuff_count p = Some (p, stuff_count)"
| "put_segment maxKeyLength marker (b # q) stuff_count p = do {
     (p, stuff_count) \<leftarrow>
       (if stuff_count = 0 then do { p \<leftarrow> put_byte maxKeyLength marker p; Some (p, STUFF_COUNT) }
        else Some (p, stuff_count));
     p \<leftarrow> put_byte maxKeyLength b p;
     put_segment maxKeyLength marker q (stuff_count - 1) p
   }"

definition null_bit :: "nat \<Rightarrow> USHORT" where
  "null_bit n = push_bit n 1"

text \<open>The outcome of a step that may find the key too long or meet an exception.\<close>

datatype 'a key_step = Step 'a | TooBig | Thrown

fun step_bind :: "'a key_step \<Rightarrow> ('a \<Rightarrow> 'b key_step) \<Rightarrow> 'b key_step" where
  "step_bind (Step x) f = f x"
| "step_bind TooBig f = TooBig"
| "step_bind Thrown f = Thrown"

definition fits :: "'a option \<Rightarrow> 'a key_step" where
  "fits r = (case r of None \<Rightarrow> TooBig | Some x \<Rightarrow> Step x)"

definition converts :: "'a option \<Rightarrow> 'a key_step" where
  "converts r = (case r of None \<Rightarrow> Thrown | Some x \<Rightarrow> Step x)"

text \<open>The loop of \<^verbatim>\<open>BTR_key\<close> over the segments from \<open>n\<close> on. \<open>field\<close> gives the value of a field of the record, \<open>None\<close>
  for NULL (\<^verbatim>\<open>EVL_field\<close>). \<open>temp\<close> is the key of a segment, which keeps its flags from segment to segment.\<close>

fun key_segments ::
  "'d conversions \<Rightarrow> FB_UINT64 \<Rightarrow> index_desc \<Rightarrow> (nat \<Rightarrow> 'd option) \<Rightarrow> key_type \<Rightarrow> nat \<Rightarrow> nat \<Rightarrow> idx_repeat list \<Rightarrow>
     UCHAR list \<Rightarrow> nat \<Rightarrow> temporary_key \<Rightarrow> USHORT \<Rightarrow> (UCHAR list \<times> temporary_key \<times> USHORT) key_step" where
  "key_segments conv rest idx field keyType maxlen n [] p stuff_count temp nulls = Step (p, temp, nulls)"
| "key_segments conv rest idx field keyType maxlen n (seg # tail) p stuff_count temp nulls =
     step_bind (fits (put_zeros maxlen stuff_count p)) (\<lambda>p.
       let desc = map_option (adjust_text conv) (field (idx_field seg));
           nulls = (if desc = None then or nulls (null_bit n) else nulls) in
       step_bind (converts (compress conv rest desc temp (idx_itype seg) (idx_descending idx) keyType)) (\<lambda>temp.
         step_bind (fits (put_segment maxlen (of_nat (idx_count idx - n)) (key_data temp) 0 p)) (\<lambda>(p, stuff_count).
           key_segments conv rest idx field keyType maxlen (Suc n) tail p stuff_count temp nulls)))"

definition segment_key_type :: "bool \<Rightarrow> index_desc \<Rightarrow> key_type" where
  "segment_key_type fuzzy idx =
     (if fuzzy then INTL_KEY_PARTIAL else if idx_unique idx then INTL_KEY_UNIQUE else INTL_KEY_SORT)"

definition empty_key :: "bool \<Rightarrow> temporary_key" where
  "empty_key e = \<lparr>key_data = [], key_empty = e, key_nulls = 0\<rparr>"

definition record_key ::
  "'d conversions \<Rightarrow> FB_UINT64 \<Rightarrow> index_desc \<Rightarrow> (nat \<Rightarrow> 'd option) \<Rightarrow> 'd option key_step \<Rightarrow> bool \<Rightarrow> nat \<Rightarrow> nat \<Rightarrow>
     temporary_key key_step" where
  "record_key conv rest idx field expression fuzzy count maxKeyLength =
    (let keyType = segment_key_type fuzzy idx;
         count = (if count = 0 then idx_count idx else count) in
     step_bind
       (if idx_count idx = 1
        then step_bind
          (if idx_expressn idx then expression
           else Step (map_option (adjust_text conv) (field (idx_field (idx_rpt idx ! 0))))) (\<lambda>desc.
            let key = (empty_key True)\<lparr>key_nulls := (if desc = None then 1 else 0)\<rparr>
            in converts (compress conv rest desc key (idx_itype (idx_rpt idx ! 0)) (idx_descending idx) keyType))
        else step_bind
          (key_segments conv rest idx field keyType maxKeyLength 0 (take count (idx_rpt idx)) [] 0 (empty_key True) 0)
          (\<lambda>(p, temp, nulls). Step \<lparr>key_data = p, key_empty = key_empty temp, key_nulls = nulls\<rparr>))
       (\<lambda>key. if length (key_data key) \<ge> maxKeyLength then TooBig
         else Step (if idx_descending idx then BTR_complement_key key else key)))"

text \<open>The result with the key; an exception leaves an empty key.\<close>

definition BTR_key ::
  "'d conversions \<Rightarrow> FB_UINT64 \<Rightarrow> index_desc \<Rightarrow> (nat \<Rightarrow> 'd option) \<Rightarrow> 'd option key_step \<Rightarrow> bool \<Rightarrow> nat \<Rightarrow> nat \<Rightarrow> bool \<Rightarrow>
     idx_e \<times> temporary_key option" where
  "BTR_key conv rest idx field expression fuzzy count maxKeyLength sys_error =
    (case record_key conv rest idx field expression fuzzy count maxKeyLength of
       Step key \<Rightarrow> (idx_e_ok, Some key)
     | TooBig \<Rightarrow> (idx_e_keytoobig, None)
     | Thrown \<Rightarrow> (if sys_error then idx_e_interrupt else idx_e_conversion, None))"

section \<open>Search keys\<close>

text \<open>The loop of \<^verbatim>\<open>BTR_make_key\<close>. An expression is evaluated to the value that \<^verbatim>\<open>eval\<close> gives, \<open>None\<close> for NULL, or
  throws. The result also has the length before the last segment and whether every segment was empty.\<close>

record make_state =
  ms_p :: "UCHAR list"
  ms_stuff :: nat
  ms_temp :: temporary_key
  ms_nulls :: USHORT
  ms_prior :: nat
  ms_is_empty :: bool

fun make_segments ::
  "'d conversions \<Rightarrow> FB_UINT64 \<Rightarrow> index_desc \<Rightarrow> key_type \<Rightarrow> nat \<Rightarrow> nat \<Rightarrow> nat \<Rightarrow> ('d option key_step \<times> idx_repeat) list \<Rightarrow>
     make_state \<Rightarrow> make_state key_step" where
  "make_segments conv rest idx keyType maxlen count n [] s = Step s"
| "make_segments conv rest idx keyType maxlen count n ((expr, seg) # tail) s =
     step_bind (fits (put_zeros maxlen (ms_stuff s) (ms_p s))) (\<lambda>p.
       step_bind expr (\<lambda>desc.
         let nulls = (if desc = None then or (ms_nulls s) (null_bit n) else ms_nulls s);
             temp = (ms_temp s)\<lparr>key_empty := True\<rparr>;
             segType = (if n = count - 1 then keyType else segment_key_type False idx) in
         step_bind (converts (compress conv rest desc temp (idx_itype seg) (idx_descending idx) segType)) (\<lambda>temp.
           step_bind (fits (put_segment maxlen (of_nat (idx_count idx - n)) (key_data temp) 0 p)) (\<lambda>(q, stuff_count).
             make_segments conv rest idx keyType maxlen count (Suc n) tail
               \<lparr>ms_p = q, ms_stuff = stuff_count, ms_temp = temp, ms_nulls = nulls, ms_prior = length p,
                 ms_is_empty = (ms_is_empty s \<and> key_empty temp)\<rparr>))))"

definition make_key_start :: make_state where
  "make_key_start = \<lparr>ms_p = [], ms_stuff = 0, ms_temp = empty_key False, ms_nulls = 0, ms_prior = 0, ms_is_empty = True\<rparr>"

definition make_compound ::
  "'d conversions \<Rightarrow> FB_UINT64 \<Rightarrow> nat \<Rightarrow> 'd option key_step list \<Rightarrow> index_desc \<Rightarrow> bool \<Rightarrow> nat \<Rightarrow> temporary_key key_step" where
  "make_compound conv rest count exprs idx fuzzy maxlen =
     step_bind (make_segments conv rest idx (segment_key_type fuzzy idx) maxlen count 0 (zip (take count exprs) (idx_rpt idx))
       make_key_start) (\<lambda>s.
     step_bind (if \<not> fuzzy \<and> count \<noteq> idx_count idx then fits (put_zeros maxlen (ms_stuff s) (ms_p s)) else Step (ms_p s)) (\<lambda>p.
       let data = (if fuzzy \<and> key_empty (ms_temp s) then take (ms_prior s) p else p);
           data = (if ms_is_empty s \<and> fuzzy then [] else data)
       in Step \<lparr>key_data = data, key_empty = ms_is_empty s, key_nulls = ms_nulls s\<rparr>))"

definition BTR_make_key ::
  "'d conversions \<Rightarrow> FB_UINT64 \<Rightarrow> nat \<Rightarrow> 'd option key_step list \<Rightarrow> index_desc \<Rightarrow> bool \<Rightarrow> nat \<Rightarrow> temporary_key key_step" where
  "BTR_make_key conv rest count exprs idx fuzzy maxKeyLength =
     step_bind
       (if idx_count idx = 1
        then step_bind (exprs ! 0) (\<lambda>desc.
          let key = (empty_key True)\<lparr>key_nulls := (if desc = None then 1 else 0)\<rparr> in
          step_bind (converts (compress conv rest desc key (idx_itype (idx_rpt idx ! 0)) (idx_descending idx)
              (segment_key_type fuzzy idx))) (\<lambda>key.
            Step (if fuzzy \<and> key_empty key then key\<lparr>key_data := []\<rparr> else key)))
        else make_compound conv rest count exprs idx fuzzy maxKeyLength)
       (\<lambda>key. if length (key_data key) \<ge> maxKeyLength then TooBig
         else Step (if idx_descending idx then BTR_complement_key key else key))"

text \<open>\<^verbatim>\<open>BTR_make_null_key\<close> stores without a check of the length: the key of NULLs has two bytes per segment at most.\<close>

fun null_segments :: "index_desc \<Rightarrow> nat \<Rightarrow> idx_repeat list \<Rightarrow> UCHAR list \<Rightarrow> nat \<Rightarrow> temporary_key \<Rightarrow> UCHAR list \<times> temporary_key" where
  "null_segments idx n [] p stuff_count temp = (p, temp)"
| "null_segments idx n (seg # tail) p stuff_count temp =
     (let p = p @ replicate stuff_count 0;
          temp = compress_null (idx_descending idx) temp;
          q = key_data temp
      in if q = [] then null_segments idx (Suc n) tail p 0 temp
         else null_segments idx (Suc n) tail (p @ of_nat (idx_count idx - n) # q) (STUFF_COUNT - length q) temp)"

definition BTR_make_null_key :: "index_desc \<Rightarrow> temporary_key" where
  "BTR_make_null_key idx =
    (let nulls = of_nat (2 ^ idx_count idx - 1);
         key = (if idx_count idx = 1 \<or> idx_expressn idx
                then (compress_null (idx_descending idx) (empty_key False))\<lparr>key_nulls := nulls\<rparr>
                else let (p, temp) = null_segments idx 0 (take (idx_count idx) (idx_rpt idx)) [] 0 (empty_key True)
                     in \<lparr>key_data = p, key_empty = key_empty temp, key_nulls = nulls\<rparr>)
     in if idx_descending idx then BTR_complement_key key else key)"

section \<open>The length of keys\<close>

text \<open>The length of a value of a string type: the length of the field (without the count of a varying
  string, \<open>field_length\<close>), which the collation may change.\<close>

definition segment_length :: "(int \<Rightarrow> nat \<Rightarrow> nat) \<Rightarrow> (nat \<Rightarrow> nat) \<Rightarrow> idx_repeat \<Rightarrow> nat" where
  "segment_length intl_key_length field_length seg =
    (let itype = idx_itype seg in
     if itype = idx_numeric then 8 else if itype = idx_sql_time then 4 else if itype = idx_sql_date then 4
     else if itype = idx_timestamp then 8 else if itype = idx_numeric2 then INT64_KEY_LENGTH
     else if itype = idx_boolean then 1 else if itype = idx_decimal then 17
     else let len = field_length (idx_field seg)
          in if itype \<ge> idx_first_intl_string then intl_key_length itype len else len)"

text \<open>The length that is computed in a \<^verbatim>\<open>SLONG\<close>, and the \<^verbatim>\<open>USHORT\<close> that is returned.\<close>

definition index_length :: "(int \<Rightarrow> nat \<Rightarrow> nat) \<Rightarrow> (nat \<Rightarrow> nat) \<Rightarrow> nat \<Rightarrow> index_desc \<Rightarrow> nat" where
  "index_length intl_key_length field_length expression_length idx =
    (let prefix = (if idx_descending idx then 1 else 0) in
     if idx_count idx = 1
     then segment_length intl_key_length (if idx_expressn idx then \<lambda>_. expression_length else field_length)
       (idx_rpt idx ! 0) + prefix
     else sum_list (map (\<lambda>seg.
         (segment_length intl_key_length field_length seg + prefix + STUFF_COUNT - 1) div STUFF_COUNT * (STUFF_COUNT + 1))
       (take (idx_count idx) (idx_rpt idx))))"

definition BTR_key_length :: "(int \<Rightarrow> nat \<Rightarrow> nat) \<Rightarrow> (nat \<Rightarrow> nat) \<Rightarrow> nat \<Rightarrow> index_desc \<Rightarrow> USHORT" where
  "BTR_key_length intl_key_length field_length expression_length idx =
    of_nat (index_length intl_key_length field_length expression_length idx)"

end
