(* ===== verification/FB_Index_Bytes.thy ===== *)
theory FB_Index_Bytes
  imports FB_Index_Key "HOL-Library.List_Lexorder"
begin

text \<open>
  The order of byte strings and what the encodings of \<open>FB_Index_Key\<close> do to it: big-endian numbers, cutting zeros
  off, and stuffing the keys of several segments with the numbers of the segments.
\<close>

section \<open>The first difference of two lists\<close>

lemma list_less_split:
  fixes xs ys :: "'a::linorder list"
  assumes "xs < ys"
  shows "(\<exists>p x y us vs. xs = p @ x # us \<and> ys = p @ y # vs \<and> x < y) \<or> (\<exists>y vs. ys = xs @ y # vs)"
  using assms
proof (induction xs arbitrary: ys)
  case Nil
  then show ?case by (cases ys) auto
next
  case (Cons a xs)
  then obtain b ys' where ys: "ys = b # ys'" by (cases ys) auto
  show ?case
  proof (cases "a < b")
    case True
    then show ?thesis using ys by (metis append_Nil)
  next
    case False
    then have "a = b" "xs < ys'" using Cons.prems ys by auto
    then show ?thesis using Cons.IH [of ys'] ys by (metis append_Cons)
  qed
qed

lemma list_less_cases [consumes 1, case_names diff shorter]:
  fixes xs ys :: "'a::linorder list"
  assumes "xs < ys"
    and "\<And>p x y us vs. xs = p @ x # us \<Longrightarrow> ys = p @ y # vs \<Longrightarrow> x < y \<Longrightarrow> P"
    and "\<And>y vs. ys = xs @ y # vs \<Longrightarrow> P"
  shows P
  using list_less_split [OF assms(1)] assms(2,3) by blast

lemma list_less_diff: "(x :: 'a::linorder) < y \<Longrightarrow> p @ x # us < p @ y # vs"
  by (induction p) auto

lemma list_less_append: "xs < (xs @ y # ys :: 'a::linorder list)"
  by (induction xs) auto

lemma Nil_less [simp]: "([] < ys) = (ys \<noteq> ([] :: 'a::linorder list))"
  by (cases ys) auto

lemma append_less_append [simp]: "(p @ xs < p @ ys) = (xs < (ys :: 'a::linorder list))"
  by (induction p) auto

lemma less_iff_of_mono:
  fixes f :: "'a::linorder \<Rightarrow> 'b::linorder"
  assumes "\<And>x y. P x \<Longrightarrow> P y \<Longrightarrow> x < y \<Longrightarrow> f x < f y" and "P x" "P y"
  shows "(f x < f y) = (x < y)"
  using assms by (metis less_asym linorder_neqE)

section \<open>Big-endian numbers\<close>

definition be_val :: "UCHAR list \<Rightarrow> nat" where
  "be_val bs = foldl (\<lambda>v b. 256 * v + unat b) 0 bs"

lemma be_val_snoc [simp]: "be_val (bs @ [b]) = 256 * be_val bs + unat b"
  by (simp add: be_val_def)

lemma be_val_Nil [simp]: "be_val [] = 0"
  by (simp add: be_val_def)

lemma be_val_append: "be_val (xs @ ys) = be_val xs * 256 ^ length ys + be_val ys"
proof (induction ys rule: rev_induct)
  case (snoc y ys)
  then show ?case by (simp add: be_val_def algebra_simps)
qed simp

lemma be_val_less: "be_val bs < 256 ^ length bs"
proof (induction bs rule: rev_induct)
  case (snoc b bs)
  have "256 * be_val bs + unat b < 256 * (be_val bs + 1)" using unat_UCHAR_less [of b] by simp
  also have "\<dots> \<le> 256 * 256 ^ length bs" using snoc by (intro mult_le_mono2) simp
  finally show ?case by simp
qed simp

lemma be_val_mono:
  assumes "length xs = length ys" "xs < ys"
  shows "be_val xs < be_val ys"
  using assms(2)
proof (cases rule: list_less_cases)
  case (diff p x y us vs)
  then have len: "length us = length vs" using assms(1) by simp
  have v: "be_val (p @ x # us) = (256 * be_val p + unat x) * 256 ^ length us + be_val us" for p x us
    using be_val_append [of "p @ [x]" us] by simp
  have "unat x < unat y" using diff(3) by (simp add: word_less_nat_alt)
  then have "256 * be_val p + unat x + 1 \<le> 256 * be_val p + unat y" by simp
  then have "(256 * be_val p + unat x + 1) * 256 ^ length us \<le> (256 * be_val p + unat y) * 256 ^ length us"
    by (rule mult_le_mono1)
  then show ?thesis using be_val_less [of us] unfolding diff v len by (simp add: distrib_right)
next
  case (shorter y vs)
  then show ?thesis using assms(1) by simp
qed

lemma be_val_less_iff:
  assumes "length xs = length ys"
  shows "(xs < ys) = (be_val xs < be_val ys)"
  using be_val_mono [OF assms] be_val_mono [OF assms [symmetric]] by (metis less_asym linorder_neqE)

lemma length_be_bytes [simp]: "length (be_bytes n w) = n"
  by (simp add: be_bytes_def)

lemma be_bytes_Suc: "be_bytes (Suc n) w = ucast (drop_bit (8 * n) w) # be_bytes n w"
  by (simp add: be_bytes_def)

lemma be_val_be_bytes: "be_val (be_bytes n (w :: 'a::len word)) = unat w mod 256 ^ n"
proof (induction n)
  case 0
  show ?case by (simp add: be_bytes_def)
next
  case (Suc n)
  have p: "(2 :: nat) ^ (8 * n) = 256 ^ n" by (simp add: power_mult)
  have "unat (ucast (drop_bit (8 * n) w) :: UCHAR) = unat w div 256 ^ n mod 256"
    by (simp add: unsigned_ucast_eq take_bit_nat_def unsigned_drop_bit_eq drop_bit_nat_def p)
  moreover have "be_val (b # bs) = unat b * 256 ^ length bs + be_val bs" for b bs
    using be_val_append [of "[b]" bs] be_val_snoc [of "[]" b] by simp
  moreover have "unat w mod 256 ^ Suc n = unat w div 256 ^ n mod 256 * 256 ^ n + unat w mod 256 ^ n"
    using mod_mult2_eq [of "unat w" "256 ^ n" 256] by (simp add: mult.commute)
  ultimately show ?case using Suc by (simp add: be_bytes_Suc)
qed

section \<open>Cutting pad bytes off\<close>

lemma chop_pad_props:
  "0 < n \<Longrightarrow> chop_pad pad data n < n"
  "chop_pad pad data n < i \<Longrightarrow> i < n \<Longrightarrow> data ! i = pad"
  "0 < chop_pad pad data n \<Longrightarrow> data ! chop_pad pad data n \<noteq> pad"
proof (induction n)
  case (Suc n)
  { case 1 then show ?case using Suc(1) by (cases n) auto }
  { case 2 then show ?case using Suc(2) by (auto simp: less_Suc_eq split: if_splits) }
  { case 3 then show ?case using Suc(3) by (auto split: if_splits) }
qed simp_all

lemma chop_zeros_pad: "chop_zeros data n = chop_pad 0 data (Suc n)"
  by (induction n) auto

definition chop :: "UCHAR \<Rightarrow> UCHAR list \<Rightarrow> UCHAR list" where
  "chop pad bs = take (chop_pad pad bs (length bs) + 1) bs"

lemma chop_zero_numbers: "bs \<noteq> [] \<Longrightarrow> take (chop_zeros bs (length bs - 1) + 1) bs = chop 0 bs"
  by (simp add: chop_def chop_zeros_pad)

lemma chop_props:
  assumes "bs \<noteq> []"
  shows "chop pad bs \<noteq> []" and "bs = chop pad bs @ replicate (length bs - length (chop pad bs)) pad"
    and "length (chop pad bs) = 1 \<or> last (chop pad bs) \<noteq> pad"
proof -
  let ?k = "chop_pad pad bs (length bs)"
  have k: "?k < length bs" using assms chop_pad_props(1) [of "length bs"] by simp
  show "chop pad bs \<noteq> []" using assms by (simp add: chop_def)
  have len: "length (chop pad bs) = ?k + 1" using k by (simp add: chop_def)
  show "bs = chop pad bs @ replicate (length bs - length (chop pad bs)) pad"
  proof (rule nth_equalityI)
    fix i assume i: "i < length bs"
    show "bs ! i = (chop pad bs @ replicate (length bs - length (chop pad bs)) pad) ! i"
    proof (cases "i \<le> ?k")
      case True
      then show ?thesis using len by (simp add: nth_append) (simp add: chop_def)
    next
      case False
      then show ?thesis using len i chop_pad_props(2) [of pad bs "length bs" i] by (simp add: nth_append)
    qed
  qed (use k len in simp)
  have "last (chop pad bs) = bs ! ?k" using k by (simp add: chop_def take_Suc_conv_app_nth)
  then show "length (chop pad bs) = 1 \<or> last (chop pad bs) \<noteq> pad"
    using len chop_pad_props(3) [of pad bs "length bs"] by (cases "?k = 0") auto
qed

definition chopped :: "UCHAR list \<Rightarrow> bool" where
  "chopped k \<longleftrightarrow> k = [] \<or> length k = 1 \<or> last k \<noteq> 0"

lemma chopped_chop: "bs \<noteq> [] \<Longrightarrow> chopped (chop 0 bs)"
  using chop_props(3) [of bs 0] by (simp add: chopped_def)

lemma chop_tail: "length (chop pad bs) \<le> i \<Longrightarrow> i < length bs \<Longrightarrow> bs ! i = pad"
  using chop_props(2) [of bs pad] nth_append [of "chop pad bs" "replicate (length bs - length (chop pad bs)) pad" i]
  by (cases "bs = []") auto

lemma chop_take: "chop pad bs = take (length (chop pad bs)) bs"
  by (simp add: chop_def min_def)

lemma chop_prefix:
  assumes "bs = p @ x # us" "length p < length (chop pad bs)"
  shows "\<exists>ws. chop pad bs = p @ x # ws"
proof -
  obtain n where "length (chop pad bs) = length p + Suc n" using assms(2) less_imp_Suc_add by fastforce
  then have "chop pad bs = take (length p + Suc n) bs" using chop_take [of pad bs] by simp
  then show ?thesis unfolding assms(1) by simp
qed

text \<open>Strings of the same length keep their order when the zeros at their ends are cut off.\<close>

lemma chop_mono:
  assumes len: "length xs = length ys" and less: "xs < ys"
  shows "chop 0 xs < chop 0 ys"
  using less
proof (cases rule: list_less_cases)
  case (shorter y vs)
  then show ?thesis using len by simp
next
  case (diff p x y us vs)
  have ne: "xs \<noteq> []" "ys \<noteq> []" using diff by simp_all
  have "y \<noteq> 0" using diff(3) by auto
  have "\<not> length (chop 0 ys) \<le> length p"
    using chop_tail [of 0 ys "length p"] diff(2) \<open>y \<noteq> 0\<close> by auto
  then obtain ws where ws: "chop 0 ys = p @ y # ws" using chop_prefix [OF diff(2)] by (auto simp: linorder_not_le)
  show ?thesis
  proof (cases "length p < length (chop 0 xs)")
    case True
    then show ?thesis using ws list_less_diff [OF diff(3)] chop_prefix [OF diff(1)] by metis
  next
    case False
    then have "chop 0 xs = take (length (chop 0 xs)) p" using diff(1) chop_take [of 0 xs] by simp
    then have "p @ y # ws = chop 0 xs @ drop (length (chop 0 xs)) p @ y # ws"
      using append_take_drop_id [of "length (chop 0 xs)" p] by simp
    then show ?thesis using ws list_less_append by (cases "drop (length (chop 0 xs)) p") (auto simp: list_less_append)
  qed
qed

lemma chop_less_iff: "length xs = length ys \<Longrightarrow> (chop 0 xs < chop 0 ys) = (xs < ys)"
  using chop_mono [of xs ys] chop_mono [of ys xs] by (metis less_asym linorder_neqE)

section \<open>Stuffed segments\<close>

fun groups :: "UCHAR \<Rightarrow> UCHAR list \<Rightarrow> UCHAR list" where
  "groups m [] = []"
| "groups m (b # bs) = m # take STUFF_COUNT (b # bs) @ groups m (drop STUFF_COUNT (b # bs))"

definition padding :: "UCHAR list \<Rightarrow> nat" where
  "padding bs = (STUFF_COUNT - length bs mod STUFF_COUNT) mod STUFF_COUNT"

fun compound :: "nat \<Rightarrow> UCHAR list list \<Rightarrow> UCHAR list" where
  "compound m [] = []"
| "compound m (k # ks) =
     groups (of_nat m) k @ (if ks = [] then [] else replicate (padding k) 0) @ compound (m - 1) ks"

lemmas groups_def' = groups.simps(2)
declare groups.simps(2) [simp del]

lemma groups_nonempty: "k \<noteq> [] \<Longrightarrow> groups m k = m # take STUFF_COUNT k @ groups m (drop STUFF_COUNT k)"
  by (cases k) (simp_all add: groups.simps(2))

lemma padding_drop: "STUFF_COUNT \<le> length k \<Longrightarrow> padding (drop STUFF_COUNT k) = padding k"
  by (simp add: padding_def mod_if [of "length k"])

lemma padding_short: "k \<noteq> [] \<Longrightarrow> length k < STUFF_COUNT \<Longrightarrow> padding k = STUFF_COUNT - length k"
  by (simp add: padding_def)

text \<open>What follows a key of marker \<open>m\<close> is nothing or begins with a smaller marker.\<close>

definition below :: "UCHAR \<Rightarrow> UCHAR list \<Rightarrow> bool" where
  "below m c \<longleftrightarrow> c = [] \<or> hd c < m"

lemma below_less: "below m c \<Longrightarrow> c < m # xs"
  by (cases c) (auto simp: below_def)

lemma zeros_less:
  assumes "l \<noteq> []" "last l \<noteq> 0" "below m c" "0 < z" "z \<le> STUFF_COUNT"
  shows "replicate z 0 @ c < take z l @ groups m (drop z l) @ xs"
  using assms(1,2,4)
proof (induction z arbitrary: l)
  case (Suc z)
  then obtain b bs where l: "l = b # bs" by (cases l) auto
  show ?case
  proof (cases "b = 0")
    case False
    then have "0 < b" by (simp add: word_neq_0_conv)
    then show ?thesis by (simp add: l)
  next
    case True
    then have bs: "bs \<noteq> []" "last bs \<noteq> 0" using Suc.prems l by (auto split: if_splits)
    show ?thesis
    proof (cases "z = 0")
      case False
      then show ?thesis using Suc.IH [OF bs] l True by simp
    next
      case z: True
      then show ?thesis using below_less [OF assms(3)] l True groups_nonempty [OF bs(1), of m] by simp
    qed
  qed
qed simp

lemma take_less:
  assumes "xs < ys" "n \<le> length xs" "n \<le> length ys" "take n xs \<noteq> take n (ys :: 'a::linorder list)"
  shows "take n xs @ us < take n ys @ vs"
  using assms
proof (induction n arbitrary: xs ys)
  case (Suc n)
  then obtain x xs' y ys' where "xs = x # xs'" "ys = y # ys'" by (cases xs; cases ys) auto
  then show ?case using Suc by (auto)
qed simp

lemma drop_less: "xs < ys \<Longrightarrow> take n xs = take n ys \<Longrightarrow> n \<le> length xs \<Longrightarrow> n \<le> length ys \<Longrightarrow> drop n xs < (drop n ys :: 'a::linorder list)"
  by (metis append_less_append append_take_drop_id)

text \<open>A smaller key stays smaller, whatever follows.\<close>

lemma groups_less:
  assumes "k < l" "chopped l" "below m c"
  shows "groups m k @ (if final then [] else replicate (padding k) 0 @ c) < groups m l @ xs"
  using assms
proof (induction m k arbitrary: l rule: groups.induct)
  case (1 m)
  then have "l \<noteq> []" by auto
  then show ?case using below_less [OF 1(3)] groups_nonempty [of l m] by (auto simp: padding_def)
next
  case (2 m b bs)
  define k where "k = b # bs"
  have k: "k \<noteq> []" "k < l" using "2.prems" by (simp_all add: k_def)
  then have l: "l \<noteq> []" by auto
  note groups = groups_nonempty [OF k(1), of m] groups_nonempty [OF l, of m]
  show ?case
  proof (cases "STUFF_COUNT \<le> length k \<and> STUFF_COUNT \<le> length l")
    case True
    show ?thesis
    proof (cases "take STUFF_COUNT k = take STUFF_COUNT l")
      case eq: True
      have "drop STUFF_COUNT k < drop STUFF_COUNT l" using drop_less [OF k(2) eq] True by simp
      moreover have "chopped (drop STUFF_COUNT l)"
        using "2.prems"(2) True by (auto simp: chopped_def)
      ultimately show ?thesis
        using "2.IH" [of "drop STUFF_COUNT l"] padding_drop [of k] True "2.prems"(3)
        unfolding k_def [symmetric] groups by (cases final) (simp_all add: eq)
    next
      case False
      then show ?thesis unfolding k_def [symmetric] groups using take_less [OF k(2) _ _ False] True by simp
    qed
  next
    case short: False
    from k(2) show ?thesis
    proof (cases rule: list_less_cases)
      case (diff p x y us vs)
      then have "length p < STUFF_COUNT" using short by auto
      then have n: "STUFF_COUNT = length p + Suc (3 - length p)" (is "_ = _ + Suc ?n") by simp
      have "take STUFF_COUNT k = p @ x # take ?n us" "take STUFF_COUNT l = p @ y # take ?n vs"
        using n diff(1,2) by (simp_all only: take_append) (simp_all add: take_Cons')
      then show ?thesis unfolding k_def [symmetric] groups using diff(3) by (cases final) simp_all
    next
      case (shorter y vs)
      define z where "z = STUFF_COUNT - length k"
      have z: "length k < STUFF_COUNT" "0 < z" "z \<le> STUFF_COUNT" using short shorter by (auto simp: z_def)
      have "last (y # vs) \<noteq> 0" using "2.prems"(2) k(1) shorter by (simp add: chopped_def)
      then have "replicate z 0 @ c < take z (y # vs) @ groups m (drop z (y # vs)) @ xs"
        using zeros_less [of "y # vs" m c z xs] "2.prems"(3) z by simp
      then show ?thesis
        unfolding k_def [symmetric] groups using z padding_short [OF k(1)] by (cases z) (simp_all add: shorter z_def)
    qed
  qed
qed

lemma groups_eq_Nil [simp]: "(groups m k = []) = (k = [])"
  by (cases k) (simp_all add: groups.simps(2))

lemma padding_Nil [simp]: "padding [] = 0"
  by (simp add: padding_def)

lemma compound_head:
  assumes "length ks \<le> m" "m < M" "M < 256"
  shows "below (of_nat M) (compound m ks)"
  using assms(1,2)
proof (induction m ks rule: compound.induct)
  case (2 m k ks)
  show ?case
  proof (cases "k = []")
    case True
    then show ?thesis using 2 by (cases "m = 0") auto
  next
    case False
    then have "hd (groups (of_nat m) k) = of_nat m" using groups_nonempty [OF False, of "of_nat m"] by simp
    moreover have "(of_nat m :: UCHAR) < of_nat M"
      using 2(3) assms(3) by (simp add: word_less_nat_alt unat_of_nat)
    ultimately show ?thesis using False by (simp add: below_def)
  qed
qed (simp add: below_def)

lemma compound_mono:
  assumes "length ks = length ls" "length ls \<le> m" "m < 256" "ks < ls" "\<forall>l \<in> set ls. chopped l"
  shows "compound m ks < compound m ls"
  using assms(1,2,3,4,5)
proof (induction ks arbitrary: m ls)
  case (Cons k ks)
  then obtain l ls' where ls: "ls = l # ls'" by (cases ls) auto
  have m: "length ls' \<le> m - 1" "m - 1 < 256" "0 < m" using Cons.prems(2,3) ls by auto
  have len: "length ks = length ls'" using Cons.prems(1) ls by simp
  show ?case
  proof (cases "k = l")
    case True
    then have "ks < ls'" using Cons.prems(4) ls by simp
    then have "compound (m - 1) ks < compound (m - 1) ls'"
      using Cons.IH [OF len m(1,2)] Cons.prems(5) ls by simp
    then show ?thesis using True len ls by (cases ks; cases ls') auto
  next
    case False
    then have "k < l" using Cons.prems(4) ls by simp
    moreover have "chopped l" using Cons.prems(5) ls by simp
    moreover have "below (of_nat m) (compound (m - 1) ks)"
      using m Cons.prems(3) len by (intro compound_head) simp_all
    ultimately have "groups (of_nat m) k @ (if ks = [] then [] else replicate (padding k) 0 @ compound (m - 1) ks)
        < groups (of_nat m) l @ xs" for xs
      by (rule groups_less)
    from this [of "(if ls' = [] then [] else replicate (padding l) 0) @ compound (m - 1) ls'"]
    show ?thesis by (cases "ks = []") (simp_all add: ls)
  qed
qed simp

theorem compound_less_iff:
  assumes "length ks = length ls" "length ls \<le> m" "m < 256" "\<forall>k \<in> set ks. chopped k" "\<forall>l \<in> set ls. chopped l"
  shows "(compound m ks < compound m ls) = (ks < ls)"
  using compound_mono [OF assms(1-3) _ assms(5)] compound_mono [of ls ks m] assms
  by (metis less_asym linorder_neqE)

section \<open>The writer\<close>

lemma put_byte_Some: "put_byte maxlen b p = Some q \<Longrightarrow> q = p @ [b] \<and> length q < maxlen"
  by (auto simp: put_byte_def Let_def split: if_splits)

lemma put_zeros_Some: "put_zeros maxlen n p = Some q \<Longrightarrow> q = p @ replicate n 0"
proof (induction n arbitrary: p)
  case (Suc n)
  then show ?case using Suc.IH [of "p @ [0]"] by (auto dest!: put_byte_Some split: bind_splits)
qed simp

lemma padding_groups:
  "(if length bs \<le> 3 then 3 - length bs else padding (drop 3 bs)) = padding (b # bs)"
proof (cases "length bs \<le> 3")
  case True
  then have "length bs = 0 \<or> length bs = 1 \<or> length bs = 2 \<or> length bs = 3" by linarith
  then show ?thesis using True by (auto simp: padding_def)
next
  case False
  then show ?thesis using padding_drop [of "b # bs"] by simp
qed

lemma put_segment_Some:
  "put_segment maxlen m bs s p = Some (q, s') \<Longrightarrow>
    q = p @ take s bs @ groups m (drop s bs) \<and> s' = (if length bs \<le> s then s - length bs else padding (drop s bs))"
proof (induction bs arbitrary: s p)
  case (Cons b bs)
  show ?case
  proof (cases s)
    case 0
    then have "put_segment maxlen m bs 3 (p @ [m, b]) = Some (q, s')"
      using Cons.prems by (auto dest!: put_byte_Some split: bind_splits)
    then show ?thesis
      using Cons.IH [of 3 "p @ [m, b]"] padding_groups [of bs b] groups_nonempty [of "b # bs" m] 0 by simp
  next
    case (Suc n)
    then have "put_segment maxlen m bs n (p @ [b]) = Some (q, s')"
      using Cons.prems by (auto dest!: put_byte_Some split: bind_splits)
    then show ?thesis using Cons.IH [of n "p @ [b]"] Suc by simp
  qed
qed simp

end
