(* ===== verification/FB_Index_Number.thy ===== *)
theory FB_Index_Number
  imports FB_Index_Bytes
begin

text \<open>
  The bytes of a number in an index key: the sign bit is inverted, the bytes of a negative floating-point number are
  complemented, and the order of the big-endian bytes is the order of the numbers.
\<close>

section \<open>The sign bit\<close>

lemma xor_top_bit: "xor b 0x80 = b + (0x80 :: UCHAR)"
proof -
  have clear: "xor c 0x80 = c + 0x80" if "\<not> bit c 7" for c :: UCHAR
  proof -
    have "and c 0x80 = 0"
    proof (rule bit_word_eqI)
      fix n assume "n < LENGTH(8)"
      have "(0x80 :: UCHAR) = push_bit 7 1" by simp
      then have "bit (0x80 :: UCHAR) n = (n = 7)" using \<open>n < LENGTH(8)\<close> by (simp only: bit_push_bit_iff bit_1_iff) auto
      then show "bit (and c 0x80) n = bit 0 n" using that by (auto simp: bit_and_iff)
    qed
    then show ?thesis by (metis disjunctive_add_eq_xor)
  qed
  show ?thesis
  proof (cases "bit b 7")
    case True
    have "bit (0x80 :: UCHAR) 7" by code_simp
    then have "\<not> bit (xor b 0x80) 7" using True by (simp only: bit_xor_iff)
    then have "xor (xor b 0x80) 0x80 = xor b 0x80 + 0x80" by (rule clear)
    moreover have "xor (xor b 0x80) 0x80 = b" unfolding xor.assoc xor_self_eq by (rule xor.right_neutral)
    moreover have "c + 0x80 + 0x80 = c" for c :: UCHAR by (simp add: add.assoc)
    ultimately show ?thesis by metis
  next
    case False
    then show ?thesis by (rule clear)
  qed
qed

lemma be_val_flip:
  assumes "bs \<noteq> []"
  shows "be_val (bs[0 := xor (bs ! 0) 0x80]) = (be_val bs + 128 * 256 ^ (length bs - 1)) mod 256 ^ length bs"
proof -
  obtain b cs where bs: "bs = b # cs" using assms by (cases bs) auto
  have v: "be_val (b # cs) = unat b * 256 ^ length cs + be_val cs" for b
    using be_val_append [of "[b]" cs] be_val_snoc [of "[]" b] by simp
  have "unat (xor b 0x80) = (unat b + 128) mod 256"
    by (simp add: xor_top_bit unat_word_ariths)
  moreover have "((unat b + 128) * 256 ^ length cs + be_val cs) mod (256 ^ length cs * 256)
      = (unat b + 128) mod 256 * 256 ^ length cs + be_val cs"
    using mod_mult2_eq [of "(unat b + 128) * 256 ^ length cs + be_val cs" "256 ^ length cs" 256] be_val_less [of cs]
    by (simp add: mult.commute)
  ultimately show ?thesis by (simp add: bs v algebra_simps)
qed

lemma be_val_not: "be_val (map not bs) + be_val bs + 1 = 256 ^ length bs"
proof (induction bs rule: rev_induct)
  case (snoc b bs)
  have "unat (not b) + unat b = 255"
  proof -
    have "not b = 255 - b" by (simp add: not_eq_complement)
    moreover have "unat b \<le> 255" using unat_UCHAR_less [of b] by linarith
    then have "b \<le> 255" by (simp add: word_le_nat_alt)
    then have "unat (255 - b) = 255 - unat b" by (simp add: unat_sub)
    ultimately show ?thesis using \<open>unat b \<le> 255\<close> by simp
  qed
  then show ?case using snoc by (simp add: algebra_simps)
qed simp

section \<open>The key of a segment\<close>

definition segment_key :: "'d conversions \<Rightarrow> FB_UINT64 \<Rightarrow> bool \<Rightarrow> key_type \<Rightarrow> int \<Rightarrow> 'd option \<Rightarrow> UCHAR list option" where
  "segment_key conv rest descending keyType itype desc =
     map_option key_data (compress conv rest desc (empty_key True) itype descending keyType)"

lemma segment_key_compress:
  "map_option key_data (compress conv rest desc key itype descending keyType) =
    segment_key conv rest descending keyType itype desc"
proof -
  have update: "key_data (k\<lparr>key_data := data\<rparr>) = data" for k :: temporary_key and data by simp
  have null: "key_data (compress_null d k) = key_data (compress_null d k')" for d k k'
    by (simp add: compress_null_def)
  have string: "key_data (compress_string t bs d k) = key_data (compress_string t bs d k')" for t bs d k k'
    by (simp add: compress_string_def Let_def)
  have number: "key_data (compress_number v n s negative d k) = key_data (compress_number v n s negative d k')" for v n s negative d k k'
    unfolding compress_number_def Let_def update ..
  show ?thesis
    unfolding segment_key_def compress_def
    by (cases desc; simp split: bind_split prod.split;
      use null string number in blast)
qed

definition escape :: "bool \<Rightarrow> UCHAR list \<Rightarrow> UCHAR list" where
  "escape descending k = (if descending \<and> (hd k = 1 \<or> hd k = 0) then 1 # k else k)"

definition number_bytes :: "FB_UINT64 \<Rightarrow> nat \<Rightarrow> bool \<Rightarrow> UCHAR list" where
  "number_bytes temp len negative =
    (let data = be_bytes len (if double_is_zero temp then 0 else temp)
     in if negative then map not data else data[0 := xor (data ! 0) 0x80])"

lemma length_number_bytes [simp]: "length (number_bytes temp len negative) = len"
  by (simp add: number_bytes_def Let_def)

lemma compress_number_bytes:
  assumes "0 < len" "len \<le> 8"
  shows "key_data (compress_number temp len None negative descending key) =
    escape descending (chop 0 (number_bytes temp len negative))"
proof -
  let ?nb = "number_bytes temp len negative"
  have ne: "number_bytes temp len negative \<noteq> []" using assms by (metis length_0_conv length_number_bytes less_irrefl)
  have "hd (chop 0 (number_bytes temp len negative)) = chop 0 (number_bytes temp len negative) ! 0"
    using chop_props(1) [OF ne] by (simp add: hd_conv_nth)
  moreover have "take (chop_zeros (number_bytes temp len negative) (len - 1) + 1) (number_bytes temp len negative)
      = chop 0 (number_bytes temp len negative)"
    using chop_zero_numbers [OF ne] by simp
  moreover have "key_data (compress_number temp len None negative descending key) =
      (let data = take (chop_zeros ?nb (len - 1) + 1) ?nb in if descending \<and> (data ! 0 = 1 \<or> data ! 0 = 0) then 1 # data else data)"
    using assms by (simp add: compress_number_def number_bytes_def Let_def)
  ultimately show ?thesis by (simp add: escape_def Let_def)
qed

lemma double_is_zero_cases:
  assumes "double_is_zero d"
  shows "unat d = 0 \<or> unat d = 2 ^ 63"
proof -
  have "unat (take_bit 63 d) = unat (0 :: FB_UINT64)" using assms by (simp add: double_is_zero_def)
  then have m: "unat d mod 2 ^ 63 = 0" by (simp add: unsigned_take_bit_eq take_bit_nat_def)
  have "unat d < 2 ^ 63 * 2" using unsigned_less [of d] by simp
  then have "unat d div 2 ^ 63 < 2" by (simp add: less_mult_imp_div_less mult.commute)
  then have q: "unat d div 2 ^ 63 = 0 \<or> unat d div 2 ^ 63 = 1" by (rule less_2_cases [simplified One_nat_def [symmetric]])
  have "unat d = unat d div 2 ^ 63 * 2 ^ 63" using div_mult_mod_eq [of "unat d" "2 ^ 63"] m by (simp only: add_0_right)
  then show ?thesis using q by (elim disjE) simp_all
qed

lemma be_val_number_bytes:
  assumes "0 < len" "len < 8 \<or> unat temp \<noteq> 2 ^ 63"
  shows "be_val (number_bytes temp len False) = (unat temp + 128 * 256 ^ (len - 1)) mod 256 ^ len"
proof -
  define t where "t = (if double_is_zero temp then 0 else temp)"
  have bytes: "be_bytes len t \<noteq> []" using assms(1) by (metis length_0_conv length_be_bytes less_irrefl)
  have t: "unat t mod 256 ^ len = unat temp mod 256 ^ len"
  proof (cases "double_is_zero temp \<and> unat temp = 2 ^ 63")
    case True
    then have "8 * len \<le> 63" using assms(2) by auto
    then obtain k where "63 = 8 * len + k" using le_Suc_ex by blast
    then have "(2 :: nat) ^ 63 = (2 ^ 8) ^ len * 2 ^ k" by (metis power_add power_mult)
    then have "unat temp = 256 ^ len * 2 ^ k" using True by simp
    then have "unat temp mod 256 ^ len = 0" by (metis mod_mult_self1_is_0)
    then show ?thesis using True by (simp add: t_def)
  next
    case False
    then show ?thesis using double_is_zero_cases [of temp] by (auto simp: t_def)
  qed
  show ?thesis
    using be_val_flip [OF bytes] t by (simp add: number_bytes_def t_def [symmetric] be_val_be_bytes Let_def) (metis mod_add_left_eq)
qed

lemma be_val_number_bytes_negative:
  assumes "\<not> double_is_zero temp"
  shows "be_val (number_bytes temp 8 True) + unat temp + 1 = 256 ^ 8"
proof -
  have "unat temp < 256 ^ 8" using unsigned_less [of temp] by simp
  then show ?thesis using be_val_not [of "be_bytes 8 temp"] assms by (simp add: number_bytes_def be_val_be_bytes)
qed

section \<open>The order of floating-point numbers\<close>

text \<open>A \<^verbatim>\<open>double\<close> as a whole number of units of \<open>2 ^ -1074\<close>, by its exponent and its fraction; an infinity counts as the
  next power of two.\<close>

definition magnitude :: "nat \<Rightarrow> nat" where
  "magnitude m = (let e = m div 2 ^ 52; f = m mod 2 ^ 52 in if e = 0 then f else (2 ^ 52 + f) * 2 ^ (e - 1))"

definition double_units :: "FB_UINT64 \<Rightarrow> int" where
  "double_units d = (let m = int (magnitude (unat (take_bit 63 d))) in if bit d 63 then - m else m)"

lemma magnitude_Suc: "magnitude m < magnitude (Suc m)"
proof -
  define B :: nat where "B = 2 ^ 52"
  have B: "0 < B" by (simp add: B_def)
  define e f where "e = m div B" and "f = m mod B"
  have m: "m = e * B + f" and f: "f < B" using B by (simp_all add: e_def f_def)
  have mag: "magnitude (e * B + f) = (if e = 0 then f else (B + f) * 2 ^ (e - 1))" if "f < B" for e f
    using that B unfolding magnitude_def B_def [symmetric] by (simp add: Let_def)
  show ?thesis
  proof (cases "Suc f < B")
    case True
    then show ?thesis using mag [OF f, of e] mag [OF True, of e] m by simp
  next
    case False
    then have "Suc m = Suc e * B + 0" using f m by simp
    then have "magnitude (Suc m) = B * 2 ^ e" using mag [of 0 "Suc e"] B by simp
    moreover have "magnitude m < B * 2 ^ e"
    proof (cases e)
      case 0
      then show ?thesis using mag [OF f, of e] m f by simp
    next
      case (Suc e')
      have "(B + f) * 2 ^ e' < (B + B) * 2 ^ e'" using f by simp
      then show ?thesis using mag [OF f, of e] m Suc by (simp add: mult_2 algebra_simps)
    qed
    ultimately show ?thesis by simp
  qed
qed

lemma magnitude_less_iff: "(magnitude m < magnitude n) = (m < n)"
  using strict_mono_less [of magnitude m n] magnitude_Suc by (simp add: strict_mono_Suc_iff)

lemma magnitude_0 [simp]: "magnitude 0 = 0"
  by (simp add: magnitude_def)

definition double_code :: "FB_UINT64 \<Rightarrow> nat" where
  "double_code d = be_val (number_bytes d 8 (double_is_negative d))"

lemma unat_double: "unat d = unat (take_bit 63 d) + (if bit d 63 then 2 ^ 63 else 0)" for d :: FB_UINT64
proof -
  define q r where "q = unat d div 2 ^ 63" and "r = unat d mod 2 ^ 63"
  have "unat d < 2 ^ 63 * 2" using unsigned_less [of d] by simp
  then have "q < 2" unfolding q_def by (metis less_mult_imp_div_less mult.commute)
  moreover have "bit d 63 = odd q" using bit_iff_odd [of "unat d" 63] by (simp add: q_def bit_unsigned_iff)
  moreover have "unat (take_bit 63 d) = r" by (simp add: r_def unsigned_take_bit_eq take_bit_nat_def)
  moreover have "unat d = q * 2 ^ 63 + r" unfolding q_def r_def by (simp only: div_mult_mod_eq)
  ultimately show ?thesis by (auto simp: less_2_cases_iff)
qed

lemma double_code_eq:
  assumes "\<not> double_is_nan d"
  defines "m \<equiv> unat (take_bit 63 d)"
  shows "int (double_code d) = (if bit d 63 \<and> m \<noteq> 0 then 2 ^ 63 - 1 - int m else 2 ^ 63 + int m)"
proof -
  have zero: "double_is_zero d = (m = 0)" unfolding double_is_zero_def m_def by (simp only: unsigned_eq_0_iff)
  have m: "m < 2 ^ 63" unfolding m_def by (simp add: unsigned_take_bit_eq take_bit_nat_def)
  show ?thesis
  proof (cases "m = 0")
    case True
    then have "number_bytes d 8 (double_is_negative d) = number_bytes 0 8 False"
      using zero by (simp add: number_bytes_def double_is_negative_def double_is_zero_def)
    then show ?thesis using True be_val_number_bytes [of 8 0] by (simp add: double_code_def)
  next
    case False
    show ?thesis
    proof (cases "bit d 63")
      case True
      then have "double_is_negative d" using False zero assms(1) by (simp add: double_is_negative_def)
      then have "double_code d + (m + 2 ^ 63) + 1 = 2 ^ 64"
        using be_val_number_bytes_negative [of d] False zero True unat_double [of d] by (simp add: double_code_def m_def)
      then show ?thesis using True False by simp
    next
      case False
      then have "unat d = m" using unat_double [of d] by (simp add: m_def)
      then have "double_code d = (m + 2 ^ 63) mod 2 ^ 64"
        using be_val_number_bytes [of 8 d] False m by (simp add: double_code_def double_is_negative_def)
      also have "\<dots> = m + 2 ^ 63" using m by simp
      finally show ?thesis using False by simp
    qed
  qed
qed

lemma double_code_pos:
  assumes "\<not> double_is_nan d"
  shows "0 < double_code d"
proof -
  define m where "m = unat (take_bit 63 d)"
  have "m \<le> 0x7FF0000000000000"
    using assms unfolding double_is_nan_def not_less word_le_nat_alt m_def by simp
  then have "0 < int (double_code d)" unfolding double_code_eq [OF assms] m_def [symmetric] by simp
  then show ?thesis by simp
qed

lemma double_code_less_iff:
  assumes "\<not> double_is_nan a" "\<not> double_is_nan b"
  shows "(double_code a < double_code b) = (double_units a < double_units b)"
proof -
  define m n where "m = unat (take_bit 63 a)" and "n = unat (take_bit 63 b)"
  have less: "(magnitude i < magnitude j) = (i < j)" "(magnitude i = 0) = (i = 0)" "(0 < magnitude i) = (0 < i)" for i j
    using magnitude_less_iff [of i j] magnitude_less_iff [of 0 i] by auto
  have "(double_code a < double_code b) = (int (double_code a) < int (double_code b))" by simp
  also have "\<dots> = (double_units a < double_units b)"
    unfolding double_code_eq [OF assms(1)] double_code_eq [OF assms(2)] double_units_def m_def [symmetric] n_def [symmetric]
    using less(1) [of m n] less(1) [of n m] less(3) [of m] less(3) [of n] by (cases "bit a 63"; cases "bit b 63"; cases "m = 0"; cases "n = 0") (auto simp: Let_def)
  finally show ?thesis .
qed

end
