(* ===== verification/FB_Index_Order.thy ===== *)
theory FB_Index_Order
  imports FB_Index_Number FB_Date_Arith "HOL-Library.Option_ord"
begin

text \<open>
  The order of index keys: the key of a number compares as the number does, and the stuffed key of a record as the
  list of its values. NULL is the smallest value of a segment.
\<close>

section \<open>The values of a segment\<close>

text \<open>The rank of a value among the values of its type: an integer that orders them. There is none for a NaN
  nor for a number beyond the range of its representation.\<close>

definition index_rank :: "'d conversions \<Rightarrow> int \<Rightarrow> 'd \<Rightarrow> int option" where
  "index_rank conv itype d =
    (if itype = idx_numeric
     then do { x \<leftarrow> get_double conv d; if double_is_nan x then None else Some (double_units x) }
     else if itype = idx_timestamp
     then do { ts \<leftarrow> get_timestamp conv d; if - (2 ^ 63) < ticks ts \<and> ticks ts < 2 ^ 63 then Some (ticks ts) else None }
     else if itype = idx_sql_date
     then do { n \<leftarrow> get_sql_date conv d; if - (2 ^ 31) < n \<and> n < 2 ^ 31 then Some n else None }
     else if itype = idx_sql_time
     then do { n \<leftarrow> get_sql_time conv d; if 0 \<le> n \<and> n < 2 ^ 31 then Some n else None }
     else if itype = idx_boolean \<and> \<not> is_dtype_timestamp conv d
     then do { b \<leftarrow> get_boolean conv d; Some (if b then 1 else 0) }
     else None)"

definition index_width :: "int \<Rightarrow> nat" where
  "index_width itype = (if itype = idx_numeric \<or> itype = idx_timestamp then 8
     else if itype = idx_sql_date \<or> itype = idx_sql_time then 4 else 1)"

lemma index_width_pos: "0 < index_width itype" "index_width itype \<le> 8"
  by (simp_all add: index_width_def)

text \<open>The bytes \<open>bs\<close> stand for the rank \<open>r\<close>.\<close>

definition encodes :: "int \<Rightarrow> int \<Rightarrow> UCHAR list \<Rightarrow> bool" where
  "encodes itype r bs \<longleftrightarrow> length bs = index_width itype \<and> 0 < be_val bs \<and>
    (if itype = idx_numeric then \<exists>x. \<not> double_is_nan x \<and> r = double_units x \<and> be_val bs = double_code x
     else int (be_val bs) = r + 128 * 256 ^ (index_width itype - 1))"

lemma encodes_less_iff:
  assumes "encodes itype r xs" "encodes itype s ys"
  shows "(xs < ys) = (r < s)"
proof -
  have "(be_val xs < be_val ys) = (r < s)"
  proof (cases "itype = idx_numeric")
    case True
    then show ?thesis using assms double_code_less_iff by (auto simp: encodes_def)
  next
    case False
    then have "int (be_val xs) = r + 128 * 256 ^ (index_width itype - 1)" "int (be_val ys) = s + 128 * 256 ^ (index_width itype - 1)"
      using assms by (simp_all add: encodes_def)
    then show ?thesis by linarith
  qed
  then show ?thesis using assms be_val_less_iff [of xs ys] by (simp add: encodes_def)
qed

lemma encodes_signed:
  assumes "itype \<noteq> idx_numeric" "n = index_width itype" "n < 8 \<or> unat temp \<noteq> 2 ^ 63"
    and "int (unat temp mod 256 ^ n) = r mod 256 ^ n" "- (128 * 256 ^ (n - 1)) < r" "r < 128 * 256 ^ (n - 1)"
  shows "encodes itype r (number_bytes temp n False)"
proof -
  define h :: int where "h = 128 * 256 ^ (n - 1)"
  have n: "0 < n" using assms(2) index_width_pos by simp
  then have w: "(256 :: int) ^ n = 2 * h" by (cases n) (simp_all add: h_def)
  have "int (be_val (number_bytes temp n False)) = (int (unat temp) + h) mod 256 ^ n"
    using be_val_number_bytes [OF n assms(3)] by (simp add: h_def of_nat_mod)
  also have "\<dots> = (int (unat temp mod 256 ^ n) + h) mod 256 ^ n"
    unfolding of_nat_mod of_nat_power by (simp add: mod_simps)
  also have "\<dots> = (r + h) mod 256 ^ n" unfolding assms(4) by (simp add: mod_simps)
  also have "\<dots> = r + h" using assms(5,6) w by (simp add: h_def)
  finally show ?thesis using assms(1,2,5) by (simp add: encodes_def h_def)
qed

lemma unat_in_union: "n = 1 \<or> n = 4 \<Longrightarrow> unat (in_union n v rest) mod 256 ^ n = unat v mod 256 ^ n"
proof -
  assume "n = 1 \<or> n = 4"
  then have n: "8 * n < 64" by auto
  have "take_bit (8 * n) (in_union n v rest) = take_bit (8 * n) v"
    by (rule bit_word_eqI) (auto simp: in_union_def bit_take_bit_iff bit_or_iff bit_push_bit_iff)
  then have "unat (take_bit (8 * n) (in_union n v rest)) = unat (take_bit (8 * n) v)" by simp
  then show ?thesis by (simp add: unsigned_take_bit_eq take_bit_nat_def power_mult)
qed

lemma segment_key_number:
  assumes "\<not> is_string_type itype" "compress_value conv rest itype d = Some (temp, n, None, negative)" "0 < n" "n \<le> 8"
  shows "segment_key conv rest descending keyType itype (Some d) = Some (escape descending (chop 0 (number_bytes temp n negative)))"
  using assms compress_number_bytes [of n temp negative descending] by (simp add: segment_key_def compress_def)

lemma unat_of_int_mod: "int (unat (word_of_int i :: FB_UINT64) mod 2 ^ k) = i mod 2 ^ k" if "k \<le> 64"
proof -
  have "unat (word_of_int i :: FB_UINT64) mod 2 ^ k = unat (take_bit k (word_of_int i :: FB_UINT64))"
    by (simp add: unsigned_take_bit_eq take_bit_nat_def)
  also have "int \<dots> = uint (take_bit k (word_of_int i :: FB_UINT64))" by simp
  also have "\<dots> = i mod 2 ^ k" using that by (simp add: unsigned_take_bit_eq uint_word_of_int_eq take_bit_take_bit min_def flip: take_bit_eq_mod)
  finally show ?thesis .
qed

lemma encodes_of_int:
  assumes "itype \<noteq> idx_numeric" "n = index_width itype" "int (unat temp mod 256 ^ n) = int (unat (word_of_int r :: FB_UINT64) mod 256 ^ n)"
    "- (128 * 256 ^ (n - 1)) < r" "r < 128 * 256 ^ (n - 1)" "n < 8 \<or> unat temp \<noteq> 2 ^ 63"
  shows "encodes itype r (number_bytes temp n False)"
proof -
  have "(256 :: nat) ^ n = 2 ^ (8 * n)" "(256 :: int) ^ n = 2 ^ (8 * n)" by (simp_all add: power_mult)
  moreover have "8 * n \<le> 64" using index_width_pos(2) [of itype] assms(2) by simp
  ultimately show ?thesis using encodes_signed [OF assms(1,2,6) _ assms(4,5)] unat_of_int_mod [of "8 * n" r] assms(3) by simp
qed

lemma timestamp_not_zero:
  assumes "- (2 ^ 63) < n" "n < 2 ^ 63"
  shows "unat (word_of_int n :: FB_UINT64) \<noteq> 2 ^ 63"
proof
  assume "unat (word_of_int n :: FB_UINT64) = 2 ^ 63"
  then have "n mod 2 ^ 64 = 2 ^ 63" using unat_of_int_mod [of 64 n] by simp
  then have "n mod (2 * 2 ^ 63) = 2 ^ 63" by simp
  moreover have "0 \<le> n \<Longrightarrow> n mod (2 * 2 ^ 63) = n" using assms by simp
  moreover have "n < 0 \<Longrightarrow> n mod (2 * 2 ^ 63) = n + 2 * 2 ^ 63" 
    using assms mod_pos_pos_trivial [of "n + 2 * 2 ^ 63" "2 * 2 ^ 63"] by simp
  ultimately show False using assms by linarith
qed

lemma segment_key_rank:
  assumes "index_rank conv itype d = Some r"
  shows "\<exists>bs. segment_key conv rest descending keyType itype (Some d) = Some (escape descending (chop 0 bs)) \<and> encodes itype r bs"
proof -
  have *: ?thesis if "compress_value conv rest itype d = Some (temp, index_width itype, None, negative)"
    "encodes itype r (number_bytes temp (index_width itype) negative)" "\<not> is_string_type itype" for temp negative
    using segment_key_number [OF that(3,1) index_width_pos] that(2) by blast
  consider "itype = idx_numeric" | "itype = idx_timestamp" | "itype = idx_sql_date" | "itype = idx_sql_time"
    | "itype = idx_boolean" "\<not> is_dtype_timestamp conv d"
    using assms by (auto simp: index_rank_def split: if_splits)
  then show ?thesis
  proof cases
    case 1
    then obtain x where x: "get_double conv d = Some x" "\<not> double_is_nan x" "r = double_units x"
      using assms by (auto simp: index_rank_def split: bind_splits if_splits)
    show ?thesis
      by (rule * [of x "double_is_negative x"])
        (use x 1 double_code_pos [OF x(2)] in
          \<open>auto simp: compress_value_def index_width_def encodes_def double_code_def is_string_type_def\<close>)
  next
    case 2
    then obtain ts where ts: "get_timestamp conv d = Some ts" "- (2 ^ 63) < r" "r < 2 ^ 63" "r = ticks ts"
      using assms by (auto simp: index_rank_def split: bind_splits if_splits)
    have "encodes itype r (number_bytes (word_of_int r) 8 False)"
      by (rule encodes_of_int) (use ts 2 timestamp_not_zero [OF ts(2,3)] in \<open>simp_all add: index_width_def\<close>)
    moreover have "oneDay * ISC_TIME_SECONDS_PRECISION = (864000000 :: int)"
      by (simp add: oneDay_def ISC_TIME_SECONDS_PRECISION_def)
    then have "compress_value conv rest itype d = Some (word_of_int r, 8, None, False)"
      using ts(1,4) 2 by (simp only: ticks_def) (simp add: compress_value_def)
    ultimately show ?thesis using * [of "word_of_int r" False] 2 by (simp add: index_width_def is_string_type_def)
  next
    case 3
    then obtain n where n: "get_sql_date conv d = Some n" "- (2 ^ 31) < n" "n < 2 ^ 31" "r = n"
      using assms by (auto simp: index_rank_def split: bind_splits if_splits)
    have "encodes itype r (number_bytes (in_union 4 (word_of_int n) rest) 4 False)"
      by (rule encodes_of_int) (use n 3 unat_in_union [of 4 "word_of_int n" rest] in \<open>simp_all add: index_width_def\<close>)
    then show ?thesis
      using * [of "in_union 4 (word_of_int n) rest" False] n 3
      by (simp add: compress_value_def index_width_def is_string_type_def)
  next
    case 4
    then obtain n where n: "get_sql_time conv d = Some n" "0 \<le> n" "n < 2 ^ 31" "r = n"
      using assms by (auto simp: index_rank_def split: bind_splits if_splits)
    have "encodes itype r (number_bytes (in_union 4 (word_of_int n) rest) 4 False)"
      by (rule encodes_of_int) (use n 4 unat_in_union [of 4 "word_of_int n" rest] in \<open>simp_all add: index_width_def\<close>)
    then show ?thesis
      using * [of "in_union 4 (word_of_int n) rest" False] n 4
      by (simp add: compress_value_def index_width_def is_string_type_def)
  next
    case 5
    then obtain b where b: "get_boolean conv d = Some b" "r = (if b then 1 else 0)"
      using assms by (auto simp: index_rank_def split: bind_splits if_splits)
    have "encodes itype r (number_bytes (in_union 1 (if b then 1 else 0) rest) 1 False)"
      by (rule encodes_of_int) (use b 5 unat_in_union [of 1 "if b then 1 else 0" rest] in \<open>auto simp: index_width_def\<close>)
    then show ?thesis
      using * [of "in_union 1 (if b then 1 else 0) rest" False] b 5
      by (simp add: compress_value_def index_width_def is_string_type_def)
  qed
qed

section \<open>The order of the keys of a segment\<close>

definition segment_rank :: "'d conversions \<Rightarrow> int \<Rightarrow> 'd option \<Rightarrow> int option option" where
  "segment_rank conv itype desc = (case desc of None \<Rightarrow> Some None | Some d \<Rightarrow> map_option Some (index_rank conv itype d))"

lemma escape_less_iff:
  assumes "k \<noteq> []" "l \<noteq> []"
  shows "(escape descending k < escape descending l) = (k < l)"
proof -
  have small: "b < 2 \<longleftrightarrow> b = 1 \<or> b = 0" for b :: UCHAR
  proof -
    have "b < 2 \<longleftrightarrow> unat b = 1 \<or> unat b = 0" by (auto simp: word_less_nat_alt)
    then show ?thesis by (simp add: word_unat_eq_iff)
  qed
  obtain x ks y ls where "k = x # ks" "l = y # ls" using assms by (cases k; cases l) auto
  then show ?thesis using small [of x] small [of y]
    by (cases "x < 2"; cases "y < 2") (auto simp: escape_def word_less_nat_alt)
qed

lemma escape_less_null:
  assumes "k \<noteq> []"
  shows "[0] < escape True k"
  using assms by (cases k) (auto simp: escape_def word_neq_0_conv)

lemma encodes_chop:
  assumes "encodes itype r bs"
  shows "bs \<noteq> []" "chop 0 bs \<noteq> []" "last (chop 0 bs) \<noteq> 0"
proof -
  show ne: "bs \<noteq> []" using assms by (auto simp: encodes_def)
  show "chop 0 bs \<noteq> []" using chop_props(1) [OF ne] .
  show "last (chop 0 bs) \<noteq> 0"
  proof
    assume z: "last (chop 0 bs) = 0"
    then have "length (chop 0 bs) = 1" using chop_props(3) [OF ne, of 0] by simp
    then have "chop 0 bs = [0]" using z by (cases "chop 0 bs") auto
    then have "bs = replicate (length bs) 0" using chop_props(2) [OF ne, of 0] ne
      by (cases "length bs") simp_all
    moreover have "be_val (replicate n 0) = 0" for n
      by (induction n) (simp_all add: be_val_def)
    ultimately show False using assms by (metis encodes_def less_irrefl)
  qed
qed

lemma chopped_escape: "k \<noteq> [] \<Longrightarrow> last k \<noteq> 0 \<Longrightarrow> chopped (escape descending k)"
  by (auto simp: escape_def chopped_def)

text \<open>\<open>k\<close> is the key of the value whose rank is \<open>r\<close>.\<close>

definition stands_for :: "bool \<Rightarrow> int \<Rightarrow> int option \<Rightarrow> UCHAR list \<Rightarrow> bool" where
  "stands_for descending itype r k = (case r of
     None \<Rightarrow> k = (if descending then [0] else [])
   | Some i \<Rightarrow> \<exists>bs. k = escape descending (chop 0 bs) \<and> encodes itype i bs)"

lemma segment_key_stands_for:
  assumes "segment_rank conv itype desc = Some r"
  shows "\<exists>k. segment_key conv rest descending keyType itype desc = Some k \<and> stands_for descending itype r k"
proof (cases desc)
  case None
  then show ?thesis
    using assms by (simp add: segment_key_def compress_def compress_null_def segment_rank_def stands_for_def)
next
  case (Some d)
  then obtain i where "r = Some i" "index_rank conv itype d = Some i" using assms by (auto simp: segment_rank_def)
  then show ?thesis
    using Some segment_key_rank [of conv itype d i rest descending keyType] by (auto simp: stands_for_def)
qed

lemma stands_for_chopped: "stands_for descending itype r k \<Longrightarrow> chopped k"
  by (cases r) (auto simp: stands_for_def chopped_def [of "[]"] chopped_def [of "[0]"] intro!: chopped_escape dest: encodes_chop)

lemma stands_for_less_iff:
  assumes "stands_for descending itype r k" "stands_for descending itype s l"
  shows "(k < l) = (r < s)"
proof -
  have null: "(if descending then [0] else []) < escape descending (chop 0 bs)" if "encodes itype i bs" for i bs
    using encodes_chop(2) [OF that] escape_less_null [of "chop 0 bs"] by (cases descending; cases "chop 0 bs") (simp_all add: escape_def)
  show ?thesis
  proof (cases r)
    case None
    then have k: "k = (if descending then [0] else [])" using assms(1) by (simp add: stands_for_def)
    show ?thesis
    proof (cases s)
      case (Some j)
      then have "k < l" using assms(2) null k by (auto simp only: stands_for_def option.case)
      then show ?thesis using \<open>r = None\<close> Some by simp
    qed (use None k assms(2) in \<open>simp add: stands_for_def\<close>)
  next
    case (Some i)
    then obtain as where as: "k = escape descending (chop 0 as)" "encodes itype i as" using assms(1) by (auto simp: stands_for_def)
    show ?thesis
    proof (cases s)
      case None
      then have "l < k" using assms(2) null [OF as(2)] as(1) by (simp only: stands_for_def option.case)
      then have "\<not> k < l" by (rule less_not_sym)
      then show ?thesis using None by simp
    next
      case s: (Some j)
      then obtain bs where bs: "l = escape descending (chop 0 bs)" "encodes itype j bs" using assms(2) by (auto simp: stands_for_def)
      have "length as = length bs" using as(2) bs(2) by (simp add: encodes_def)
      then show ?thesis
        unfolding as(1) bs(1) escape_less_iff [OF encodes_chop(2) [OF as(2)] encodes_chop(2) [OF bs(2)]]
        using encodes_less_iff [OF as(2) bs(2)] Some s by (simp add: chop_less_iff)
    qed
  qed
qed

section \<open>The order of the keys of records\<close>

definition field_value :: "'d conversions \<Rightarrow> (nat \<Rightarrow> 'd option) \<Rightarrow> idx_repeat \<Rightarrow> 'd option" where
  "field_value conv field seg = map_option (adjust_text conv) (field (idx_field seg))"

definition record_ranks :: "'d conversions \<Rightarrow> (nat \<Rightarrow> 'd option) \<Rightarrow> idx_repeat list \<Rightarrow> int option list option" where
  "record_ranks conv field segs = those (map (\<lambda>seg. segment_rank conv (idx_itype seg) (field_value conv field seg)) segs)"

definition segment_keys ::
  "'d conversions \<Rightarrow> FB_UINT64 \<Rightarrow> bool \<Rightarrow> key_type \<Rightarrow> (nat \<Rightarrow> 'd option) \<Rightarrow> idx_repeat list \<Rightarrow> UCHAR list list option" where
  "segment_keys conv rest descending keyType field segs =
     those (map (\<lambda>seg. segment_key conv rest descending keyType (idx_itype seg) (field_value conv field seg)) segs)"

lemma those_Cons_Some:
  "(those (x # xs) = Some ys) = (\<exists>z zs. x = Some z \<and> those xs = Some zs \<and> ys = z # zs)"
  by (cases x) auto

lemma length_those: "those xs = Some ys \<Longrightarrow> length ys = length xs"
  by (induction xs arbitrary: ys) (auto simp: those_Cons_Some simp del: those.simps(2))

lemma segment_keys_stand_for:
  assumes "record_ranks conv field segs = Some rs"
  shows "\<exists>ks. segment_keys conv rest descending keyType field segs = Some ks \<and> length ks = length segs \<and> length rs = length segs \<and>
    (\<forall>i < length segs. stands_for descending (idx_itype (segs ! i)) (rs ! i) (ks ! i))"
  using assms
proof (induction segs arbitrary: rs)
  case Nil
  then show ?case by (simp add: record_ranks_def segment_keys_def)
next
  case (Cons seg segs)
  obtain r rs' where r: "segment_rank conv (idx_itype seg) (field_value conv field seg) = Some r"
    and rs: "record_ranks conv field segs = Some rs'" "rs = r # rs'"
    using Cons.prems by (auto simp: record_ranks_def those_Cons_Some simp del: those.simps(2))
  obtain k where "segment_key conv rest descending keyType (idx_itype seg) (field_value conv field seg) = Some k"
    "stands_for descending (idx_itype seg) r k" using segment_key_stands_for [OF r] by blast
  then show ?case using Cons.IH [OF rs(1)] rs(2) by (auto simp: segment_keys_def nth_Cons split: nat.split)
qed

lemma lists_less_iff:
  fixes ks ls :: "'a::linorder list" and rs ss :: "'b::linorder list"
  assumes "length ks = n" "length ls = n" "length rs = n" "length ss = n"
    and "\<forall>i < n. (ks ! i < ls ! i) = (rs ! i < ss ! i)" "\<forall>i < n. (ls ! i < ks ! i) = (ss ! i < rs ! i)"
  shows "(ks < ls) = (rs < ss)"
  using assms
proof (induction n arbitrary: ks ls rs ss)
  case (Suc n)
  then obtain k ks' l ls' r rs' s ss' where eqs: "ks = k # ks'" "ls = l # ls'" "rs = r # rs'" "ss = s # ss'"
    by (metis length_Suc_conv)
  have "(k < l) = (r < s)" "(l < k) = (s < r)" using Suc.prems(5,6) eqs by auto
  moreover have "(ks' < ls') = (rs' < ss')"
    by (rule Suc.IH) (use Suc.prems eqs in force)+
  ultimately show ?case unfolding eqs by (auto simp: not_less_iff_gr_or_eq)
qed simp

lemma step_bind_Step: "(step_bind x f = Step y) = (\<exists>z. x = Step z \<and> f z = Step y)"
  by (cases x) auto

lemma fits_Step: "(fits r = Step y) = (r = Some y)"
  by (cases r) (auto simp: fits_def)

lemma converts_Step: "(converts r = Step y) = (r = Some y)"
  by (cases r) (auto simp: converts_def)

lemmas step_Step = step_bind_Step fits_Step converts_Step

lemma put_segment_0: "put_segment maxlen m bs 0 p = Some (q, s) \<Longrightarrow> q = p @ groups m bs \<and> s = padding bs"
  using put_segment_Some [of maxlen m bs 0 p q s] by (cases bs) auto

lemma key_segments_Step:
  assumes "key_segments conv rest idx field keyType maxlen n segs p stuff_count temp nulls = Step (q, temp', nulls')"
  shows "\<exists>ks. segment_keys conv rest (idx_descending idx) keyType field segs = Some ks \<and>
    q = p @ (if segs = [] then [] else replicate stuff_count 0) @ compound (idx_count idx - n) ks"
  using assms
proof (induction segs arbitrary: n p stuff_count temp nulls)
  case Nil
  then show ?case by (simp add: segment_keys_def)
next
  case (Cons seg segs)
  define desc where "desc = field_value conv field seg"
  obtain p1 t p2 s nulls2 where p1: "put_zeros maxlen stuff_count p = Some p1"
    and t: "compress conv rest desc temp (idx_itype seg) (idx_descending idx) keyType = Some t"
    and p2: "put_segment maxlen (of_nat (idx_count idx - n)) (key_data t) 0 p1 = Some (p2, s)"
    and more_segs: "key_segments conv rest idx field keyType maxlen (Suc n) segs p2 s t nulls2 = Step (q, temp', nulls')"
    using Cons.prems unfolding key_segments.simps Let_def step_bind_Step fits_Step converts_Step split_paired_Ex prod.case
    by (auto simp: desc_def field_value_def)
  have k: "segment_key conv rest (idx_descending idx) keyType (idx_itype seg) desc = Some (key_data t)"
    using segment_key_compress [of conv rest desc temp] t by (metis option.simps(9))
  obtain ks where ks: "segment_keys conv rest (idx_descending idx) keyType field segs = Some ks"
    "q = p2 @ (if segs = [] then [] else replicate s 0) @ compound (idx_count idx - Suc n) ks"
    using Cons.IH [OF more_segs] by blast
  have "ks = [] \<longleftrightarrow> segs = []" using ks(1) length_those unfolding segment_keys_def by fastforce
  moreover have "segment_keys conv rest (idx_descending idx) keyType field (seg # segs) = Some (key_data t # ks)"
    using k ks(1) by (simp add: segment_keys_def desc_def)
  ultimately show ?case
    using put_zeros_Some [OF p1] put_segment_0 [OF p2] ks(2) by auto
qed

text \<open>The key of a record is made of the keys of its segments.\<close>

lemma record_key_Step:
  assumes "record_key conv rest idx field expression fuzzy count maxlen = Step key"
    and "\<not> idx_expressn idx" "length (idx_rpt idx) = idx_count idx" "count = 0 \<or> count = idx_count idx"
  defines "data \<equiv> (if idx_descending idx then map not (key_data key) else key_data key)"
  shows "\<exists>ks. segment_keys conv rest (idx_descending idx) (segment_key_type fuzzy idx) field (idx_rpt idx) = Some ks \<and>
    data = (if idx_count idx = 1 then ks ! 0 else compound (idx_count idx) ks) \<and> length data < maxlen"
proof -
  have not_not: "map not (map not xs) = xs" for xs :: "UCHAR list" by (simp add: map_idI)
  have data: "data = d \<and> length data < maxlen"
    if "(if length d \<ge> maxlen then TooBig else Step (if idx_descending idx then BTR_complement_key k else k)) = Step key"
      "d = key_data k" for d k
    using that by (auto simp: data_def BTR_complement_key_def map_idI split: if_splits)
  show ?thesis
  proof (cases "idx_count idx = 1")
    case True
    then obtain seg where seg: "idx_rpt idx = [seg]" using assms(3) by (cases "idx_rpt idx") auto
    obtain k where k: "compress conv rest (field_value conv field seg)
          ((empty_key True)\<lparr>key_nulls := (if field_value conv field seg = None then 1 else 0)\<rparr>)
          (idx_itype seg) (idx_descending idx) (segment_key_type fuzzy idx) = Some k"
      "(if length (key_data k) \<ge> maxlen then TooBig else Step (if idx_descending idx then BTR_complement_key k else k)) = Step key"
      using assms(1,2) True seg unfolding record_key_def Let_def step_bind_Step by (auto simp: field_value_def converts_Step)
    have "segment_key conv rest (idx_descending idx) (segment_key_type fuzzy idx) (idx_itype seg) (field_value conv field seg) = Some (key_data k)"
      using segment_key_compress k(1) by (metis option.simps(9))
    then show ?thesis using data [OF k(2) refl] True seg by (auto simp: segment_keys_def)
  next
    case False
    obtain q t nulls where q: "key_segments conv rest idx field (segment_key_type fuzzy idx) maxlen 0 (idx_rpt idx) [] 0 (empty_key True) 0
          = Step (q, t, nulls)"
      and k: "(if length q \<ge> maxlen then TooBig else Step (if idx_descending idx
          then BTR_complement_key \<lparr>key_data = q, key_empty = key_empty t, key_nulls = nulls\<rparr>
          else \<lparr>key_data = q, key_empty = key_empty t, key_nulls = nulls\<rparr>)) = Step key"
    proof -
      have "take (if count = 0 then idx_count idx else count) (idx_rpt idx) = idx_rpt idx" using assms(3,4) by auto
      then show ?thesis
        using assms(1) False that unfolding record_key_def Let_def step_bind_Step by (auto simp: step_bind_Step)
    qed
    show ?thesis using key_segments_Step [OF q] data [OF k] False by auto
  qed
qed

lemma segment_keys_less_iff:
  assumes "record_ranks conv field\<^sub>1 segs = Some rs" "record_ranks conv field\<^sub>2 segs = Some ss"
    and "segment_keys conv rest\<^sub>1 descending keyType field\<^sub>1 segs = Some ks" "segment_keys conv rest\<^sub>2 descending keyType field\<^sub>2 segs = Some ls"
    and "length segs < 256"
  defines "data \<equiv> \<lambda>ks. if length segs = 1 then ks ! 0 else compound (length segs) ks"
  shows "(data ks < data ls) = (rs < ss)"
proof -
  let ?n = "length segs"
  have ks: "length ks = ?n" "length rs = ?n" "\<forall>i < ?n. stands_for descending (idx_itype (segs ! i)) (rs ! i) (ks ! i)"
    using segment_keys_stand_for [OF assms(1), of rest\<^sub>1 descending keyType] assms(3) by auto
  have ls: "length ls = ?n" "length ss = ?n" "\<forall>i < ?n. stands_for descending (idx_itype (segs ! i)) (ss ! i) (ls ! i)"
    using segment_keys_stand_for [OF assms(2), of rest\<^sub>2 descending keyType] assms(4) by auto
  have keys: "(ks < ls) = (rs < ss)"
    by (rule lists_less_iff) (use ks ls stands_for_less_iff in blast)+
  show ?thesis
  proof (cases "?n = 1")
    case True
    then obtain k l r s where "ks = [k]" "ls = [l]" "rs = [r]" "ss = [s]"
      using ks ls by (metis One_nat_def length_0_conv length_Suc_conv)
    then show ?thesis using keys True by (simp add: data_def)
  next
    case False
    have "\<forall>k \<in> set ks. chopped k" "\<forall>k \<in> set ls. chopped k"
      using ks ls stands_for_chopped by (metis in_set_conv_nth)+
    then have "(compound ?n ks < compound ?n ls) = (ks < ls)" using ks ls assms(5) by (intro compound_less_iff) simp_all
    then show ?thesis using keys False by (simp add: data_def)
  qed
qed

text \<open>The order of the keys in an index: a descending one holds complemented bytes, and of two keys where one is the
  beginning of the other the longer is first.\<close>

definition key_before :: "bool \<Rightarrow> UCHAR list \<Rightarrow> UCHAR list \<Rightarrow> bool" where
  "key_before descending k l = (if descending then map not l < map not k else k < l)"

text \<open>C4. The key that \<^verbatim>\<open>BTR_key\<close> makes of a record keeps the order of the values of its segments, compared one after
  the other with NULL the smallest: for numbers that are not NaN (as floating-point numbers), dates, times, time stamps and
  truth values, in an ascending and in a descending index, with one segment or several; and two records have the same key
  only if they have the same values. What the stack held in the unused bytes of the union does not matter.\<close>

theorem index_record_order:
  assumes "BTR_key conv rest\<^sub>1 idx field\<^sub>1 expression\<^sub>1 fuzzy count maxKeyLength err\<^sub>1 = (idx_e_ok, Some key\<^sub>1)"
    and "BTR_key conv rest\<^sub>2 idx field\<^sub>2 expression\<^sub>2 fuzzy count maxKeyLength err\<^sub>2 = (idx_e_ok, Some key\<^sub>2)"
    and "record_ranks conv field\<^sub>1 (idx_rpt idx) = Some rs\<^sub>1" "record_ranks conv field\<^sub>2 (idx_rpt idx) = Some rs\<^sub>2"
    and "\<not> idx_expressn idx" "length (idx_rpt idx) = idx_count idx" "idx_count idx < 256" "count = 0 \<or> count = idx_count idx"
  shows "key_before (idx_descending idx) (key_data key\<^sub>1) (key_data key\<^sub>2) = (if idx_descending idx then rs\<^sub>2 < rs\<^sub>1 else rs\<^sub>1 < rs\<^sub>2) \<and>
    (key_data key\<^sub>1 = key_data key\<^sub>2) = (rs\<^sub>1 = rs\<^sub>2)"
proof -
  have keys: "record_key conv rest\<^sub>1 idx field\<^sub>1 expression\<^sub>1 fuzzy count maxKeyLength = Step key\<^sub>1"
    "record_key conv rest\<^sub>2 idx field\<^sub>2 expression\<^sub>2 fuzzy count maxKeyLength = Step key\<^sub>2"
    using assms(1,2) by (auto simp: BTR_key_def split: key_step.splits)
  define data :: "temporary_key \<Rightarrow> UCHAR list" where "data = (\<lambda>k. if idx_descending idx then map not (key_data k) else key_data k)"
  obtain ks where ks: "segment_keys conv rest\<^sub>1 (idx_descending idx) (segment_key_type fuzzy idx) field\<^sub>1 (idx_rpt idx) = Some ks"
    "data key\<^sub>1 = (if length (idx_rpt idx) = 1 then ks ! 0 else compound (length (idx_rpt idx)) ks)"
    using record_key_Step [OF keys(1) assms(5,6,8)] unfolding data_def assms(6) by blast
  obtain ls where ls: "segment_keys conv rest\<^sub>2 (idx_descending idx) (segment_key_type fuzzy idx) field\<^sub>2 (idx_rpt idx) = Some ls"
    "data key\<^sub>2 = (if length (idx_rpt idx) = 1 then ls ! 0 else compound (length (idx_rpt idx)) ls)"
    using record_key_Step [OF keys(2) assms(5,6,8)] unfolding data_def assms(6) by blast
  have "length (idx_rpt idx) < 256" using assms(6,7) by simp
  then have less: "(data key\<^sub>1 < data key\<^sub>2) = (rs\<^sub>1 < rs\<^sub>2)" "(data key\<^sub>2 < data key\<^sub>1) = (rs\<^sub>2 < rs\<^sub>1)"
    unfolding ks(2) ls(2)
    by (rule segment_keys_less_iff [OF assms(3,4) ks(1) ls(1)], rule segment_keys_less_iff [OF assms(4,3) ls(1) ks(1)])
  then have eq: "(data key\<^sub>1 = data key\<^sub>2) = (rs\<^sub>1 = rs\<^sub>2)" by (metis less_irrefl linorder_neqE)
  have "(key_data key\<^sub>1 = key_data key\<^sub>2) = (data key\<^sub>1 = data key\<^sub>2)"
    by (auto simp: data_def dest!: map_injective intro: injI)
  then show ?thesis using less eq by (cases "idx_descending idx") (simp_all add: key_before_def data_def)
qed

text \<open>Numbers as described values, to show that the hypotheses can hold.\<close>

definition sample_conversions :: "int conversions" where
  "sample_conversions = \<lparr>get_string = \<lambda>d. Some [word_of_int d], get_intl_key = \<lambda>t k d. Some [word_of_int d],
     get_decimal_key = \<lambda>d. None, get_double = \<lambda>d. Some (word_of_int d), get_int64 = \<lambda>d. Some d, get_scale = \<lambda>d. 0,
     get_timestamp = \<lambda>d. Some \<lparr>timestamp_date = d, timestamp_time = 1\<rparr>, get_sql_date = \<lambda>d. Some d, get_sql_time = \<lambda>d. Some d,
     get_boolean = \<lambda>d. Some (d \<noteq> 0), date_to_double = \<lambda>d. None, is_dtype_timestamp = \<lambda>d. False, adjust_text = \<lambda>d. d,
     double_quotient = \<lambda>q s. word_of_int q\<rparr>"

definition sample_index :: "bool \<Rightarrow> index_desc" where
  "sample_index descending = \<lparr>idx_unique = True, idx_descending = descending, idx_expressn = False, idx_count = 3,
     idx_rpt = [\<lparr>idx_field = 0, idx_itype = 5\<rparr>, \<lparr>idx_field = 1, idx_itype = 0\<rparr>, \<lparr>idx_field = 2, idx_itype = 9\<rparr>]\<rparr>"


definition sample_record :: "int \<Rightarrow> int \<Rightarrow> nat \<Rightarrow> int option" where
  "sample_record a b n = (if n = 0 then Some a else if n = 1 then Some b else None)"

lemma sample_keys:
  "BTR_key sample_conversions 7 (sample_index True) (sample_record (-1) 0x8000000000000003) (Step None) False 0 100 False =
    (idx_e_ok, Some \<lparr>key_data = [252, 128, 0, 0, 0, 253, 128, 0, 0, 0, 253, 0, 0, 0, 3, 254, 255], key_empty = False, key_nulls = 4\<rparr>)"
  "BTR_key sample_conversions 9 (sample_index True) (sample_record (-1) 2) (Step None) False 0 100 False =
    (idx_e_ok, Some \<lparr>key_data = [252, 128, 0, 0, 0, 253, 127, 255, 255, 255, 253, 255, 255, 255, 253, 254, 255],
      key_empty = False, key_nulls = 4\<rparr>)"
  by code_simp+

lemma sample_ranks:
  "record_ranks sample_conversions (sample_record (-1) 0x8000000000000003) (idx_rpt (sample_index True)) = Some [Some (-1), Some (-3), None]"
  "record_ranks sample_conversions (sample_record (-1) 2) (idx_rpt (sample_index True)) = Some [Some (-1), Some 2, None]"
  by (simp_all add: record_ranks_def segment_rank_def index_rank_def sample_conversions_def sample_record_def sample_index_def
    field_value_def double_units_def double_is_nan_def magnitude_def)

theorem index_record_order_witness:
  "key_before True [252, 128, 0, 0, 0, 253, 127, 255, 255, 255, 253, 255, 255, 255, 253, 254, 255]
    [252, 128, 0, 0, 0, 253, 128, 0, 0, 0, 253, 0, 0, 0, 3, 254, 255]"
  using index_record_order [OF sample_keys(2,1) sample_ranks(2,1)] by (simp add: sample_index_def)

end
