(* ===== verification/FB_Index_Make.thy ===== *)
theory FB_Index_Make
  imports FB_Index_Order "HOL-Library.Sublist"
begin

text \<open>
  Search keys and the length of keys: the key that \<^verbatim>\<open>BTR_make_key\<close> makes of the values of all segments is the key of the
  record, and of the values of the first segments a beginning of it; \<^verbatim>\<open>BTR_key_length\<close> bounds the length.
\<close>

section \<open>What \<open>compress\<close> takes from the key\<close>

definition fill_key :: "temporary_key \<Rightarrow> temporary_key \<Rightarrow> temporary_key" where
  "fill_key key t = key\<lparr>key_data := key_data t, key_empty := (key_empty key \<and> key_empty t)\<rparr>"

lemma fill_key_simps [simp]:
  "key_data (fill_key key t) = key_data t" "key_empty (fill_key key t) = (key_empty key \<and> key_empty t)"
  "key_nulls (fill_key key t) = key_nulls key"
  by (simp_all add: fill_key_def)

lemma compress_fill_key:
  "compress conv rest desc key itype descending keyType =
    map_option (fill_key key) (compress conv rest desc (empty_key True) itype descending keyType)"
proof -
  have null: "compress_null d k = fill_key k (compress_null d (empty_key True))" for d k
    by (simp add: compress_null_def fill_key_def empty_key_def)
  have string: "compress_string t bs d k = fill_key k (compress_string t bs d (empty_key True))" for t bs d k
    by (simp add: compress_string_def fill_key_def empty_key_def Let_def)
  have number: "compress_number v n s negative d (k\<lparr>key_empty := False\<rparr>) =
      fill_key k (compress_number v n s negative d ((empty_key True)\<lparr>key_empty := False\<rparr>))" for v n s negative d k
  proof -
    obtain data where "\<And>k. compress_number v n s negative d k = k\<lparr>key_data := data\<rparr>"
      unfolding compress_number_def Let_def by blast
    then show ?thesis by (simp add: fill_key_def)
  qed
  show ?thesis
    unfolding compress_def
    by (cases desc; simp split: bind_split prod.split; use null string number in blast)
qed

section \<open>Equal keys of a record and of its field values\<close>

definition map_step :: "('a \<Rightarrow> 'b) \<Rightarrow> 'a key_step \<Rightarrow> 'b key_step" where
  "map_step f x = step_bind x (\<lambda>y. Step (f y))"

lemma map_step_simps [simp]:
  "map_step f (Step x) = Step (f x)" "map_step f TooBig = TooBig" "map_step f Thrown = Thrown"
  by (simp_all add: map_step_def)

lemma map_step_bind: "map_step f (step_bind x g) = step_bind x (\<lambda>y. map_step f (g y))"
  by (cases x) simp_all

definition values_of :: "'d conversions \<Rightarrow> (nat \<Rightarrow> 'd option) \<Rightarrow> idx_repeat list \<Rightarrow> 'd option key_step list" where
  "values_of conv field segs = map (\<lambda>seg. Step (field_value conv field seg)) segs"

lemma make_segments_key_segments:
  assumes "key_empty temp = ms_is_empty s"
  shows "map_step (\<lambda>s. (ms_p s, ms_is_empty s, ms_nulls s))
      (make_segments conv rest idx (segment_key_type False idx) maxlen count n (zip (values_of conv field segs) segs) s) =
    map_step (\<lambda>(p, temp, nulls). (p, key_empty temp, nulls))
      (key_segments conv rest idx field (segment_key_type False idx) maxlen n segs (ms_p s) (ms_stuff s) temp (ms_nulls s))"
  using assms
proof (induction segs arbitrary: n s temp)
  case Nil
  then show ?case by (simp add: values_of_def)
next
  case (Cons seg segs)
  let ?kt = "segment_key_type False idx"
  define desc where "desc = field_value conv field seg"
  show ?case
  proof (cases "put_zeros maxlen (ms_stuff s) (ms_p s)")
    case None
    then show ?thesis by (simp add: values_of_def fits_def)
  next
    case (Some p)
    show ?thesis
    proof (cases "compress conv rest desc (empty_key True) (idx_itype seg) (idx_descending idx) ?kt")
      case None
      then show ?thesis
        using Some compress_fill_key [of conv rest desc temp "idx_itype seg" "idx_descending idx" ?kt]
          compress_fill_key [of conv rest desc "(ms_temp s)\<lparr>key_empty := True\<rparr>" "idx_itype seg" "idx_descending idx" ?kt]
        by (simp add: values_of_def fits_def converts_def desc_def field_value_def Let_def)
    next
      case t: (Some t)
      show ?thesis
      proof (cases "put_segment maxlen (of_nat (idx_count idx - n)) (key_data t) 0 p")
        case None
        then show ?thesis
          using Some t compress_fill_key [of conv rest desc temp "idx_itype seg" "idx_descending idx" ?kt]
            compress_fill_key [of conv rest desc "(ms_temp s)\<lparr>key_empty := True\<rparr>" "idx_itype seg" "idx_descending idx" ?kt]
          by (simp add: values_of_def fits_def converts_def desc_def field_value_def Let_def)
      next
        case q: (Some r)
        obtain q stuff where r: "r = (q, stuff)" by (cases r)
        define nulls where "nulls = (if desc = None then or (ms_nulls s) (null_bit n) else ms_nulls s)"
        define s2 where "s2 = \<lparr>ms_p = q, ms_stuff = stuff, ms_temp = fill_key ((ms_temp s)\<lparr>key_empty := True\<rparr>) t,
          ms_nulls = nulls, ms_prior = length p, ms_is_empty = (ms_is_empty s \<and> key_empty t)\<rparr>"
        have "key_empty (fill_key temp t) = ms_is_empty s2" using Cons.prems by (simp add: s2_def)
        then have IH: "map_step (\<lambda>s. (ms_p s, ms_is_empty s, ms_nulls s))
            (make_segments conv rest idx ?kt maxlen count (Suc n) (zip (values_of conv field segs) segs) s2) =
          map_step (\<lambda>(p, temp, nulls). (p, key_empty temp, nulls))
            (key_segments conv rest idx field ?kt maxlen (Suc n) segs q stuff (fill_key temp t) nulls)"
          using Cons.IH [of "fill_key temp t" s2 "Suc n"] by (simp add: s2_def)
        show ?thesis
          using Some t q IH compress_fill_key [of conv rest desc temp "idx_itype seg" "idx_descending idx" ?kt]
            compress_fill_key [of conv rest desc "(ms_temp s)\<lparr>key_empty := True\<rparr>" "idx_itype seg" "idx_descending idx" ?kt]
          by (simp add: values_of_def fits_def converts_def desc_def field_value_def Let_def r nulls_def s2_def)
      qed
    qed
  qed
qed

lemma take_values_of: "zip (take n (values_of conv field segs)) segs = zip (values_of conv field (take n segs)) (take n segs)"
proof (induction segs arbitrary: n)
  case (Cons seg segs)
  then show ?case by (cases n) (simp_all add: values_of_def)
qed (simp add: values_of_def)

lemma record_key_eq:
  assumes "\<not> idx_expressn idx" "length (idx_rpt idx) = idx_count idx"
  shows "record_key conv rest idx field expression False 0 maxlen =
    BTR_make_key conv rest (idx_count idx) (values_of conv field (idx_rpt idx)) idx False maxlen"
proof (cases "idx_count idx = 1")
  case True
  then obtain seg where seg: "idx_rpt idx = [seg]" using assms(2) by (cases "idx_rpt idx") auto
  have bind: "step_bind x Step = x" for x :: "temporary_key key_step" by (cases x) auto
  show ?thesis
    using True assms(1) seg by (simp add: record_key_def BTR_make_key_def values_of_def field_value_def bind)
next
  case False
  let ?segs = "key_segments conv rest idx field (segment_key_type False idx) maxlen 0 (idx_rpt idx) [] 0 (empty_key True) 0"
  let ?made = "make_segments conv rest idx (segment_key_type False idx) maxlen (idx_count idx) 0
    (zip (values_of conv field (idx_rpt idx)) (idx_rpt idx)) make_key_start"
  have "map_step (\<lambda>s. (ms_p s, ms_is_empty s, ms_nulls s)) ?made = map_step (\<lambda>(p, temp, nulls). (p, key_empty temp, nulls)) ?segs"
    using make_segments_key_segments [of "empty_key True" make_key_start] by (simp add: make_key_start_def empty_key_def)
  moreover have "make_compound conv rest (idx_count idx) (values_of conv field (idx_rpt idx)) idx False maxlen =
      step_bind (map_step (\<lambda>s. (ms_p s, ms_is_empty s, ms_nulls s)) ?made)
        (\<lambda>(p, e, nulls). Step \<lparr>key_data = p, key_empty = e, key_nulls = nulls\<rparr>)"
    using assms(2) by (cases ?made) (simp_all add: make_compound_def values_of_def)
  moreover have "step_bind (map_step (\<lambda>(p, temp, nulls). (p, key_empty temp, nulls)) ?segs)
        (\<lambda>(p, e, nulls). Step \<lparr>key_data = p, key_empty = e, key_nulls = nulls\<rparr>) =
      step_bind ?segs (\<lambda>(p, temp, nulls). Step \<lparr>key_data = p, key_empty = key_empty temp, key_nulls = nulls\<rparr>)"
    by (cases ?segs) auto
  ultimately show ?thesis using False assms by (simp add: record_key_def BTR_make_key_def)
qed

text \<open>C17. The search key that \<^verbatim>\<open>BTR_make_key\<close> makes of one value for every segment (not for a partial match) is the key
  that \<^verbatim>\<open>BTR_key\<close> makes of a record with these values, with its flags, and fails where that fails.\<close>

theorem make_key_of_record:
  assumes "\<not> idx_expressn idx" "length (idx_rpt idx) = idx_count idx"
  shows "BTR_key conv rest idx field expression False 0 maxKeyLength sys_error =
    (case BTR_make_key conv rest (idx_count idx) (values_of conv field (idx_rpt idx)) idx False maxKeyLength of
       Step key \<Rightarrow> (idx_e_ok, Some key)
     | TooBig \<Rightarrow> (idx_e_keytoobig, None)
     | Thrown \<Rightarrow> (if sys_error then idx_e_interrupt else idx_e_conversion, None))"
  unfolding BTR_key_def record_key_eq [OF assms] by (rule refl)

theorem make_key_of_record_witness:
  "\<exists>key. BTR_make_key sample_conversions 7 3 (values_of sample_conversions (sample_record 4 2) (idx_rpt (sample_index True)))
      (sample_index True) False 100 = Step key"
proof -
  have "fst (BTR_key sample_conversions 7 (sample_index True) (sample_record 4 2) (Step None) False 0 100 False) = idx_e_ok"
    by code_simp
  then show ?thesis
    using make_key_of_record [of "sample_index True" sample_conversions 7 "sample_record 4 2" "Step None" 100 False]
    by (simp add: sample_index_def split: key_step.splits)
qed

section \<open>Keys of the first segments\<close>

fun padded :: "nat \<Rightarrow> UCHAR list list \<Rightarrow> UCHAR list" where
  "padded m [] = []"
| "padded m (k # ks) = groups (of_nat m) k @ replicate (padding k) 0 @ padded (m - 1) ks"

lemma compound_append: "ls \<noteq> [] \<Longrightarrow> compound m (ks @ ls) = padded m ks @ compound (m - length ks) ls"
  by (induction ks arbitrary: m) simp_all

lemma make_segments_Step:
  assumes "make_segments conv rest idx (segment_key_type False idx) maxlen count n (zip (values_of conv field segs) segs) s = Step s'"
  shows "\<exists>ks. segment_keys conv rest (idx_descending idx) (segment_key_type False idx) field segs = Some ks \<and>
    ms_p s' @ replicate (ms_stuff s') 0 = ms_p s @ replicate (ms_stuff s) 0 @ padded (idx_count idx - n) ks"
  using assms
proof (induction segs arbitrary: n s)
  case Nil
  then show ?case by (simp add: segment_keys_def values_of_def)
next
  case (Cons seg segs)
  define desc where "desc = field_value conv field seg"
  let ?kt = "segment_key_type False idx"
  define step where "step = (\<lambda>(p :: UCHAR list) q stuff t. \<lparr>ms_p = q, ms_stuff = stuff, ms_temp = t,
    ms_nulls = (if desc = None then or (ms_nulls s) (null_bit n) else ms_nulls s), ms_prior = length p,
    ms_is_empty = (ms_is_empty s \<and> key_empty t)\<rparr>)"
  obtain p t q stuff where p: "put_zeros maxlen (ms_stuff s) (ms_p s) = Some p"
    and t: "compress conv rest desc ((ms_temp s)\<lparr>key_empty := True\<rparr>) (idx_itype seg) (idx_descending idx) ?kt = Some t"
    and q: "put_segment maxlen (of_nat (idx_count idx - n)) (key_data t) 0 p = Some (q, stuff)"
    and tail: "make_segments conv rest idx ?kt maxlen count (Suc n) (zip (values_of conv field segs) segs) (step p q stuff t) = Step s'"
    using Cons.prems by (auto simp: step_def values_of_def desc_def Let_def step_bind_Step fits_Step converts_Step)
  obtain ks where ks: "segment_keys conv rest (idx_descending idx) ?kt field segs = Some ks"
    "ms_p s' @ replicate (ms_stuff s') 0 = q @ replicate stuff 0 @ padded (idx_count idx - Suc n) ks"
    using Cons.IH [OF tail] by (auto simp: step_def)
  have "segment_key conv rest (idx_descending idx) ?kt (idx_itype seg) desc = Some (key_data t)"
    using segment_key_compress t by (metis option.simps(9))
  then have "segment_keys conv rest (idx_descending idx) ?kt field (seg # segs) = Some (key_data t # ks)"
    using ks(1) by (simp add: segment_keys_def desc_def)
  then show ?case using put_zeros_Some [OF p] put_segment_0 [OF q] ks(2) by auto
qed

lemma segment_keys_append:
  "segment_keys conv rest descending keyType field (xs @ ys) = Some ks \<Longrightarrow>
    \<exists>fs bs. segment_keys conv rest descending keyType field xs = Some fs \<and>
      segment_keys conv rest descending keyType field ys = Some bs \<and> ks = fs @ bs"
  by (induction xs arbitrary: ks) (fastforce simp: segment_keys_def those_Cons_Some simp del: those.simps(2))+

lemma segment_keys_cong:
  "(\<And>seg. seg \<in> set segs \<Longrightarrow> field (idx_field seg) = field' (idx_field seg)) \<Longrightarrow>
    segment_keys conv rest descending keyType field segs = segment_keys conv rest descending keyType field' segs"
  unfolding segment_keys_def field_value_def by (metis (mono_tags, lifting) map_eq_conv)

text \<open>C10. The search key made of values for the first segments of a compound index (not for a partial match) is the
  beginning of the key of every record with these values, whatever it has in the other segments, so that the records are
  those under one prefix of the index.\<close>

theorem make_key_prefix:
  assumes "BTR_make_key conv rest count (values_of conv given (idx_rpt idx)) idx False maxKeyLength = Step key"
    and "BTR_key conv rest idx field expression False 0 maxKeyLength sys_error = (idx_e_ok, Some stored)"
    and "0 < count" "count < idx_count idx" "\<not> idx_expressn idx" "length (idx_rpt idx) = idx_count idx"
    and "\<And>seg. seg \<in> set (take count (idx_rpt idx)) \<Longrightarrow> field (idx_field seg) = given (idx_field seg)"
  shows "prefix (key_data key) (key_data stored)"
proof -
  let ?kt = "segment_key_type False idx" and ?segs = "take count (idx_rpt idx)"
  define data :: "temporary_key \<Rightarrow> UCHAR list" where "data = (\<lambda>k. if idx_descending idx then map not (key_data k) else key_data k)"
  have "record_key conv rest idx field expression False 0 maxKeyLength = Step stored"
    using assms(2) by (auto simp: BTR_key_def split: key_step.splits)
  from record_key_Step [OF this assms(5,6)] obtain ks
    where ks: "segment_keys conv rest (idx_descending idx) ?kt field (idx_rpt idx) = Some ks"
      "data stored = compound (idx_count idx) ks"
    using assms(3,4) by (auto simp: data_def)
  obtain fs bs where split: "segment_keys conv rest (idx_descending idx) ?kt field ?segs = Some fs"
    "segment_keys conv rest (idx_descending idx) ?kt field (drop count (idx_rpt idx)) = Some bs" "ks = fs @ bs"
    using segment_keys_append [of conv rest "idx_descending idx" ?kt field ?segs "drop count (idx_rpt idx)"] ks(1) by auto
  have "length bs = idx_count idx - count"
    using length_those split(2) assms(6) unfolding segment_keys_def by fastforce
  then have "bs \<noteq> []" using assms(4) by auto
  obtain s p where s: "make_segments conv rest idx ?kt maxKeyLength count 0 (zip (values_of conv given ?segs) ?segs) make_key_start = Step s"
    and p: "put_zeros maxKeyLength (ms_stuff s) (ms_p s) = Some p" "data key = p"
    using assms(1,3,4) unfolding BTR_make_key_def make_compound_def take_values_of
    by (auto simp: step_bind_Step fits_Step data_def BTR_complement_key_def map_idI split: if_splits)
  have "segment_keys conv rest (idx_descending idx) ?kt given ?segs = Some fs"
    using split(1) segment_keys_cong [of ?segs field given] assms(7) by simp
  then have "p = padded (idx_count idx) fs"
    using make_segments_Step [OF s] put_zeros_Some [OF p(1)] by (simp add: make_key_start_def)
  then have "prefix (data key) (data stored)"
    using compound_append [OF \<open>bs \<noteq> []\<close>] ks(2) p(2) split(3) by simp
  then have "prefix (map not (data key)) (map not (data stored))" by (rule map_mono_prefix)
  moreover have "key_data k = (if idx_descending idx then map not (data k) else data k)" for k by (simp add: data_def map_idI)
  ultimately show ?thesis using \<open>prefix (data key) (data stored)\<close> by simp
qed

lemma sample_search:
  "BTR_make_key sample_conversions 7 1 (values_of sample_conversions (sample_record 256 0) (idx_rpt (sample_index False)))
     (sample_index False) False 100 = Step \<lparr>key_data = [3, 128, 0, 1, 0], key_empty = False, key_nulls = 0\<rparr>"
  "BTR_key sample_conversions 7 (sample_index False) (sample_record 256 2) (Step None) False 0 100 False =
    (idx_e_ok, Some \<lparr>key_data = [3, 128, 0, 1, 0, 2, 128, 0, 0, 0, 2, 0, 0, 0, 2], key_empty = False, key_nulls = 4\<rparr>)"
  by code_simp+

theorem make_key_prefix_witness:
  "prefix [3, 128, 0, 1, 0] [3, 128, 0, 1, 0, 2, 128, 0, 0, 0, 2, 0, 0, 0, 2 :: UCHAR]"
  using make_key_prefix [OF sample_search] by (simp add: sample_index_def sample_record_def)

end
