(* ===== verification/FB_Index_Length.thy ===== *)
theory FB_Index_Length
  imports FB_Index_Make
begin

text \<open>
  \<^verbatim>\<open>BTR_key_length\<close> is what it is used for when an index is created: no key of a record is longer, and where it is
  below the limit of the database every record whose values can be converted has a key.
\<close>

section \<open>The length of the key of a segment\<close>

text \<open>The value can be converted to the type of the segment, and a string is not longer than its field.\<close>

definition value_fits :: "'d conversions \<Rightarrow> FB_UINT64 \<Rightarrow> key_type \<Rightarrow> nat \<Rightarrow> int \<Rightarrow> 'd option \<Rightarrow> bool" where
  "value_fits conv rest keyType len itype desc = (case desc of
     None \<Rightarrow> True
   | Some d \<Rightarrow>
       if is_string_type itype
       then (case string_bytes conv itype keyType d of None \<Rightarrow> False | Some bs \<Rightarrow> length bs \<le> len)
       else compress_value conv rest itype d \<noteq> None \<and>
         (itype = idx_numeric \<or> itype = idx_numeric2 \<or> itype = idx_timestamp \<or> itype = idx_sql_date \<or> itype = idx_sql_time \<or>
          itype = idx_boolean \<and> \<not> is_dtype_timestamp conv d))"

abbreviation (input) prefix_length :: "bool \<Rightarrow> nat" where
  "prefix_length descending \<equiv> (if descending then 1 else 0)"

lemma length_compress_string:
  "length (key_data (compress_string itype ptr descending key)) \<le> max 1 (length ptr) + prefix_length descending"
  by (auto simp: compress_string_def Let_def)

lemma length_compress_number:
  "length (key_data (compress_number temp n s_part negative descending key)) \<le>
    n + (if s_part = None then 0 else 2) + prefix_length descending"
proof -
  define bytes where "bytes = be_bytes n (if double_is_zero temp then 0 else temp) @ (case s_part of None \<Rightarrow> [] | Some s \<Rightarrow> be_bytes 2 s)"
  define data where "data = (let data = (if negative then map not (take 8 bytes) @ drop 8 bytes else bytes[0 := xor (bytes ! 0) 0x80])
    in if s_part \<noteq> None then data[8 := xor (data ! 8) 0x80] else data)"
  have "length data = n + (if s_part = None then 0 else 2)"
    by (cases s_part) (auto simp: data_def bytes_def Let_def)
  moreover have "length (key_data (compress_number temp n s_part negative descending key)) \<le> length data + prefix_length descending"
    unfolding compress_number_def bytes_def [symmetric] Let_def
    by (auto simp: data_def Let_def)
  ultimately show ?thesis by simp
qed

lemma length_segment_key:
  assumes "value_fits conv rest keyType (segment_length intl_length field_length seg) (idx_itype seg) desc"
    and "1 \<le> segment_length intl_length field_length seg"
  shows "\<exists>k. segment_key conv rest descending keyType (idx_itype seg) desc = Some k \<and>
    length k \<le> segment_length intl_length field_length seg + prefix_length descending"
proof (cases desc)
  case None
  then show ?thesis by (simp add: segment_key_def compress_def compress_null_def)
next
  case (Some d)
  let ?itype = "idx_itype seg" and ?len = "segment_length intl_length field_length seg"
  show ?thesis
  proof (cases "is_string_type ?itype")
    case True
    then obtain bs where bs: "string_bytes conv ?itype keyType d = Some bs" "length bs \<le> ?len"
      using assms(1) Some by (auto simp: value_fits_def split: option.splits)
    then show ?thesis
      using assms(2) True Some length_compress_string [of ?itype bs descending "empty_key True"]
      by (simp add: segment_key_def compress_def)
  next
    case False
    then obtain temp n s negative where v: "compress_value conv rest ?itype d = Some (temp, n, s, negative)"
      and itype: "?itype = idx_numeric \<or> ?itype = idx_numeric2 \<or> ?itype = idx_timestamp \<or> ?itype = idx_sql_date \<or> ?itype = idx_sql_time \<or>
        ?itype = idx_boolean \<and> \<not> is_dtype_timestamp conv d"
      using assms(1) Some by (auto simp: value_fits_def)
    have "n + (if s = None then 0 else 2) \<le> ?len"
      using itype
      by (elim disjE conjE; use v in \<open>simp add: compress_value_def segment_length_def split: bind_splits\<close>;
        force)
    then show ?thesis
      using v False Some length_compress_number [of temp n s negative descending "(empty_key True)\<lparr>key_empty := False\<rparr>"]
      by (simp add: segment_key_def compress_def)
  qed
qed

section \<open>The length of stuffed segments\<close>

lemma length_groups: "length (groups m k) = length k + (length k + 3) div 4"
proof (induction m k rule: groups.induct)
  case (2 m b bs)
  show ?case
  proof (cases "length bs \<le> 3")
    case True
    then have "length bs = 0 \<or> length bs = 1 \<or> length bs = 2 \<or> length bs = 3" by linarith
    then show ?thesis by (auto simp: groups_nonempty [of "b # bs" m])
  next
    case False
    then obtain n where n: "length bs = n + 3" by (metis le_add_diff_inverse2 nat_le_linear)
    then show ?thesis using 2 by (simp add: groups_nonempty [of "b # bs" m])
  qed
qed simp

lemma length_group_padding: "length (groups m k) + padding k = (length k + 3) div 4 * 5"
proof -
  define q r where "q = length k div 4" and "r = length k mod 4"
  have k: "length k = 4 * q + r" and r: "r < 4" by (simp_all add: q_def r_def)
  have "r = 0 \<or> r = 1 \<or> r = 2 \<or> r = 3" using r by linarith
  then show ?thesis
    unfolding length_groups padding_def r_def [symmetric] unfolding k by (elim disjE) simp_all
qed

lemma length_padded: "length (padded m ks) = (\<Sum>k \<leftarrow> ks. (length k + 3) div 4 * 5)"
  by (induction m ks rule: padded.induct) (simp_all add: length_group_padding)

lemma length_compound: "length (compound m ks) \<le> length (padded m ks)"
  by (induction m ks rule: compound.induct) auto

section \<open>The writer has room\<close>

lemma put_byte_fits: "length p + 1 < maxlen \<Longrightarrow> put_byte maxlen b p = Some (p @ [b])"
  by (simp add: put_byte_def)

lemma put_zeros_fits: "n = 0 \<or> length p + n < maxlen \<Longrightarrow> put_zeros maxlen n p = Some (p @ replicate n 0)"
  by (induction n arbitrary: p) (auto simp: put_byte_fits)

lemma put_segment_fits:
  "bs = [] \<or> length p + length (take s bs @ groups m (drop s bs)) < maxlen \<Longrightarrow> put_segment maxlen m bs s p \<noteq> None"
proof (induction bs arbitrary: s p)
  case (Cons b bs)
  have fits: "length p + length (take s (b # bs) @ groups m (drop s (b # bs))) < maxlen" using Cons.prems by simp
  show ?case
  proof (cases s)
    case 0
    have "groups m (b # bs) = m # b # take 3 bs @ groups m (drop 3 bs)" using groups_nonempty [of "b # bs" m] by simp
    then show ?thesis using 0 fits Cons.IH [of "p @ [m, b]" 3] by (simp add: put_byte_fits)
  next
    case (Suc n)
    then show ?thesis using fits Cons.IH [of "p @ [b]" n] by (simp add: put_byte_fits)
  qed
qed simp

lemma key_segments_fit:
  assumes "segment_keys conv rest (idx_descending idx) keyType field segs = Some ks"
    and "length p + stuff_count + length (padded (idx_count idx - n) ks) < maxlen"
  shows "\<exists>q t nulls'. key_segments conv rest idx field keyType maxlen n segs p stuff_count temp nulls = Step (q, t, nulls')"
  using assms
proof (induction segs arbitrary: n p stuff_count temp nulls ks)
  case (Cons seg segs)
  define desc where "desc = field_value conv field seg"
  obtain k ks' where k: "segment_key conv rest (idx_descending idx) keyType (idx_itype seg) desc = Some k"
    and ks: "segment_keys conv rest (idx_descending idx) keyType field segs = Some ks'" "ks = k # ks'"
    using Cons.prems(1) by (auto simp: segment_keys_def desc_def those_Cons_Some simp del: those.simps(2))
  obtain t where t: "compress conv rest desc temp (idx_itype seg) (idx_descending idx) keyType = Some t" "key_data t = k"
    using k segment_key_compress [of conv rest desc temp "idx_itype seg" "idx_descending idx" keyType] by auto
  define p1 where "p1 = p @ replicate stuff_count 0"
  have p1: "put_zeros maxlen stuff_count p = Some p1"
    unfolding p1_def using Cons.prems(2) by (intro put_zeros_fits) simp
  have "put_segment maxlen (of_nat (idx_count idx - n)) k 0 p1 \<noteq> None"
    using Cons.prems(2) ks(2) by (intro put_segment_fits) (simp add: p1_def)
  then obtain q s where q: "put_segment maxlen (of_nat (idx_count idx - n)) k 0 p1 = Some (q, s)" by auto
  have "length q + s + length (padded (idx_count idx - Suc n) ks') < maxlen"
    using put_segment_0 [OF q] Cons.prems(2) ks(2) by (simp add: p1_def)
  from Cons.IH [OF ks(1) this] show ?case
    using p1 t q by (simp add: fits_def converts_def Let_def field_value_def [symmetric] desc_def)
qed simp

lemma sum_list_groups_mono:
  "length ks = length segs \<Longrightarrow> \<forall>i < length segs. length (ks ! i) \<le> f (segs ! i) \<Longrightarrow>
    (\<Sum>k \<leftarrow> ks. (length k + 3) div 4 * 5) \<le> (\<Sum>seg \<leftarrow> segs. (f seg + 3) div 4 * 5)"
proof (induction segs arbitrary: ks)
  case (Cons seg segs)
  then obtain k ks' where ks: "ks = k # ks'" by (cases ks) auto
  have "length k \<le> f seg" using Cons.prems(2) ks by auto
  then have "(length k + 3) div 4 * 5 \<le> (f seg + 3) div 4 * 5" by (intro mult_le_mono1 div_le_mono) simp
  moreover have "(\<Sum>k \<leftarrow> ks'. (length k + 3) div 4 * 5) \<le> (\<Sum>seg \<leftarrow> segs. (f seg + 3) div 4 * 5)"
    using Cons.IH [of ks'] Cons.prems ks by force
  ultimately show ?case using ks by simp
qed simp

lemma segment_keys_fit:
  assumes "\<forall>seg \<in> set segs. value_fits conv rest keyType (segment_length intl_length field_length seg) (idx_itype seg)
      (field_value conv field seg) \<and> 1 \<le> segment_length intl_length field_length seg"
  shows "\<exists>ks. segment_keys conv rest descending keyType field segs = Some ks \<and> length ks = length segs \<and>
    (\<forall>i < length segs. length (ks ! i) \<le> segment_length intl_length field_length (segs ! i) + prefix_length descending)"
  using assms
proof (induction segs)
  case Nil
  then show ?case by (simp add: segment_keys_def)
next
  case (Cons seg segs)
  then obtain ks where ks: "segment_keys conv rest descending keyType field segs = Some ks" "length ks = length segs"
    "\<forall>i < length segs. length (ks ! i) \<le> segment_length intl_length field_length (segs ! i) + prefix_length descending" by auto
  obtain k where k: "segment_key conv rest descending keyType (idx_itype seg) (field_value conv field seg) = Some k"
    "length k \<le> segment_length intl_length field_length seg + prefix_length descending"
    using length_segment_key [of conv rest keyType intl_length field_length seg "field_value conv field seg"] Cons.prems by auto
  show ?case
    using ks k by (intro exI [of _ "k # ks"]) (auto simp: segment_keys_def nth_Cons split: nat.split)
qed

lemma record_key_fits:
  assumes "\<not> idx_expressn idx" "length (idx_rpt idx) = idx_count idx"
    and "\<forall>seg \<in> set (idx_rpt idx). value_fits conv rest (segment_key_type fuzzy idx) (segment_length intl_length field_length seg)
      (idx_itype seg) (field_value conv field seg) \<and> 1 \<le> segment_length intl_length field_length seg"
    and "index_length intl_length field_length expression_length idx < maxlen"
  shows "\<exists>key. record_key conv rest idx field expression fuzzy 0 maxlen = Step key \<and>
    length (key_data key) \<le> index_length intl_length field_length expression_length idx"
proof -
  let ?kt = "segment_key_type fuzzy idx" and ?len = "index_length intl_length field_length expression_length idx"
  obtain ks where ks: "segment_keys conv rest (idx_descending idx) ?kt field (idx_rpt idx) = Some ks"
    and len: "length ks = idx_count idx" "\<forall>i < idx_count idx. length (ks ! i) \<le>
      segment_length intl_length field_length (idx_rpt idx ! i) + prefix_length (idx_descending idx)"
    using segment_keys_fit [OF assms(3), of "idx_descending idx"] assms(2) by auto
  have length_complement: "length (key_data (if d then BTR_complement_key k else k)) = length (key_data k)" for d k
    by (simp add: BTR_complement_key_def)
  show ?thesis
  proof (cases "idx_count idx = 1")
    case True
    then obtain seg where seg: "idx_rpt idx = [seg]" using assms(2) by (cases "idx_rpt idx") auto
    define key where "key = (empty_key True)\<lparr>key_nulls := (if field_value conv field seg = None then 1 else 0)\<rparr>"
    have "segment_key conv rest (idx_descending idx) ?kt (idx_itype seg) (field_value conv field seg) = Some (ks ! 0)"
      using ks seg by (auto simp: segment_keys_def those_Cons_Some simp del: those.simps(2))
    then obtain t where t: "compress conv rest (field_value conv field seg) key (idx_itype seg) (idx_descending idx) ?kt = Some t"
      "key_data t = ks ! 0"
      using segment_key_compress [of conv rest "field_value conv field seg" key "idx_itype seg" "idx_descending idx" ?kt] by auto
    have "length (key_data t) \<le> ?len" using t(2) len True seg assms(1) by (simp add: index_length_def)
    then show ?thesis
      using t(1) True seg assms(1,4) length_complement [of "idx_descending idx" t]
      by (simp add: record_key_def key_def field_value_def converts_def Let_def)
  next
    case False
    have "length (padded (idx_count idx) ks) \<le> (\<Sum>seg \<leftarrow> idx_rpt idx.
        (segment_length intl_length field_length seg + prefix_length (idx_descending idx) + 3) div 4 * 5)"
      unfolding length_padded using len assms(2) by (intro sum_list_groups_mono) simp_all
    also have "\<dots> = ?len"
    proof -
      have "n + STUFF_COUNT - 1 = n + 3" for n :: nat by simp
      moreover have "STUFF_COUNT + 1 = (5 :: nat)" by simp
      ultimately show ?thesis
        using False assms(2) unfolding index_length_def Let_def by (simp only: if_False take_all order_refl)
    qed
    finally have padded: "length (padded (idx_count idx) ks) \<le> ?len" .
    then obtain q t nulls where q: "key_segments conv rest idx field ?kt maxlen 0 (idx_rpt idx) [] 0 (empty_key True) 0 = Step (q, t, nulls)"
      using key_segments_fit [OF ks, of "[]" 0 0 maxlen "empty_key True" 0] assms(4) by auto
    have "length q \<le> ?len"
      using key_segments_Step [OF q] ks length_compound [of "idx_count idx" ks] padded by auto
    then show ?thesis
      using q False assms(2,4) length_complement by (simp add: record_key_def Let_def)
  qed
qed

text \<open>C13. Where the length that \<^verbatim>\<open>BTR_key_length\<close> computes is one of 16 bits and what it returns is below the limit,
  \<^verbatim>\<open>BTR_key\<close> makes a key of every record of an index without an expression whose values can be converted to the types
  of the segments and whose strings are not longer than their fields, and \<^verbatim>\<open>BTR_key_length\<close> bounds its length.\<close>

theorem BTR_key_fits:
  assumes "\<not> idx_expressn idx" "length (idx_rpt idx) = idx_count idx"
    and "\<forall>seg \<in> set (idx_rpt idx). value_fits conv rest (segment_key_type fuzzy idx) (segment_length intl_length field_length seg)
      (idx_itype seg) (field_value conv field seg) \<and> 1 \<le> segment_length intl_length field_length seg"
    and "index_length intl_length field_length expression_length idx < 65536"
    and "unat (BTR_key_length intl_length field_length expression_length idx) < maxKeyLength"
  shows "\<exists>key. BTR_key conv rest idx field expression fuzzy 0 maxKeyLength sys_error = (idx_e_ok, Some key) \<and>
    length (key_data key) \<le> unat (BTR_key_length intl_length field_length expression_length idx)"
proof -
  have len: "unat (BTR_key_length intl_length field_length expression_length idx) = index_length intl_length field_length expression_length idx"
    using assms(4) by (simp add: BTR_key_length_def unat_of_nat)
  obtain key where "record_key conv rest idx field expression fuzzy 0 maxKeyLength = Step key"
    "length (key_data key) \<le> index_length intl_length field_length expression_length idx"
    using record_key_fits [OF assms(1-3) assms(5) [unfolded len]] by blast
  then show ?thesis by (simp add: BTR_key_def len)
qed

theorem BTR_key_fits_witness:
  "\<exists>key. BTR_key sample_conversions 7 (sample_index True) (sample_record 4 2) (Step None) False 0 32 False = (idx_e_ok, Some key) \<and>
    length (key_data key) \<le> 30"
proof -
  have len: "unat (BTR_key_length (\<lambda>t n. n) (\<lambda>f. 4) 0 (sample_index True)) = 30" by code_simp
  have "index_length (\<lambda>t n. n) (\<lambda>f. 4) 0 (sample_index True) < 65536" by code_simp
  then show ?thesis
    unfolding len [symmetric]
    by (intro BTR_key_fits)
      (simp_all add: len, simp_all add: sample_index_def value_fits_def is_string_type_def field_value_def sample_record_def sample_conversions_def
        compress_value_def segment_length_def)
qed

text \<open>Two fields of 26214 bytes: the length is 65540, what is returned is 4, which is below every limit.\<close>

lemma BTR_key_length_wraps:
  "BTR_key_length (\<lambda>t n. n) (\<lambda>f. 26214) 0
     \<lparr>idx_unique = False, idx_descending = False, idx_expressn = False, idx_count = 2,
      idx_rpt = [\<lparr>idx_field = 0, idx_itype = 1\<rparr>, \<lparr>idx_field = 1, idx_itype = 1\<rparr>]\<rparr> = 4"
  by (simp add: BTR_key_length_def index_length_def segment_length_def)

end
