(* ===== verification/FB_Index_Text.thy ===== *)
theory FB_Index_Text
  imports FB_Index_Order
begin

text \<open>
  Keys of strings without a collation (\<^verbatim>\<open>idx_string\<close> and \<^verbatim>\<open>idx_byte_array\<close>) and the comparison of strings in
  \<^verbatim>\<open>CVT2_compare\<close> of \<^verbatim>\<open>src/jrd/cvt2.cpp\<close>, which pads the shorter string.
\<close>

section \<open>The comparison\<close>

fun compare_fill :: "UCHAR \<Rightarrow> UCHAR list \<Rightarrow> int" where
  "compare_fill pad [] = 0"
| "compare_fill pad (p # ps) = (if p \<noteq> pad then (if p > pad then 1 else - 1) else compare_fill pad ps)"

fun compare_text :: "UCHAR \<Rightarrow> UCHAR list \<Rightarrow> UCHAR list \<Rightarrow> int" where
  "compare_text pad (p1 # s1) (p2 # s2) = (if p1 \<noteq> p2 then (if p1 > p2 then 1 else - 1) else compare_text pad s1 s2)"
| "compare_text pad s1 [] = compare_fill pad s1"
| "compare_text pad [] s2 = - compare_fill pad s2"

text \<open>The string without the pad bytes at its end.\<close>

fun strip :: "UCHAR \<Rightarrow> UCHAR list \<Rightarrow> UCHAR list" where
  "strip pad [] = []"
| "strip pad (b # bs) = (let s = strip pad bs in if s = [] \<and> b = pad then [] else b # s)"

lemma strip_pad: "bs = strip pad bs @ replicate (length bs - length (strip pad bs)) pad"
proof (induction bs)
  case (Cons b bs)
  let ?s = "strip pad bs"
  have "length ?s \<le> length bs" using arg_cong [OF Cons.IH, of length] by simp
  then have "b # bs = (b # ?s) @ replicate (length (b # bs) - length (b # ?s)) pad" using Cons.IH by simp
  moreover have "?s = [] \<Longrightarrow> pad # bs = replicate (Suc (length bs)) pad"
    using Cons.IH unfolding replicate_Suc list.inject by simp
  ultimately show ?case by (cases "?s = [] \<and> b = pad") (simp_all add: Let_def del: replicate_Suc)
qed simp

lemma strip_last: "strip pad bs = [] \<or> last (strip pad bs) \<noteq> pad"
  by (induction bs) (auto simp: Let_def)

lemma strip_snoc: "k = [] \<or> last k \<noteq> pad \<Longrightarrow> strip pad (k @ replicate n pad) = k"
proof (induction k)
  case Nil
  then show ?case by (induction n) simp_all
next
  case (Cons a k)
  then show ?case by (cases k) (auto split: if_splits)
qed

lemma compare_fill_strip:
  "compare_fill pad bs = (case strip pad bs of [] \<Rightarrow> 0 | _ \<Rightarrow> compare_fill pad bs)"
  "strip pad bs \<noteq> [] \<Longrightarrow> compare_fill pad bs \<noteq> 0"
  "\<forall>b \<in> set bs. pad \<le> b \<Longrightarrow> strip pad bs \<noteq> [] \<Longrightarrow> 0 < compare_fill pad bs"
  by (induction bs) (auto simp: Let_def split: list.splits if_splits)

lemma compare_text_eq: "(compare_text pad s t = 0) = (strip pad s = strip pad t)"
proof (induction pad s t rule: compare_text.induct)
  case (2 pad s1)
  then show ?case using compare_fill_strip(1,2) [of pad s1] by (cases "strip pad s1") auto
next
  case (3 pad v va)
  then show ?case using compare_fill_strip(1,2) [of pad "v # va"] by (cases "strip pad (v # va)") (auto simp del: strip.simps(2))
qed (auto simp: Let_def)

lemma compare_text_less:
  "\<forall>b \<in> set s \<union> set t. pad \<le> b \<Longrightarrow> (compare_text pad s t < 0) = (strip pad s < strip pad t)"
proof (induction pad s t rule: compare_text.induct)
  case (1 pad p1 s1 p2 s2)
  then show ?case by (auto simp: Let_def)
next
  case (2 pad s1)
  then show ?case using compare_fill_strip(1) [of pad s1] compare_fill_strip(3) [of s1 pad] by (cases "strip pad s1") auto
next
  case (3 pad v va)
  then show ?case using compare_fill_strip(1) [of pad "v # va"] compare_fill_strip(3) [of "v # va" pad]
    by (cases "strip pad (v # va)") (auto simp del: strip.simps(2))
qed

section \<open>The key of a string\<close>

lemma chop_strip:
  assumes "bs \<noteq> []"
  shows "chop pad bs = (if strip pad bs = [] then [pad] else strip pad bs)"
proof -
  have chop: "bs = chop pad bs @ replicate (length bs - length (chop pad bs)) pad" "chop pad bs \<noteq> []"
    "length (chop pad bs) = 1 \<or> last (chop pad bs) \<noteq> pad" using chop_props [OF assms] by simp_all
  show ?thesis
  proof (cases "last (chop pad bs) = pad")
    case True
    then have "chop pad bs = [pad]" using chop(2,3) by (cases "chop pad bs") auto
    moreover from this have "bs = replicate (Suc (length bs - 1)) pad"
      using chop(1) by (metis append_Cons append_Nil length_Cons list.size(3) replicate_Suc One_nat_def)
    then have "strip pad bs = []" using strip_snoc [of "[]" pad] by (metis append_Nil)
    ultimately show ?thesis by simp
  next
    case False
    then have "strip pad bs = chop pad bs" using chop(1) strip_snoc [of "chop pad bs" pad] by metis
    then show ?thesis using chop(2) by simp
  qed
qed

text \<open>The pad byte of an index type.\<close>

definition pad_of :: "int \<Rightarrow> UCHAR" where
  "pad_of itype = (if itype = idx_string then 0x20 else 0)"

lemma compress_text:
  assumes "itype = idx_string \<or> itype = idx_byte_array" "get_string conv d = Some s" "length s \<le> MAX_KEY"
    and "compress conv rest (Some d) key itype False keyType = Some k"
  shows "key_data k = (if strip (pad_of itype) s = [] then [pad_of itype] else strip (pad_of itype) s)"
proof -
  have k: "k = compress_string itype s False key"
    using assms(1,2,4) by (auto simp: compress_def is_string_type_def string_bytes_def)
  show ?thesis
  proof (cases "s = []")
    case True
    then show ?thesis using assms(1) by (auto simp: k compress_string_def pad_of_def)
  next
    case False
    then have "key_data k = chop (pad_of itype) s"
      using assms(1,3) by (simp add: k compress_string_def pad_of_def chop_def Let_def)
    then show ?thesis using chop_strip [OF False] by simp
  qed
qed

text \<open>C22. In an ascending index two strings without a collation have the same key exactly if \<^verbatim>\<open>CVT2_compare\<close> finds
  them equal, that is, up to pad bytes at the end; and where no byte is below the pad byte (always for binary
  strings, which are padded with zeros) their keys are in the order of the comparison.\<close>

theorem text_key_compare:
  assumes "itype = idx_string \<or> itype = idx_byte_array"
    and "get_string conv a = Some s" "length s \<le> MAX_KEY" "compress conv rest (Some a) key itype False keyType = Some k"
    and "get_string conv b = Some t" "length t \<le> MAX_KEY" "compress conv rest (Some b) key itype False keyType = Some l"
  shows "(key_data k = key_data l) = (compare_text (pad_of itype) s t = 0) \<and>
    ((\<forall>b \<in> set s \<union> set t. pad_of itype \<le> b) \<longrightarrow> (key_data k < key_data l) = (compare_text (pad_of itype) s t < 0))"
proof -
  let ?pad = "pad_of itype"
  have k: "key_data k = (if strip ?pad s = [] then [?pad] else strip ?pad s)" by (rule compress_text [OF assms(1-4)])
  have l: "key_data l = (if strip ?pad t = [] then [?pad] else strip ?pad t)" by (rule compress_text [OF assms(1,5-7)])
  have not_pad: "strip ?pad s \<noteq> [?pad]" for s using strip_last [of ?pad s] by auto
  have less: "(key_data k < key_data l) = (strip ?pad s < strip ?pad t)" if ge: "\<forall>b \<in> set s \<union> set t. ?pad \<le> b"
  proof -
    have first: "[?pad] < strip ?pad u" if "strip ?pad u \<noteq> []" "\<forall>b \<in> set u. ?pad \<le> b" for u
    proof -
      from that(1) obtain x xs where x: "strip ?pad u = x # xs" by (cases "strip ?pad u") auto
      then have "x \<in> set u" using strip_pad [of u ?pad] by (metis Un_iff list.set_intros(1) set_append)
      then have "?pad \<le> x" using that(2) by simp
      moreover have "x = ?pad \<Longrightarrow> xs \<noteq> []" using not_pad [of u] x by auto
      ultimately show ?thesis using x by (cases "x = ?pad"; cases xs) auto
    qed
    show ?thesis using ge k l first [of s] first [of t] by (auto dest: less_asym)
  qed
  show ?thesis
    using k l not_pad [of s] not_pad [of t] less compare_text_less [of s t ?pad] compare_text_eq [of ?pad s t]
    by (auto split: if_splits)
qed

theorem text_key_compare_witness:
  "key_data ((empty_key False)\<lparr>key_data := [97]\<rparr>) < key_data ((empty_key False)\<lparr>key_data := [98]\<rparr>)"
proof -
  have keys: "compress sample_conversions 0 (Some 97) (empty_key True) 1 False INTL_KEY_SORT = Some ((empty_key False)\<lparr>key_data := [97]\<rparr>)"
    "compress sample_conversions 0 (Some 98) (empty_key True) 1 False INTL_KEY_SORT = Some ((empty_key False)\<lparr>key_data := [98]\<rparr>)"
    by code_simp+
  have "get_string sample_conversions 97 = Some [97]" "get_string sample_conversions 98 = Some [98]"
    by (simp_all add: sample_conversions_def)
  from text_key_compare [OF disjI1 [OF refl] this(1) _ keys(1) this(2) _ keys(2)]
  show ?thesis by (simp add: pad_of_def)
qed

text \<open>With a byte below the blank the orders differ: 'a' followed by a tab is less than 'a' in the comparison, which pads
  with blanks, but after it in an ascending index, where a beginning of a key is before the key.\<close>

lemma text_order_difference:
  "\<exists>k l. compress (sample_conversions\<lparr>get_string := \<lambda>d. Some (if d = 0 then [0x61] else [0x61, 9])\<rparr>) rest (Some 0) (empty_key True)
        idx_string False INTL_KEY_SORT = Some k \<and>
      compress (sample_conversions\<lparr>get_string := \<lambda>d. Some (if d = 0 then [0x61] else [0x61, 9])\<rparr>) rest (Some 1) (empty_key True)
        idx_string False INTL_KEY_SORT = Some l \<and>
      compare_text (pad_of idx_string) [0x61, 9] [0x61] < 0 \<and> key_data k < key_data l"
  by (simp add: compress_def is_string_type_def string_bytes_def compress_string_def pad_of_def empty_key_def)

end
