(* ===== verification/FB_Index_Int64.thy ===== *)
theory FB_Index_Int64
  imports FB_Index_Order
begin

text \<open>
  The keys of 64-bit numbers: \<^verbatim>\<open>make_int64_key\<close> scales a number up before the division, without overflow, and
  gives two representations of one number under different scales the same key.
\<close>

lemma scale_row_control:
  "scale_row u int64_scale_control =
    (if u \<ge> 922337203685470000 then (1, 0) else if u \<ge> 92233720368547000 then (10, 1)
     else if u \<ge> 9223372036854700 then (100, 2) else if u \<ge> 922337203685470 then (1000, 3)
     else if u \<ge> 92233720368548 then (10000, 4) else if u \<ge> 9223372036855 then (100000, 5)
     else if u \<ge> 922337203686 then (1000000, 6) else if u \<ge> 92233720369 then (10000000, 7)
     else if u \<ge> 9223372035 then (100000000, 8) else if u \<ge> 922337204 then (1000000000, 9)
     else if u \<ge> 92233721 then (10000000000, 10) else if u \<ge> 9223373 then (100000000000, 11)
     else if u \<ge> 922338 then (1000000000000, 12) else if u \<ge> 92234 then (10000000000000, 13)
     else if u \<ge> 9224 then (100000000000000, 14) else if u \<ge> 923 then (1000000000000000, 15)
     else if u \<ge> 93 then (10000000000000000, 16) else if u \<ge> 10 then (100000000000000000, 17)
     else if u \<ge> 1 then (1000000000000000000, 18) else if u \<ge> 0 then (0, 0) else (0, 0))"
  unfolding int64_scale_control_def by (simp only: scale_row.simps not_less [symmetric] if_not_P if_cancel flip: if_not_P) (simp split: if_split)

lemma scale_row_bounds:
  assumes "0 < u" "u < 2 ^ 63" "scale_row u int64_scale_control = (f, k)"
  shows "f = 10 ^ nat k \<and> 0 \<le> k \<and> k \<le> 18 \<and> 922337203500000000 \<le> u * f \<and> u * f < 2 ^ 63"
  using assms unfolding scale_row_control by (simp split: if_splits)

lemma scale_row_product: "0 < u \<Longrightarrow> u < 2 ^ 63 \<Longrightarrow> scale_row u int64_scale_control = (f, k) \<Longrightarrow> u * f < 2 ^ 63"
  using scale_row_bounds [of u f k] by blast

lemma scale_row_times_10:
  assumes "0 < u" "u < 922337203685470000" "scale_row u int64_scale_control = (f, k)" "scale_row (10 * u) int64_scale_control = (g, j)"
  shows "f = 10 * g \<and> k = j + 1 \<or> 10000 dvd f \<and> 1000 dvd g \<and> (g = f \<and> j = k \<and> k \<le> 8 \<or> f = 100 * g \<and> k = j + 2 \<and> k \<le> 5)"
  using assms unfolding scale_row_control by (simp split: if_splits)

lemma scale_row_nonneg: "scale_row u int64_scale_control = (f, k) \<Longrightarrow> 0 \<le> f \<and> 0 \<le> k"
  unfolding scale_row_control by (simp split: if_splits)

lemma scaled_int64_eq:
  assumes "\<bar>q\<bar> < 2 ^ 63" "scale_row \<bar>q\<bar> int64_scale_control = (f, k)"
  shows "scaled_int64 q scale = Some (q * f, scale - k)"
proof -
  have "\<bar>q\<bar> * f < 2 ^ 63"
    using scale_row_product [OF _ assms] by (cases "q = 0") simp_all
  then have "\<bar>q * f\<bar> < 2 ^ 63" using scale_row_nonneg [OF assms(2)] by (simp add: abs_mult)
  then have "s64 (q * f) = Some (q * f)" by (simp add: s64_def abs_less_iff)
  moreover have "(if q \<ge> 0 then q else - q) = \<bar>q\<bar>" by simp
  ultimately show ?thesis unfolding scaled_int64_def Let_def by (simp only: assms(2)) simp
qed

text \<open>Scaling up never overflows: a number other than 0 becomes at least 922337203500000000 in absolute value, by a power of
  ten that is taken off the scale, so that the value is the same.\<close>

lemma scaled_int64_bounds:
  assumes "\<bar>q\<bar> < 2 ^ 63" "q \<noteq> 0"
  shows "\<exists>k. k \<le> 18 \<and> scaled_int64 q scale = Some (q * 10 ^ k, scale - int k) \<and>
    922337203500000000 \<le> \<bar>q * 10 ^ k\<bar> \<and> \<bar>q * 10 ^ k\<bar> < 2 ^ 63"
proof -
  obtain f k where row: "scale_row \<bar>q\<bar> int64_scale_control = (f, k)" by (cases "scale_row \<bar>q\<bar> int64_scale_control")
  have b: "f = 10 ^ nat k" "0 \<le> k" "k \<le> 18" "922337203500000000 \<le> \<bar>q\<bar> * f" "\<bar>q\<bar> * f < 2 ^ 63"
    using scale_row_bounds [OF _ assms(1) row] assms(2) unfolding zero_less_abs_iff by blast+
  moreover have "scaled_int64 q scale = Some (q * f, scale - k)" by (rule scaled_int64_eq [OF assms(1) row])
  ultimately show ?thesis
  proof (intro exI [of _ "nat k"] conjI)
    have "\<bar>q * 10 ^ nat k\<bar> = \<bar>q\<bar> * f" using b(1) by (simp add: abs_mult)
    then show "922337203500000000 \<le> \<bar>q * 10 ^ nat k\<bar>" "\<bar>q * 10 ^ nat k\<bar> < 2 ^ 63" using b(4,5) by simp_all
  qed (use b(1-3) in simp_all)
qed

text \<open>C25. Two representations of a number, with the scale \<open>scale\<close>, from -13 to 0, and with one digit more, have the same key if
  the number is below 922337203685470000 in absolute value, where the floating-point division gives the same for \<open>10 * x\<close> with the scale \<open>s - 1\<close>
  as for \<open>x\<close> with the scale \<open>s\<close> (both are exact up to 53 bits and 22 digits).\<close>

theorem int64_key_scale:
  assumes "\<And>x s. \<bar>10 * x\<bar> < 2 ^ 53 \<Longrightarrow> - 22 \<le> s - 1 \<Longrightarrow> s \<le> 0 \<Longrightarrow> double_quotient conv (10 * x) (s - 1) = double_quotient conv x s"
    and "\<bar>q\<bar> < 922337203685470000" "- 13 \<le> scale" "scale \<le> 0"
  shows "make_int64_key conv (10 * q) (scale - 1) = make_int64_key conv q scale"
proof -
  obtain f k where row: "scale_row \<bar>q\<bar> int64_scale_control = (f, k)" by (cases "scale_row \<bar>q\<bar> int64_scale_control")
  obtain g j where row10: "scale_row \<bar>10 * q\<bar> int64_scale_control = (g, j)" by (cases "scale_row \<bar>10 * q\<bar> int64_scale_control")
  have a: "scaled_int64 q scale = Some (q * f, scale - k)" and b: "scaled_int64 (10 * q) (scale - 1) = Some (10 * q * g, scale - 1 - j)"
    using scaled_int64_eq [OF _ row, of scale] scaled_int64_eq [OF _ row10, of "scale - 1"] assms(2) by simp_all
  have key: "make_int64_key conv p s = Some (double_quotient conv x s', 0)" if "scaled_int64 p s = Some (10000 * x, s')" for p s x s'
  proof -
    have "10000 * x sdiv 10000 = x" "10000 * x smod 10000 = 0"
      using nonzero_mult_div_cancel_left [of 10000 "- x"]
      by (simp_all add: signed_divide_int_def signed_modulo_int_def sgn_if)
    then show ?thesis using that by (simp add: make_int64_key_def)
  qed
  consider (zero) "q = 0" | (shift) "f = 10 * g" "k = j + 1"
    | (same) h where "f = 10000 * h" "g = f" "j = k" "k \<le> 8" "q \<noteq> 0"
    | (skip) h where "g = 1000 * h" "f = 100 * g" "k = j + 2" "k \<le> 5" "0 \<le> j" "q \<noteq> 0"
    using scale_row_times_10 [of "\<bar>q\<bar>" f k g j] row row10 assms(2) scale_row_nonneg [OF row10]
    by (cases "q = 0") (auto simp: abs_mult elim!: dvdE)
  then show ?thesis
  proof cases
    case zero
    then have "f = 0" "k = 0" using row unfolding scale_row_control by simp_all
    moreover have "g = 0" "j = 0" using zero row10 unfolding scale_row_control by simp_all
    ultimately show ?thesis
      using key [of q scale 0 scale] key [of "10 * q" "scale - 1" 0 "scale - 1"] a b zero assms(1) [of 0 scale] assms(3,4) by simp
  next
    case shift
    then have "scaled_int64 (10 * q) (scale - 1) = scaled_int64 q scale" using a b by (simp add: algebra_simps)
    then show ?thesis by (simp add: make_int64_key_def)
  next
    case same
    have "\<bar>10 * q\<bar> * g < 2 ^ 63" using scale_row_product [OF _ _ row10] same(5) assms(2) by simp
    then have "\<bar>10 * (q * h)\<bar> < 2 ^ 53" using same(1,2) scale_row_nonneg [OF row10] by (simp add: abs_mult)
    then have "double_quotient conv (10 * (q * h)) (scale - k - 1) = double_quotient conv (q * h) (scale - k)"
      using same(3,4) assms(3,4) scale_row_nonneg [OF row] by (intro assms(1)) simp_all
    then show ?thesis
      using key [of q scale "q * h" "scale - k"] key [of "10 * q" "scale - 1" "10 * (q * h)" "scale - k - 1"] a b same
      by (simp add: algebra_simps)
  next
    case skip
    have "\<bar>q\<bar> * f < 2 ^ 63" using scale_row_product [OF _ _ row] skip(6) assms(2) by simp
    then have "\<bar>10 * (q * h)\<bar> < 2 ^ 53" using skip(1,2) scale_row_nonneg [OF row10] by (simp add: abs_mult)
    then have "double_quotient conv (10 * (q * h)) (scale - k + 1 - 1) = double_quotient conv (q * h) (scale - k + 1)"
      using skip(3-5) assms(3,4) by (intro assms(1)) simp_all
    then show ?thesis
      using key [of q scale "10 * (q * h)" "scale - k"] key [of "10 * q" "scale - 1" "q * h" "scale - k + 1"] a b skip
      by (simp add: algebra_simps)
  qed
qed

theorem int64_key_scale_witness:
  "make_int64_key (sample_conversions\<lparr>double_quotient := \<lambda>x s. word_of_int (x * 10 ^ nat (22 + s))\<rparr>) 92233720368547 0 =
    make_int64_key (sample_conversions\<lparr>double_quotient := \<lambda>x s. word_of_int (x * 10 ^ nat (22 + s))\<rparr>) 922337203685470 (- 1)"
proof -
  have "nat (22 + s) = Suc (nat (21 + s))" if "- 22 \<le> s - 1" for s :: int using that by (simp add: nat_eq_iff Suc_nat_eq_nat_zadd1)
  then have "make_int64_key (sample_conversions\<lparr>double_quotient := \<lambda>x s. word_of_int (x * 10 ^ nat (22 + s))\<rparr>) (10 * 92233720368547) (0 - 1) =
    make_int64_key (sample_conversions\<lparr>double_quotient := \<lambda>x s. word_of_int (x * 10 ^ nat (22 + s))\<rparr>) 92233720368547 0"
    by (intro int64_key_scale) (simp_all add: algebra_simps)
  then show ?thesis by simp
qed

text \<open>Above it the keys can differ: 922337203685471234 is not scaled up although ten times the number fits 64 bits, and the same
  value with one digit more in the fraction gets another second part.\<close>

lemma int64_key_scale_difference:
  "make_int64_key conv 9223372036854712340 (scale - 1) \<noteq> make_int64_key conv 922337203685471234 scale"
  unfolding make_int64_key_def scaled_int64_def scale_row_control Let_def by (simp add: s64_def sdiv_nonneg smod_nonneg)

end
