(* ===== verification/FB_Bucket.thy ===== *)
theory FB_Bucket
  imports FB_Btn_Page
begin

text \<open>
  The search for a key in one bucket of an index: \<^verbatim>\<open>find_area_start_point\<close> and \<^verbatim>\<open>find_node_start_point\<close> of
  \<^verbatim>\<open>src/jrd/btr.cpp\<close>. Pointers into the bucket are offsets, pointers into a key the rest of the key. A key has at most 65535
  bytes, and what is passed of it is a number that cannot exceed its length; sums that are stored in 16 bits are sums of words. An access
  outside of the bucket or of a buffer is \<open>None\<close>, a bug check a result of its own.
\<close>

section \<open>Buckets\<close>

abbreviation (input) END_LEVEL :: ULONG where "END_LEVEL \<equiv> 0xFFFFFFFF"

abbreviation (input) BTR_SIZE :: nat where "BTR_SIZE \<equiv> 39"

definition NO_VALUE :: RecordNumber where
  "NO_VALUE = RecordNumber_of (ucast END_LEVEL)"

text \<open>The parts of the header that the searches use, and the bytes of the whole page.\<close>

record btree_page =
  btr_length :: USHORT
  btr_level :: UCHAR
  btr_jump_size :: USHORT
  btr_jump_count :: UCHAR
  btr_bytes :: "UCHAR list"

definition leaf_page :: "btree_page \<Rightarrow> bool" where
  "leaf_page bucket \<longleftrightarrow> btr_level bucket = 0"

definition first_node :: "btree_page \<Rightarrow> nat" where
  "first_node bucket = BTR_SIZE + unat (btr_jump_size bucket)"

datatype 'a search = Found 'a | BugCheck nat

definition IndexJumpNode_new :: IndexJumpNode where
  "IndexJumpNode_new =
     \<lparr>jump_nodePointer = 0, jump_prefix = 0, jump_length = 0, jump_offset = 0, jump_data = InPage 0\<rparr>"

section \<open>Comparing the rest of a key with the data of a node\<close>

text \<open>Whether the search ends at the node, and the number of bytes that were passed.\<close>

fun compare_ascending :: "UCHAR list \<Rightarrow> UCHAR list \<Rightarrow> nat \<Rightarrow> bool \<times> nat" where
  "compare_ascending [] q c = (True, c)"
| "compare_ascending (a # p) [] c = (False, c)"
| "compare_ascending (a # p) (b # q) c =
     (if a > b then (False, c) else if a < b then (True, c + 1) else compare_ascending p q (c + 1))"

fun compare_descending :: "bool \<Rightarrow> UCHAR list \<Rightarrow> UCHAR list \<Rightarrow> nat \<Rightarrow> bool \<times> nat" where
  "compare_descending retrieval p [] c = (True, c)"
| "compare_descending retrieval [] (b # q) c = (retrieval, c)"
| "compare_descending retrieval (a # p) (b # q) c =
     (if a > b then (False, c) else if a < b then (True, c + 1) else compare_descending retrieval p q (c + 1))"

definition compare_node :: "bool \<Rightarrow> bool \<Rightarrow> UCHAR list \<Rightarrow> UCHAR list \<Rightarrow> bool \<times> nat" where
  "compare_node descending retrieval p q =
     (if descending then compare_descending retrieval p q 0 else compare_ascending p q 0)"

text \<open>Copying into the buffer that the caller may have given.\<close>

definition copy_value :: "UCHAR list option \<Rightarrow> nat \<Rightarrow> UCHAR list \<Rightarrow> UCHAR list option option" where
  "copy_value v pos bs = (case v of None \<Rightarrow> Some None | Some buffer \<Rightarrow> map_option Some (mem_write buffer pos bs))"

section \<open>Jump nodes\<close>

text \<open>The walk over the jump nodes of duplicates.\<close>

fun jump_walk ::
  "btree_page \<Rightarrow> bool \<Rightarrow> nat \<Rightarrow> RecordNumber \<Rightarrow> nat \<Rightarrow> nat \<Rightarrow> IndexJumpNode \<Rightarrow> IndexNode \<Rightarrow> nat \<Rightarrow> IndexJumpNode \<Rightarrow>
     (nat \<times> IndexJumpNode) option" where
  "jump_walk bucket descending key_length find_record_number 0 pointer jumpNode node prefix prevJumpNode =
     Some (prefix, prevJumpNode)"
| "jump_walk bucket descending key_length find_record_number (Suc n) pointer jumpNode node prefix prevJumpNode =
     (if rn_le find_record_number (node_recordNumber node) then Some (prefix, prevJumpNode)
      else do {
        let prefix = unat (jump_length jumpNode + jump_prefix jumpNode);
        let prevJumpNode = jumpNode;
        (jumpNode, pointer) \<leftarrow> readJumpNode (btr_bytes bucket) pointer jumpNode;
        (node, _) \<leftarrow> readNode (btr_bytes bucket) (unat (jump_offset jumpNode)) (leaf_page bucket) node;
        let prev = unat (jump_prefix prevJumpNode) + unat (jump_length prevJumpNode);
        if node_length node \<noteq> 0 \<or> unat (node_prefix node) \<noteq> prev \<or>
          (descending \<and> unat (node_prefix node) < key_length) \<or>
          unat (jump_prefix jumpNode) \<noteq> prev \<or> node_isEndBucket node \<or> node_isEndLevel node
        then Some (prefix, prevJumpNode)
        else jump_walk bucket descending key_length find_record_number n pointer jumpNode node prefix prevJumpNode
      })"

text \<open>The loop over the jump nodes. \<open>jumpKey\<close> is the buffer of the key that the jump nodes build up.\<close>

fun area_loop ::
  "btree_page \<Rightarrow> UCHAR list \<Rightarrow> bool \<Rightarrow> bool \<Rightarrow> RecordNumber \<Rightarrow> nat \<Rightarrow> nat \<Rightarrow> IndexJumpNode \<Rightarrow> UCHAR list \<Rightarrow> nat \<Rightarrow> nat \<Rightarrow>
     UCHAR list option \<Rightarrow> (nat \<times> IndexJumpNode \<times> UCHAR list option) option" where
  "area_loop bucket key descending retrieval find_record_number 0 pointer prevJumpNode jumpKey testPrefix prefix v =
     Some (prefix, prevJumpNode, v)"
| "area_loop bucket key descending retrieval find_record_number (Suc n) pointer prevJumpNode jumpKey testPrefix prefix v = do {
     (jumpNode, pointer) \<leftarrow> readJumpNode (btr_bytes bucket) pointer IndexJumpNode_new;
     (node, _) \<leftarrow> readNode (btr_bytes bucket) (unat (jump_offset jumpNode)) (leaf_page bucket) IndexNode_new;
     let from = unat (jump_prefix jumpNode);
     bs \<leftarrow> data_bytes (btr_bytes bucket) (jump_data jumpNode) (unat (jump_length jumpNode));
     jumpKey \<leftarrow> mem_write jumpKey from bs;
     bs \<leftarrow> data_bytes (btr_bytes bucket) (node_data node) (unat (node_length node));
     jumpKey \<leftarrow> mem_write jumpKey (unat (node_prefix node)) bs;
     let key_length = unat (node_prefix node + node_length node);
     let p = drop from key;
     let q = drop from (take key_length jumpKey);
     let compared = from \<le> testPrefix;
     let (stop, c) = (if compared then compare_node descending retrieval p q else (False, 0));
     let testPrefix = (if compared then from + c else testPrefix);
     if stop
     then if \<not> rn_eq find_record_number NO_VALUE \<and> p = q
       then do {
         (prefix, prevJumpNode) \<leftarrow>
           jump_walk bucket descending key_length find_record_number n pointer jumpNode node prefix prevJumpNode;
         Some (prefix, prevJumpNode, v)
       }
       else Some (prefix, prevJumpNode, v)
     else do {
       let prefix = min (unat (jump_length jumpNode) + unat (jump_prefix jumpNode)) testPrefix;
       v \<leftarrow> (if unat (jump_length jumpNode) + unat (jump_prefix jumpNode) \<noteq> 0
             then copy_value v 0 (take (unat (jump_length jumpNode) + unat (jump_prefix jumpNode)) jumpKey) else Some v);
       area_loop bucket key descending retrieval find_record_number n pointer jumpNode jumpKey testPrefix prefix v
     }
   }"

text \<open>\<open>stack\<close> is what the buffer of the jump key held before.\<close>

definition find_area_start_point ::
  "btree_page \<Rightarrow> UCHAR list \<Rightarrow> UCHAR list option \<Rightarrow> bool \<Rightarrow> bool \<Rightarrow> RecordNumber \<Rightarrow> UCHAR list \<Rightarrow>
     (nat \<times> nat \<times> UCHAR list option) option" where
  "find_area_start_point bucket key v descending retrieval find_record_number stack =
     map_option (\<lambda>(prefix, prevJumpNode, v). (unat (jump_offset prevJumpNode), prefix, v))
       (area_loop bucket key descending retrieval find_record_number (unat (btr_jump_count bucket)) BTR_SIZE
         (IndexJumpNode_new\<lparr>jump_offset := of_nat BTR_SIZE + btr_jump_size bucket\<rparr>) stack 0 0 v)"

section \<open>The node of a key\<close>

text \<open>The result is the node and the value of \<^verbatim>\<open>return_value\<close>, or \<open>None\<close> for NULL, where the code leaves \<^verbatim>\<open>return_value\<close> as it was.\<close>

partial_function (option) node_loop ::
  "btree_page \<Rightarrow> UCHAR list \<Rightarrow> bool \<Rightarrow> bool \<Rightarrow> bool \<Rightarrow> UCHAR list option \<Rightarrow> nat \<Rightarrow> IndexNode \<Rightarrow> nat \<Rightarrow> bool \<Rightarrow>
     ((nat \<times> nat) option \<times> UCHAR list option) search option" where
  "node_loop bucket key descending retrieval pointer_by_marker v prefix node pointer firstPass = do {
     bs \<leftarrow> data_bytes (btr_bytes bucket) (node_data node) (unat (node_length node));
     v \<leftarrow> (if node_length node \<noteq> 0 then copy_value v (unat (node_prefix node)) bs else Some v);
     let compared = unat (node_prefix node) = prefix \<and> (descending \<or> node_length node \<noteq> 0 \<or> firstPass);
     let (stop, c) = (if compared then compare_node descending retrieval (drop prefix key) bs else (False, 0));
     if node_isEndLevel node \<or> unat (node_prefix node) < prefix \<or> stop
     then Some (Found (Some (nodePointer node, prefix), v))
     else if node_isEndBucket node
     then Some (Found (if pointer_by_marker \<and> prefix + c = length key \<and>
                 prefix + c = unat (node_prefix node) + unat (node_length node)
               then Some (nodePointer node, prefix + c) else None, v))
     else do {
       np \<leftarrow> readNode (btr_bytes bucket) pointer (leaf_page bucket) node;
       if snd np > unat (btr_length bucket) then Some (BugCheck 204)
       else node_loop bucket key descending retrieval pointer_by_marker v (prefix + c) (fst np) (snd np) (firstPass \<and> (descending \<or> \<not> compared))
     }
   }"

declare node_loop.simps [code]

definition find_node_start_point ::
  "btree_page \<Rightarrow> UCHAR list \<Rightarrow> UCHAR list option \<Rightarrow> bool \<Rightarrow> bool \<Rightarrow> bool \<Rightarrow> RecordNumber \<Rightarrow> UCHAR list \<Rightarrow>
     ((nat \<times> nat) option \<times> UCHAR list option) search option" where
  "find_node_start_point bucket key v descending retrieval pointer_by_marker find_record_number stack = do {
     (pointer, prefix, v) \<leftarrow> find_area_start_point bucket key v descending retrieval find_record_number stack;
     (node, pointer) \<leftarrow> readNode (btr_bytes bucket) pointer (leaf_page bucket) IndexNode_new;
     if pointer > unat (btr_length bucket) then Some (BugCheck 204)
     else if \<not> leaf_page bucket \<and> descending \<and> nodePointer node = first_node bucket \<and> node_length node = 0
     then do {
       (node, pointer) \<leftarrow> readNode (btr_bytes bucket) pointer (leaf_page bucket) node;
       if pointer > unat (btr_length bucket) then Some (BugCheck 204)
       else node_loop bucket key descending retrieval pointer_by_marker v prefix node pointer True
     }
     else node_loop bucket key descending retrieval pointer_by_marker v prefix node pointer True
   }"

definition BTR_find_leaf ::
  "btree_page \<Rightarrow> UCHAR list \<Rightarrow> UCHAR list option \<Rightarrow> bool \<Rightarrow> bool \<Rightarrow> UCHAR list \<Rightarrow>
     ((nat \<times> nat) option \<times> UCHAR list option) search option" where
  "BTR_find_leaf bucket key v descending retrieval stack =
     find_node_start_point bucket key v descending retrieval False NO_VALUE stack"

end
