(* ===== verification/FB_Bucket_Search.thy ===== *)
theory FB_Bucket_Search
  imports FB_Bucket FB_Index_Order "HOL-Library.Sublist"
begin

text \<open>
  What the searches in a bucket find: the comparison of prefixes that the nodes and the jump nodes make possible
  gives the node that comparing the key with every key of the bucket gives.
\<close>

section \<open>The common prefix\<close>

fun common :: "UCHAR list \<Rightarrow> UCHAR list \<Rightarrow> nat" where
  "common (x # xs) (y # ys) = (if x = y then Suc (common xs ys) else 0)"
| "common xs ys = 0"

lemma common_Nil [simp]: "common xs [] = 0" "common [] ys = 0"
  by (cases xs; simp)+

lemma common_commute: "common xs ys = common ys xs"
  by (induction xs ys rule: common.induct) auto

lemma common_le: "common xs ys \<le> length xs" "common xs ys \<le> length ys"
  by (induction xs ys rule: common.induct) auto

lemma take_common: "n \<le> common xs ys \<Longrightarrow> take n xs = take n ys"
proof (induction xs ys arbitrary: n rule: common.induct)
  case (1 x xs y ys)
  then show ?case by (cases n) (auto split: if_splits)
qed auto

lemma nth_common: "i < common xs ys \<Longrightarrow> xs ! i = ys ! i"
proof (induction xs ys arbitrary: i rule: common.induct)
  case (1 x xs y ys)
  then show ?case by (cases i) (auto split: if_splits)
qed auto

lemma common_differ: "common xs ys < length xs \<Longrightarrow> common xs ys < length ys \<Longrightarrow> xs ! common xs ys \<noteq> ys ! common xs ys"
  by (induction xs ys rule: common.induct) auto

lemma common_eqI:
  assumes "n \<le> length xs" "n \<le> length ys" "take n xs = take n ys"
    and "n < length xs \<Longrightarrow> n < length ys \<Longrightarrow> xs ! n \<noteq> ys ! n"
  shows "common xs ys = n"
  using assms
proof (induction xs ys arbitrary: n rule: common.induct)
  case (1 x xs y ys)
  show ?case
  proof (cases n)
    case (Suc m)
    then have xy: "x = y" and "take m xs = take m ys" "m \<le> length xs" "m \<le> length ys"
      and "m < length xs \<Longrightarrow> m < length ys \<Longrightarrow> xs ! m \<noteq> ys ! m" using "1.prems" by simp_all
    then have "common xs ys = m" by (intro "1.IH")
    then show ?thesis using xy Suc by simp
  next
    case 0
    then show ?thesis using "1.prems"(4) by simp
  qed
qed auto

lemma common_drop: "n \<le> common xs ys \<Longrightarrow> common (drop n xs) (drop n ys) = common xs ys - n"
proof (induction xs ys arbitrary: n rule: common.induct)
  case (1 x xs y ys)
  then show ?case by (cases n) (auto split: if_splits)
qed auto

lemma common_drop_eq: "take n xs = take n ys \<Longrightarrow> n \<le> length xs \<Longrightarrow> n \<le> length ys \<Longrightarrow> n \<le> common xs ys"
proof (induction xs ys arbitrary: n rule: common.induct)
  case (1 x xs y ys)
  then show ?case by (cases n) auto
qed auto

lemma computePrefix_eq_common: "length xs < 2 ^ 16 \<Longrightarrow> length ys < 2 ^ 16 \<Longrightarrow> unat (computePrefix xs ys) = common xs ys"
  using computePrefix_common [of xs ys] by (intro sym [OF common_eqI]) auto

section \<open>The order of keys at the first difference\<close>

lemma less_common: "(k < l) = (common k l < length l \<and> (common k l = length k \<or> k ! common k l < l ! common k l))"
  by (induction k l rule: common.induct) auto

lemma not_less_not: "(not a < not b) = (b < (a :: UCHAR))"
proof -
  have "unat (not c) + unat c = 255" for c :: UCHAR using be_val_not [of "[c]"] be_val_snoc [of "[]"] by simp
  from this [of a] this [of b] show ?thesis unfolding word_less_nat_alt by linarith
qed

lemma common_map_not: "common (map not k) (map not l) = common k l"
proof -
  have "(not a = not b) = (a = b)" for a b :: UCHAR by simp
  then show ?thesis by (induction k l rule: common.induct) auto
qed

text \<open>A key at which the search does not end: it is before the wanted key, and for a retrieval in a descending index it
  does not begin with it.\<close>

definition ends_at :: "bool \<Rightarrow> bool \<Rightarrow> UCHAR list \<Rightarrow> UCHAR list \<Rightarrow> bool" where
  "ends_at descending retrieval key k \<longleftrightarrow> \<not> key_before descending k key \<or> descending \<and> retrieval \<and> prefix key k"

lemma prefix_common: "prefix key k = (common key k = length key)"
  by (induction key k rule: common.induct) auto

lemma ends_at_common:
  "ends_at descending retrieval key k =
    (let c = common key k in
     if descending then c = length k \<or> (if c = length key then retrieval else k ! c > key ! c)
     else c = length key \<or> c \<noteq> length k \<and> k ! c > key ! c)"
proof -
  let ?c = "common key k"
  have c: "?c \<le> length key" "?c \<le> length k" "?c < length key \<Longrightarrow> ?c < length k \<Longrightarrow> key ! ?c \<noteq> k ! ?c"
    using common_le common_differ by auto
  show ?thesis
  proof (cases descending)
    case True
    have "(map not key < map not k) = (?c < length k \<and> (?c = length key \<or> k ! ?c < key ! ?c))"
    proof (cases "?c = length key")
      case False
      then show ?thesis unfolding less_common common_map_not using c by (auto simp: not_less_not)
    qed (simp add: less_common common_map_not)
    then show ?thesis using True c by (cases "?c = length key"; cases "?c = length k") (auto simp: ends_at_def key_before_def prefix_common Let_def)
  next
    case False
    have "(k < key) = (?c < length key \<and> (?c = length k \<or> k ! ?c < key ! ?c))"
      unfolding less_common common_commute [of k] by simp
    then show ?thesis using False c by (auto simp: ends_at_def key_before_def Let_def)
  qed
qed

lemma ends_at_simps [simp]:
  "ends_at descending retrieval [] [] = True"
  "ends_at descending retrieval [] (b # q) = (descending \<longrightarrow> retrieval)"
  "ends_at descending retrieval (a # p) [] = descending"
  "ends_at descending retrieval (a # p) (b # q) = (if a = b then ends_at descending retrieval p q else a < b)"
  by (simp_all add: ends_at_common Let_def)

lemma ends_at_Nil [simp]: "ends_at False retrieval [] q"
  by (cases q) simp_all

lemma compare_ascending_common:
  "fst (compare_ascending p q c) = ends_at False retrieval p q"
  "\<not> ends_at False retrieval p q \<Longrightarrow> snd (compare_ascending p q c) = c + common p q"
proof (induction p q c rule: compare_ascending.induct)
  case (3 a p b q c)
  { case 1 show ?case using 3(1) by (cases a b rule: linorder_cases) auto }
  { case 2 then show ?case using 3(2) by (cases a b rule: linorder_cases) (auto split: if_splits) }
qed simp_all

lemma compare_descending_common:
  "fst (compare_descending retrieval p q c) = ends_at True retrieval p q"
  "\<not> ends_at True retrieval p q \<Longrightarrow> snd (compare_descending retrieval p q c) = c + common p q"
proof (induction retrieval p q c rule: compare_descending.induct)
  case (1 retrieval p c)
  { case 1 show ?case by (cases p) simp_all }
  { case 2 then show ?case by (cases p) simp_all }
next
  case (3 retrieval a p b q c)
  { case 1 show ?case using 3(1) by (cases a b rule: linorder_cases) auto }
  { case 2 then show ?case using 3(2) by (cases a b rule: linorder_cases) (auto split: if_splits) }
qed simp_all

lemma compare_node_common:
  "compare_node descending retrieval p q =
    (ends_at descending retrieval p q, if ends_at descending retrieval p q then snd (compare_node descending retrieval p q) else common p q)"
  using compare_ascending_common [where c = 0] compare_descending_common [where c = 0]
  by (intro prod_eqI) (simp_all add: compare_node_def)

section \<open>A node after a node at which the search does not end\<close>

lemma ends_at_drop:
  assumes "n \<le> common key k"
  shows "ends_at descending retrieval (drop n key) (drop n k) = ends_at descending retrieval key k"
  using assms
proof (induction key k arbitrary: n rule: common.induct)
  case (1 x xs y ys)
  then show ?case by (cases n) (auto split: if_splits)
qed auto

lemma node_skipped:
  assumes "\<not> ends_at descending retrieval key k" "common key k < common k k'"
  shows "\<not> ends_at descending retrieval key k' \<and> common key k' = common key k"
proof -
  let ?c = "common key k"
  have c: "?c < length k" "?c < length k'" using assms(2) common_le [of k k'] by linarith+
  have k': "k' ! ?c = k ! ?c" using nth_common [OF assms(2)] by simp
  have take: "take ?c key = take ?c k'" using take_common [of ?c key k] take_common [of ?c k k'] assms(2) by simp
  have "common key k' = ?c"
    by (rule common_eqI) (use take c k' common_le common_differ [of key k] in simp_all)
  then show ?thesis using assms(1) c k' unfolding ends_at_common by (simp add: Let_def split: if_splits)
qed

lemma node_reached:
  assumes "common k k' < common key k" "\<not> key_before descending k' k"
  shows "ends_at descending retrieval key k'"
proof -
  let ?p = "common k k'"
  have p: "?p < length k" "?p < length key" using assms(1) common_le [of key k] by linarith+
  have key: "key ! ?p = k ! ?p" using nth_common [OF assms(1)] by simp
  have take: "take ?p key = take ?p k'" using take_common [of ?p key k] take_common [of ?p k k'] assms(1) by simp
  have "ends_at descending False k k'" using assms(2) by (simp add: ends_at_def)
  then have k': "if descending then ?p = length k' \<or> k' ! ?p > k ! ?p else ?p \<noteq> length k' \<and> k' ! ?p > k ! ?p"
    using p(1) unfolding ends_at_common by (auto simp: Let_def split: if_splits)
  have "common key k' = ?p"
    by (rule common_eqI) (use take p key k' common_le in \<open>auto split: if_splits\<close>)
  then show ?thesis unfolding ends_at_common using p key k' by (auto simp: Let_def split: if_splits)
qed

lemma node_compared:
  assumes "common k k' = common key k"
  shows "common key k \<le> common key k'"
proof (rule common_drop_eq)
  show "take (common key k) key = take (common key k) k'"
    using take_common [of "common key k" key k] take_common [of "common key k" k k'] assms by simp
qed (use common_le [of key k] common_le [of k k'] assms in simp_all)

section \<open>Buckets of keys\<close>

text \<open>The nodes \<open>ns\<close> hold the keys \<open>ks\<close> after the key \<open>prev\<close>: each with the part of its key that it does not share with the key
  before, up to a node that ends the bucket or a node that ends the level.\<close>

fun bucket_nodes :: "UCHAR list \<Rightarrow> (IndexNode \<times> UCHAR list) list \<Rightarrow> UCHAR list list \<Rightarrow> bool" where
  "bucket_nodes prev [] ks = False"
| "bucket_nodes prev ((n, d) # ns) [] = (node_isEndLevel n \<and> ns = [])"
| "bucket_nodes prev ((n, d) # ns) (k # ks) =
     (\<not> node_isEndLevel n \<and> unat (node_prefix n) = common prev k \<and> d = drop (common prev k) k \<and>
      (if node_isEndBucket n then ns = [] \<and> ks = [] else bucket_nodes k ns ks))"

definition node_size :: "bool \<Rightarrow> IndexNode \<times> UCHAR list \<Rightarrow> nat" where
  "node_size leafNode nd = length (node_header (fst nd) leafNode) + length (snd nd)"

text \<open>The search by comparing whole keys: the position of the first node at which it ends, and how much of the key
  the key before shares.\<close>

fun bucket_search :: "bool \<Rightarrow> bool \<Rightarrow> bool \<Rightarrow> UCHAR list \<Rightarrow> nat \<Rightarrow> nat \<Rightarrow> (IndexNode \<times> UCHAR list) list \<Rightarrow> UCHAR list list \<Rightarrow> (nat \<times> nat) option" where
  "bucket_search leafNode descending retrieval key pos c [] ks = None"
| "bucket_search leafNode descending retrieval key pos c (nd # ns) [] = Some (pos, c)"
| "bucket_search leafNode descending retrieval key pos c (nd # ns) (k # ks) =
     (if ends_at descending retrieval key k then Some (pos, c)
      else if node_isEndBucket (fst nd) then None
      else bucket_search leafNode descending retrieval key (pos + node_size leafNode nd) (common key k) ns ks)"

definition in_order :: "bool \<Rightarrow> UCHAR list list \<Rightarrow> bool" where
  "in_order descending ks \<longleftrightarrow> successively (\<lambda>k k'. \<not> key_before descending k' k) ks"

lemma in_order_Cons: "in_order descending (k # k' # ks) = (\<not> key_before descending k' k \<and> in_order descending (k' # ks))"
  by (simp add: in_order_def)

text \<open>What is known before a node: the search starts, or has passed the node of the key \<open>prev\<close>.\<close>

definition before_node :: "bool \<Rightarrow> bool \<Rightarrow> UCHAR list \<Rightarrow> UCHAR list \<Rightarrow> nat \<Rightarrow> bool \<Rightarrow> bool" where
  "before_node descending retrieval key prev c firstPass \<longleftrightarrow>
     prev = [] \<and> c = 0 \<and> firstPass \<or> \<not> ends_at descending retrieval key prev \<and> c = common key prev"

text \<open>One step of the loops: what is compared gives what the whole keys give.\<close>

lemma compared_step:
  assumes "before_node descending retrieval key prev c firstPass" "\<not> key_before descending k prev \<or> prev = []"
  defines "p \<equiv> common prev k"
  defines "compared \<equiv> p = c \<and> (descending \<or> drop p k \<noteq> [] \<or> firstPass)"
  defines "r \<equiv> (if compared then compare_node descending retrieval (drop c key) (drop p k) else (False, 0))"
  shows "(p < c \<or> fst r) = ends_at descending retrieval key k"
    and "\<not> ends_at descending retrieval key k \<Longrightarrow> c + snd r = common key k"
proof -
  have start: "prev = [] \<Longrightarrow> p = 0" "prev = [] \<Longrightarrow> c = 0"
    using assms(1) by (auto simp: p_def before_node_def)
  consider (less) "p < c" | (greater) "c < p" | (compared) "p = c" compared | (same) "p = c" "\<not> compared" by linarith
  then have "(p < c \<or> fst r) = ends_at descending retrieval key k \<and> (\<not> ends_at descending retrieval key k \<longrightarrow> c + snd r = common key k)"
  proof cases
    case less
    then have "prev \<noteq> []" using start by auto
    then have "ends_at descending retrieval key k"
      using node_reached [of prev k key descending retrieval] assms(1,2) less by (auto simp: before_node_def p_def)
    then show ?thesis using less by simp
  next
    case greater
    then have "prev \<noteq> []" using start by auto
    then have "\<not> ends_at descending retrieval key k \<and> common key k = c"
      using node_skipped [of descending retrieval key prev k] assms(1) greater by (auto simp: before_node_def p_def)
    then show ?thesis using greater by (simp add: r_def compared_def)
  next
    case compared
    have le: "c \<le> common key k"
      using node_compared [of prev k key] assms(1) compared(1) by (auto simp: before_node_def p_def)
    show ?thesis
      using compared ends_at_drop [OF le, of descending retrieval] common_drop [OF le] le
      by (subst r_def, subst r_def) (simp add: compare_node_common)
  next
    case same
    then have asc: "\<not> descending" "drop p k = []" "\<not> firstPass" by (auto simp: compared_def)
    then have not_end: "\<not> ends_at descending retrieval key prev" "c = common key prev" and "\<not> k < prev"
      using assms(1,2) by (auto simp: before_node_def key_before_def)
    have "k = take p k" using asc(2) by simp
    also have "\<dots> = take p prev" using take_common [of p prev k] by (simp add: p_def)
    finally have "k = prev"
      using \<open>\<not> k < prev\<close> list_less_append [of k] by (metis append_take_drop_id append_Nil2 neq_Nil_conv)
    then show ?thesis using not_end same by (simp add: r_def)
  qed
  then show "(p < c \<or> fst r) = ends_at descending retrieval key k"
    "\<not> ends_at descending retrieval key k \<Longrightarrow> c + snd r = common key k" by simp_all
qed

lemma before_node_next:
  assumes "\<not> ends_at descending retrieval key k"
  shows "before_node descending retrieval key k (common key k) firstPass"
  using assms by (simp add: before_node_def)

lemma bucket_nodes_data:
  assumes "stored page leafNode pos ((n, d) # ns)" "\<not> node_isEndLevel n"
  shows "data_bytes page (node_data (node_read n leafNode pos m)) (unat (node_length n)) = Some d"
    and "unat (node_length n) = length d" and "pos + node_size leafNode (n, d) \<le> length page"
proof -
  show len: "unat (node_length n) = length d" using assms(1) by simp
  then show data: "data_bytes page (node_data (node_read n leafNode pos m)) (unat (node_length n)) = Some d"
    using stored_readNode [OF assms(1)] assms(2) by (simp add: node_read_def)
  then show "pos + node_size leafNode (n, d) \<le> length page"
    using assms(2) len by (simp add: node_read_def data_bytes_def mem_read_def node_size_def split: if_splits)
qed

lemma node_loop_stored:
  assumes "stored (btr_bytes bucket) (leaf_page bucket) pos (nd # ns)" "bucket_nodes prev (nd # ns) ks"
    and "in_order descending (prev # ks) \<or> prev = [] \<and> in_order descending ks"
    and "before_node descending retrieval key prev c firstPass"
    and "pos + (\<Sum>nd \<leftarrow> nd # ns. node_size (leaf_page bucket) nd) \<le> unat (btr_length bucket)"
    and "data_bytes (btr_bytes bucket) (node_data m) 0 = Some []"
  shows "node_loop bucket key descending retrieval pointer_by_marker None c (node_read (fst nd) (leaf_page bucket) pos m)
      (pos + node_size (leaf_page bucket) nd) firstPass =
    Some (Found (bucket_search (leaf_page bucket) descending retrieval key pos c (nd # ns) ks, None))"
  using assms
proof (induction ks arbitrary: nd ns prev pos c m firstPass)
  case Nil
  obtain n d where nd: "nd = (n, d)" by (cases nd)
  then have n: "node_isEndLevel n" "ns = []" using Nil.prems(2) by simp_all
  moreover have "node_length n = 0"
    using Nil.prems(1) n nd by (simp add: node_fits_def)
  ultimately show ?case
    using Nil.prems(6) nd by (subst node_loop.simps) (simp add: node_read_def)
next
  case (Cons k ks)
  obtain n d where nd: "nd = (n, d)" by (cases nd)
  let ?leaf = "leaf_page bucket" and ?m = "node_read n (leaf_page bucket) pos m"
  define p where "p = common prev k"
  have n: "\<not> node_isEndLevel n" "unat (node_prefix n) = p" "d = drop p k"
    and tail: "if node_isEndBucket n then ns = [] \<and> ks = [] else bucket_nodes k ns ks"
    using Cons.prems(2) nd by (simp_all add: p_def)
  note data = bucket_nodes_data [OF Cons.prems(1) [unfolded nd] n(1)]
  have empty: "(node_length n = 0) = (drop p k = [])" using data(2) n(3) by (metis length_0_conv unat_eq_0)
  have order: "\<not> key_before descending k prev \<or> prev = []" "in_order descending (k # ks)"
    using Cons.prems(3) by (auto simp: in_order_Cons)
  define r where "r = (if p = c \<and> (descending \<or> drop p k \<noteq> [] \<or> firstPass)
    then compare_node descending retrieval (drop c key) (drop p k) else (False, 0))"
  note step = compared_step [OF Cons.prems(4) order(1), folded p_def, folded r_def]
  have loop: "node_loop bucket key descending retrieval pointer_by_marker None c ?m (pos + node_size ?leaf nd) firstPass =
    (if p < c \<or> fst r then Some (Found (Some (pos, c), None))
     else if node_isEndBucket n
     then Some (Found (if pointer_by_marker \<and> c + snd r = length key \<and> c + snd r = p + unat (node_length n) then Some (pos, c + snd r) else None, None))
     else do {
       np \<leftarrow> readNode (btr_bytes bucket) (pos + node_size ?leaf nd) ?leaf ?m;
       if snd np > unat (btr_length bucket) then Some (BugCheck 204)
       else node_loop bucket key descending retrieval pointer_by_marker None (c + snd r) (fst np) (snd np)
         (firstPass \<and> (descending \<or> \<not> (p = c \<and> (descending \<or> drop p k \<noteq> [] \<or> firstPass))))
     })"
  proof -
    have ptr: "nodePointer ?m = pos" by (simp add: node_read_def)
    have v: "(if d \<noteq> [] then copy_value None p d else Some None) = Some None"
      by (simp add: copy_value_def)
    show ?thesis
      by (subst node_loop.simps)
        (simp only: node_read_simps data(1) bind.bind_lunit v n(1,2) empty ptr n(3) [symmetric] Let_def simp_thms
          r_def [unfolded n(3) [symmetric], symmetric] prod.case_eq_if)
  qed
  show ?case
  proof (cases "ends_at descending retrieval key k")
    case True
    then show ?thesis using loop step(1) by (simp add: nd)
  next
    case False
    then have r: "\<not> (p < c \<or> fst r)" "c + snd r = common key k" using step by simp_all
    show ?thesis
    proof (cases "node_isEndBucket n")
      case True
      have "\<not> (common key k = length key \<and> common key k = p + unat (node_length n))"
      proof
        assume eq: "common key k = length key \<and> common key k = p + unat (node_length n)"
        have "p \<le> length k" using common_le(2) [of prev k] by (simp add: p_def)
        then have "common key k = length k" using eq data(2) n(3) by simp
        then show False using False eq by (auto simp: ends_at_common Let_def split: if_splits)
      qed
      then show ?thesis using loop r True False by (simp add: nd)
    next
      case not_last: False
      then obtain nd2 ns2 where ns: "ns = nd2 # ns2" using tail by (cases ns) auto
      obtain n2 d2 where nd2: "nd2 = (n2, d2)" by (cases nd2)
      let ?pos = "pos + node_size ?leaf nd"
      have st: "stored (btr_bytes bucket) ?leaf ?pos ((n2, d2) # ns2)"
        using Cons.prems(1) by (simp add: nd ns nd2 node_size_def add.assoc)
      have rd: "readNode (btr_bytes bucket) ?pos ?leaf ?m = Some (node_read n2 ?leaf ?pos ?m, ?pos + node_size ?leaf nd2)"
        using stored_readNode [OF st] by (simp add: nd2 node_size_def add.assoc)
      have IH: "node_loop bucket key descending retrieval pointer_by_marker None (common key k) (node_read (fst nd2) ?leaf ?pos ?m)
          (?pos + node_size ?leaf nd2) f =
        Some (Found (bucket_search ?leaf descending retrieval key ?pos (common key k) (nd2 # ns2) ks, None))" for f
      proof (rule Cons.IH)
        show "before_node descending retrieval key k (common key k) f" by (rule before_node_next [OF False])
        show "data_bytes (btr_bytes bucket) (node_data ?m) 0 = Some []"
          using data(1,3) n(1) by (auto simp: node_read_def data_bytes_def mem_read_def split: if_splits)
        show "?pos + (\<Sum>nd \<leftarrow> nd2 # ns2. node_size ?leaf nd) \<le> unat (btr_length bucket)"
          using Cons.prems(5) by (simp add: ns)
      qed (use st nd2 tail not_last ns order(2) in simp_all)
      have "\<not> ?pos + node_size ?leaf nd2 > unat (btr_length bucket)" using Cons.prems(5) by (simp add: ns)
      moreover have "bucket_search ?leaf descending retrieval key pos c (nd # nd2 # ns2) (k # ks) =
          bucket_search ?leaf descending retrieval key ?pos (common key k) (nd2 # ns2) ks"
        using False not_last by (simp only: bucket_search.simps nd fst_conv if_False simp_thms)
      ultimately show ?thesis
        unfolding ns nd fst_conv loop [unfolded nd] using not_last r rd [unfolded nd] IH [unfolded nd nd2 fst_conv]
        by (simp only: if_False simp_thms bind.bind_lunit fst_conv snd_conv nd2)
    qed
  qed
qed

section \<open>Jump nodes\<close>

lemma prefix_between: "prefix p y \<Longrightarrow> p \<le> x \<Longrightarrow> x \<le> y \<Longrightarrow> prefix p (x :: UCHAR list)"
proof (induction p arbitrary: x y)
  case (Cons a p)
  then obtain y' where y: "y = a # y'" "prefix p y'" by (cases y) auto
  then obtain b x' where x: "x = b # x'" using Cons.prems(2) by (cases x) auto
  then have "b = a" "p \<le> x'" "x' \<le> y'" using Cons.prems(2,3) y by auto
  then show ?case using Cons.IH y x by simp
qed simp

lemma ends_at_mono:
  assumes "ends_at descending retrieval key k" "\<not> key_before descending k' k"
  shows "ends_at descending retrieval key k'"
proof (cases descending)
  case True
  have order: "map not k' \<le> map not k" using assms(2) True by (simp add: key_before_def not_less)
  show ?thesis
  proof (cases "map not k \<le> map not key \<or> map not k' \<le> map not key")
    case True
    then show ?thesis using order \<open>descending\<close> by (auto simp: ends_at_def key_before_def not_less)
  next
    case False
    then have "retrieval" "prefix key k" "map not key \<le> map not k'"
      using assms(1) True by (auto simp: ends_at_def key_before_def not_less)
    then have "prefix (map not key) (map not k')"
      using prefix_between [OF map_mono_prefix _ order] by blast
    then have "prefix (map not (map not key)) (map not (map not k'))" by (rule map_mono_prefix)
    then show ?thesis using \<open>retrieval\<close> True by (simp add: ends_at_def map_idI)
  qed
next
  case False
  then show ?thesis using assms by (auto simp: ends_at_def key_before_def)
qed

lemma common_before:
  assumes "\<not> ends_at descending retrieval key k'" "\<not> key_before descending k' k"
  shows "common key k = min (common k k') (common key k')"
proof -
  have k: "\<not> ends_at descending retrieval key k" using ends_at_mono assms by blast
  have "\<not> common k k' < common key k" using node_reached [of k k' key descending retrieval] assms by blast
  then consider "common key k < common k k'" | "common k k' = common key k" by linarith
  then show ?thesis
  proof cases
    case 1
    then show ?thesis using node_skipped [OF k 1] by simp
  next
    case 2
    then show ?thesis using node_compared [OF 2] by simp
  qed
qed

definition node_pos :: "bool \<Rightarrow> nat \<Rightarrow> (IndexNode \<times> UCHAR list) list \<Rightarrow> nat \<Rightarrow> nat" where
  "node_pos leafNode pos ns i = pos + (\<Sum>nd \<leftarrow> take i ns. node_size leafNode nd)"

text \<open>The key before a key, and the part of a key that its node shares with it.\<close>

definition key_at :: "UCHAR list list \<Rightarrow> nat \<Rightarrow> UCHAR list" where
  "key_at ks i = (if i = 0 then [] else ks ! (i - 1))"

definition shared :: "UCHAR list list \<Rightarrow> nat \<Rightarrow> nat" where
  "shared ks i = common (key_at ks i) (ks ! i)"

text \<open>The jump nodes at \<open>pointer\<close> refer to the nodes \<open>ms\<close>; each has what its node leaves out of its key, without what
  the jump node before had already, \<open>J\<close>.\<close>

fun jumps_ok :: "btree_page \<Rightarrow> (IndexNode \<times> UCHAR list) list \<Rightarrow> UCHAR list list \<Rightarrow> nat \<Rightarrow> UCHAR list \<Rightarrow> nat \<Rightarrow> nat list \<Rightarrow> bool" where
  "jumps_ok bucket ns ks pointer J l [] = True"
| "jumps_ok bucket ns ks pointer J l (m # ms) =
     (l \<le> m \<and> m < length ks \<and>
      (case readJumpNode (btr_bytes bucket) pointer IndexJumpNode_new of
         None \<Rightarrow> False
       | Some (j, pointer) \<Rightarrow>
           let J' = take (shared ks m) (ks ! m) in
           unat (jump_offset j) = node_pos (leaf_page bucket) (first_node bucket) ns m \<and>
           unat (jump_prefix j) + unat (jump_length j) = shared ks m \<and>
           unat (jump_prefix j) \<le> common J J' \<and>
           data_bytes (btr_bytes bucket) (jump_data j) (unat (jump_length j)) = Some (drop (unat (jump_prefix j)) J') \<and>
           jumps_ok bucket ns ks pointer J' m ms))"

text \<open>A bucket with the keys \<open>ks\<close>.\<close>

definition bucket_ok :: "btree_page \<Rightarrow> bool \<Rightarrow> (IndexNode \<times> UCHAR list) list \<Rightarrow> UCHAR list list \<Rightarrow> nat list \<Rightarrow> bool" where
  "bucket_ok bucket descending ns ks ms \<longleftrightarrow>
     stored (btr_bytes bucket) (leaf_page bucket) (first_node bucket) ns \<and> bucket_nodes [] ns ks \<and>
     in_order descending ks \<and>
     first_node bucket + (\<Sum>nd \<leftarrow> ns. node_size (leaf_page bucket) nd) \<le> unat (btr_length bucket) \<and>
     length ms = unat (btr_jump_count bucket) \<and> jumps_ok bucket ns ks BTR_SIZE [] 0 ms"

lemma bucket_nodes_drop:
  assumes "bucket_nodes prev ns ks" "stored page leafNode pos ns" "i < length ks"
  shows "bucket_nodes (if i = 0 then prev else ks ! (i - 1)) (drop i ns) (drop i ks) \<and> drop i ns \<noteq> [] \<and>
    stored page leafNode (node_pos leafNode pos ns i) (drop i ns) \<and> (\<forall>l < i. \<not> node_isEndBucket (fst (ns ! l)))"
  using assms
proof (induction i arbitrary: prev ns ks pos)
  case 0
  then show ?case by (cases ns) (auto simp: node_pos_def)
next
  case (Suc i)
  obtain k ks' where ks: "ks = k # ks'" using Suc.prems(3) by (cases ks) auto
  obtain n d ns' where ns: "ns = (n, d) # ns'" using Suc.prems(1) by (cases ns) auto
  have "\<not> node_isEndBucket n" "bucket_nodes k ns' ks'" using Suc.prems(1,3) ks ns by (auto split: if_splits)
  moreover have "stored page leafNode (pos + node_size leafNode (n, d)) ns'"
    using Suc.prems(2) ns by (simp add: node_size_def add.assoc)
  moreover have "node_pos leafNode pos ns (Suc i) = node_pos leafNode (pos + node_size leafNode (n, d)) ns' i"
    by (simp add: node_pos_def ns)
  ultimately show ?case
    using Suc.IH [of k ns' ks' "pos + node_size leafNode (n, d)"] Suc.prems(3) ks ns
    by (auto simp: nth_Cons' less_Suc_eq_0_disj)
qed

lemma bucket_search_drop:
  assumes "i < length ks" "length ks \<le> length ns" "\<forall>l < i. \<not> ends_at descending retrieval key (ks ! l)"
    and "\<forall>l < i. \<not> node_isEndBucket (fst (ns ! l))"
  shows "bucket_search leafNode descending retrieval key pos c ns ks =
    bucket_search leafNode descending retrieval key (node_pos leafNode pos ns i) (if i = 0 then c else common key (ks ! (i - 1)))
      (drop i ns) (drop i ks)"
  using assms
proof (induction i arbitrary: pos c ns ks)
  case 0
  then show ?case by (simp add: node_pos_def)
next
  case (Suc i)
  obtain k ks' where ks: "ks = k # ks'" using Suc.prems(1) by (cases ks) auto
  obtain nd ns' where ns: "ns = nd # ns'" using Suc.prems(1,2) by (cases ns) auto
  have head: "\<not> ends_at descending retrieval key k" "\<not> node_isEndBucket (fst nd)"
    using Suc.prems(3,4) ks ns by auto
  have first: "bucket_search leafNode descending retrieval key pos c (nd # ns') (k # ks') =
      bucket_search leafNode descending retrieval key (pos + node_size leafNode nd) (common key k) ns' ks'" using head by simp
  have rest: "bucket_search leafNode descending retrieval key (pos + node_size leafNode nd) (common key k) ns' ks' =
      bucket_search leafNode descending retrieval key (node_pos leafNode (pos + node_size leafNode nd) ns' i)
        (if i = 0 then common key k else common key (ks' ! (i - 1))) (drop i ns') (drop i ks')"
  proof (rule Suc.IH)
    show "\<forall>l < i. \<not> ends_at descending retrieval key (ks' ! l)" "\<forall>l < i. \<not> node_isEndBucket (fst (ns' ! l))"
      using Suc.prems(3,4) unfolding ks ns by (metis Suc_mono nth_Cons_Suc)+
  qed (use Suc.prems(1,2) ks ns in simp_all)
  have "node_pos leafNode pos (nd # ns') (Suc i) = node_pos leafNode (pos + node_size leafNode nd) ns' i"
    by (simp add: node_pos_def)
  then show ?case unfolding ks ns first rest by (cases i) simp_all
qed

lemma mem_write_prefix:
  assumes "take n buffer = take n k" "n \<le> length k" "length k \<le> length buffer"
  shows "mem_write buffer n (drop n k) = Some (k @ drop (length k) buffer)"
proof -
  have "take n buffer @ drop n k = k" using assms(1) by simp
  then show ?thesis using assms(2,3) by (simp add: mem_write_def flip: append_assoc)
qed

text \<open>Before a jump node: the one before it referred to the node \<open>l\<close>, or there was none.\<close>

definition jump_state :: "bool \<Rightarrow> bool \<Rightarrow> UCHAR list \<Rightarrow> UCHAR list list \<Rightarrow> nat \<Rightarrow> UCHAR list \<Rightarrow> nat \<Rightarrow> nat \<Rightarrow> bool" where
  "jump_state descending retrieval key ks l J testPrefix c \<longleftrightarrow>
     l = 0 \<and> J = [] \<and> testPrefix = 0 \<and> c = 0 \<or>
     l < length ks \<and> \<not> ends_at descending retrieval key (ks ! l) \<and> J = take (shared ks l) (ks ! l) \<and>
       testPrefix = common key (ks ! l) \<and> c = common key (key_at ks l)"

lemma jump_compared:
  assumes state: "jump_state descending retrieval key ks l J testPrefix c"
    and J': "J' = take (shared ks m) (ks ! m)" "n \<le> common J J'"
  defines "k \<equiv> ks ! m"
  defines "r \<equiv> (if n \<le> testPrefix then compare_node descending retrieval (drop n key) (drop n k) else (False, 0))"
  shows "fst r = ends_at descending retrieval key k"
    and "\<not> ends_at descending retrieval key k \<Longrightarrow> (if n \<le> testPrefix then n + snd r else testPrefix) = common key k"
proof -
  have nJ: "n \<le> length J" "n \<le> length J'" using J'(2) common_le [of J J'] by linarith+
  have J'k: "take n J' = take n k" "n \<le> length k" using nJ(2) J'(1) by (simp_all add: k_def)
  have "fst r = ends_at descending retrieval key k \<and>
    (\<not> ends_at descending retrieval key k \<longrightarrow> (if n \<le> testPrefix then n + snd r else testPrefix) = common key k)"
  proof (cases "n \<le> testPrefix")
    case True
    have "take n key = take n k \<and> n \<le> length key"
    proof (cases "n = 0")
      case False
      then have l: "J = take (shared ks l) (ks ! l)" "testPrefix = common key (ks ! l)" using state nJ(1) by (auto simp: jump_state_def)
      have "take n key = take n (ks ! l)" using take_common True l(2) by blast
      also have "\<dots> = take n J"
      proof -
        have "n \<le> shared ks l" using nJ(1) l(1) by simp
        then show ?thesis by (simp add: l(1) min_def)
      qed
      also have "\<dots> = take n J'" by (rule take_common [OF J'(2)])
      finally show ?thesis using J'k True l(2) common_le(1) [of key "ks ! l"] by simp
    qed simp
    then have le: "n \<le> common key k" using common_drop_eq J'k(2) by blast
    show ?thesis
      using True ends_at_drop [OF le, of descending retrieval] common_drop [OF le] le
      unfolding r_def by (simp add: compare_node_common)
  next
    case False
    then have "J \<noteq> []" using nJ(1) by auto
    then have l: "\<not> ends_at descending retrieval key (ks ! l)" "J = take (shared ks l) (ks ! l)" "testPrefix = common key (ks ! l)"
      using state by (auto simp: jump_state_def)
    have "n \<le> shared ks l" using nJ(1) l(2) by simp
    then have "take n (ks ! l) = take n J" by (simp add: l(2) min_def)
    then have "take n (ks ! l) = take n k" using take_common [OF J'(2)] J'k(1) by simp
    moreover have "n \<le> length (ks ! l)" using nJ(1) l(2) by simp
    ultimately have "n \<le> common (ks ! l) k" using common_drop_eq J'k(2) by blast
    then show ?thesis using node_skipped [OF l(1), of k] False l(3) by (simp add: r_def)
  qed
  then show "fst r = ends_at descending retrieval key k"
    "\<not> ends_at descending retrieval key k \<Longrightarrow> (if n \<le> testPrefix then n + snd r else testPrefix) = common key k" by simp_all
qed

lemma in_order_nth: "in_order descending ks \<Longrightarrow> Suc i < length ks \<Longrightarrow> \<not> key_before descending (ks ! Suc i) (ks ! i)"
  unfolding in_order_def by (simp add: successively_conv_nth)

lemma key_before_end:
  assumes "in_order descending ks" "m < length ks" "\<not> ends_at descending retrieval key (ks ! m)"
  shows "common key (key_at ks m) = min (shared ks m) (common key (ks ! m))"
proof (cases m)
  case (Suc i)
  have "\<not> key_before descending (ks ! m) (ks ! i)"
    using assms(1,2) in_order_nth [of descending ks i] Suc by simp
  then show ?thesis
    using common_before [OF assms(3), of "ks ! i"] Suc by (auto simp: key_at_def shared_def)
qed (simp add: key_at_def shared_def)

lemma area_loop_ok:
  assumes "stored (btr_bytes bucket) (leaf_page bucket) (first_node bucket) ns" "bucket_nodes [] ns ks" "in_order descending ks"
    and "jumps_ok bucket ns ks pointer J l ms" "jump_state descending retrieval key ks l J testPrefix c"
    and "unat (jump_offset prevJumpNode) = node_pos (leaf_page bucket) (first_node bucket) ns l"
    and "take (length J) jumpKey = J" "\<forall>k \<in> set ks. length k \<le> length jumpKey" "length jumpKey < 65536"
  shows "\<exists>i j c'. area_loop bucket key descending retrieval NO_VALUE (length ms) pointer prevJumpNode jumpKey testPrefix c None = Some (c', j, None) \<and>
    unat (jump_offset j) = node_pos (leaf_page bucket) (first_node bucket) ns i \<and>
    (i = 0 \<and> c' = 0 \<or> i < length ks \<and> \<not> ends_at descending retrieval key (ks ! i) \<and> c' = common key (key_at ks i))"
  using assms(4-)
proof (induction ms arbitrary: pointer J l testPrefix c prevJumpNode jumpKey)
  case Nil
  then show ?case by (auto simp: jump_state_def)
next
  case (Cons m ms)
  let ?leaf = "leaf_page bucket" and ?bytes = "btr_bytes bucket"
  define k where "k = ks ! m"
  define J' where "J' = take (shared ks m) k"
  obtain j pointer' where m: "l \<le> m" "m < length ks"
    and rj: "readJumpNode ?bytes pointer IndexJumpNode_new = Some (j, pointer')"
    and j: "unat (jump_offset j) = node_pos ?leaf (first_node bucket) ns m" "unat (jump_prefix j) + unat (jump_length j) = shared ks m"
      "unat (jump_prefix j) \<le> common J J'"
    and dj: "data_bytes ?bytes (jump_data j) (unat (jump_length j)) = Some (drop (unat (jump_prefix j)) J')"
    and jumps: "jumps_ok bucket ns ks pointer' J' m ms"
    using Cons.prems(1) by (auto simp: Let_def k_def J'_def split: option.splits)
  define n where "n = unat (jump_prefix j)"
  have k: "k \<in> set ks" "length k \<le> length jumpKey" using m(2) Cons.prems(5) by (simp_all add: k_def)
  have sh: "shared ks m \<le> length k" using common_le(2) by (simp add: shared_def k_def)
  then have J': "length J' = shared ks m" "take (length J') k = J'" by (simp_all add: J'_def)
  have n: "n \<le> length J" "n \<le> length J'" using j(3) common_le [of J J'] by (simp_all add: n_def)
  \<comment> \<open>the node\<close>
  have dropped: "bucket_nodes (key_at ks m) (drop m ns) (drop m ks)" "drop m ns \<noteq> []"
    "stored ?bytes ?leaf (node_pos ?leaf (first_node bucket) ns m) (drop m ns)"
    using bucket_nodes_drop [OF assms(2,1) m(2)] by (simp_all add: key_at_def split: if_splits)
  obtain nn d ns' where ns: "drop m ns = (nn, d) # ns'" using dropped(2) by (cases "drop m ns") auto
  have ks: "drop m ks = k # drop (Suc m) ks" using m(2) by (simp add: Cons_nth_drop_Suc k_def)
  have nn: "\<not> node_isEndLevel nn" "unat (node_prefix nn) = shared ks m" "d = drop (shared ks m) k"
    using dropped(1) unfolding ns ks by (simp_all add: shared_def k_def)
  let ?pos = "node_pos ?leaf (first_node bucket) ns m" let ?m = "node_read nn ?leaf ?pos IndexNode_new"
  note data = bucket_nodes_data [OF dropped(3) [unfolded ns] nn(1)]
  obtain end_pos where rd: "readNode ?bytes ?pos ?leaf IndexNode_new = Some (?m, end_pos)"
    using stored_readNode [OF dropped(3) [unfolded ns], of IndexNode_new] by blast
  \<comment> \<open>the key that is built\<close>
  define b1 where "b1 = J' @ drop (length J') jumpKey"
  define b2 where "b2 = k @ drop (length k) b1"
  have lenJ': "length J' \<le> length jumpKey" using J'(1) sh k(2) by linarith
  have "take n jumpKey = take n J" using arg_cong [OF Cons.prems(4), of "take n"] n(1) by (simp add: min_def)
  also have "\<dots> = take n J'" using take_common [OF j(3)] by (simp add: n_def)
  finally have w1: "mem_write jumpKey n (drop n J') = Some b1"
    unfolding b1_def by (rule mem_write_prefix) (use n(2) lenJ' in simp_all)
  have len1: "length b1 = length jumpKey" using lenJ' by (simp add: b1_def)
  have w2: "mem_write b1 (shared ks m) d = Some b2"
    unfolding b2_def nn(3) by (rule mem_write_prefix) (use J' sh k(2) len1 in \<open>simp_all add: b1_def J'_def\<close>)
  have "unat (node_prefix nn) + unat (node_length nn) = length k" using data(2) nn(2,3) sh by simp
  then have "unat (node_prefix nn + node_length nn) = length k"
    using k(2) Cons.prems(6) by (simp add: unat_word_ariths)
  then have q: "take (unat (node_prefix nn + node_length nn)) b2 = k" by (simp add: b2_def)
  define r where "r = (if n \<le> testPrefix then compare_node descending retrieval (drop n key) (drop n k) else (False, 0))"
  define T where "T = (if n \<le> testPrefix then n + snd r else testPrefix)"
  have r: "fst r = ends_at descending retrieval key k" "\<not> ends_at descending retrieval key k \<Longrightarrow> T = common key k"
    using jump_compared [OF Cons.prems(2) J'_def [unfolded k_def] j(3), folded n_def, folded k_def, folded r_def, folded T_def] by simp_all
  have loop: "area_loop bucket key descending retrieval NO_VALUE (length (m # ms)) pointer prevJumpNode jumpKey testPrefix c None =
    (if fst r then Some (c, prevJumpNode, None)
     else area_loop bucket key descending retrieval NO_VALUE (length ms) pointer' j b2 T (min (shared ks m) T) None)"
  proof -
    have v: "(if shared ks m \<noteq> 0 then copy_value None 0 (take (shared ks m) b2) else Some None) = Some None"
      by (simp add: copy_value_def)
    have never: "rn_eq NO_VALUE NO_VALUE = True" by (simp add: rn_eq_def)
    have size: "unat (jump_length j) + n = shared ks m" using j(2) by (simp add: n_def)
    show ?thesis
      unfolding length_Cons area_loop.simps rj bind.bind_lunit prod.case j(1) rd dj n_def [symmetric] w1 node_read_simps data(1) nn(2) w2 Let_def q
        never size v r_def [symmetric] prod.case_eq_if fst_conv snd_conv T_def
      by (simp only: simp_thms if_False bind.bind_lunit)
  qed
  show ?case
  proof (cases "ends_at descending retrieval key k")
    case True
    then have "\<exists>i. unat (jump_offset prevJumpNode) = node_pos ?leaf (first_node bucket) ns i \<and>
        (i = 0 \<and> c = 0 \<or> i < length ks \<and> \<not> ends_at descending retrieval key (ks ! i) \<and> c = common key (key_at ks i))"
      using Cons.prems(2,3) by (auto simp: jump_state_def)
    then show ?thesis using loop r(1) True by auto
  next
    case False
    have state: "jump_state descending retrieval key ks m J' T (min (shared ks m) T)"
      using False r(2) m(2) key_before_end [OF assms(3) m(2), of retrieval key] by (simp add: jump_state_def k_def J'_def)
    have "take (length J') b2 = J'" using J' sh by (simp add: b2_def)
    moreover have "\<forall>k \<in> set ks. length k \<le> length b2" using Cons.prems(5) len1 k(2) by (simp add: b2_def)
    moreover have "length b2 < 65536" using Cons.prems(6) len1 k(2) by (simp add: b2_def)
    ultimately show ?thesis using Cons.IH [OF jumps state j(1)] loop r(1) False by simp
  qed
qed

end
