(* ===== verification/FB_Bucket_Find.thy ===== *)
theory FB_Bucket_Find
  imports FB_Bucket_Search
begin

text \<open>
  The search in a bucket from the start that the jump nodes give: \<^verbatim>\<open>find_node_start_point\<close> finds what
  comparing the keys one after the other finds.
\<close>

section \<open>The start of the search\<close>

lemma find_area_ok:
  assumes "bucket_ok bucket descending ns ks ms" "\<forall>k \<in> set ks. length k \<le> length stack" "length stack < 65536"
  shows "\<exists>i c. find_area_start_point bucket key None descending retrieval NO_VALUE stack =
      Some (node_pos (leaf_page bucket) (first_node bucket) ns i, c, None) \<and>
    (i = 0 \<and> c = 0 \<or> i < length ks \<and> \<not> ends_at descending retrieval key (ks ! i) \<and> c = common key (key_at ks i))"
proof -
  have b: "stored (btr_bytes bucket) (leaf_page bucket) (first_node bucket) ns" "bucket_nodes [] ns ks" "in_order descending ks"
    "jumps_ok bucket ns ks BTR_SIZE [] 0 ms" "length ms = unat (btr_jump_count bucket)" "first_node bucket \<le> unat (btr_length bucket)"
    using assms(1) by (simp_all add: bucket_ok_def)
  have "first_node bucket < 65536" using b(6) unat_USHORT_less [of "btr_length bucket"] by linarith
  then have "unat (of_nat BTR_SIZE + btr_jump_size bucket) = first_node bucket"
    by (simp add: first_node_def unat_word_ariths)
  then have start: "unat (jump_offset (IndexJumpNode_new\<lparr>jump_offset := of_nat BTR_SIZE + btr_jump_size bucket\<rparr>)) =
      node_pos (leaf_page bucket) (first_node bucket) ns 0" by (simp add: node_pos_def)
  have state: "jump_state descending retrieval key ks 0 [] 0 0" by (simp add: jump_state_def)
  show ?thesis
    using area_loop_ok [OF b(1-4) state start, of stack] assms(2,3) b(5)
    unfolding find_area_start_point_def by fastforce
qed

lemma in_order_drop: "in_order descending ks \<Longrightarrow> i < length ks \<Longrightarrow> 0 < i \<Longrightarrow> in_order descending (key_at ks i # drop i ks)"
proof -
  assume order: "in_order descending ks" and i: "i < length ks" "0 < i"
  have "key_at ks i # drop i ks = drop (i - 1) ks"
    using i by (cases i) (simp_all add: key_at_def Cons_nth_drop_Suc)
  then show ?thesis using order unfolding in_order_def by (simp add: successively_conv_nth)
qed

lemma before_not_ends:
  assumes "in_order descending ks" "i < length ks" "\<not> ends_at descending retrieval key (ks ! i)" "l \<le> i"
  shows "\<not> ends_at descending retrieval key (ks ! l)"
  using assms(2,3,4)
proof (induction i)
  case (Suc i)
  have "\<not> ends_at descending retrieval key (ks ! i)"
    using ends_at_mono [OF _ in_order_nth [OF assms(1)]] Suc.prems(1,2) by blast
  then show ?case using Suc by (cases "l = Suc i") auto
qed simp

text \<open>Where the search starts, it goes on as if it had passed all nodes before.\<close>

lemma start_at:
  assumes "bucket_ok bucket descending ns ks ms"
    and i: "i = 0 \<and> c = 0 \<or> i < length ks \<and> \<not> ends_at descending retrieval key (ks ! i) \<and> c = common key (key_at ks i)"
  defines "pos \<equiv> node_pos (leaf_page bucket) (first_node bucket) ns i"
  obtains nd ns' where "drop i ns = nd # ns'" "stored (btr_bytes bucket) (leaf_page bucket) pos (nd # ns')"
    "bucket_nodes (key_at ks i) (nd # ns') (drop i ks)"
    "in_order descending (key_at ks i # drop i ks) \<or> key_at ks i = [] \<and> in_order descending (drop i ks)"
    "before_node descending retrieval key (key_at ks i) c True"
    "pos + (\<Sum>nd \<leftarrow> nd # ns'. node_size (leaf_page bucket) nd) \<le> unat (btr_length bucket)"
    "\<forall>l < i. \<not> ends_at descending retrieval key (ks ! l)" "\<forall>l < i. \<not> node_isEndBucket (fst (ns ! l))"
proof -
  have b: "stored (btr_bytes bucket) (leaf_page bucket) (first_node bucket) ns" "bucket_nodes [] ns ks" "in_order descending ks"
    "first_node bucket + (\<Sum>nd \<leftarrow> ns. node_size (leaf_page bucket) nd) \<le> unat (btr_length bucket)"
    using assms(1) by (simp_all add: bucket_ok_def)
  have ends: "\<forall>l < i. \<not> ends_at descending retrieval key (ks ! l)"
    using before_not_ends [OF b(3)] i by (meson less_imp_le not_less_zero)
  have nodes: "bucket_nodes (key_at ks i) (drop i ns) (drop i ks)" "drop i ns \<noteq> []"
    "stored (btr_bytes bucket) (leaf_page bucket) pos (drop i ns)" "\<forall>l < i. \<not> node_isEndBucket (fst (ns ! l))"
  proof -
    have "i = 0 \<or> i < length ks" using i by auto
    then have "bucket_nodes (key_at ks i) (drop i ns) (drop i ks) \<and> drop i ns \<noteq> [] \<and>
        stored (btr_bytes bucket) (leaf_page bucket) pos (drop i ns) \<and> (\<forall>l < i. \<not> node_isEndBucket (fst (ns ! l)))"
    proof
      assume "i = 0"
      moreover have "ns \<noteq> []" using b(2) by auto
      ultimately show ?thesis using b(1,2) by (simp add: pos_def node_pos_def key_at_def)
    next
      assume "i < length ks"
      then show ?thesis using bucket_nodes_drop [OF b(2,1)] by (simp add: pos_def key_at_def)
    qed
    then show "bucket_nodes (key_at ks i) (drop i ns) (drop i ks)" "drop i ns \<noteq> []"
      "stored (btr_bytes bucket) (leaf_page bucket) pos (drop i ns)" "\<forall>l < i. \<not> node_isEndBucket (fst (ns ! l))" by blast+
  qed
  have before: "before_node descending retrieval key (key_at ks i) c True"
    using i ends by (cases i) (auto simp: before_node_def key_at_def)
  have order: "in_order descending (key_at ks i # drop i ks) \<or> key_at ks i = [] \<and> in_order descending (drop i ks)"
    using i b(3) in_order_drop [OF b(3), of i] by (cases i) (auto simp: key_at_def)
  obtain nd ns' where ns: "drop i ns = nd # ns'" using nodes(2) by (cases "drop i ns") auto
  have "(\<Sum>nd \<leftarrow> ns. node_size (leaf_page bucket) nd) =
      (\<Sum>nd \<leftarrow> take i ns. node_size (leaf_page bucket) nd) + (\<Sum>nd \<leftarrow> drop i ns. node_size (leaf_page bucket) nd)"
    by (metis append_take_drop_id map_append sum_list_append)
  then have "pos + (\<Sum>nd \<leftarrow> nd # ns'. node_size (leaf_page bucket) nd) \<le> unat (btr_length bucket)"
    using b(4) unfolding ns [symmetric] by (simp add: pos_def node_pos_def)
  then show thesis using that [of nd ns'] ns nodes before order ends by simp
qed

lemma length_bucket_nodes: "bucket_nodes prev ns ks \<Longrightarrow> length ks \<le> length ns"
  by (induction prev ns ks rule: bucket_nodes.induct) (auto split: if_splits)

lemma bucket_okD:
  assumes "bucket_ok bucket descending ns ks ms"
  shows "stored (btr_bytes bucket) (leaf_page bucket) (first_node bucket) ns" "bucket_nodes [] ns ks"
  using assms by (simp_all add: bucket_ok_def)

lemma node_pos_first: "node_pos leafNode pos ns i = pos \<Longrightarrow> i \<le> length ns \<Longrightarrow> i = 0"
proof (cases i; cases ns)
  fix i' nd ns'
  assume "node_pos leafNode pos ns i = pos" "i = Suc i'" "ns = nd # ns'"
  moreover have "0 < node_size leafNode nd" by (simp add: node_size_def node_header_parts)
  ultimately show "i = 0" by (simp add: node_pos_def)
qed simp_all

lemma bucket_search_from:
  assumes "bucket_ok bucket descending ns ks ms"
    and i: "i = 0 \<and> c = 0 \<or> i < length ks \<and> \<not> ends_at descending retrieval key (ks ! i) \<and> c = common key (key_at ks i)"
  shows "bucket_search (leaf_page bucket) descending retrieval key (node_pos (leaf_page bucket) (first_node bucket) ns i) c (drop i ns) (drop i ks) =
    bucket_search (leaf_page bucket) descending retrieval key (first_node bucket) 0 ns ks"
proof (cases "i = 0")
  case True
  then have "c = 0" using i by (auto simp: key_at_def)
  then show ?thesis using True by (simp add: node_pos_def)
next
  case False
  then have il: "i < length ks" "c = common key (ks ! (i - 1))" using i by (auto simp: key_at_def)
  have b: "bucket_nodes [] ns ks" "in_order descending ks" using assms(1) by (simp_all add: bucket_ok_def)
  have "\<forall>l < i. \<not> ends_at descending retrieval key (ks ! l)"
    using before_not_ends [OF b(2)] i False by (meson less_imp_le)
  moreover have "\<forall>l < i. \<not> node_isEndBucket (fst (ns ! l))"
    using bucket_nodes_drop [OF b(1) _ il(1)] bucket_okD(1) [OF assms(1)] by blast
  ultimately have "bucket_search (leaf_page bucket) descending retrieval key (first_node bucket) 0 ns ks =
      bucket_search (leaf_page bucket) descending retrieval key (node_pos (leaf_page bucket) (first_node bucket) ns i)
        (if i = 0 then 0 else common key (ks ! (i - 1))) (drop i ns) (drop i ks)"
    using length_bucket_nodes [OF b(1)] by (intro bucket_search_drop [OF il(1)])
  then show ?thesis using False il(2) by simp
qed

section \<open>The node of a key\<close>

text \<open>C8. In a bucket whose keys are in order and whose jump nodes refer to its nodes, \<^verbatim>\<open>find_node_start_point\<close>, called
  without a record number and without a buffer for the value, gives the first node whose key is not before the wanted one (for a retrieval
  in a descending index also the first one that begins with it), or the node that ends the level, or NULL at the end of
  the bucket, as comparing whole keys from the first node on does, and the length that the key has in common with the key
  before. It reads nothing outside of the bucket and raises no bug check. The keys fit into the buffer of the jump
  keys, and the first key of a bucket above the leaves is not empty in a descending index.\<close>

theorem find_node_start_point_correct:
  assumes "bucket_ok bucket descending ns ks ms" "\<forall>k \<in> set ks. length k \<le> length stack" "length stack < 65536"
    and "leaf_page bucket \<or> \<not> descending \<or> (\<exists>k ks'. ks = k # ks' \<and> k \<noteq> [])"
  shows "find_node_start_point bucket key None descending retrieval pointer_by_marker NO_VALUE stack =
    Some (Found (bucket_search (leaf_page bucket) descending retrieval key (first_node bucket) 0 ns ks, None))"
proof -
  let ?leaf = "leaf_page bucket"
  obtain i c where area: "find_area_start_point bucket key None descending retrieval NO_VALUE stack =
      Some (node_pos ?leaf (first_node bucket) ns i, c, None)"
    and i: "i = 0 \<and> c = 0 \<or> i < length ks \<and> \<not> ends_at descending retrieval key (ks ! i) \<and> c = common key (key_at ks i)"
    using find_area_ok [OF assms(1-3)] by blast
  let ?pos = "node_pos ?leaf (first_node bucket) ns i"
  obtain nd ns' where at: "drop i ns = nd # ns'" "stored (btr_bytes bucket) ?leaf ?pos (nd # ns')"
    "bucket_nodes (key_at ks i) (nd # ns') (drop i ks)"
    "in_order descending (key_at ks i # drop i ks) \<or> key_at ks i = [] \<and> in_order descending (drop i ks)"
    "before_node descending retrieval key (key_at ks i) c True"
    "?pos + (\<Sum>nd \<leftarrow> nd # ns'. node_size ?leaf nd) \<le> unat (btr_length bucket)"
    and before: "\<forall>l < i. \<not> ends_at descending retrieval key (ks ! l)" "\<forall>l < i. \<not> node_isEndBucket (fst (ns ! l))"
    using start_at [OF assms(1) i] by blast
  have new: "data_bytes (btr_bytes bucket) (node_data IndexNode_new) 0 = Some []"
    by (simp add: IndexNode_new_def data_bytes_def mem_read_def)
  have rd: "readNode (btr_bytes bucket) ?pos ?leaf IndexNode_new = Some (node_read (fst nd) ?leaf ?pos IndexNode_new, ?pos + node_size ?leaf nd)"
    using stored_readNode [of "btr_bytes bucket" ?leaf ?pos "fst nd" "snd nd" ns' IndexNode_new] at(2)
    by (simp add: node_size_def add.assoc)
  have room: "\<not> unat (btr_length bucket) < ?pos + node_size ?leaf nd" using at(6) by simp
  have dummy: "\<not> (\<not> ?leaf \<and> descending \<and> ?pos = first_node bucket \<and> node_length (fst nd) = 0)"
  proof
    assume d: "\<not> ?leaf \<and> descending \<and> ?pos = first_node bucket \<and> node_length (fst nd) = 0"
    then obtain k ks' where ks: "ks = k # ks'" "k \<noteq> []" using assms(4) by blast
    have "i = 0" using d node_pos_first [of ?leaf "first_node bucket" ns i] i ks length_bucket_nodes bucket_okD(2) [OF assms(1)] by fastforce
    then have "unat (node_length (fst nd)) = length k" using at(2,3) ks by (cases nd) (simp add: key_at_def)
    then show False using d ks by simp
  qed
  have search: "bucket_search ?leaf descending retrieval key ?pos c (nd # ns') (drop i ks) =
      bucket_search ?leaf descending retrieval key (first_node bucket) 0 ns ks"
    using bucket_search_from [OF assms(1) i] at(1) by simp
  have loop: "node_loop bucket key descending retrieval pointer_by_marker None c (node_read (fst nd) ?leaf ?pos IndexNode_new)
      (?pos + node_size ?leaf nd) True =
    Some (Found (bucket_search ?leaf descending retrieval key (first_node bucket) 0 ns ks, None))"
    unfolding node_loop_stored [OF at(2-6) new] search ..
  have ptr: "nodePointer (node_read (fst nd) ?leaf ?pos IndexNode_new) = ?pos" by (simp add: node_read_def)
  show ?thesis
    unfolding find_node_start_point_def area bind.bind_lunit prod.case rd if_not_P [OF room] ptr node_read_simps if_not_P [OF dummy] loop ..
qed

text \<open>A leaf with the keys 1, 1 2 and 3 and a jump node to the second one.\<close>

definition sample_nodes :: "(IndexNode \<times> UCHAR list) list" where
  "sample_nodes =
     [(setNode 0 1 (RecordNumber_of 5) 0 False False IndexNode_new, [1]),
      (setNode 1 1 (RecordNumber_of 70) 0 False False IndexNode_new, [2]),
      (setNode 0 1 (RecordNumber_of 6) 0 False False IndexNode_new, [3]),
      (setEndLevel IndexNode_new, [])]"

definition sample_bucket :: btree_page where
  "sample_bucket =
     \<lparr>btr_length = 60, btr_level = 0, btr_jump_size = 5, btr_jump_count = 1,
      btr_bytes = replicate 39 0 @ [0, 1, 48, 0, 1] @ concat (map (\<lambda>(n, d). node_header n True @ d) sample_nodes)\<rparr>"

lemma sample_bucket_ok: "bucket_ok sample_bucket False sample_nodes [[1], [1, 2], [3]] [1]"
proof -
  have fits: "\<forall>nd \<in> set sample_nodes. node_fits (fst nd)"
    by (simp add: sample_nodes_def node_fits_def setNode_def setEndLevel_def rn_assign_def RecordNumber_of_def rn_setValue_def IndexNode_new_def)
  have header: "map (\<lambda>nd. node_header (fst nd) True) sample_nodes = [[165, 0, 0], [166, 2, 1], [166, 0, 0], [32]]"
    "btr_bytes sample_bucket = replicate 39 0 @ [0, 1, 48, 0, 1, 165, 0, 0, 1, 166, 2, 1, 2, 166, 0, 0, 3, 32]"
    "map (\<lambda>nd. unat (node_length (fst nd))) sample_nodes = [1, 1, 1, 0]"
    by code_simp+
  have stored: "stored (btr_bytes sample_bucket) (leaf_page sample_bucket) (first_node sample_bucket) sample_nodes"
  proof -
    have "leaf_page sample_bucket" "first_node sample_bucket = 44" by code_simp+
    moreover obtain n0 d0 n1 d1 n2 d2 n3 d3 where nodes: "sample_nodes = [(n0, d0), (n1, d1), (n2, d2), (n3, d3)]"
      "d0 = [1]" "d1 = [2]" "d2 = [3]" "d3 = []" by (simp add: sample_nodes_def)
    ultimately show ?thesis using fits header unfolding nodes by simp
  qed
  have "bucket_nodes [] sample_nodes [[1], [1, 2], [3]]" by code_simp
  moreover have "in_order False [[1], [1, 2], [3]]" by code_simp
  moreover have "first_node sample_bucket + (\<Sum>nd \<leftarrow> sample_nodes. node_size (leaf_page sample_bucket) nd) \<le> unat (btr_length sample_bucket)"
    by code_simp
  moreover have "jumps_ok sample_bucket sample_nodes [[1], [1, 2], [3]] BTR_SIZE [] 0 [1]" by code_simp
  moreover have "length [1 :: nat] = unat (btr_jump_count sample_bucket)" by code_simp
  ultimately show ?thesis using stored unfolding bucket_ok_def by blast
qed

theorem find_node_start_point_correct_witness:
  "find_node_start_point sample_bucket [1, 3] None False False False NO_VALUE (replicate 8 0) = Some (Found (Some (52, 1), None))"
proof -
  have "bucket_search (leaf_page sample_bucket) False False [1, 3] (first_node sample_bucket) 0 sample_nodes [[1], [1, 2], [3]] = Some (52, 1)"
    by code_simp
  then show ?thesis
    using find_node_start_point_correct [OF sample_bucket_ok, of "replicate 8 0" "[1, 3]" False False] by simp
qed

end
